(* ===== verification/Prelude.thy ===== *)
theory Prelude
  imports Complex_Main "HOL-Library.Word"
begin

text \<open>
  Generic material that every component shares: the result type of operations that may throw,
  the clamp idiom that occurs in the controller, the heater and the cryocooler code, and the
  collections of rewrite rules the component theories feed.
\<close>

named_theorems pid_simps \<open>how each PID operation changes each field\<close>
named_theorems sm_simps \<open>how each operation of the state machine changes each field\<close>
named_theorems io_simps \<open>evaluation of the serial operations\<close>
named_theorems pack_simps \<open>evaluation of the byte encoders\<close>

subsection \<open>Results: a value, or the error that ended the call\<close>

type_synonym ('e, 'a) result = "'e + 'a"

definition bind_result :: "('e, 'a) result \<Rightarrow> ('a \<Rightarrow> ('e, 'b) result) \<Rightarrow> ('e, 'b) result" where
  "bind_result r f = (case r of Inl e \<Rightarrow> Inl e | Inr x \<Rightarrow> f x)"

lemma bind_result_simps [simp]:
  "bind_result (Inl e) f = Inl e"
  "bind_result (Inr x) f = f x"
  by (simp_all add: bind_result_def)

lemma bind_result_Inr_iff:
  "bind_result r f = Inr y \<longleftrightarrow> (\<exists>x. r = Inr x \<and> f x = Inr y)"
  by (cases r) auto

lemma bind_result_assoc:
  "bind_result (bind_result r f) g = bind_result r (\<lambda>x. bind_result (f x) g)"
  by (cases r) auto

end
