(* ===== verification/Floats.thy ===== *)
theory Floats
  imports Prelude "HOL-Library.Log_Nat"
begin

text \<open>
  The C++ types \<open>double\<close> and \<open>float\<close>: IEEE 754 binary64 and binary32 with rounding to nearest,
  ties to even, one rounding per operator of the source. A value is a NaN, a signed infinity, or
  a finite value given by the rational number it stands for. The two zeros are one value (their
  sign can only be seen in printed text or by dividing by a zero, and no division of this
  program has a divisor that can be zero). All definitions compute. The facts the controller's
  proofs need (rounding is monotone, odd, leaves representable numbers alone and at most doubles
  a magnitude) are the laws of the locale \<open>rounding\<close>, proved for both formats.
\<close>

subsection \<open>Rounding of a rational number\<close>

definition pw2 :: "int \<Rightarrow> rat" where
  "pw2 k = 2 powi k"

definition ilog2 :: "rat \<Rightarrow> int" where
  "ilog2 x = (let (n, d) = quotient_of x;
      k = int (floorlog 2 (nat n)) - int (floorlog 2 (nat d))
    in if pw2 k \<le> x then k else k - 1)"

definition rne :: "rat \<Rightarrow> int" where
  "rne x = (let f = \<lfloor>x\<rfloor>; r = x - of_int f
    in if r < 1/2 then f else if 1/2 < r then f + 1 else if even f then f else f + 1)"

definition rnd_rat :: "nat \<Rightarrow> int \<Rightarrow> rat \<Rightarrow> rat" where
  "rnd_rat p emin x = (if x = 0 then 0
    else let e = max (ilog2 \<bar>x\<bar>) emin - int p + 1 in of_int (rne (x / pw2 e)) * pw2 e)"

lemma pw2_code [code]:
  "pw2 k = (if 0 \<le> k then of_int (push_bit (nat k) 1) else Fract 1 (push_bit (nat (- k)) 1))"
  by (auto simp: pw2_def power_int_def push_bit_eq_mult Fract_of_int_quotient inverse_eq_divide
      power_divide)

lemma pw2_pos [simp]: "0 < pw2 k"
  by (simp add: pw2_def)

lemma abs_pw2 [simp]: "\<bar>pw2 k\<bar> = pw2 k"
  using pw2_pos [of k] by linarith

lemma pw2_neq_0 [simp]: "pw2 k \<noteq> 0"
  using pw2_pos [of k] by linarith

lemma pw2_add: "pw2 (a + b) = pw2 a * pw2 b"
  by (simp add: pw2_def power_int_add)

lemma pw2_diff: "pw2 (a - b) = pw2 a / pw2 b"
  by (simp add: pw2_def power_int_diff)

lemma pw2_nat: "pw2 (int n) = of_int (2 ^ n)"
  by (simp add: pw2_def)

lemma two_power_pw2: "2 ^ n * pw2 k = pw2 (int n + k)"
  using pw2_nat [of n] by (simp add: pw2_add)

lemma pw2_nonneg: "0 \<le> k \<Longrightarrow> pw2 k = of_int (2 ^ nat k)"
  using pw2_nat [of "nat k"] by simp

lemma pw2_mono: "a \<le> b \<Longrightarrow> pw2 a \<le> pw2 b"
  by (simp add: pw2_def power_int_increasing)

lemma pw2_less: "a < b \<Longrightarrow> pw2 a < pw2 b"
  by (simp add: pw2_def power_int_strict_increasing)

lemma pw2_le_iff [simp]: "pw2 a \<le> pw2 b \<longleftrightarrow> a \<le> b"
  using pw2_less [of b a] pw2_mono [of a b] by linarith

lemma pw2_less_iff [simp]: "pw2 a < pw2 b \<longleftrightarrow> a < b"
  using pw2_le_iff [of b a] by linarith

lemma pw2_mult_le: "0 \<le> k \<Longrightarrow> 1 \<le> pw2 k"
  using pw2_mono [of 0 k] by (simp add: pw2_def)

subsubsection \<open>The binary exponent\<close>

lemma floorlog_bounds:
  assumes "0 < n"
  shows "pw2 (int (floorlog 2 (nat n)) - 1) \<le> of_int n" "of_int n < pw2 (int (floorlog 2 (nat n)))"
proof -
  let ?k = "floorlog 2 (nat n)"
  have "2 ^ (?k - 1) \<le> nat n \<and> nat n < 2 ^ ?k"
    using assms floorlog_bounds [of "nat n" 2] by simp
  then have b: "2 ^ (?k - 1) \<le> n" "n < 2 ^ ?k"
    using assms by (simp_all add: le_nat_iff nat_less_iff)
  have "1 \<le> ?k"
    using assms by (simp add: compute_floorlog)
  then have "pw2 (int ?k - 1) = of_int (2 ^ (?k - 1))"
    using pw2_nat [of "?k - 1"] by (simp add: of_nat_diff)
  then show "pw2 (int ?k - 1) \<le> of_int n"
    using b(1) by (simp only: of_int_le_iff)
  show "of_int n < pw2 (int ?k)"
    using b(2) by (simp only: pw2_nat of_int_less_iff)
qed

lemma ilog2_bounds:
  assumes "0 < x"
  shows "pw2 (ilog2 x) \<le> x" "x < pw2 (ilog2 x + 1)"
proof -
  obtain n d where q: "quotient_of x = (n, d)" by fastforce
  have d: "0 < d" using quotient_of_denom_pos [OF q] .
  have x: "x = of_int n / of_int d" using quotient_of_div [OF q] .
  have n: "0 < n" using assms d by (simp add: x zero_less_divide_iff)
  define a b where "a = int (floorlog 2 (nat n))" and "b = int (floorlog 2 (nat d))"
  have lo: "pw2 (a - 1 - b) < x"
  proof -
    have "pw2 (a - 1) / pw2 b < of_int n / of_int d"
      using floorlog_bounds [OF n] floorlog_bounds [OF d] d n
      unfolding a_def b_def by (intro frac_less2) auto
    then show ?thesis by (simp add: pw2_diff x)
  qed
  have hi: "x < pw2 (a - b + 1)"
  proof -
    have "of_int n / of_int d < pw2 a / pw2 (b - 1)"
      using floorlog_bounds [OF n] floorlog_bounds [OF d] d n
      unfolding a_def b_def by (intro frac_less) auto
    then show ?thesis by (simp add: pw2_diff [symmetric] x algebra_simps)
  qed
  have e: "ilog2 x = (if pw2 (a - b) \<le> x then a - b else a - b - 1)"
    by (simp add: ilog2_def q a_def b_def Let_def)
  show "pw2 (ilog2 x) \<le> x" "x < pw2 (ilog2 x + 1)"
    using lo hi by (auto simp: e algebra_simps)
qed

lemma ilog2_mono: "0 < x \<Longrightarrow> x \<le> y \<Longrightarrow> ilog2 x \<le> ilog2 y"
  using ilog2_bounds(1) [of x] ilog2_bounds(2) [of y] pw2_less_iff [of "ilog2 x" "ilog2 y + 1"]
  by linarith

lemma ilog2_less: "0 < x \<Longrightarrow> x < pw2 k \<Longrightarrow> ilog2 x < k"
  using ilog2_bounds(1) [of x] pw2_less_iff [of "ilog2 x" k] by linarith

subsubsection \<open>Rounding to an integer, ties to even\<close>

lemma rne_half: "\<bar>of_int (rne x) - x\<bar> \<le> 1/2"
proof -
  have "of_int \<lfloor>x\<rfloor> \<le> x" "x < of_int \<lfloor>x\<rfloor> + 1" by linarith+
  then show ?thesis by (auto simp: rne_def Let_def abs_le_iff)
qed

lemma rne_of_int [simp]: "rne (of_int n) = n"
  by (simp add: rne_def Let_def)

lemma rne_mono:
  assumes "x \<le> y"
  shows "rne x \<le> rne y"
proof (cases "\<lfloor>x\<rfloor> = \<lfloor>y\<rfloor>")
  case True
  then show ?thesis using assms by (auto simp: rne_def Let_def)
next
  case False
  then have "\<lfloor>x\<rfloor> + 1 \<le> \<lfloor>y\<rfloor>"
    using floor_mono [OF assms] by linarith
  moreover have "rne x \<le> \<lfloor>x\<rfloor> + 1" "\<lfloor>y\<rfloor> \<le> rne y"
    by (auto simp: rne_def Let_def)
  ultimately show ?thesis by linarith
qed

lemma rne_minus: "rne (- x) = - rne x"
proof (cases "of_int \<lfloor>x\<rfloor> = x")
  case True
  then show ?thesis by (metis of_int_minus rne_of_int)
next
  case False
  have lo: "of_int \<lfloor>x\<rfloor> \<le> x" and hi: "x < of_int \<lfloor>x\<rfloor> + 1"
    by linarith+
  then have f: "\<lfloor>- x\<rfloor> = - \<lfloor>x\<rfloor> - 1"
    using False by (intro floor_unique) (auto simp: less_le)
  show ?thesis using lo hi False by (auto simp: rne_def Let_def f)
qed

lemma rne_le_double: "0 \<le> x \<Longrightarrow> of_int (rne x) \<le> 2 * x"
proof (cases "x \<le> 1/2")
  case True
  assume "0 \<le> x"
  with True have "\<lfloor>x\<rfloor> = 0" by (intro floor_unique) auto
  with True have "rne x = 0" by (simp add: rne_def Let_def)
  with \<open>0 \<le> x\<close> show ?thesis by simp
next
  case False
  then show ?thesis using rne_half [of x] by linarith
qed

subsubsection \<open>Rounding to a binary format\<close>

lemma rnd_rat_0 [simp]: "rnd_rat p emin 0 = 0"
  by (simp add: rnd_rat_def)

lemma rnd_rat_minus: "rnd_rat p emin (- x) = - rnd_rat p emin x"
  by (simp add: rnd_rat_def Let_def rne_minus)

lemma rnd_rat_nonneg: "0 \<le> x \<Longrightarrow> 0 \<le> rnd_rat p emin x"
proof -
  assume "0 \<le> x"
  then have "0 \<le> rne (x / pw2 e)" for e
    using rne_mono [of 0 "x / pw2 e"] rne_of_int [of 0]
    by (simp add: divide_nonneg_nonneg less_imp_le)
  then show ?thesis
    by (simp add: rnd_rat_def Let_def mult_nonneg_nonneg less_imp_le)
qed

lemma rnd_rat_mono_pos:
  assumes p: "0 < p" and x: "0 < x" and xy: "x \<le> y"
  shows "rnd_rat p emin x \<le> rnd_rat p emin y"
proof -
  define a b where "a = max (ilog2 x) emin" and "b = max (ilog2 y) emin"
  have X: "rnd_rat p emin x = of_int (rne (x / pw2 (a - int p + 1))) * pw2 (a - int p + 1)"
    and Y: "rnd_rat p emin y = of_int (rne (y / pw2 (b - int p + 1))) * pw2 (b - int p + 1)"
    using x xy by (simp_all add: rnd_rat_def Let_def a_def b_def)
  have ab: "a \<le> b" using ilog2_mono [OF x xy] by (auto simp: a_def b_def)
  show ?thesis
  proof (cases "a = b")
    case True
    have "rne (x / pw2 (b - int p + 1)) \<le> rne (y / pw2 (b - int p + 1))"
      using xy by (intro rne_mono divide_right_mono) (auto intro: less_imp_le)
    then show ?thesis unfolding X Y True
      by (intro mult_right_mono) (auto intro: less_imp_le)
  next
    case False
    with ab have b: "b = ilog2 y" and lt: "a < b" by (auto simp: a_def b_def)
    have "x \<le> pw2 (a + 1)"
      by (rule order_trans [OF less_imp_le [OF ilog2_bounds(2) [OF x]] pw2_mono]) (simp add: a_def)
    then have "x / pw2 (a - int p + 1) \<le> of_int (2 ^ p)"
      by (simp add: divide_le_eq two_power_pw2)
    then have "rne (x / pw2 (a - int p + 1)) \<le> 2 ^ p"
      using rne_mono rne_of_int by metis
    then have "rnd_rat p emin x \<le> of_int (2 ^ p) * pw2 (a - int p + 1)"
      unfolding X by (intro mult_right_mono) (auto simp flip: of_int_power intro: less_imp_le)
    also have "\<dots> = pw2 (a + 1)"
      by (simp add: two_power_pw2)
    also have "\<dots> \<le> pw2 b" using lt by simp
    also have "\<dots> = of_int (2 ^ (p - 1)) * pw2 (b - int p + 1)"
      using p by (simp add: two_power_pw2 of_nat_diff)
    also have "\<dots> \<le> rnd_rat p emin y"
    proof -
      have "pw2 b \<le> y" using ilog2_bounds(1) [of y] x xy by (simp add: b)
      then have "of_int (2 ^ (p - 1)) \<le> y / pw2 (b - int p + 1)"
        using p by (simp add: le_divide_eq two_power_pw2 of_nat_diff)
      then have "2 ^ (p - 1) \<le> rne (y / pw2 (b - int p + 1))"
        using rne_mono rne_of_int by metis
      then show ?thesis
        unfolding Y by (intro mult_right_mono) (auto simp flip: of_int_power intro: less_imp_le)
    qed
    finally show ?thesis .
  qed
qed

lemma rnd_rat_mono:
  assumes "0 < p" "x \<le> y"
  shows "rnd_rat p emin x \<le> rnd_rat p emin y"
proof (cases "0 < x")
  case True
  then show ?thesis using assms rnd_rat_mono_pos by simp
next
  case False
  show ?thesis
  proof (cases "0 \<le> y")
    case True
    have "0 \<le> rnd_rat p emin (- x)" using False by (intro rnd_rat_nonneg) simp
    then show ?thesis using rnd_rat_nonneg [OF True, of p emin] by (simp add: rnd_rat_minus)
  next
    case False
    have "rnd_rat p emin (- y) \<le> rnd_rat p emin (- x)"
      using assms False by (intro rnd_rat_mono_pos) auto
    then show ?thesis by (simp add: rnd_rat_minus)
  qed
qed

lemma rnd_rat_le_double:
  assumes "0 \<le> x"
  shows "rnd_rat p emin x \<le> 2 * x"
proof (cases "x = 0")
  case False
  define e where "e = max (ilog2 \<bar>x\<bar>) emin - int p + 1"
  have "of_int (rne (x / pw2 e)) * pw2 e \<le> 2 * (x / pw2 e) * pw2 e"
    using assms by (intro mult_right_mono rne_le_double divide_nonneg_nonneg) (auto intro: less_imp_le)
  then show ?thesis using False by (simp add: rnd_rat_def Let_def e_def)
qed simp

subsubsection \<open>Representable numbers are fixed points\<close>

text \<open>A number is representable when it is an integer of at most \<open>p\<close> bits scaled by a power of two
  not below the format's smallest; its overflow bound is a condition of the operations.\<close>

definition representable :: "nat \<Rightarrow> int \<Rightarrow> rat \<Rightarrow> bool" where
  "representable p emin x \<longleftrightarrow> rnd_rat p emin x = x"

lemma rnd_rat_scaled:
  assumes k: "emin - int p + 1 \<le> k" and m: "\<bar>m\<bar> < 2 ^ p"
  shows "rnd_rat p emin (of_int m * pw2 k) = of_int m * pw2 k"
proof (cases "m = 0")
  case False
  define x where "x = of_int m * pw2 k"
  define e where "e = max (ilog2 \<bar>x\<bar>) emin - int p + 1"
  have x0: "x \<noteq> 0" using False by (simp add: x_def)
  have "\<bar>x\<bar> = of_int \<bar>m\<bar> * pw2 k" by (simp add: x_def abs_mult)
  also have "\<dots> < of_int (2 ^ p) * pw2 k"
    using m by (intro mult_strict_right_mono) (simp_all only: of_int_less_iff pw2_pos)
  also have "\<dots> = pw2 (int p + k)" by (simp only: pw2_nat [symmetric] pw2_add)
  finally have "ilog2 \<bar>x\<bar> < int p + k" using x0 by (intro ilog2_less) auto
  then have "e \<le> k" using k by (simp add: e_def)
  then have "x / pw2 e = of_int (m * 2 ^ nat (k - e))"
    using pw2_nonneg [of "k - e"] by (simp add: x_def pw2_diff times_divide_eq_right [symmetric]
        del: times_divide_eq_right)
  then show ?thesis
    using x0 unfolding x_def [symmetric] rnd_rat_def Let_def e_def [symmetric]
    by (simp del: of_int_mult add: divide_eq_eq)
qed simp

lemma rnd_rat_scaled_le:
  assumes k: "emin - int p + 1 \<le> k" and m: "\<bar>m\<bar> \<le> 2 ^ p" and p: "0 < p"
  shows "representable p emin (of_int m * pw2 k)"
proof (cases "\<bar>m\<bar> < 2 ^ p")
  case True
  then show ?thesis using rnd_rat_scaled [OF k] by (simp add: representable_def)
next
  case False
  with m have am: "\<bar>m\<bar> = 2 * 2 ^ (p - 1)" using p by (simp add: power_eq_if)
  define h where "h = sgn m * 2 ^ (p - 1)"
  have h: "m = 2 * h" using am by (metis h_def mult.left_commute mult_sgn_abs)
  have "\<bar>h\<bar> < 2 ^ p" using am p by (simp add: h abs_mult power_strict_increasing)
  then have "rnd_rat p emin (of_int h * pw2 (k + 1)) = of_int h * pw2 (k + 1)"
    using k by (intro rnd_rat_scaled) auto
  moreover have "of_int m * pw2 k = of_int h * pw2 (k + 1)"
    by (simp add: h pw2_add) (simp add: pw2_def)
  ultimately show ?thesis by (simp add: representable_def)
qed

lemma representable_rnd_rat:
  assumes p: "0 < p"
  shows "representable p emin (rnd_rat p emin x)"
proof (cases "x = 0")
  case True
  then show ?thesis by (simp add: representable_def)
next
  case False
  define e where "e = max (ilog2 \<bar>x\<bar>) emin - int p + 1"
  have "0 < \<bar>x\<bar>" using False by simp
  then have "\<bar>x\<bar> \<le> pw2 (int p + e)"
    by (rule order_trans [OF less_imp_le [OF ilog2_bounds(2)] pw2_mono]) (simp add: e_def)
  then have "\<bar>x / pw2 e\<bar> \<le> of_int (2 ^ p)"
    by (simp add: divide_le_eq two_power_pw2 abs_divide)
  then have "x / pw2 e \<le> of_int (2 ^ p)" "- of_int (2 ^ p) \<le> x / pw2 e"
    by (simp_all only: abs_le_iff) linarith
  then have "rne (x / pw2 e) \<le> 2 ^ p" "- (2 ^ p) \<le> rne (x / pw2 e)"
    by (metis rne_mono rne_of_int) (metis \<open>- of_int (2 ^ p) \<le> x / pw2 e\<close> of_int_minus rne_mono rne_of_int)
  then have "representable p emin (of_int (rne (x / pw2 e)) * pw2 e)"
    by (intro rnd_rat_scaled_le p) (auto simp: e_def)
  then show ?thesis using False by (simp add: rnd_rat_def Let_def e_def)
qed

lemma representable_of_int:
  assumes "\<bar>n\<bar> \<le> 2 ^ p" "emin \<le> int p - 1" "0 < p"
  shows "representable p emin (of_int n)"
  using rnd_rat_scaled_le [of emin p 0 n] assms by (simp add: pw2_def)

lemma representable_pw2:
  assumes "emin - int p + 1 \<le> k" "0 < p"
  shows "representable p emin (pw2 k)"
  using rnd_rat_scaled_le [of emin p k 1] assms by simp

lemma representable_minus [simp]: "representable p emin (- x) \<longleftrightarrow> representable p emin x"
  by (simp add: representable_def rnd_rat_minus)

subsection \<open>The interface of rounding\<close>

text \<open>What the arithmetic of the controller relies on. Everything below is proved from these laws,
  for any format.\<close>

locale rounding =
  fixes r :: "rat \<Rightarrow> rat"
  assumes r_mono: "x \<le> y \<Longrightarrow> r x \<le> r y"
    and r_zero: "r 0 = 0"
    and r_minus: "r (- x) = - r x"
    and r_idem: "r (r x) = r x"
    and r_double: "0 \<le> x \<Longrightarrow> r x \<le> 2 * x"
begin

lemma nonneg: "0 \<le> x \<Longrightarrow> 0 \<le> r x"
  using r_mono [of 0 x] by (simp add: r_zero)

lemma nonpos: "x \<le> 0 \<Longrightarrow> r x \<le> 0"
  using r_mono [of x 0] by (simp add: r_zero)

lemma below: "x \<le> b \<Longrightarrow> r b = b \<Longrightarrow> r x \<le> b"
  using r_mono [of x b] by simp

lemma above: "b \<le> x \<Longrightarrow> r b = b \<Longrightarrow> b \<le> r x"
  using r_mono [of b x] by simp

lemma magnitude:
  assumes "\<bar>x\<bar> \<le> b" "r b = b"
  shows "\<bar>r x\<bar> \<le> b"
  using below [of x b] above [of "- b" x] assms by (simp add: abs_le_iff r_minus)

text \<open>One step of an exponential moving average, every operation rounded, never leaves an interval
  that holds the average and the new sample, as long as the divisor is at least 4.\<close>

lemma avg_step_below:
  assumes "a \<le> hi" "x \<le> hi" "r hi = hi" "4 \<le> n"
  shows "r (a + r (r (x - a) / n)) \<le> hi"
proof (rule below [OF _ assms(3)])
  have "r (x - a) \<le> 2 * (hi - a)"
  proof -
    have "r (x - a) \<le> r (hi - a)" using assms(2) by (intro r_mono) simp
    then show ?thesis using r_double [of "hi - a"] assms(1) by simp
  qed
  then have "r (x - a) / n \<le> 2 * (hi - a) / n"
    using assms(4) by (intro divide_right_mono) auto
  also have "\<dots> \<le> 2 * (hi - a) / 4"
    using assms by (intro divide_left_mono) auto
  also have "\<dots> = (hi - a) / 2" by simp
  finally have "r (x - a) / n \<le> (hi - a) / 2" .
  then have "r (r (x - a) / n) \<le> r ((hi - a) / 2)" by (rule r_mono)
  also have "\<dots> \<le> 2 * ((hi - a) / 2)" using assms by (intro r_double) simp
  finally show "a + r (r (x - a) / n) \<le> hi" by simp
qed

lemma avg_step_above:
  assumes "lo \<le> a" "lo \<le> x" "r lo = lo" "4 \<le> n"
  shows "lo \<le> r (a + r (r (x - a) / n))"
proof -
  have "r (- a + r (r (- x - - a) / n)) \<le> - lo"
    using assms by (intro avg_step_below) (auto simp: r_minus)
  moreover have "r (- x - - a) = - r (x - a)" using r_minus [of "x - a"] by simp
  ultimately have "r (- a + r (- (r (x - a) / n))) \<le> - lo"
    by simp
  moreover have "- a + r (- (r (x - a) / n)) = - (a + r (r (x - a) / n))"
    unfolding r_minus by simp
  ultimately show ?thesis by (simp only: r_minus neg_le_iff_le)
qed

end

lemma rounding_rnd_rat: "0 < p \<Longrightarrow> rounding (rnd_rat p emin)"
  using representable_rnd_rat [of p emin]
  by unfold_locales
    (auto simp: rnd_rat_mono rnd_rat_minus rnd_rat_le_double representable_def)

interpretation b64: rounding "rnd_rat 53 (- 1022)"
  by (rule rounding_rnd_rat) simp

interpretation b32: rounding "rnd_rat 24 (- 126)"
  by (rule rounding_rnd_rat) simp

subsection \<open>Floating-point values\<close>

text \<open>\<open>Inf True\<close> is minus infinity.\<close>

datatype fp = NaN | Inf bool | Fin rat

type_synonym double = fp
type_synonym float = fp

definition in_format :: "nat \<Rightarrow> int \<Rightarrow> int \<Rightarrow> rat \<Rightarrow> fp" where
  "in_format p emin emax x = (let y = rnd_rat p emin x
    in if pw2 (emax + 1) \<le> \<bar>y\<bar> then Inf (y < 0) else Fin y)"

definition round64 :: "rat \<Rightarrow> double" where
  "round64 x = in_format 53 (- 1022) 1023 x"

definition round32 :: "rat \<Rightarrow> float" where
  "round32 x = in_format 24 (- 126) 127 x"

text \<open>The conversion of a \<open>double\<close> to a \<open>float\<close>; the other direction is exact.\<close>

definition to_float :: "double \<Rightarrow> float" where
  "to_float d = (case d of Fin x \<Rightarrow> round32 x | _ \<Rightarrow> d)"

definition of_int64 :: "int \<Rightarrow> double" where
  "of_int64 n = round64 (of_int n)"

text \<open>
  \<open>(int) d\<close>: truncation towards zero. For a value outside \<open>int\<close> the C++ standard leaves the
  result open; the build targets x86-64 (\<open>-m64 -march=native\<close>), whose conversion instruction
  returns the smallest \<open>int\<close>.
\<close>

definition trunc_rat :: "rat \<Rightarrow> int" where
  "trunc_rat x = (if x < 0 then \<lceil>x\<rceil> else \<lfloor>x\<rfloor>)"

definition to_int32 :: "double \<Rightarrow> int" where
  "to_int32 d = (case d of
      Fin x \<Rightarrow> (let n = trunc_rat x in if - (2 ^ 31) \<le> n \<and> n < 2 ^ 31 then n else - (2 ^ 31))
    | _ \<Rightarrow> - (2 ^ 31))"

fun feq :: "fp \<Rightarrow> fp \<Rightarrow> bool" where
  "feq NaN y = False"
| "feq x NaN = False"
| "feq x y = (x = y)"

instantiation fp :: "{plus, minus, uminus, times, inverse, abs, ord}"
begin

fun uminus_fp :: "fp \<Rightarrow> fp" where
  "uminus_fp NaN = NaN"
| "uminus_fp (Inf s) = Inf (\<not> s)"
| "uminus_fp (Fin x) = Fin (- x)"

fun plus_fp :: "fp \<Rightarrow> fp \<Rightarrow> fp" where
  "plus_fp NaN y = NaN"
| "plus_fp x NaN = NaN"
| "plus_fp (Inf s) (Inf t) = (if s = t then Inf s else NaN)"
| "plus_fp (Inf s) (Fin y) = Inf s"
| "plus_fp (Fin x) (Inf t) = Inf t"
| "plus_fp (Fin x) (Fin y) = round64 (x + y)"

definition minus_fp :: "fp \<Rightarrow> fp \<Rightarrow> fp" where
  "minus_fp x y = x + (- y)"

fun times_fp :: "fp \<Rightarrow> fp \<Rightarrow> fp" where
  "times_fp NaN y = NaN"
| "times_fp x NaN = NaN"
| "times_fp (Inf s) (Inf t) = Inf (s \<noteq> t)"
| "times_fp (Inf s) (Fin y) = (if y = 0 then NaN else Inf (s \<noteq> (y < 0)))"
| "times_fp (Fin x) (Inf t) = (if x = 0 then NaN else Inf ((x < 0) \<noteq> t))"
| "times_fp (Fin x) (Fin y) = round64 (x * y)"

fun divide_fp :: "fp \<Rightarrow> fp \<Rightarrow> fp" where
  "divide_fp NaN y = NaN"
| "divide_fp x NaN = NaN"
| "divide_fp (Inf s) (Inf t) = NaN"
| "divide_fp (Inf s) (Fin y) = Inf (s \<noteq> (y < 0))"
| "divide_fp (Fin x) (Inf t) = Fin 0"
| "divide_fp (Fin x) (Fin y) =
     (if y = 0 then (if x = 0 then NaN else Inf (x < 0)) else round64 (x / y))"

definition inverse_fp :: "fp \<Rightarrow> fp" where
  "inverse_fp x = Fin 1 div x"

fun abs_fp :: "fp \<Rightarrow> fp" where
  "abs_fp NaN = NaN"
| "abs_fp (Inf s) = Inf False"
| "abs_fp (Fin x) = Fin \<bar>x\<bar>"

fun less_fp :: "fp \<Rightarrow> fp \<Rightarrow> bool" where
  "less_fp NaN y = False"
| "less_fp x NaN = False"
| "less_fp (Inf s) (Inf t) = (s \<and> \<not> t)"
| "less_fp (Inf s) (Fin y) = s"
| "less_fp (Fin x) (Inf t) = (\<not> t)"
| "less_fp (Fin x) (Fin y) = (x < y)"

definition less_eq_fp :: "fp \<Rightarrow> fp \<Rightarrow> bool" where
  "less_eq_fp x y \<longleftrightarrow> x < y \<or> feq x y"

instance ..

end

subsubsection \<open>The order\<close>

text \<open>A comparison with a NaN is false, every other pair is ordered.\<close>

lemma less_fp_NaN [simp]: "\<not> x < NaN" "\<not> NaN < (x :: fp)"
  by (cases x; simp)+

lemma less_fp_irrefl [simp]: "\<not> x < (x :: fp)"
  by (cases x) auto

lemma less_fp_trans: "x < y \<Longrightarrow> y < z \<Longrightarrow> x < (z :: fp)"
  by (cases x; cases y; cases z) auto

lemma less_fp_asym: "x < y \<Longrightarrow> \<not> y < (x :: fp)"
  by (cases x; cases y) auto

lemma feq_iff [simp]: "feq x y \<longleftrightarrow> x = y \<and> x \<noteq> NaN"
  by (cases x; cases y) auto

lemma less_eq_fp_Fin [simp]: "Fin x \<le> Fin y \<longleftrightarrow> x \<le> y"
  by (auto simp: less_eq_fp_def)

lemma not_less_fp_NaN_or_le: "\<not> y < x \<longleftrightarrow> x = NaN \<or> y = NaN \<or> x \<le> (y :: fp)"
  by (cases x; cases y) (auto simp: less_eq_fp_def)

text \<open>The clamp written in the PID code as an \<open>if (v > hi) ... else if (v < lo) ...\<close> statement.\<close>

definition clampf :: "fp \<Rightarrow> fp \<Rightarrow> fp \<Rightarrow> fp" where
  "clampf lo hi v = (if hi < v then hi else if v < lo then lo else v)"

text \<open>\<open>between lo hi v\<close>: the value is not above and not below the bounds as the code's own comparisons
  see it, which a NaN satisfies; \<open>inside\<close> is the real interval.\<close>

definition between :: "fp \<Rightarrow> fp \<Rightarrow> fp \<Rightarrow> bool" where
  "between lo hi v \<longleftrightarrow> \<not> hi < v \<and> \<not> v < lo"

definition inside :: "rat \<Rightarrow> rat \<Rightarrow> fp \<Rightarrow> bool" where
  "inside lo hi v = (case v of Fin x \<Rightarrow> lo \<le> x \<and> x \<le> hi | _ \<Rightarrow> False)"

lemma inside_Fin [simp]: "inside lo hi (Fin x) \<longleftrightarrow> lo \<le> x \<and> x \<le> hi"
  by (simp add: inside_def)

lemma inside_NaN_Inf [simp]: "\<not> inside lo hi NaN" "\<not> inside lo hi (Inf s)"
  by (simp_all add: inside_def)

lemma inside_iff: "inside lo hi v \<longleftrightarrow> (\<exists>x. v = Fin x \<and> lo \<le> x \<and> x \<le> hi)"
  by (cases v) auto

lemma inside_mono: "inside lo hi v \<Longrightarrow> lo' \<le> lo \<Longrightarrow> hi \<le> hi' \<Longrightarrow> inside lo' hi' v"
  by (cases v) auto

text \<open>Rounding to a \<open>float\<close> does not move a number over an integer of at most 24 bits.\<close>

lemma to_float_inside:
  assumes "inside (of_int a) (of_int b) v" "\<bar>a\<bar> \<le> 2 ^ 24" "\<bar>b\<bar> \<le> 2 ^ 24"
  shows "inside (of_int a) (of_int b) (to_float v)"
proof -
  obtain x where x: "v = Fin x" "of_int a \<le> x" "x \<le> of_int b" using assms(1) by (auto simp: inside_iff)
  let ?y = "rnd_rat 24 (- 126) x"
  have r: "rnd_rat 24 (- 126) (of_int n) = of_int n" if "\<bar>n\<bar> \<le> 2 ^ 24" for n
    using representable_of_int [of n 24 "- 126"] that by (simp add: representable_def)
  have y: "of_int a \<le> ?y" "?y \<le> of_int b"
    using b32.above [OF x(2) r] b32.below [OF x(3) r] assms(2,3) by simp_all
  have "(of_int b :: rat) \<le> of_int (2 ^ 24)" "(of_int (- (2 ^ 24)) :: rat) \<le> of_int a"
    using assms(2,3) by (simp_all only: of_int_le_iff)
  then have "\<bar>?y\<bar> \<le> 2 ^ 24" using y by (simp add: abs_le_iff)
  moreover have "(2 :: rat) ^ 24 < pw2 128" by (simp add: pw2_nonneg)
  ultimately show ?thesis
    using x y by (auto simp: to_float_def round32_def in_format_def Let_def)
qed

lemma clampf_between:
  "\<not> hi < lo \<Longrightarrow> between lo hi (clampf lo hi v)"
  using less_fp_asym [of lo hi] by (auto simp: clampf_def between_def)

lemma clampf_id: "between lo hi v \<Longrightarrow> clampf lo hi v = v"
  by (simp add: clampf_def between_def)

lemma clampf_inside:
  assumes "v \<noteq> NaN" "lo \<le> hi"
  shows "inside lo hi (clampf (Fin lo) (Fin hi) v)"
  using assms by (cases v) (auto simp: clampf_def)

lemma between_Fin_iff:
  "between (Fin lo) (Fin hi) v \<longleftrightarrow> v = NaN \<or> inside lo hi v"
  by (cases v) (auto simp: between_def)

subsubsection \<open>Magnitudes: sums and products of bounded values are finite\<close>

definition mag :: "rat \<Rightarrow> fp \<Rightarrow> bool" where
  "mag b v = inside (- b) b v"

lemma mag_Fin [simp]: "mag b (Fin x) \<longleftrightarrow> \<bar>x\<bar> \<le> b"
  by (auto simp: mag_def)

lemma mag_not_NaN: "mag b v \<Longrightarrow> v \<noteq> NaN"
  by (auto simp: mag_def)

lemma mag_iff: "mag b v \<longleftrightarrow> (\<exists>x. v = Fin x \<and> \<bar>x\<bar> \<le> b)"
  by (auto simp: mag_def inside_iff abs_le_iff)

lemma mag_mono: "mag b v \<Longrightarrow> b \<le> c \<Longrightarrow> mag c v"
  by (auto simp: mag_iff)

lemma inside_mag: "inside lo hi v \<Longrightarrow> - b \<le> lo \<Longrightarrow> hi \<le> b \<Longrightarrow> mag b v"
  unfolding mag_def by (rule inside_mono)

definition exact64 :: "rat \<Rightarrow> bool" where
  "exact64 b \<longleftrightarrow> rnd_rat 53 (- 1022) b = b \<and> \<bar>b\<bar> < pw2 1024"

lemma exact64_of_int: "\<bar>n\<bar> \<le> 2 ^ 53 \<Longrightarrow> exact64 (of_int n)"
proof -
  assume n: "\<bar>n\<bar> \<le> 2 ^ 53"
  then have "rnd_rat 53 (- 1022) (of_int n) = of_int n"
    using representable_of_int [of n 53 "- 1022"] by (simp add: representable_def)
  moreover have "of_int \<bar>n\<bar> \<le> (of_int (2 ^ 53) :: rat)" using n by (simp only: of_int_le_iff)
  moreover have "of_int (2 ^ 53) < pw2 1024" unfolding pw2_nat [symmetric] by simp
  ultimately show ?thesis by (simp add: exact64_def flip: of_int_abs)
qed

lemma exact64_numeral [simp]:
  "(numeral k :: int) \<le> 2 ^ 53 \<Longrightarrow> exact64 (numeral k)"
  "(numeral k :: int) \<le> 2 ^ 53 \<Longrightarrow> exact64 (- numeral k)"
  using exact64_of_int [of "numeral k"] exact64_of_int [of "- numeral k"] by simp_all

lemma exact64_0_1 [simp]: "exact64 0" "exact64 1" "exact64 (- 1)"
  using exact64_of_int [of 0] exact64_of_int [of 1] exact64_of_int [of "- 1"] by simp_all

lemma round64_exact: "exact64 x \<Longrightarrow> round64 x = Fin x"
  by (simp add: round64_def in_format_def exact64_def Let_def)

lemma round64_mag:
  assumes "\<bar>x\<bar> \<le> b" "exact64 b"
  shows "mag b (round64 x)"
proof -
  have "\<bar>rnd_rat 53 (- 1022) x\<bar> \<le> b"
    using assms b64.magnitude [of x b] by (simp add: exact64_def)
  moreover have "b < pw2 1024" using assms by (simp add: exact64_def)
  ultimately show ?thesis by (simp add: round64_def in_format_def Let_def)
qed

lemma mag_plus: "mag a u \<Longrightarrow> mag b v \<Longrightarrow> a + b \<le> c \<Longrightarrow> exact64 c \<Longrightarrow> mag c (u + v)"
  by (auto simp: mag_iff [of _ u] mag_iff [of _ v] intro!: round64_mag)

lemma mag_uminus [simp]: "mag a (- v) \<longleftrightarrow> mag a (v :: fp)"
  by (cases v) (auto simp: mag_def)

lemma mag_minus: "mag a u \<Longrightarrow> mag b v \<Longrightarrow> a + b \<le> c \<Longrightarrow> exact64 c \<Longrightarrow> mag c (u - v)"
  unfolding minus_fp_def by (rule mag_plus) simp_all

lemma mag_times:
  assumes "mag a u" "mag b v" "a * b \<le> c" "exact64 c"
  shows "mag c (u * v)"
proof -
  from assms obtain x y where uv: "u = Fin x" "v = Fin y" "\<bar>x\<bar> \<le> a" "\<bar>y\<bar> \<le> b"
    by (auto simp: mag_iff)
  have "\<bar>x * y\<bar> \<le> a * b" unfolding abs_mult using uv by (intro mult_mono) auto
  then show ?thesis using assms uv by (auto intro!: round64_mag)
qed

lemma mag_divide:
  assumes "mag a u" "1 \<le> n" "exact64 a"
  shows "mag a (u / Fin n)"
proof -
  from assms obtain x where u: "u = Fin x" "\<bar>x\<bar> \<le> a" by (auto simp: mag_iff)
  have "\<bar>x\<bar> / n \<le> \<bar>x\<bar>" using assms(2) mult_left_mono [of 1 n "\<bar>x\<bar>"] by (simp add: divide_le_eq)
  then have "\<bar>x / n\<bar> \<le> a" using u assms(2) by simp
  then show ?thesis using u assms by (auto intro!: round64_mag)
qed

lemma not_NaN_clampf: "v \<noteq> NaN \<Longrightarrow> lo \<noteq> NaN \<Longrightarrow> hi \<noteq> NaN \<Longrightarrow> clampf lo hi v \<noteq> NaN"
  by (simp add: clampf_def)

subsubsection \<open>The moving average of the state machine\<close>

lemma round64_Fin: "\<bar>rnd_rat 53 (- 1022) x\<bar> < pw2 1024 \<Longrightarrow> round64 x = Fin (rnd_rat 53 (- 1022) x)"
  by (simp add: round64_def in_format_def Let_def)

lemma avg_step_inside:
  assumes m: "inside lo hi m" and x: "inside lo hi x" and n: "4 \<le> n"
    and b: "- b \<le> lo" "hi \<le> b" "exact64 lo" "exact64 hi" "exact64 b" "exact64 (2 * b)"
  shows "inside lo hi (m + (x - m) / Fin n)"
proof -
  let ?r = "rnd_rat 53 (- 1022)"
  obtain a y where mx: "m = Fin a" "x = Fin y" "lo \<le> a" "a \<le> hi" "lo \<le> y" "y \<le> hi"
    using m x by (auto simp: inside_iff)
  have "mag (2 * b) (x - m)"
    using mx b by (intro mag_minus [of b _ b]) auto
  then have d: "x - m = Fin (?r (y - a))" "\<bar>?r (y - a)\<bar> \<le> 2 * b"
    by (auto simp: mx minus_fp_def round64_def in_format_def Let_def mag_iff split: if_splits)
  have "mag (2 * b) ((x - m) / Fin n)"
    using n b unfolding d(1) by (intro mag_divide) (auto simp: d(2))
  then have q: "(x - m) / Fin n = Fin (?r (?r (y - a) / n))"
    using n unfolding d(1)
    by (auto simp: round64_def in_format_def Let_def mag_iff split: if_splits)
  let ?s = "?r (a + ?r (?r (y - a) / n))"
  have s: "lo \<le> ?s" "?s \<le> hi"
    using mx n b by (auto simp: exact64_def intro!: b64.avg_step_above b64.avg_step_below)
  moreover have "\<bar>?s\<bar> < pw2 1024"
    using s b by (auto simp: exact64_def abs_less_iff abs_le_iff)
  ultimately show ?thesis unfolding q by (simp add: mx round64_Fin)
qed

lemma trunc_rat_of_int [simp]: "trunc_rat (of_int n) = n"
  by (simp add: trunc_rat_def)

lemma to_int32_range: "- (2 ^ 31) \<le> to_int32 d \<and> to_int32 d < 2 ^ 31"
  by (auto simp: to_int32_def Let_def split: fp.splits)

lemma to_int32_Fin_int: "- (2 ^ 31) \<le> n \<Longrightarrow> n < 2 ^ 31 \<Longrightarrow> to_int32 (Fin (of_int n)) = n"
  by (simp add: to_int32_def)

lemma of_int64_exact: "\<bar>n\<bar> \<le> 2 ^ 53 \<Longrightarrow> of_int64 n = Fin (of_int n)"
  by (simp add: of_int64_def round64_exact exact64_of_int)

subsubsection \<open>Monotonicity of the operators\<close>

lemma less_eq_fp_NaN [simp]: "\<not> NaN \<le> v" "\<not> v \<le> (NaN :: fp)"
  by (simp_all add: less_eq_fp_def)

lemma round64_mono: "x \<le> y \<Longrightarrow> round64 x \<le> round64 y"
  using b64.r_mono [of x y] pw2_pos [of 1024]
  by (auto simp: round64_def in_format_def Let_def less_eq_fp_def abs_if)

lemma round64_not_NaN [simp]: "round64 x \<noteq> NaN"
  by (simp add: round64_def in_format_def Let_def)

lemma fp_extremes [simp]: "Inf True \<le> v \<longleftrightarrow> v \<noteq> NaN" "v \<le> Inf False \<longleftrightarrow> v \<noteq> NaN"
  by (cases v; auto simp: less_eq_fp_def)+

lemma less_eq_fp_Inf [simp]:
  "Inf s \<le> Inf t \<longleftrightarrow> s \<or> \<not> t" "Inf s \<le> Fin x \<longleftrightarrow> s" "Fin x \<le> Inf s \<longleftrightarrow> \<not> s"
  by (auto simp: less_eq_fp_def)

lemma fp_plus_mono: "u \<le> v \<Longrightarrow> u + w \<noteq> NaN \<Longrightarrow> v + w \<noteq> NaN \<Longrightarrow> u + w \<le> v + (w :: fp)"
  by (cases u; cases v; cases w)
    (auto simp: round64_mono split: if_splits)

lemma fp_plus_comm: "u + v = v + (u :: fp)"
  by (cases u; cases v) (auto simp: add.commute)

lemma fp_plus_mono2:
  "u \<le> v \<Longrightarrow> w + u \<noteq> NaN \<Longrightarrow> w + v \<noteq> NaN \<Longrightarrow> w + u \<le> w + (v :: fp)"
  using fp_plus_mono [of u v w] by (simp add: fp_plus_comm [of w])

lemma fp_minus_mono:
  "u \<le> v \<Longrightarrow> u - w \<noteq> NaN \<Longrightarrow> v - w \<noteq> NaN \<Longrightarrow> u - w \<le> v - (w :: fp)"
  unfolding minus_fp_def by (rule fp_plus_mono)

lemma fp_order_trans: "u \<le> v \<Longrightarrow> v \<le> w \<Longrightarrow> u \<le> (w :: fp)"
  by (cases u; cases v; cases w) auto

lemma fp_times_mono:
  "u \<le> v \<Longrightarrow> 0 \<le> k \<Longrightarrow> Fin k * u \<noteq> NaN \<Longrightarrow> Fin k * v \<noteq> NaN \<Longrightarrow> Fin k * u \<le> Fin k * v"
  by (cases u; cases v) (auto simp: round64_mono mult_left_mono split: if_splits)

lemma clampf_mono: "u \<le> v \<Longrightarrow> \<not> hi < lo \<Longrightarrow> lo \<noteq> NaN \<Longrightarrow> hi \<noteq> NaN \<Longrightarrow> clampf lo hi u \<le> clampf lo hi v"
  by (cases u; cases v; cases lo; cases hi) (auto simp: clampf_def less_eq_fp_def)

end
