(* ===== verification/StdLib.thy ===== *)
theory StdLib
  imports Floats
begin

text \<open>
  The parts of the C++ standard library the drivers use on text: \<open>std::to_string\<close> for
  \<open>int\<close>, \<open>bool\<close> and \<open>float\<close>, and \<open>std::stoi\<close>, \<open>std::stof\<close>, \<open>std::stod\<close> with the exceptions
  they throw. The numeric grammar is the one of \<open>strtod\<close> and \<open>strtol\<close>: leading white space, a
  sign, then the longest prefix that is a number, the rest of the text ignored.
\<close>

datatype exn = Invalid_argument | Out_of_range | Runtime_error

subsection \<open>Digits\<close>

definition digit_char :: "nat \<Rightarrow> char" where
  "digit_char n = char_of (48 + n)"

definition is_digit :: "char \<Rightarrow> bool" where
  "is_digit c \<longleftrightarrow> 48 \<le> (of_char c :: nat) \<and> (of_char c :: nat) \<le> 57"

definition digit_val :: "char \<Rightarrow> nat" where
  "digit_val c = of_char c - 48"

lemma digit_char_props [simp]:
  assumes "n < 10"
  shows "is_digit (digit_char n)" "digit_val (digit_char n) = n"
  using assms by (simp_all add: digit_char_def is_digit_def digit_val_def)

fun nat_string :: "nat \<Rightarrow> string" where
  "nat_string n = (if n < 10 then [digit_char n] else nat_string (n div 10) @ [digit_char (n mod 10)])"

declare nat_string.simps [simp del]

definition digits_val :: "string \<Rightarrow> nat" where
  "digits_val ds = foldl (\<lambda>a c. 10 * a + digit_val c) 0 ds"

lemma digits_val_snoc [simp]: "digits_val (ds @ [c]) = 10 * digits_val ds + digit_val c"
  by (simp add: digits_val_def)

lemma digits_val_Nil [simp]: "digits_val [] = 0"
  by (simp add: digits_val_def)

lemma foldl_digits:
  "foldl (\<lambda>a c. 10 * a + digit_val c) b ds = b * 10 ^ length ds + digits_val ds"
  by (induction ds arbitrary: b rule: rev_induct) (auto simp: algebra_simps)

lemma digits_val_append: "digits_val (as @ bs) = digits_val as * 10 ^ length bs + digits_val bs"
  by (simp add: digits_val_def [of "as @ bs"] foldl_digits [symmetric]) (simp add: digits_val_def)

lemma nat_string_digits: "list_all is_digit (nat_string n)"
  by (induction n rule: nat_string.induct) (subst nat_string.simps, simp)

lemma nat_string_val [simp]: "digits_val (nat_string n) = n"
proof (induction n rule: nat_string.induct)
  case (1 n)
  show ?case
  proof (cases "n < 10")
    case True
    then show ?thesis by (subst nat_string.simps) (simp add: digits_val_def)
  next
    case False
    then show ?thesis using 1 by (subst nat_string.simps) simp
  qed
qed

lemma nat_string_neq_Nil [simp]: "nat_string n \<noteq> []"
  by (subst nat_string.simps) simp

text \<open>A fixed number of digits, with leading zeros.\<close>

fun pad_string :: "nat \<Rightarrow> nat \<Rightarrow> string" where
  "pad_string 0 n = []"
| "pad_string (Suc k) n = pad_string k (n div 10) @ [digit_char (n mod 10)]"

lemma pad_string_digits: "list_all is_digit (pad_string k n)"
  by (induction k n rule: pad_string.induct) auto

lemma length_pad_string [simp]: "length (pad_string k n) = k"
  by (induction k n rule: pad_string.induct) auto

lemma pad_string_val: "n < 10 ^ k \<Longrightarrow> digits_val (pad_string k n) = n"
proof (induction k n rule: pad_string.induct)
  case (2 k n)
  then have "n div 10 < 10 ^ k" by (simp add: less_mult_imp_div_less mult.commute)
  with 2 show ?case by simp
qed simp

subsection \<open>\<open>std::to_string\<close>\<close>

definition to_string_int :: "int \<Rightarrow> string" where
  "to_string_int n = (if n < 0 then ''-'' else []) @ nat_string (nat \<bar>n\<bar>)"

definition to_string_bool :: "bool \<Rightarrow> string" where
  "to_string_bool b = to_string_int (if b then 1 else 0)"

text \<open>\<open>%f\<close>: six decimals of the exact value, ties to even.\<close>

definition to_string_fp :: "fp \<Rightarrow> string" where
  "to_string_fp v = (case v of
      NaN \<Rightarrow> ''nan''
    | Inf s \<Rightarrow> (if s then ''-inf'' else ''inf'')
    | Fin x \<Rightarrow> (let k = nat (rne (\<bar>x\<bar> * 1000000))
        in (if x < 0 then ''-'' else []) @ nat_string (k div 1000000) @ ''.'' @
           pad_string 6 (k mod 1000000)))"

subsection \<open>Reading numbers\<close>

definition is_space :: "char \<Rightarrow> bool" where
  "is_space c \<longleftrightarrow> c = CHR '' '' \<or> (9 \<le> (of_char c :: nat) \<and> (of_char c :: nat) \<le> 13)"

definition take_sign :: "string \<Rightarrow> bool \<times> string" where
  "take_sign s = (case s of
      c # r \<Rightarrow> if c = CHR ''-'' then (True, r) else if c = CHR ''+'' then (False, r) else (False, s)
    | [] \<Rightarrow> (False, s))"

definition signed :: "bool \<Rightarrow> rat \<Rightarrow> rat" where
  "signed neg x = (if neg then - x else x)"

text \<open>An exponent part: a marker, an optional sign and at least one digit, or nothing.\<close>

definition exponent_of :: "char \<Rightarrow> char \<Rightarrow> string \<Rightarrow> int" where
  "exponent_of lo up s = (case s of
      c # r \<Rightarrow> if c = lo \<or> c = up then
          (case take_sign r of (neg, r') \<Rightarrow>
            (let v = int (digits_val (takeWhile is_digit r')) in if neg then - v else v))
        else 0
    | [] \<Rightarrow> 0)"

definition is_hex :: "char \<Rightarrow> bool" where
  "is_hex c \<longleftrightarrow> is_digit c \<or> c \<in> set ''abcdefABCDEF''"

definition hex_val :: "char \<Rightarrow> nat" where
  "hex_val c = (if is_digit c then digit_val c
     else if 97 \<le> (of_char c :: nat) then of_char c - 87 else of_char c - 55)"

definition hexs_val :: "string \<Rightarrow> nat" where
  "hexs_val ds = foldl (\<lambda>a c. 16 * a + hex_val c) 0 ds"

text \<open>Mantissa digits: an integer part, an optional point and a fraction; \<open>None\<close> without a digit.\<close>

definition mantissa :: "(char \<Rightarrow> bool) \<Rightarrow> string \<Rightarrow> (string \<times> string \<times> string) option" where
  "mantissa isd s = (let ip = takeWhile isd s; r = dropWhile isd s in
     case r of
       c # r1 \<Rightarrow> if c = CHR ''.'' \<and> (ip \<noteq> [] \<or> takeWhile isd r1 \<noteq> [])
          then Some (ip, takeWhile isd r1, dropWhile isd r1)
          else if ip = [] then None else Some (ip, [], r)
     | [] \<Rightarrow> if ip = [] then None else Some (ip, [], r))"

definition decimal_value :: "string \<Rightarrow> rat option" where
  "decimal_value s = (case mantissa is_digit s of
      None \<Rightarrow> None
    | Some (ip, fr, r) \<Rightarrow> Some (of_nat (digits_val (ip @ fr)) / 10 ^ length fr
        * 10 powi exponent_of (CHR ''e'') (CHR ''E'') r))"

definition hex_value :: "string \<Rightarrow> rat option" where
  "hex_value s = (case mantissa is_hex s of
      None \<Rightarrow> None
    | Some (ip, fr, r) \<Rightarrow> Some (of_nat (hexs_val (ip @ fr)) / 16 ^ length fr
        * 2 powi exponent_of (CHR ''p'') (CHR ''P'') r))"

definition lower :: "char \<Rightarrow> char" where
  "lower c = (if 65 \<le> (of_char c :: nat) \<and> (of_char c :: nat) \<le> 90
     then char_of (of_char c + 32 :: nat) else c)"

definition has_prefix :: "string \<Rightarrow> string \<Rightarrow> bool" where
  "has_prefix p s \<longleftrightarrow> map lower (take (length p) s) = p"

datatype literal = LitNaN | LitInf bool | LitNum rat

definition strtod :: "string \<Rightarrow> literal option" where
  "strtod str = (let (neg, s) = take_sign (dropWhile is_space str) in
     if has_prefix ''inf'' s then Some (LitInf neg)
     else if has_prefix ''nan'' s then Some LitNaN
     else if has_prefix ''0x'' s \<and> hex_value (drop 2 s) \<noteq> None
       then map_option (\<lambda>v. LitNum (signed neg v)) (hex_value (drop 2 s))
     else map_option (\<lambda>v. LitNum (signed neg v)) (decimal_value s))"

text \<open>
  The value is rounded to the target format; \<open>ERANGE\<close>, which the library turns into
  \<open>out_of_range\<close>, is set when it overflows, and when it is inexact and below the least normal
  number.
\<close>

definition read_fp :: "nat \<Rightarrow> int \<Rightarrow> int \<Rightarrow> string \<Rightarrow> exn + fp" where
  "read_fp p emin emax str = (case strtod str of
      None \<Rightarrow> Inl Invalid_argument
    | Some LitNaN \<Rightarrow> Inr NaN
    | Some (LitInf s) \<Rightarrow> Inr (Inf s)
    | Some (LitNum x) \<Rightarrow> (case in_format p emin emax x of
          Fin y \<Rightarrow> if y \<noteq> x \<and> \<bar>y\<bar> < pw2 emin then Inl Out_of_range else Inr (Fin y)
        | _ \<Rightarrow> Inl Out_of_range))"

definition stod :: "string \<Rightarrow> exn + double" where
  "stod = read_fp 53 (- 1022) 1023"

definition stof :: "string \<Rightarrow> exn + float" where
  "stof = read_fp 24 (- 126) 127"

definition stoi :: "string \<Rightarrow> exn + int" where
  "stoi str = (let (neg, s) = take_sign (dropWhile is_space str); ds = takeWhile is_digit s;
       v = int (digits_val ds); n = (if neg then - v else v)
     in if ds = [] then Inl Invalid_argument
        else if n < - (2 ^ 31) \<or> 2 ^ 31 \<le> n then Inl Out_of_range
        else Inr n)"

subsection \<open>Reading back what was printed\<close>

text \<open>What may follow a number without being read as part of it.\<close>

definition ends_number :: "string \<Rightarrow> bool" where
  "ends_number r \<longleftrightarrow> (case r of [] \<Rightarrow> True
     | c # _ \<Rightarrow> \<not> is_digit c \<and> c \<noteq> CHR ''e'' \<and> c \<noteq> CHR ''E'')"

lemma takeWhile_digits:
  "list_all is_digit ds \<Longrightarrow> ends_number r \<Longrightarrow> takeWhile is_digit (ds @ r) = ds"
  by (induction ds) (auto simp: ends_number_def split: list.splits)

lemma dropWhile_digits:
  "list_all is_digit ds \<Longrightarrow> ends_number r \<Longrightarrow> dropWhile is_digit (ds @ r) = r"
  by (induction ds) (auto simp: ends_number_def split: list.splits)

lemma exponent_of_ends_number:
  "ends_number r \<Longrightarrow> exponent_of (CHR ''e'') (CHR ''E'') r = 0"
  by (auto simp: exponent_of_def ends_number_def split: list.splits)

lemma not_digit_simps [simp]:
  "\<not> is_digit (CHR ''.'')" "\<not> is_digit (CHR ''-'')" "\<not> is_digit (CHR ''+'')"
  "\<not> is_digit (CHR '' '')" "\<not> is_digit (CHR 0x0A)" "\<not> is_digit (CHR 0x0D)"
  by (simp_all add: is_digit_def)

lemma is_digit_not_special:
  "is_digit c \<Longrightarrow> \<not> is_space c" "is_digit c \<Longrightarrow> c \<noteq> CHR ''-'' \<and> c \<noteq> CHR ''+''"
  by (auto simp: is_digit_def is_space_def)

lemma digits_cons:
  assumes "list_all is_digit ds" "ds \<noteq> []"
  obtains c cs where "ds = c # cs" "is_digit c" "list_all is_digit cs"
  using assms by (cases ds) auto

text \<open>The text of a printed number, sign first, passes white space and sign untouched.\<close>

lemma strip_sign:
  assumes "list_all is_digit ds" "ds \<noteq> []"
  shows "take_sign (dropWhile is_space ((if n then ''-'' else []) @ ds @ r)) = (n, ds @ r)"
proof -
  obtain c cs where c: "ds = c # cs" "is_digit c"
    using digits_cons [OF assms] .
  have "\<not> is_space (CHR ''-'')" by (simp add: is_space_def)
  then show ?thesis using c is_digit_not_special [OF c(2)] by (simp add: take_sign_def)
qed

lemma stoi_to_string_int:
  assumes "- (2 ^ 31) \<le> n" "n < 2 ^ 31" "ends_number r"
  shows "stoi (to_string_int n @ r) = Inr n"
proof -
  have "take_sign (dropWhile is_space (to_string_int n @ r)) = (n < 0, nat_string (nat \<bar>n\<bar>) @ r)"
    unfolding to_string_int_def append_assoc
    by (rule strip_sign) (simp_all add: nat_string_digits)
  then show ?thesis using assms
    by (auto simp: stoi_def Let_def takeWhile_digits nat_string_digits)
qed

lemma lower_digit: "is_digit c \<Longrightarrow> lower c = c"
  by (auto simp: lower_def is_digit_def)

lemma digit_no_prefix:
  "is_digit c \<Longrightarrow> \<not> has_prefix (CHR ''i'' # p) (c # s)"
  "is_digit c \<Longrightarrow> \<not> has_prefix (CHR ''n'' # p) (c # s)"
  by (auto simp: has_prefix_def lower_digit) (simp_all add: is_digit_def)

lemma decimal_no_hex:
  assumes "list_all is_digit ds" "ds \<noteq> []"
  shows "\<not> has_prefix ''0x'' (ds @ ''.'' @ r)"
proof -
  obtain c cs where c: "ds = c # cs" "is_digit c" "list_all is_digit cs"
    using digits_cons [OF assms] .
  show ?thesis
  proof (cases cs)
    case Nil
    then show ?thesis by (simp add: c has_prefix_def lower_def)
  next
    case (Cons d ds')
    then have "is_digit d" using c by simp
    then show ?thesis using Cons c by (auto simp: has_prefix_def lower_digit) (simp add: is_digit_def)
  qed
qed

lemma strtod_decimal:
  assumes ip: "list_all is_digit ip" "ip \<noteq> []" and fr: "list_all is_digit fr" and r: "ends_number r"
  shows "strtod ((if n then ''-'' else []) @ ip @ ''.'' @ fr @ r)
    = Some (LitNum (signed n (of_nat (digits_val (ip @ fr)) / 10 ^ length fr)))"
proof -
  let ?s = "ip @ ''.'' @ fr @ r"
  obtain c cs where c: "ip = c # cs" "is_digit c" using digits_cons [OF ip] .
  have e: "ends_number (CHR ''.'' # fr @ r)" by (simp add: ends_number_def)
  have m: "mantissa is_digit ?s = Some (ip, fr, r)"
    using ip fr r e by (simp add: mantissa_def takeWhile_digits dropWhile_digits Let_def)
  have d: "decimal_value ?s = Some (of_nat (digits_val (ip @ fr)) / 10 ^ length fr)"
    unfolding decimal_value_def m using r by (simp add: exponent_of_ends_number)
  have p: "\<not> has_prefix ''inf'' ?s" "\<not> has_prefix ''nan'' ?s"
    using c by (simp_all add: digit_no_prefix)
  show ?thesis
    unfolding strtod_def strip_sign [OF ip] using p decimal_no_hex [OF ip] d by simp
qed

text \<open>The number \<open>std::to_string\<close> prints: the value rounded to six decimals.\<close>

definition printed_value :: "rat \<Rightarrow> rat" where
  "printed_value x = signed (x < 0) (of_int (rne (\<bar>x\<bar> * 1000000)) / 1000000)"

lemma rne_nonneg: "0 \<le> x \<Longrightarrow> 0 \<le> rne x"
  using rne_mono [of 0 x] rne_of_int [of 0] by simp

lemma strtod_to_string_fp:
  assumes "ends_number r"
  shows "strtod (to_string_fp (Fin x) @ r) = Some (LitNum (printed_value x))"
proof -
  define k where "k = nat (rne (\<bar>x\<bar> * 1000000))"
  have k: "of_nat k = (of_int (rne (\<bar>x\<bar> * 1000000)) :: rat)"
    by (simp add: k_def rne_nonneg)
  have "digits_val (nat_string (k div 1000000) @ pad_string 6 (k mod 1000000)) = k"
    by (simp add: digits_val_append pad_string_val)
  then show ?thesis
    unfolding to_string_fp_def fp.case Let_def k_def [symmetric] append_assoc
    using assms k by (subst strtod_decimal)
      (simp_all add: nat_string_digits pad_string_digits printed_value_def)
qed

lemma printed_value_close: "\<bar>printed_value x - x\<bar> \<le> 1 / 2000000"
  using rne_half [of "\<bar>x\<bar> * 1000000"]
  by (auto simp: printed_value_def signed_def abs_if split: if_splits)

end
