(* ===== verification/Serial.thy ===== *)
theory Serial
  imports StdLib
begin

text \<open>
  \<open>SerialDeviceT.cpp\<close>: the base class of the three instrument drivers. What the device sends is
  a list of the outcomes of successive reads; the strings written are kept in order. The C++
  classes that derive from \<open>SerialDevice\<close> are record extensions of the record here, and its member
  functions are polymorphic in the extension.
\<close>

unbundle bit_operations_syntax

subsection \<open>Line settings\<close>

record termios =
  c_iflag :: "32 word"
  c_oflag :: "32 word"
  c_cflag :: "32 word"
  c_lflag :: "32 word"
  c_vmin :: "8 word"
  c_vtime :: "8 word"
  c_ospeed :: nat
  c_ispeed :: nat

text \<open>The Linux values of the flags the sources name.\<close>

abbreviation CSIZE :: "32 word" where "CSIZE \<equiv> 0x30"
abbreviation CS7 :: "32 word" where "CS7 \<equiv> 0x20"
abbreviation CS8 :: "32 word" where "CS8 \<equiv> 0x30"
abbreviation CSTOPB :: "32 word" where "CSTOPB \<equiv> 0x40"
abbreviation CREAD :: "32 word" where "CREAD \<equiv> 0x80"
abbreviation PARENB :: "32 word" where "PARENB \<equiv> 0x100"
abbreviation PARODD :: "32 word" where "PARODD \<equiv> 0x200"
abbreviation HUPCL :: "32 word" where "HUPCL \<equiv> 0x400"
abbreviation CLOCAL :: "32 word" where "CLOCAL \<equiv> 0x800"
abbreviation CRTSCTS :: "32 word" where "CRTSCTS \<equiv> 0x80000000"
abbreviation IXON :: "32 word" where "IXON \<equiv> 0x400"

text \<open>\<open>cfmakeraw\<close> of the C library: it also makes a read wait for one character, with no timeout.\<close>

definition cfmakeraw :: "termios \<Rightarrow> termios" where
  "cfmakeraw t = t\<lparr>
     c_iflag := c_iflag t AND NOT 0x5EB,
     c_oflag := c_oflag t AND NOT 0x1,
     c_lflag := c_lflag t AND NOT 0x804B,
     c_cflag := (c_cflag t AND NOT (CSIZE OR PARENB)) OR CS8,
     c_vmin := 1, c_vtime := 0\<rparr>"

definition zero_termios :: termios where
  "zero_termios = \<lparr>c_iflag = 0, c_oflag = 0, c_cflag = 0, c_lflag = 0, c_vmin = 0, c_vtime = 0,
     c_ospeed = 0, c_ispeed = 0\<rparr>"

definition set_speed :: "nat \<Rightarrow> termios \<Rightarrow> termios" where
  "set_speed b t = t\<lparr>c_ospeed := b, c_ispeed := b\<rparr>"

text \<open>Reading a flag of a word that was put together from masks.\<close>

lemma flag_simps:
  fixes x k m :: "32 word"
  shows "(x OR k) AND m = (x AND m) OR (k AND m)" "(x AND k) AND m = x AND (k AND m)"
    "(x AND m) OR m = m" "((x AND m) OR k) OR m = k OR m"
  by (rule bit_eqI; auto simp: bit_simps)+

subsection \<open>The device\<close>

text \<open>
  The outcome of one \<open>read\<close> of a character: a character, nothing (end of file), or an error.
  \<open>Silence\<close> is a pause of more than five seconds: \<open>read\<close> waits through it, \<open>select\<close> gives up.
  When the list ends, nothing arrives any more and a \<open>read\<close> waits for ever.
\<close>

datatype rd = Byte char | EndOfFile | Error | Silence

record SerialDevice =
  usb_in :: "rd list"
  usb_out :: "string list"
  tty :: termios
  line :: "termios option"

datatype fault = Blocked | BufferOverrun | Uncaught exn | NoReturnValue

type_synonym ('s, 'a) io = "'s \<Rightarrow> (fault + 'a) \<times> 's"

definition io_return :: "'a \<Rightarrow> ('s, 'a) io" where
  "io_return x s = (Inr x, s)"

definition io_fail :: "fault \<Rightarrow> ('s, 'a) io" where
  "io_fail e s = (Inl e, s)"

definition io_bind :: "('s, 'a) io \<Rightarrow> ('a \<Rightarrow> ('s, 'b) io) \<Rightarrow> ('s, 'b) io" where
  "io_bind m f s = (case m s of (Inl e, t) \<Rightarrow> (Inl e, t) | (Inr x, t) \<Rightarrow> f x t)"

definition io_then :: "('s, 'a) io \<Rightarrow> ('s, 'b) io \<Rightarrow> ('s, 'b) io" where
  "io_then m k = io_bind m (\<lambda>_. k)"

definition io_update :: "('s \<Rightarrow> 's) \<Rightarrow> ('s, unit) io" where
  "io_update f s = (Inr (), f s)"

definition io_get :: "('s \<Rightarrow> 'a) \<Rightarrow> ('s, 'a) io" where
  "io_get f s = (Inr (f s), s)"

definition io_if :: "('s \<Rightarrow> bool) \<Rightarrow> ('s, 'a) io \<Rightarrow> ('s, 'a) io \<Rightarrow> ('s, 'a) io" where
  "io_if b m k s = (if b s then m s else k s)"

definition io_seq :: "('s, unit) io list \<Rightarrow> ('s, unit) io" where
  "io_seq ms = foldr io_then ms (io_return ())"

text \<open>A parse that may throw outside any \<open>try\<close> block: the exception ends the process.\<close>

definition io_parse :: "exn + 'a \<Rightarrow> ('s, 'a) io" where
  "io_parse r = (case r of Inl x \<Rightarrow> io_fail (Uncaught x) | Inr v \<Rightarrow> io_return v)"

text \<open>The constructor; \<open>attrs\<close> is what \<open>tcgetattr\<close> found, \<open>None\<close> when it failed.\<close>

definition new_tty :: "termios option \<Rightarrow> termios" where
  "new_tty attrs = (let t = (case attrs of None \<Rightarrow> zero_termios | Some a \<Rightarrow> a) in
     cfmakeraw (t\<lparr>c_vmin := 0, c_vtime := 10, c_cflag := c_cflag t OR (CREAD OR CLOCAL)\<rparr>))"

definition SerialDevice_new :: "termios option \<Rightarrow> rd list \<Rightarrow> SerialDevice" where
  "SerialDevice_new attrs ins =
     \<lparr>usb_in = ins, usb_out = [], tty = new_tty attrs, line = None\<rparr>"

definition WriteString :: "string \<Rightarrow> ('a SerialDevice_scheme, unit) io" where
  "WriteString s d = (Inr (), d\<lparr>usb_out := usb_out d @ [s]\<rparr>)"

subsection \<open>Reading a line\<close>

text \<open>
  The buffer has 1024 characters and every \<open>sprintf\<close> writes a character and a terminating NUL, so
  position 1022 is the last that can be written; nothing in the code stops the loop there.
  \<open>c_string\<close> is the conversion of the buffer to \<open>std::string\<close>, which ends at the first NUL.
\<close>

abbreviation NUL :: char where "NUL \<equiv> CHR 0x00"
abbreviation CR :: char where "CR \<equiv> CHR 0x0D"
abbreviation LF :: char where "LF \<equiv> CHR 0x0A"

definition c_string :: "string \<Rightarrow> string" where
  "c_string s = takeWhile (\<lambda>c. c \<noteq> NUL) s"

definition response_size :: nat where
  "response_size = 1024"

fun line_loop :: "string \<Rightarrow> rd list \<Rightarrow> (fault + int \<times> string) \<times> rd list" where
  "line_loop acc [] = (Inl Blocked, [])"
| "line_loop acc (Silence # rs) = line_loop acc rs"
| "line_loop acc (r # rs) =
     (if response_size \<le> length acc + 1 then (Inl BufferOverrun, rs)
      else case r of
          Byte c \<Rightarrow> if c = LF then (Inr (1, acc @ [c]), rs) else line_loop (acc @ [c]) rs
        | EndOfFile \<Rightarrow> (Inr (0, acc), rs)
        | _ \<Rightarrow> (Inr (- 1, acc), rs))"

definition finish_line :: "int \<times> string \<Rightarrow> string" where
  "finish_line r = (case r of (n, acc) \<Rightarrow> if n < 0 then [] else if n = 0 then [] else c_string acc)"

definition ReadLine :: "('a SerialDevice_scheme, string) io" where
  "ReadLine d = (case line_loop [] (usb_in d) of
      (Inl e, rs) \<Rightarrow> (Inl e, d\<lparr>usb_in := rs\<rparr>)
    | (Inr r, rs) \<Rightarrow> (Inr (finish_line r), d\<lparr>usb_in := rs\<rparr>))"

text \<open>\<open>ReadLineThrowR\<close> ends a line at a carriage return, which it does not store.\<close>

fun throwr_loop :: "string \<Rightarrow> rd list \<Rightarrow> (fault + int \<times> string) \<times> rd list" where
  "throwr_loop acc [] = (Inl Blocked, [])"
| "throwr_loop acc (Silence # rs) = throwr_loop acc rs"
| "throwr_loop acc (r # rs) =
     (if r = Byte CR then (Inr (1, acc), rs)
      else if response_size \<le> length acc + 1 then (Inl BufferOverrun, rs)
      else case r of
          Byte c \<Rightarrow> throwr_loop (acc @ [c]) rs
        | EndOfFile \<Rightarrow> (Inr (0, acc), rs)
        | _ \<Rightarrow> (Inr (- 1, acc), rs))"

definition ReadLineThrowR :: "('a SerialDevice_scheme, string) io" where
  "ReadLineThrowR d = (case throwr_loop [] (usb_in d) of
      (Inl e, rs) \<Rightarrow> (Inl e, d\<lparr>usb_in := rs\<rparr>)
    | (Inr r, rs) \<Rightarrow> (Inr (finish_line r), d\<lparr>usb_in := rs\<rparr>))"

text \<open>
  \<open>RReadLine\<close> waits up to five seconds for the first character; it returns the text, the last
  count of bytes read and the stall flag. The first character is stored without a look at it. When
  that read fails the write position becomes -1 and the next character is written outside the
  buffer.
\<close>

definition RReadLine :: "('a SerialDevice_scheme, string \<times> int \<times> bool) io" where
  "RReadLine d = (case usb_in d of
      [] \<Rightarrow> (Inr ([], 0, True), d)
    | Silence # rs \<Rightarrow> (Inr ([], 0, True), d\<lparr>usb_in := rs\<rparr>)
    | Error # rs \<Rightarrow> (case dropWhile (\<lambda>r. r = Silence) rs of
          [] \<Rightarrow> (Inl Blocked, d\<lparr>usb_in := []\<rparr>)
        | _ # rs' \<Rightarrow> (Inl BufferOverrun, d\<lparr>usb_in := rs'\<rparr>))
    | r # rs \<Rightarrow> (case line_loop (case r of Byte c \<Rightarrow> [c] | _ \<Rightarrow> []) rs of
          (Inl e, rs') \<Rightarrow> (Inl e, d\<lparr>usb_in := rs'\<rparr>)
        | (Inr (n, acc), rs') \<Rightarrow> (Inr (finish_line (n, acc), n, False), d\<lparr>usb_in := rs'\<rparr>)))"

subsection \<open>Facts\<close>

lemma io_run [io_simps]:
  "io_return x s = (Inr x, s)"
  "io_fail e s = (Inl e, s)"
  "io_update f s = (Inr (), f s)"
  "io_get g s = (Inr (g s), s)"
  "io_if b m k s = (if b s then m s else k s)"
  "io_then m n s = io_bind m (\<lambda>_. n) s"
  by (simp_all add: io_return_def io_fail_def io_update_def io_get_def io_if_def io_then_def)

lemma io_bind_run [io_simps]:
  "m s = (Inr x, t) \<Longrightarrow> io_bind m f s = f x t"
  "m s = (Inl e, t) \<Longrightarrow> io_bind m f s = (Inl e, t)"
  by (simp_all add: io_bind_def)

lemma io_bind_cases:
  assumes "io_bind m f s = (r, u)"
  obtains (fail) e where "m s = (Inl e, u)" "r = Inl e"
    | (ok) x t where "m s = (Inr x, t)" "f x t = (r, u)"
  using assms by (auto simp: io_bind_def split: prod.splits sum.splits)

lemma io_seq_simps [io_simps]:
  "io_seq [] s = (Inr (), s)"
  "io_seq (m # ms) s = io_bind m (\<lambda>_. io_seq ms) s"
  by (simp_all add: io_seq_def io_return_def io_then_def)

lemma io_parse_run [io_simps]:
  "io_parse (Inr v) s = (Inr v, s)"
  "io_parse (Inl x) s = (Inl (Uncaught x), s)"
  by (simp_all add: io_parse_def io_return_def io_fail_def)

text \<open>A line as the reader expects it: no terminator and no NUL inside, short enough for the buffer.\<close>

definition good_line :: "string \<Rightarrow> bool" where
  "good_line l \<longleftrightarrow> LF \<notin> set l \<and> NUL \<notin> set l \<and> length l \<le> 1022"

definition sends :: "string \<Rightarrow> rd list" where
  "sends l = map Byte (l @ [LF])"

lemma line_loop_bytes:
  assumes "LF \<notin> set l" "length acc + length l \<le> 1023"
  shows "line_loop acc (map Byte l @ rs) = line_loop (acc @ l) rs"
  using assms
proof (induction l arbitrary: acc)
  case (Cons c l)
  then show ?case using Cons.IH [of "acc @ [c]"] by (auto simp: response_size_def)
qed simp

lemma line_loop_line:
  assumes "LF \<notin> set l" "length acc + length l \<le> 1022"
  shows "line_loop acc (sends l @ rs) = (Inr (1, acc @ l @ [LF]), rs)"
  using assms by (simp add: sends_def line_loop_bytes response_size_def)

lemma line_loop_overrun:
  assumes "LF \<notin> set l" "length acc + length l = 1023" "r \<noteq> Silence"
  shows "line_loop acc (map Byte l @ r # rs) = (Inl BufferOverrun, rs)"
  using assms by (cases r) (simp_all add: line_loop_bytes response_size_def)

lemma line_loop_result:
  "line_loop acc rs = (Inr (n, l), rs') \<Longrightarrow> n \<le> 0 \<or> (\<exists>l'. l = l' @ [LF])"
  by (induction acc rs rule: line_loop.induct)
    (auto split: if_splits)

lemma throwr_loop_bytes:
  assumes "CR \<notin> set l" "length acc + length l \<le> 1023"
  shows "throwr_loop acc (map Byte l @ rs) = throwr_loop (acc @ l) rs"
  using assms
proof (induction l arbitrary: acc)
  case (Cons c l)
  then show ?case using Cons.IH [of "acc @ [c]"] by (auto simp: response_size_def)
qed simp

lemma c_string_id: "NUL \<notin> set l \<Longrightarrow> c_string l = l"
  unfolding c_string_def by (rule takeWhile_eq_all_conv [THEN iffD2]) auto

lemma ReadLine_sends:
  assumes "good_line l" "usb_in d = sends l @ rs"
  shows "ReadLine d = (Inr (l @ [LF]), d\<lparr>usb_in := rs\<rparr>)"
  using assms line_loop_line [of l "[]" rs]
  by (simp add: ReadLine_def good_line_def finish_line_def c_string_id)

lemma ReadLineThrowR_sends:
  assumes "CR \<notin> set l" "NUL \<notin> set l" "length l \<le> 1023"
    and "usb_in d = map Byte (l @ [CR]) @ rs"
  shows "ReadLineThrowR d = (Inr l, d\<lparr>usb_in := rs\<rparr>)"
  using assms
  by (simp add: ReadLineThrowR_def throwr_loop_bytes finish_line_def c_string_id)

lemma RReadLine_sends:
  assumes "good_line (c # l)" "usb_in d = sends (c # l) @ rs"
  shows "RReadLine d = (Inr (c # l @ [LF], 1, False), d\<lparr>usb_in := rs\<rparr>)"
proof -
  have "line_loop [c] (sends l @ rs) = (Inr (1, [c] @ l @ [LF]), rs)"
    using assms by (intro line_loop_line) (auto simp: good_line_def)
  then show ?thesis
    using assms by (simp add: RReadLine_def sends_def finish_line_def c_string_id good_line_def)
qed

text \<open>Only the input queue changes in a read, only the output trace in a write.\<close>

lemma read_frame:
  "\<exists>rs. snd (ReadLine d) = d\<lparr>usb_in := rs\<rparr>"
  "\<exists>rs. snd (ReadLineThrowR d) = d\<lparr>usb_in := rs\<rparr>"
  "\<exists>rs. snd (RReadLine d) = d\<lparr>usb_in := rs\<rparr>"
proof -
  show "\<exists>rs. snd (ReadLine d) = d\<lparr>usb_in := rs\<rparr>"
    by (auto simp: ReadLine_def split: prod.splits sum.splits)
  show "\<exists>rs. snd (ReadLineThrowR d) = d\<lparr>usb_in := rs\<rparr>"
    by (auto simp: ReadLineThrowR_def split: prod.splits sum.splits)
  have same: "d = d\<lparr>usb_in := usb_in d\<rparr>" by simp
  show "\<exists>rs. snd (RReadLine d) = d\<lparr>usb_in := rs\<rparr>"
  proof (cases "usb_in d")
    case Nil
    then have "snd (RReadLine d) = d" by (simp add: RReadLine_def)
    with same show ?thesis by metis
  next
    case (Cons r rs)
    then show ?thesis
      by (cases r) (auto simp: RReadLine_def split: prod.splits sum.splits list.splits)
  qed
qed

subsection \<open>The interface the drivers use\<close>

text \<open>
  A port has commands written to it and lines read from it. \<open>set_io\<close> replaces what is queued and
  what has been written. The drivers' question-and-answer exchanges are proved from these laws.
\<close>

locale serial_port =
  fixes wr :: "string \<Rightarrow> ('s, unit) io"
    and rdl :: "('s, string) io"
    and inq :: "'s \<Rightarrow> rd list"
    and outq :: "'s \<Rightarrow> string list"
    and set_io :: "rd list \<Rightarrow> string list \<Rightarrow> 's \<Rightarrow> 's"
  assumes wr_law: "wr c s = (Inr (), set_io (inq s) (outq s @ [c]) s)"
    and rdl_law: "good_line l \<Longrightarrow> inq s = sends l @ rs \<Longrightarrow> rdl s = (Inr (l @ [LF]), set_io rs (outq s) s)"
    and inq_set [simp]: "inq (set_io i u s) = i"
    and outq_set [simp]: "outq (set_io i u s) = u"
    and set_set [simp]: "set_io i u (set_io j v s) = set_io i u s"
begin

lemma query:
  assumes "good_line l" "inq s = sends l @ rs"
  shows "io_then (wr c) rdl s = (Inr (l @ [LF]), set_io rs (outq s @ [c]) s)"
proof -
  have "rdl (set_io (inq s) (outq s @ [c]) s) = (Inr (l @ [LF]), set_io rs (outq s @ [c]) s)"
    using assms by (subst rdl_law) simp_all
  then show ?thesis by (simp add: io_simps wr_law)
qed

lemma query_then:
  assumes "good_line l" "inq s = sends l @ rs"
  shows "io_bind (io_then (wr c) rdl) k s = k (l @ [LF]) (set_io rs (outq s @ [c]) s)"
  using query [OF assms] by (rule io_bind_run)

end

definition set_queues :: "rd list \<Rightarrow> string list \<Rightarrow> 'a SerialDevice_scheme \<Rightarrow> 'a SerialDevice_scheme" where
  "set_queues i u d = d\<lparr>usb_in := i, usb_out := u\<rparr>"

interpretation port: serial_port WriteString ReadLine usb_in usb_out set_queues
  by unfold_locales (auto simp: WriteString_def ReadLine_sends set_queues_def)

subsection \<open>What a program may write\<close>

text \<open>
  \<open>outputs Q m\<close>: the list of strings a run of \<open>m\<close> sends satisfies \<open>Q\<close>, and nothing already
  sent is taken back. Two cases: every string satisfies \<open>P\<close>, at most \<open>n\<close> strings satisfy \<open>P\<close>.
\<close>

definition outputs :: "(string list \<Rightarrow> bool) \<Rightarrow> ('a SerialDevice_scheme, 'b) io \<Rightarrow> bool" where
  "outputs Q m \<longleftrightarrow> (\<forall>s. \<exists>ws. usb_out (snd (m s)) = usb_out s @ ws \<and> Q ws)"

definition writes :: "(string \<Rightarrow> bool) \<Rightarrow> ('a SerialDevice_scheme, 'b) io \<Rightarrow> bool" where
  "writes P = outputs (list_all P)"

definition emits :: "(string \<Rightarrow> bool) \<Rightarrow> nat \<Rightarrow> ('a SerialDevice_scheme, 'b) io \<Rightarrow> bool" where
  "emits P n = outputs (\<lambda>ws. length (List.filter P ws) \<le> n)"

lemma outputsD:
  assumes "outputs Q m" "m s = (r, s')"
  obtains ws where "usb_out s' = usb_out s @ ws" "Q ws"
  using assms unfolding outputs_def by (metis snd_conv)

lemma outputs_mono: "outputs Q m \<Longrightarrow> (\<And>ws. Q ws \<Longrightarrow> R ws) \<Longrightarrow> outputs R m"
  unfolding outputs_def by blast

lemma outputs_bind:
  assumes m: "outputs Q m" and f: "\<And>x. outputs R (f x)"
    and "\<And>ws. Q ws \<Longrightarrow> T ws" "\<And>ws vs. Q ws \<Longrightarrow> R vs \<Longrightarrow> T (ws @ vs)"
  shows "outputs T (io_bind m f)"
  unfolding outputs_def
proof
  fix s
  obtain r t where r: "m s = (r, t)" by (cases "m s") auto
  obtain ws where ws: "usb_out t = usb_out s @ ws" "Q ws" using outputsD [OF m r] .
  show "\<exists>ws. usb_out (snd (io_bind m f s)) = usb_out s @ ws \<and> T ws"
  proof (cases r)
    case (Inl e)
    then show ?thesis using r ws assms(3) by (simp add: io_bind_def)
  next
    case (Inr x)
    obtain r' u where u: "f x t = (r', u)" by (cases "f x t") auto
    obtain vs where "usb_out u = usb_out t @ vs" "R vs" using outputsD [OF f u] .
    then show ?thesis
      using r u ws Inr assms(4) by (auto simp: io_bind_def intro!: exI [of _ "ws @ vs"])
  qed
qed

lemma outputs_quiet:
  assumes "\<And>s. usb_out (snd (m s)) = usb_out s" "Q []"
  shows "outputs Q m"
  unfolding outputs_def using assms by (auto intro!: exI [of _ "[]"])

lemma outputs_if: "outputs Q m \<Longrightarrow> outputs Q k \<Longrightarrow> outputs Q (io_if b m k)"
  by (auto simp: outputs_def io_simps)

lemma outputs_WriteString: "Q [c] \<Longrightarrow> outputs Q (WriteString c)"
  by (auto simp: outputs_def WriteString_def)

lemma quiet_ops:
  "usb_out (snd (ReadLine s)) = usb_out s" "usb_out (snd (ReadLineThrowR s)) = usb_out s"
  "usb_out (snd (RReadLine s)) = usb_out s"
  "usb_out (snd (io_return x s)) = usb_out s" "usb_out (snd (io_fail e s)) = usb_out s"
  "usb_out (snd (io_get g s)) = usb_out s" "usb_out (snd (io_parse v s)) = usb_out s"
  using read_frame [of s] by (auto simp: io_simps io_parse_def split: sum.splits)

lemma writes_bind [intro!]:
  "writes P m \<Longrightarrow> (\<And>x. writes P (f x)) \<Longrightarrow> writes P (io_bind m f)"
  unfolding writes_def by (rule outputs_bind [where Q = "list_all P" and R = "list_all P"]) auto

lemma writes_then [intro!]: "writes P m \<Longrightarrow> writes P k \<Longrightarrow> writes P (io_then m k)"
  unfolding io_then_def by (rule writes_bind)

lemma writes_if [intro!]: "writes P m \<Longrightarrow> writes P k \<Longrightarrow> writes P (io_if b m k)"
  unfolding writes_def by (rule outputs_if)

lemma writes_WriteString [intro!]: "P c \<Longrightarrow> writes P (WriteString c)"
  unfolding writes_def by (rule outputs_WriteString) simp

lemma writes_update [intro!]: "(\<And>s. usb_out (g s) = usb_out s) \<Longrightarrow> writes P (io_update g)"
  unfolding writes_def by (rule outputs_quiet) (simp_all add: io_simps)

lemma writes_quiet [intro!, simp]:
  "writes P ReadLine" "writes P ReadLineThrowR" "writes P RReadLine"
  unfolding writes_def by (auto simp: quiet_ops intro!: outputs_quiet)

lemma writes_pure [intro!, simp]:
  "writes P (io_return x)" "writes P (io_fail e)"
  unfolding writes_def by (auto simp: quiet_ops intro!: outputs_quiet)

lemma writes_get [intro!, simp]: "writes P (io_get h)"
  unfolding writes_def by (auto simp: quiet_ops intro!: outputs_quiet)

lemma writes_parse [intro!, simp]: "writes P (io_parse v)"
  unfolding writes_def by (auto simp: quiet_ops intro!: outputs_quiet)

lemma writes_seq [intro!]: "list_all (writes P) ms \<Longrightarrow> writes P (io_seq ms)"
  unfolding io_seq_def by (induction ms) auto

lemma writes_mono: "writes P m \<Longrightarrow> (\<And>c. P c \<Longrightarrow> Q c) \<Longrightarrow> writes Q m"
  unfolding writes_def by (erule outputs_mono) (auto simp: list_all_iff)

lemma emits_bind:
  assumes "emits P i m" "\<And>x. emits P j (f x)"
  shows "emits P (i + j) (io_bind m f)"
  using assms unfolding emits_def by (rule outputs_bind) auto

lemma emits_then: "emits P i m \<Longrightarrow> emits P j k \<Longrightarrow> emits P (i + j) (io_then m k)"
  unfolding io_then_def by (rule emits_bind)

lemma emits_if: "emits P n m \<Longrightarrow> emits P n k \<Longrightarrow> emits P n (io_if b m k)"
  unfolding emits_def by (rule outputs_if)

lemma emits_mono: "emits P i m \<Longrightarrow> i \<le> j \<Longrightarrow> emits P j m"
  unfolding emits_def by (erule outputs_mono) simp

lemma emits_none: "writes (\<lambda>c. \<not> P c) m \<Longrightarrow> emits P n m"
  unfolding emits_def writes_def
proof (erule outputs_mono)
  fix ws :: "string list" assume "list_all (\<lambda>c. \<not> P c) ws"
  then have "List.filter P ws = []" by (induction ws) auto
  then show "length (List.filter P ws) \<le> n" by simp
qed

lemma emits_once: "emits P 1 (WriteString c)"
  unfolding emits_def by (rule outputs_WriteString) simp

subsection \<open>What a program leaves alone\<close>

text \<open>\<open>keeps g m\<close>: no run of \<open>m\<close> changes the part \<open>g\<close> of the state.\<close>

definition keeps :: "('s \<Rightarrow> 'c) \<Rightarrow> ('s, 'a) io \<Rightarrow> bool" where
  "keeps g m \<longleftrightarrow> (\<forall>s. g (snd (m s)) = g s)"

lemma keepsD: "keeps g m \<Longrightarrow> m s = (r, t) \<Longrightarrow> g t = g s"
  unfolding keeps_def by (metis snd_conv)

lemma keeps_bind [intro!]: "keeps g m \<Longrightarrow> (\<And>x. keeps g (f x)) \<Longrightarrow> keeps g (io_bind m f)"
  unfolding keeps_def io_bind_def by (auto split: prod.splits sum.splits) (metis snd_conv)+

lemma keeps_then [intro!]: "keeps g m \<Longrightarrow> keeps g k \<Longrightarrow> keeps g (io_then m k)"
  unfolding io_then_def by (rule keeps_bind)

lemma keeps_if [intro!]: "keeps g m \<Longrightarrow> keeps g k \<Longrightarrow> keeps g (io_if b m k)"
  by (simp add: keeps_def io_simps)

lemma keeps_update [intro!]: "(\<And>s. g (h s) = g s) \<Longrightarrow> keeps g (io_update h)"
  by (simp add: keeps_def io_simps)

lemma keeps_pure [intro!, simp]: "keeps g (io_return x)" "keeps g (io_fail e)"
  by (simp_all add: keeps_def io_simps)

lemma keeps_get [intro!, simp]: "keeps g (io_get h)"
  by (simp add: keeps_def io_simps)

lemma keeps_parse [intro!, simp]: "keeps g (io_parse v)"
  by (auto simp: keeps_def io_simps io_parse_def split: sum.splits)

lemma keeps_WriteString [intro!]: "(\<And>s v. g (s\<lparr>usb_out := v\<rparr>) = g s) \<Longrightarrow> keeps g (WriteString c)"
  by (simp add: keeps_def WriteString_def)

lemma keeps_read [intro!]:
  assumes "\<And>s v. g (s\<lparr>usb_in := v\<rparr>) = g s"
  shows "keeps g ReadLine" "keeps g RReadLine"
  unfolding keeps_def using read_frame assms by metis+

lemma keeps_seq [intro!]: "list_all (keeps g) ms \<Longrightarrow> keeps g (io_seq ms)"
  unfolding io_seq_def by (induction ms) auto

subsection \<open>How a run relates its two ends\<close>

text \<open>
  \<open>follows R m\<close>: every run of \<open>m\<close>, however it ends, leads from a state to one that \<open>R\<close> relates to it.
  When \<open>R\<close> is reflexive and transitive the operations compose.
\<close>

definition follows :: "('s \<Rightarrow> 's \<Rightarrow> bool) \<Rightarrow> ('s, 'a) io \<Rightarrow> bool" where
  "follows R m \<longleftrightarrow> (\<forall>s. R s (snd (m s)))"

lemma followsD: "follows R m \<Longrightarrow> m s = (r, t) \<Longrightarrow> R s t"
  unfolding follows_def by (metis snd_conv)

locale run_order =
  fixes R :: "'s \<Rightarrow> 's \<Rightarrow> bool"
  assumes refl: "R s s"
    and trans: "R s t \<Longrightarrow> R t u \<Longrightarrow> R s u"
begin

lemma bind:
  assumes "follows R m" "\<And>x. follows R (f x)"
  shows "follows R (io_bind m f)"
  unfolding follows_def
proof
  fix s
  obtain r t where r: "m s = (r, t)" by (cases "m s") auto
  then have "R s t" by (rule followsD [OF assms(1)])
  then show "R s (snd (io_bind m f s))"
    using r trans assms(2) unfolding follows_def by (cases r) (auto simp: io_bind_def)
qed

lemma seq_two: "follows R m \<Longrightarrow> follows R k \<Longrightarrow> follows R (io_then m k)"
  unfolding io_then_def by (rule bind)

lemma branch: "follows R m \<Longrightarrow> follows R k \<Longrightarrow> follows R (io_if b m k)"
  by (simp add: follows_def io_simps)

lemma still: "follows R (io_return x)" "follows R (io_get h)"
  by (simp_all add: follows_def io_simps refl)

lemma sequence: "list_all (follows R) ms \<Longrightarrow> follows R (io_seq ms)"
  unfolding io_seq_def by (induction ms) (auto simp: still seq_two)

lemmas closed = bind seq_two branch still

end

text \<open>What is sent only grows.\<close>

definition sends_more :: "(string \<Rightarrow> bool) \<Rightarrow> 'a SerialDevice_scheme \<Rightarrow> 'a SerialDevice_scheme \<Rightarrow> bool" where
  "sends_more P s t \<longleftrightarrow> (\<exists>ws. usb_out t = usb_out s @ ws \<and> list_all P ws)"

interpretation sending: run_order "sends_more P" for P
  by unfold_locales (auto simp: sends_more_def)

lemma writes_follows: "writes P m \<longleftrightarrow> follows (sends_more P) m"
  by (simp add: writes_def outputs_def follows_def sends_more_def)

interpretation keeping: run_order "\<lambda>s t. g t = g s" for g
  by unfold_locales auto

lemma keeps_follows: "keeps g m \<longleftrightarrow> follows (\<lambda>s t. g t = g s) m"
  by (simp add: keeps_def follows_def)

end
