(* ===== verification/SRS.thy ===== *)
theory SRS
  imports Serial
begin

text \<open>
  \<open>SRSPowerSupply.cpp\<close>, the driver of the SRS DC205 voltage source, and \<open>SRSServer.cpp\<close>, the
  process that serves it: one thread sweeps every fifteen seconds, another serves remote calls, and
  a mutex guards the serial line. A thread is a tree of steps between which the other may run, and
  the member functions are written over their continuation.
\<close>

record SRSPowerSupply = SerialDevice +
  currentVoltage :: float
  currentOutputStatus :: bool
  OVLDStatus :: bool
  WatchdogFuse :: bool
  SRSPowerState :: bool
  SQLStatusMsg :: string
  cWatchdogFuse :: int

text \<open>\<open>replies\<close> are the values returned to remote callers, \<open>stored\<close> the rows inserted in the
  database.\<close>

record SRSServer = SRSPowerSupply +
  replies :: "float list"
  stored :: "(float \<times> bool \<times> bool \<times> bool) list"

subsection \<open>Threads\<close>

datatype proc = Halt | Lock proc | Unlock proc | Act "SRSServer \<Rightarrow> (fault + proc) \<times> SRSServer"

definition do_io :: "(SRSServer, 'a) io \<Rightarrow> ('a \<Rightarrow> proc) \<Rightarrow> proc" where
  "do_io m k = Act (\<lambda>s. case m s of (Inl e, t) \<Rightarrow> (Inl e, t) | (Inr x, t) \<Rightarrow> (Inr (k x), t))"

definition send :: "string \<Rightarrow> proc \<Rightarrow> proc" where
  "send c k = do_io (WriteString c) (\<lambda>_. k)"

definition change :: "(SRSServer \<Rightarrow> SRSServer) \<Rightarrow> proc \<Rightarrow> proc" where
  "change g k = do_io (io_update g) (\<lambda>_. k)"

definition look :: "(SRSServer \<Rightarrow> 'a) \<Rightarrow> ('a \<Rightarrow> proc) \<Rightarrow> proc" where
  "look g k = do_io (io_get g) k"

subsection \<open>The driver\<close>

definition srs_line :: "termios \<Rightarrow> termios" where
  "srs_line t = set_speed 115200 t"

definition SRSPowerSupply_new :: "termios option \<Rightarrow> nat \<Rightarrow> bool \<Rightarrow> SRSServer \<Rightarrow> (SRSServer, unit) io" where
  "SRSPowerSupply_new attrs flushed set_ok m = io_seq [
     io_update (\<lambda>d. m\<lparr>usb_in := drop flushed (usb_in d), usb_out := usb_out d,
       tty := srs_line (new_tty attrs), line := line d, SQLStatusMsg := [], replies := replies d,
       stored := stored d\<rparr>),
     io_update (\<lambda>d. if set_ok then d\<lparr>line := Some (tty d)\<rparr> else d),
     io_update (\<lambda>d. d\<lparr>WatchdogFuse := True\<rparr>)]"

text \<open>
  \<open>GetParameterFromSRS<T>\<close>: the specialisation for \<open>std::string\<close> returns the line; the others parse
  it, and control runs off the end of the function when that throws.
\<close>

datatype srs_type = IntT | FloatT | DoubleT | BoolT | OtherT
datatype srs_value = IntV int | FloatV float | DoubleV double | BoolV bool

definition parse_parameter :: "srs_type \<Rightarrow> string \<Rightarrow> exn + srs_value" where
  "parse_parameter T srsReturn = (case T of
      IntT \<Rightarrow> map_sum id IntV (stoi srsReturn)
    | FloatT \<Rightarrow> map_sum id FloatV (stof srsReturn)
    | DoubleT \<Rightarrow> map_sum id DoubleV (stod srsReturn)
    | BoolT \<Rightarrow> Inr (BoolV (srsReturn = ''1''))
    | OtherT \<Rightarrow> Inl Runtime_error)"

definition read_parameter :: "srs_type \<Rightarrow> (SRSServer, srs_value) io" where
  "read_parameter T = io_bind ReadLine (\<lambda>srsReturn. case parse_parameter T srsReturn of
      Inr v \<Rightarrow> io_return v | Inl _ \<Rightarrow> io_fail NoReturnValue)"

definition GetParameterFromSRS :: "srs_type \<Rightarrow> string \<Rightarrow> (srs_value \<Rightarrow> proc) \<Rightarrow> proc" where
  "GetParameterFromSRS T SRSCmd k = send SRSCmd (do_io (read_parameter T) k)"

definition GetStringFromSRS :: "string \<Rightarrow> (string \<Rightarrow> proc) \<Rightarrow> proc" where
  "GetStringFromSRS SRSCmd k = send SRSCmd (do_io ReadLine k)"

fun float_of :: "srs_value \<Rightarrow> float" where
  "float_of (FloatV v) = v"
| "float_of (DoubleV v) = to_float v"
| "float_of (IntV n) = round32 (of_int n)"
| "float_of (BoolV b) = (if b then Fin 1 else Fin 0)"

fun bool_of :: "srs_value \<Rightarrow> bool" where
  "bool_of (BoolV b) = b"
| "bool_of (IntV n) = (n \<noteq> 0)"
| "bool_of (FloatV v) = (v \<noteq> Fin 0)"
| "bool_of (DoubleV v) = (v \<noteq> Fin 0)"

definition ReadPSVoltage :: "(float \<Rightarrow> proc) \<Rightarrow> proc" where
  "ReadPSVoltage k = GetParameterFromSRS FloatT (''VOLT?'' @ [LF]) (\<lambda>v. k (float_of v))"

definition ReadPSOutput :: "(bool \<Rightarrow> proc) \<Rightarrow> proc" where
  "ReadPSOutput k = GetParameterFromSRS IntT (''SOUT?'' @ [LF]) (\<lambda>v. k (bool_of v))"

definition IDN :: "(string \<Rightarrow> proc) \<Rightarrow> proc" where
  "IDN k = GetStringFromSRS (''*IDN?'' @ [LF]) k"

definition IsOVLD :: "(bool \<Rightarrow> proc) \<Rightarrow> proc" where
  "IsOVLD k = GetParameterFromSRS BoolT (''OVLD?'' @ [LF]) (\<lambda>v. k (bool_of v))"

definition WritePSVoltage :: "float \<Rightarrow> proc \<Rightarrow> proc" where
  "WritePSVoltage voltage k = send (''VOLT '' @ to_string_fp voltage @ [LF])
     (ReadPSVoltage (\<lambda>v. change (\<lambda>s. s\<lparr>currentVoltage := v\<rparr>) k))"

definition WritePSOutput :: "bool \<Rightarrow> proc \<Rightarrow> proc" where
  "WritePSOutput out k = send (''SOUT '' @ to_string_bool out @ [LF])
     (ReadPSOutput (\<lambda>b. change (\<lambda>s. s\<lparr>currentOutputStatus := b\<rparr>) k))"

text \<open>\<open>display\<close> is not used.\<close>

definition VoltageRamp :: "float \<Rightarrow> float \<Rightarrow> float \<Rightarrow> bool \<Rightarrow> proc \<Rightarrow> proc" where
  "VoltageRamp startScanVoltage stopScanVoltage scanTime display k =
     look SRSPowerState (\<lambda>on. if on then
       Lock
       (send (''SCAR RANGE'' @ to_string_int 100 @ [LF])
       (send (''SCAB '' @ to_string_fp startScanVoltage @ [LF])
       (send (''SCAE '' @ to_string_fp stopScanVoltage @ [LF])
       (send (''SCAT '' @ to_string_fp scanTime @ [LF])
       (WritePSOutput True
       (send (''SCAD ON'' @ [LF])
       (send (''SCAA 1'' @ [LF])
       (send (''*TRG'' @ [LF])
       (Unlock k)))))))))
     else k)"

definition SRS_UpdateMysql :: "bool \<times> int \<Rightarrow> nat \<Rightarrow> proc \<Rightarrow> proc" where
  "SRS_UpdateMysql CtrlRow warnings k =
     change (\<lambda>s. s\<lparr>SRSPowerState := fst CtrlRow, cWatchdogFuse := snd CtrlRow\<rparr>)
     (change (\<lambda>s. s\<lparr>stored := stored s @
          [(currentVoltage s, currentOutputStatus s, OVLDStatus s, WatchdogFuse s)],
          SQLStatusMsg := (if warnings = 0 then ''OK'' else ''WARN!'' @ [LF])\<rparr>) k)"

definition PerformSweep :: "(bool \<times> int) \<times> nat \<Rightarrow> proc \<Rightarrow> proc" where
  "PerformSweep e k =
     look SRSPowerState (\<lambda>prevPS.
     Lock
     (ReadPSVoltage (\<lambda>v. change (\<lambda>s. s\<lparr>currentVoltage := v\<rparr>)
     (ReadPSOutput (\<lambda>b. change (\<lambda>s. s\<lparr>currentOutputStatus := b\<rparr>)
     (IsOVLD (\<lambda>o'. change (\<lambda>s. s\<lparr>OVLDStatus := o'\<rparr>)
     (Unlock
     (SRS_UpdateMysql (fst e) (snd e)
     (look SRSPowerState (\<lambda>on. if prevPS \<and> prevPS \<noteq> on
       then look currentVoltage (\<lambda>v. VoltageRamp v (Fin 0) (Fin 5) True k)
       else k)))))))))))"

definition ReadMemPSVoltage :: "(float \<Rightarrow> proc) \<Rightarrow> proc" where
  "ReadMemPSVoltage k = look currentVoltage k"

subsection \<open>The server\<close>

text \<open>The calls that \<open>main\<close> binds to names, and the two threads for a finite time.\<close>

datatype srs_call = Call_VoltageRamp float float float bool
  | Call_PerformSweep "(bool \<times> int) \<times> nat"
  | Call_ReadMemVoltage

fun serve :: "srs_call list \<Rightarrow> proc" where
  "serve [] = Halt"
| "serve (Call_VoltageRamp a b t d # cs) = VoltageRamp a b t d (serve cs)"
| "serve (Call_PerformSweep e # cs) = PerformSweep e (serve cs)"
| "serve (Call_ReadMemVoltage # cs) =
     ReadMemPSVoltage (\<lambda>v. change (\<lambda>s. s\<lparr>replies := replies s @ [v]\<rparr>) (serve cs))"

fun timer_start :: "((bool \<times> int) \<times> nat) list \<Rightarrow> proc" where
  "timer_start [] = Halt"
| "timer_start (e # es) = PerformSweep e (timer_start es)"

text \<open>
  Running threads: \<open>owner\<close> is the thread that holds the mutex. A lock waits while the mutex is
  held; a fault ends the process.
\<close>

record system =
  owner :: "nat option"
  srs :: SRSServer
  threads :: "proc list"
  crashed :: "fault option"

definition thread_step :: "nat \<Rightarrow> system \<Rightarrow> system option" where
  "thread_step i c = (if crashed c \<noteq> None \<or> length (threads c) \<le> i then None
     else case threads c ! i of
       Halt \<Rightarrow> None
     | Lock k \<Rightarrow> (if owner c = None then Some (c\<lparr>owner := Some i, threads := (threads c)[i := k]\<rparr>) else None)
     | Unlock k \<Rightarrow> Some (c\<lparr>owner := None, threads := (threads c)[i := k]\<rparr>)
     | Act f \<Rightarrow> (case f (srs c) of
           (Inl e, t) \<Rightarrow> Some (c\<lparr>srs := t, crashed := Some e\<rparr>)
         | (Inr k, t) \<Rightarrow> Some (c\<lparr>srs := t, threads := (threads c)[i := k]\<rparr>)))"

inductive reaches :: "system \<Rightarrow> system \<Rightarrow> bool" where
  start: "reaches c c"
| step: "reaches c d \<Longrightarrow> thread_step i d = Some d' \<Longrightarrow> reaches c d'"

definition server_start :: "SRSServer \<Rightarrow> ((bool \<times> int) \<times> nat) list \<Rightarrow> srs_call list \<Rightarrow> system" where
  "server_start s es cs =
     \<lparr>owner = None, srs = s, threads = [timer_start es, serve cs], crashed = None\<rparr>"

text \<open>One thread alone; \<open>held\<close> is the state of the mutex.\<close>

primrec run_proc :: "proc \<Rightarrow> bool \<times> SRSServer \<Rightarrow> (fault + unit) \<times> bool \<times> SRSServer" where
  "run_proc Halt = (\<lambda>(held, s). (Inr (), held, s))"
| "run_proc (Lock k) = (\<lambda>(held, s). if held then (Inl Blocked, held, s) else run_proc k (True, s))"
| "run_proc (Unlock k) = (\<lambda>(held, s). run_proc k (False, s))"
| "run_proc (Act f) = (\<lambda>(held, s). case map_prod (map_sum id run_proc) id (f s) of
      (Inl e, t) \<Rightarrow> (Inl e, held, t)
    | (Inr r, t) \<Rightarrow> r (held, t))"

subsection \<open>The critical sections\<close>

text \<open>The commands of a sweep and of a ramp, each sent under the mutex.\<close>

definition sweep_block :: "string list" where
  "sweep_block = [''VOLT?'' @ [LF], ''SOUT?'' @ [LF], ''OVLD?'' @ [LF]]"

definition ramp_block :: "float \<Rightarrow> float \<Rightarrow> float \<Rightarrow> string list" where
  "ramp_block a b t = [''SCAR RANGE'' @ to_string_int 100 @ [LF], ''SCAB '' @ to_string_fp a @ [LF],
     ''SCAE '' @ to_string_fp b @ [LF], ''SCAT '' @ to_string_fp t @ [LF],
     ''SOUT '' @ to_string_bool True @ [LF], ''SOUT?'' @ [LF], ''SCAD ON'' @ [LF], ''SCAA 1'' @ [LF],
     ''*TRG'' @ [LF]]"

definition srs_block :: "string list \<Rightarrow> bool" where
  "srs_block ws \<longleftrightarrow> ws = sweep_block \<or> (\<exists>a b t. ws = ramp_block a b t)"

text \<open>
  A thread outside its critical section sends nothing and enters one only through the mutex;
  inside, it has the commands \<open>ws\<close> left to send.
\<close>

inductive tidy :: "proc \<Rightarrow> bool" and crit :: "string list \<Rightarrow> proc \<Rightarrow> bool" where
  tidy_Halt: "tidy Halt"
| tidy_Lock: "srs_block ws \<Longrightarrow> crit ws k \<Longrightarrow> tidy (Lock k)"
| tidy_Act: "(\<And>s. usb_out (snd (f s)) = usb_out s) \<Longrightarrow> (\<And>s p t. f s = (Inr p, t) \<Longrightarrow> tidy p) \<Longrightarrow> tidy (Act f)"
| crit_Unlock: "tidy k \<Longrightarrow> crit [] (Unlock k)"
| crit_Act: "(\<And>s. usb_out (snd (f s)) = usb_out s @ v) \<Longrightarrow> (\<And>s p t. f s = (Inr p, t) \<Longrightarrow> crit ws p)
    \<Longrightarrow> crit (v @ ws) (Act f)"

inductive_cases tidy_LockE: "tidy (Lock k)"
inductive_cases tidy_UnlockE: "tidy (Unlock k)"
inductive_cases tidy_ActE: "tidy (Act f)"
inductive_cases crit_HaltE: "crit ws Halt"
inductive_cases crit_LockE: "crit ws (Lock k)"
inductive_cases crit_UnlockE: "crit ws (Unlock k)"
inductive_cases crit_ActE: "crit ws (Act f)"

lemma tidy_do_io:
  assumes "\<And>s. usb_out (snd (m s)) = usb_out s" "\<And>x. tidy (k x)"
  shows "tidy (do_io m k)"
  unfolding do_io_def
proof (rule tidy_Act)
  fix s show "usb_out (snd (case m s of (Inl e, t) \<Rightarrow> (Inl e, t) | (Inr x, t) \<Rightarrow> (Inr (k x), t))) = usb_out s"
    using assms(1) [of s] by (auto split: prod.splits sum.splits)
next
  fix s p t assume "(case m s of (Inl e, t) \<Rightarrow> (Inl e, t) | (Inr x, t) \<Rightarrow> (Inr (k x), t)) = (Inr p, t)"
  then show "tidy p" using assms(2) by (auto split: prod.splits sum.splits)
qed

lemma crit_do_io:
  assumes "\<And>s. usb_out (snd (m s)) = usb_out s @ v" "\<And>x. crit ws (k x)"
  shows "crit (v @ ws) (do_io m k)"
  unfolding do_io_def
proof (rule crit_Act)
  fix s show "usb_out (snd (case m s of (Inl e, t) \<Rightarrow> (Inl e, t) | (Inr x, t) \<Rightarrow> (Inr (k x), t))) = usb_out s @ v"
    using assms(1) [of s] by (auto split: prod.splits sum.splits)
next
  fix s p t assume "(case m s of (Inl e, t) \<Rightarrow> (Inl e, t) | (Inr x, t) \<Rightarrow> (Inr (k x), t)) = (Inr p, t)"
  then show "crit ws p" using assms(2) by (auto split: prod.splits sum.splits)
qed

lemma read_parameter_quiet: "usb_out (snd (read_parameter T s)) = usb_out s"
proof -
  have "writes (\<lambda>_. False) (read_parameter T)"
    unfolding read_parameter_def by (auto split: sum.splits)
  then obtain ws where "usb_out (snd (read_parameter T s)) = usb_out s @ ws" "list_all (\<lambda>_. False) ws"
    unfolding writes_def outputs_def by blast
  then show ?thesis by (cases ws) simp_all
qed

lemma tidy_look: "(\<And>x. tidy (k x)) \<Longrightarrow> tidy (look g k)"
  unfolding look_def by (rule tidy_do_io) (simp_all add: io_simps)

lemma tidy_change: "(\<And>s. usb_out (g s) = usb_out s) \<Longrightarrow> tidy k \<Longrightarrow> tidy (change g k)"
  unfolding change_def by (rule tidy_do_io) (simp_all add: io_simps)

lemma crit_change: "(\<And>s. usb_out (g s) = usb_out s) \<Longrightarrow> crit ws k \<Longrightarrow> crit ws (change g k)"
  unfolding change_def using crit_do_io [of "io_update g" "[]" ws] by (simp add: io_simps)

lemma crit_send: "crit ws k \<Longrightarrow> crit (c # ws) (send c k)"
  unfolding send_def using crit_do_io [of "WriteString c" "[c]" ws] by (simp add: WriteString_def)

lemma crit_GetParameter: "(\<And>v. crit ws (k v)) \<Longrightarrow> crit (c # ws) (GetParameterFromSRS T c k)"
  unfolding GetParameterFromSRS_def
  using crit_do_io [of "read_parameter T" "[]" ws k] read_parameter_quiet by (auto intro!: crit_send)

lemma tidy_VoltageRamp:
  assumes "tidy k"
  shows "tidy (VoltageRamp a b t d k)"
proof -
  have "srs_block (ramp_block a b t)" by (auto simp: srs_block_def)
  then show ?thesis
    unfolding VoltageRamp_def WritePSOutput_def ReadPSOutput_def
    by (intro tidy_look)
      (auto simp: ramp_block_def assms simp del: append.simps
        intro!: tidy_Lock [of "ramp_block a b t"] crit_send crit_change crit_GetParameter crit_Unlock)
qed

lemma tidy_PerformSweep:
  assumes "tidy k"
  shows "tidy (PerformSweep e k)"
proof -
  have "srs_block sweep_block" by (simp add: srs_block_def)
  then show ?thesis
    unfolding PerformSweep_def SRS_UpdateMysql_def ReadPSVoltage_def ReadPSOutput_def IsOVLD_def
    by (intro tidy_look)
      (auto simp: sweep_block_def assms simp del: append.simps
        intro!: tidy_Lock [of sweep_block] crit_change crit_GetParameter crit_Unlock tidy_change
          tidy_look tidy_VoltageRamp)
qed

lemma tidy_threads: "tidy (timer_start es)" "tidy (serve cs)"
proof -
  show "tidy (timer_start es)" by (induction es) (auto intro: tidy_Halt tidy_PerformSweep)
  show "tidy (serve cs)"
    by (induction cs rule: serve.induct)
      (auto simp: ReadMemPSVoltage_def intro!: tidy_Halt tidy_PerformSweep tidy_VoltageRamp tidy_look tidy_change)
qed

subsection \<open>The invariant of the two threads\<close>

text \<open>\<open>w\<close> is what had been sent before the server started.\<close>

definition threads_ok :: "nat option \<Rightarrow> string list \<Rightarrow> proc list \<Rightarrow> bool" where
  "threads_ok own part ps = (case own of
      None \<Rightarrow> part = [] \<and> (\<forall>p \<in> set ps. tidy p)
    | Some i \<Rightarrow> i < length ps \<and> (\<exists>rest. srs_block (part @ rest) \<and> crit rest (ps ! i))
        \<and> (\<forall>j < length ps. j \<noteq> i \<longrightarrow> tidy (ps ! j)))"

definition system_ok :: "string list \<Rightarrow> system \<Rightarrow> bool" where
  "system_ok w c \<longleftrightarrow> (\<exists>blocks part rest. usb_out (srs c) = w @ concat blocks @ part
     \<and> list_all srs_block blocks \<and> (part = [] \<or> srs_block (part @ rest)) \<and> (owner c = None \<longrightarrow> part = [])
     \<and> (crashed c = None \<longrightarrow> threads_ok (owner c) part (threads c)))"

lemma threads_ok_other:
  assumes "threads_ok own part ps" "own \<noteq> Some i" "i < length ps"
  shows "tidy (ps ! i)" and "tidy q \<Longrightarrow> threads_ok own part (ps[i := q])"
  using assms by (auto simp: threads_ok_def nth_list_update split: option.splits dest: in_set_conv_nth [THEN iffD1]
      dest!: set_update_subset_insert [THEN subsetD])

lemma threads_ok_owner:
  assumes "threads_ok (Some i) part ps"
  obtains rest where "i < length ps" "srs_block (part @ rest)" "crit rest (ps ! i)"
    "\<And>part' rest' q. srs_block (part' @ rest') \<Longrightarrow> crit rest' q \<Longrightarrow> threads_ok (Some i) part' (ps[i := q])"
    "\<And>q. tidy q \<Longrightarrow> threads_ok None [] (ps[i := q])"
proof -
  have ps: "i < length ps" "\<forall>j < length ps. j \<noteq> i \<longrightarrow> tidy (ps ! j)"
    using assms by (auto simp: threads_ok_def)
  obtain rest where "srs_block (part @ rest)" "crit rest (ps ! i)" using assms by (auto simp: threads_ok_def)
  then show thesis
  proof (rule that [OF ps(1)])
    fix part' rest' q
    assume "srs_block (part' @ rest')" "crit rest' q"
    then show "threads_ok (Some i) part' (ps[i := q])" using ps by (auto simp: threads_ok_def)
  next
    fix q assume "tidy q"
    then show "threads_ok None [] (ps[i := q])"
      using ps by (auto simp: threads_ok_def in_set_conv_nth nth_list_update)
  qed
qed

lemma system_okI:
  assumes "usb_out (srs c) = w @ concat blocks @ part" "list_all srs_block blocks"
    "part = [] \<or> srs_block (part @ rest)" "owner c = None \<longrightarrow> part = []"
    "crashed c = None \<longrightarrow> threads_ok (owner c) part (threads c)"
  shows "system_ok w c"
  unfolding system_ok_def by (intro exI conjI) (rule assms)+

lemma system_ok_step:
  assumes ok: "system_ok w c" and st: "thread_step i c = Some d"
  shows "system_ok w d"
proof -
  obtain blocks part rest0 where u: "usb_out (srs c) = w @ concat blocks @ part" "list_all srs_block blocks"
    "part = [] \<or> srs_block (part @ rest0)" "owner c = None \<longrightarrow> part = []"
    and t: "crashed c = None \<longrightarrow> threads_ok (owner c) part (threads c)"
    using ok unfolding system_ok_def by (elim exE conjE)
  have i: "i < length (threads c)" "crashed c = None"
    using st by (auto simp: thread_step_def split: if_splits)
  note t = t [rule_format, OF i(2)]
  show ?thesis
  proof (cases "owner c = Some i")
    case True
    obtain rest where r: "srs_block (part @ rest)" "crit rest (threads c ! i)"
      and upd: "\<And>part' rest' q. srs_block (part' @ rest') \<Longrightarrow> crit rest' q \<Longrightarrow> threads_ok (Some i) part' ((threads c)[i := q])"
      and fin: "\<And>q. tidy q \<Longrightarrow> threads_ok None [] ((threads c)[i := q])"
      using threads_ok_owner t True by metis
    show ?thesis
    proof (cases "threads c ! i")
      case (Unlock k)
      then have k: "rest = []" "tidy k" using r(2) by (auto elim: crit_UnlockE)
      have "d = c\<lparr>owner := None, threads := (threads c)[i := k]\<rparr>"
        using st i Unlock by (simp add: thread_step_def)
      then show ?thesis using u r k fin i
        by (intro system_okI [of d w "blocks @ [part]" "[]"]) simp_all
    next
      case (Act f)
      obtain v ws where v: "rest = v @ ws" "\<And>s. usb_out (snd (f s)) = usb_out s @ v"
        "\<And>s p t. f s = (Inr p, t) \<Longrightarrow> crit ws p"
        using r(2) unfolding Act by (elim crit_ActE) blast
      obtain x s' where f: "f (srs c) = (x, s')" by (cases "f (srs c)") auto
      have out: "usb_out s' = w @ concat blocks @ part @ v" using v(2) [of "srs c"] f u(1) by simp
      have blk: "srs_block ((part @ v) @ ws)" using r(1) v(1) by simp
      show ?thesis
      proof (cases x)
        case (Inl e)
        then have "d = c\<lparr>srs := s', crashed := Some e\<rparr>"
          using st i Act f by (simp add: thread_step_def)
        then show ?thesis using out u(2) blk True
          by (intro system_okI [of d w blocks "part @ v" ws]) simp_all
      next
        case (Inr k)
        then have "d = c\<lparr>srs := s', threads := (threads c)[i := k]\<rparr>"
          using st i Act f by (simp add: thread_step_def)
        moreover have "crit ws k" using v(3) f Inr by simp
        ultimately show ?thesis using out u(2) blk True upd [OF blk]
          by (intro system_okI [of d w blocks "part @ v" ws]) simp_all
      qed
    qed (use r(2) in \<open>auto elim: crit_HaltE crit_LockE\<close>)
  next
    case False
    have td: "tidy (threads c ! i)" using threads_ok_other(1) [OF t False i(1)] .
    show ?thesis
    proof (cases "threads c ! i")
      case Halt
      then show ?thesis using st i by (simp add: thread_step_def)
    next
      case (Lock k)
      then obtain ws where ws: "srs_block ws" "crit ws k" using td by (auto elim: tidy_LockE)
      have d: "owner c = None" "d = c\<lparr>owner := Some i, threads := (threads c)[i := k]\<rparr>"
        using st i Lock by (auto simp: thread_step_def split: if_splits)
      have "threads_ok (Some i) [] ((threads c)[i := k])"
        using t ws i d(1) by (auto simp: threads_ok_def)
      then show ?thesis using u d i by (intro system_okI [of d w blocks "[]"]) simp_all
    next
      case (Unlock k)
      then show ?thesis using td by (auto elim: tidy_UnlockE)
    next
      case (Act f)
      then have "tidy (Act f)" using td by simp
      then have v: "\<And>s. usb_out (snd (f s)) = usb_out s" "\<And>s p t. f s = (Inr p, t) \<Longrightarrow> tidy p"
        by (blast elim: tidy_ActE)+
      obtain x s' where f: "f (srs c) = (x, s')" by (cases "f (srs c)") auto
      have out: "usb_out s' = w @ concat blocks @ part" using v(1) [of "srs c"] f u(1) by simp
      show ?thesis
      proof (cases x)
        case (Inl e)
        then have "d = c\<lparr>srs := s', crashed := Some e\<rparr>"
          using st i Act f by (simp add: thread_step_def)
        then show ?thesis using out u by (intro system_okI [of d w blocks part rest0]) simp_all
      next
        case (Inr k)
        then have "d = c\<lparr>srs := s', threads := (threads c)[i := k]\<rparr>"
          using st i Act f by (simp add: thread_step_def)
        moreover have "tidy k" using v(2) f Inr by simp
        ultimately show ?thesis using out u threads_ok_other(2) [OF t False i(1)]
          by (intro system_okI [of d w blocks part rest0]) simp_all
      qed
    qed
  qed
qed

lemma system_ok_reaches:
  assumes "reaches c d" "system_ok w c"
  shows "system_ok w d"
  using assms by induction (auto intro: system_ok_step)

lemma system_ok_start: "system_ok (usb_out s) (server_start s es cs)"
  using tidy_threads(1) [of es] tidy_threads(2) [of cs]
  by (intro system_okI [where blocks = "[]" and part = "[]"]) (auto simp: server_start_def threads_ok_def)

subsection \<open>One thread alone\<close>

lemma run_do_io [io_simps]:
  "run_proc (do_io m k) (h, s) = (case m s of (Inl e, t) \<Rightarrow> (Inl e, h, t) | (Inr x, t) \<Rightarrow> run_proc (k x) (h, t))"
  by (simp add: do_io_def split: prod.splits sum.splits)

lemma run_ops [io_simps]:
  "run_proc (send c k) (h, s) = run_proc k (h, s\<lparr>usb_out := usb_out s @ [c]\<rparr>)"
  "run_proc (change g k) (h, s) = run_proc k (h, g s)"
  by (simp_all add: send_def change_def run_do_io WriteString_def io_simps)

lemma run_look [io_simps]: "run_proc (look g f) (h, s) = run_proc (f (g s)) (h, s)"
  by (simp add: look_def run_do_io io_simps)

lemma run_GetParameter:
  assumes "good_line l" "usb_in s = sends l @ rs" "parse_parameter T (l @ [LF]) = Inr v"
  shows "run_proc (GetParameterFromSRS T c k) (h, s)
    = run_proc (k v) (h, s\<lparr>usb_in := rs, usb_out := usb_out s @ [c]\<rparr>)"
  using assms
  by (cases s) (simp add: GetParameterFromSRS_def io_simps read_parameter_def io_bind_def ReadLine_sends)

text \<open>A line without NUL is read as it came, with its terminator; the rest is part of the input.\<close>

lemma line_loop_set:
  "line_loop acc rs = (r, rs') \<Longrightarrow> set rs' \<subseteq> set rs \<and>
    (\<forall>n l. r = Inr (n, l) \<longrightarrow> set l \<subseteq> set acc \<union> {c. Byte c \<in> set rs})"
proof (induction rs arbitrary: acc)
  case (Cons x rs)
  show ?case
  proof (cases x)
    case (Byte c)
    then show ?thesis using Cons.prems Cons.IH [of "acc @ [c]"] by (auto split: if_splits)
  next
    case Silence
    then show ?thesis using Cons.prems Cons.IH [of acc] by auto
  qed (use Cons.prems in \<open>auto split: if_splits\<close>)
qed auto

lemma ReadLine_not_bare:
  assumes "Byte NUL \<notin> set (usb_in s)" "ReadLine s = (Inr x, t)"
  shows "(x = [] \<or> (\<exists>l. x = l @ [LF])) \<and> set (usb_in t) \<subseteq> set (usb_in s)"
proof -
  obtain n l rs where l: "line_loop [] (usb_in s) = (Inr (n, l), rs)" "x = finish_line (n, l)" "t = s\<lparr>usb_in := rs\<rparr>"
    using assms(2) by (auto simp: ReadLine_def split: prod.splits sum.splits)
  have "NUL \<notin> set l" using line_loop_set [OF l(1)] assms(1) by auto
  then have "x = [] \<or> (\<exists>l. x = l @ [LF])"
    using l(2) line_loop_result [OF l(1)] by (auto simp: finish_line_def c_string_id)
  then show ?thesis using l(3) line_loop_set [OF l(1)] by simp
qed

lemma ReadLine_input: "ReadLine s = (r, t) \<Longrightarrow> set (usb_in t) \<subseteq> set (usb_in s)"
  using line_loop_set [of "[]" "usb_in s"] by (auto simp: ReadLine_def split: prod.splits sum.splits)

lemma read_parameter_input:
  assumes "read_parameter T s = (Inr v, t)"
  shows "set (usb_in t) \<subseteq> set (usb_in s)"
    and "Byte NUL \<notin> set (usb_in s) \<Longrightarrow> T = BoolT \<Longrightarrow> v = BoolV False"
proof -
  obtain x where x: "ReadLine s = (Inr x, t)" "parse_parameter T x = Inr v"
    using assms unfolding read_parameter_def
    by (elim io_bind_cases) (auto simp: io_simps split: sum.splits)
  show "set (usb_in t) \<subseteq> set (usb_in s)" using ReadLine_input x(1) by blast
  assume "Byte NUL \<notin> set (usb_in s)" "T = BoolT"
  then show "v = BoolV False"
    using ReadLine_not_bare [OF _ x(1)] x(2) by (auto simp: parse_parameter_def append_eq_Cons_conv)
qed

lemma run_GetParameter_cases:
  assumes "run_proc (GetParameterFromSRS T c k) (h, s) = (Inr (), h', t)"
  obtains v u where "read_parameter T (s\<lparr>usb_out := usb_out s @ [c]\<rparr>) = (Inr v, u)"
    "run_proc (k v) (h, u) = (Inr (), h', t)"
  using assms unfolding GetParameterFromSRS_def
  by (auto simp: io_simps split: prod.splits sum.splits)

subsection \<open>Properties\<close>

text \<open>
  C13: the mutex keeps exchanges with the instrument whole. However the two threads interleave,
  and wherever a fault may end the process, what the server has sent is a sequence of complete
  sweeps and complete ramps followed by the beginning of at most one more, and there is no such
  beginning while the mutex is free.
\<close>

theorem exchanges_not_mixed:
  assumes "reaches (server_start s es cs) c"
  shows "\<exists>blocks part rest. usb_out (srs c) = usb_out s @ concat blocks @ part
    \<and> list_all srs_block blocks \<and> (part = [] \<or> srs_block (part @ rest)) \<and> (owner c = None \<longrightarrow> part = [])"
  using system_ok_reaches [OF assms system_ok_start] unfolding system_ok_def
  by (elim exE conjE) (intro exI conjI)

lemma owner_moves:
  assumes "crit ws (threads c ! i)" "i < length (threads c)" "crashed c = None"
  shows "thread_step i c \<noteq> None"
  using assms by (cases "threads c ! i") (auto simp: thread_step_def elim: crit_HaltE crit_LockE split: prod.splits sum.splits)

text \<open>
  C18: the server does not deadlock. In every reachable state without a fault, some thread can take
  a step or both have finished.
\<close>

theorem server_no_deadlock:
  assumes "reaches (server_start s es cs) c" "crashed c = None"
  shows "(\<exists>i. thread_step i c \<noteq> None) \<or> (\<forall>p \<in> set (threads c). p = Halt)"
proof -
  obtain part where t: "threads_ok (owner c) part (threads c)"
    using system_ok_reaches [OF assms(1) system_ok_start] assms(2) unfolding system_ok_def by blast
  show ?thesis
  proof (cases "owner c")
    case None
    have move: "thread_step i c \<noteq> None" if i: "i < length (threads c)" "threads c ! i \<noteq> Halt" for i
    proof -
      have "tidy (threads c ! i)" using threads_ok_other(1) [OF t _ i(1)] None by simp
      then show ?thesis using i None assms(2)
        by (cases "threads c ! i") (auto simp: thread_step_def elim: tidy_UnlockE split: prod.splits sum.splits)
    qed
    then show ?thesis by (metis in_set_conv_nth)
  next
    case (Some i)
    then obtain rest where "crit rest (threads c ! i)" "i < length (threads c)"
      using t by (auto simp: threads_ok_def)
    then show ?thesis using owner_moves assms(2) by blast
  qed
qed

definition srs_sample :: "rd list \<Rightarrow> SRSServer" where
  "srs_sample ins = \<lparr>usb_in = ins, usb_out = [], tty = zero_termios, line = None,
     currentVoltage = Fin 0, currentOutputStatus = False, OVLDStatus = False, WatchdogFuse = True,
     SRSPowerState = True, SQLStatusMsg = [], cWatchdogFuse = 1, replies = [], stored = []\<rparr>"

text \<open>The answers to a sweep, and a system in which the sweep has read the state and locked.\<close>

definition sweep_answers :: "rd list" where
  "sweep_answers = sends ''5'' @ sends ''1'' @ sends ''1'' @ []"

definition locked_system :: system where
  "locked_system = the (thread_step 0 (the (thread_step 0
     (server_start (srs_sample sweep_answers) [((False, 1), 0)] [Call_ReadMemVoltage]))))"

lemma locked_system_reached:
  "reaches (server_start (srs_sample sweep_answers) [((False, 1), 0)] [Call_ReadMemVoltage]) locked_system"
  "crashed locked_system = None"
proof -
  let ?c = "server_start (srs_sample sweep_answers) [((False, 1), 0)] [Call_ReadMemVoltage]"
  obtain c1 where c1: "thread_step 0 ?c = Some c1" "crashed c1 = None" "owner c1 = None" "threads c1 \<noteq> []"
    "\<exists>k. threads c1 ! 0 = Lock k"
    by (simp add: server_start_def thread_step_def PerformSweep_def look_def do_io_def io_simps)
  then obtain c2 where c2: "thread_step 0 c1 = Some c2" "crashed c2 = None"
    by (auto simp: thread_step_def)
  have "locked_system = c2" by (simp add: locked_system_def c1 c2)
  then show "reaches ?c locked_system" "crashed locked_system = None"
    using reaches.step [OF reaches.step [OF reaches.start c1(1)] c2(1)] c2(2) by simp_all
qed

theorem exchanges_not_mixed_witness:
  "\<exists>blocks part rest. usb_out (srs locked_system) = usb_out (srs_sample sweep_answers) @ concat blocks @ part
    \<and> list_all srs_block blocks \<and> (part = [] \<or> srs_block (part @ rest))
    \<and> (owner locked_system = None \<longrightarrow> part = [])"
  by (rule exchanges_not_mixed [OF locked_system_reached(1)])

theorem server_no_deadlock_witness:
  "(\<exists>i. thread_step i locked_system \<noteq> None) \<or> (\<forall>p \<in> set (threads locked_system). p = Halt)"
  by (rule server_no_deadlock [OF locked_system_reached])

lemma sweep_runs:
  assumes "good_line l1" "good_line l2" "good_line l3" "usb_in s = sends l1 @ sends l2 @ sends l3 @ rs"
    and "stof (l1 @ [LF]) = Inr v" "stoi (l2 @ [LF]) = Inr n"
  shows "\<exists>t. run_proc (PerformSweep ((on, fuse), w) Halt) (False, s) = (Inr (), False, t)
    \<and> usb_in t = rs
    \<and> usb_out t = usb_out s @ [''VOLT?'' @ [LF], ''SOUT?'' @ [LF], ''OVLD?'' @ [LF]]
    \<and> currentVoltage t = v \<and> currentOutputStatus t = (n \<noteq> 0) \<and> SRSPowerState t = on
    \<and> stored t = stored s @ [(v, n \<noteq> 0, OVLDStatus t, WatchdogFuse s)]"
  using assms
  by (auto simp: PerformSweep_def ReadPSVoltage_def ReadPSOutput_def IsOVLD_def SRS_UpdateMysql_def
      VoltageRamp_def io_simps run_GetParameter parse_parameter_def)

text \<open>
  A sweep. With the three answers waiting, a sweep sends exactly the three queries, stores the
  voltage and the output state in the object and the database, takes over the power state and frees
  the mutex. When the power state went from on to off nothing more is sent: the ramp down to zero
  volts that the code asks for is suppressed, since \<open>VoltageRamp\<close> does nothing while the power
  state is off.
\<close>

theorem sweep_sends_no_ramp:
  assumes "good_line l1" "good_line l2" "good_line l3" "usb_in s = sends l1 @ sends l2 @ sends l3 @ rs"
    and "stof (l1 @ [LF]) = Inr v" "stoi (l2 @ [LF]) = Inr n"
  shows "\<exists>t. run_proc (PerformSweep ((on, fuse), w) Halt) (False, s) = (Inr (), False, t)
    \<and> usb_in t = rs
    \<and> usb_out t = usb_out s @ [''VOLT?'' @ [LF], ''SOUT?'' @ [LF], ''OVLD?'' @ [LF]]
    \<and> currentVoltage t = v \<and> currentOutputStatus t = (n \<noteq> 0) \<and> SRSPowerState t = on
    \<and> stored t = stored s @ [(v, n \<noteq> 0, OVLDStatus t, WatchdogFuse s)]"
  by (rule sweep_runs [OF assms])

theorem sweep_sends_no_ramp_witness:
  "\<exists>t. run_proc (PerformSweep ((False, 1), 0) Halt) (False, srs_sample (sends ''5'' @ sends ''1'' @ sends ''1'' @ []))
      = (Inr (), False, t) \<and> usb_in t = []
    \<and> usb_out t = usb_out (srs_sample (sends ''5'' @ sends ''1'' @ sends ''1'' @ []))
        @ [''VOLT?'' @ [LF], ''SOUT?'' @ [LF], ''OVLD?'' @ [LF]]
    \<and> currentVoltage t = Fin 5 \<and> currentOutputStatus t = ((1 :: int) \<noteq> 0) \<and> SRSPowerState t = False
    \<and> stored t = stored (srs_sample (sends ''5'' @ sends ''1'' @ sends ''1'' @ []))
        @ [(Fin 5, (1 :: int) \<noteq> 0, OVLDStatus t, WatchdogFuse (srs_sample (sends ''5'' @ sends ''1'' @ sends ''1'' @ [])))]"
proof (rule sweep_sends_no_ramp)
  show "stof (''5'' @ [LF]) = Inr (Fin 5)" "stoi (''1'' @ [LF]) = Inr 1" by code_simp+
qed (simp_all add: srs_sample_def good_line_def)

text \<open>
  An overload is never seen. Whatever the instrument answers, if no NUL comes over the line, a
  sweep that ends has stored \<open>false\<close> as the overload state, because the line that is compared with
  \<open>1\<close> still has its terminator.
\<close>

theorem overload_never_seen:
  assumes "Byte NUL \<notin> set (usb_in s)" "run_proc (PerformSweep e Halt) (False, s) = (Inr (), h, t)"
  shows "\<not> OVLDStatus t"
proof -
  define fin where "fin = SRS_UpdateMysql (fst e) (snd e) (look SRSPowerState (\<lambda>on.
      if SRSPowerState s \<and> SRSPowerState s \<noteq> on then look currentVoltage (\<lambda>v. VoltageRamp v (Fin 0) (Fin 5) True Halt) else Halt))"
  have fin: "run_proc fin (False, u) = (Inr (), h, t) \<Longrightarrow> OVLDStatus t = OVLDStatus u" for u
    by (auto simp: fin_def SRS_UpdateMysql_def VoltageRamp_def io_simps split: if_splits)
  have a: "run_proc (GetParameterFromSRS FloatT (''VOLT?'' @ [LF]) (\<lambda>v.
      change (\<lambda>s. s\<lparr>currentVoltage := float_of v\<rparr>) (GetParameterFromSRS IntT (''SOUT?'' @ [LF]) (\<lambda>b.
      change (\<lambda>s. s\<lparr>currentOutputStatus := bool_of b\<rparr>) (GetParameterFromSRS BoolT (''OVLD?'' @ [LF]) (\<lambda>o'.
      change (\<lambda>s. s\<lparr>OVLDStatus := bool_of o'\<rparr>) (Unlock fin))))))) (True, s) = (Inr (), h, t)"
    using assms(2)
    by (simp add: PerformSweep_def ReadPSVoltage_def ReadPSOutput_def IsOVLD_def io_simps fin_def)
  then obtain v1 u1 where 1: "read_parameter FloatT (s\<lparr>usb_out := usb_out s @ [''VOLT?'' @ [LF]]\<rparr>) = (Inr v1, u1)"
    "run_proc (GetParameterFromSRS IntT (''SOUT?'' @ [LF]) (\<lambda>b.
      change (\<lambda>s. s\<lparr>currentOutputStatus := bool_of b\<rparr>) (GetParameterFromSRS BoolT (''OVLD?'' @ [LF]) (\<lambda>o'.
      change (\<lambda>s. s\<lparr>OVLDStatus := bool_of o'\<rparr>) (Unlock fin))))) (True, u1\<lparr>currentVoltage := float_of v1\<rparr>) = (Inr (), h, t)"
    by (elim run_GetParameter_cases) (simp add: io_simps)
  obtain v2 u2 where 2: "read_parameter IntT (u1\<lparr>currentVoltage := float_of v1, usb_out := usb_out u1 @ [''SOUT?'' @ [LF]]\<rparr>) = (Inr v2, u2)"
    "run_proc (GetParameterFromSRS BoolT (''OVLD?'' @ [LF]) (\<lambda>o'.
      change (\<lambda>s. s\<lparr>OVLDStatus := bool_of o'\<rparr>) (Unlock fin))) (True, u2\<lparr>currentOutputStatus := bool_of v2\<rparr>) = (Inr (), h, t)"
    using 1(2) by (elim run_GetParameter_cases) (simp add: io_simps)
  obtain v3 u3 where 3: "read_parameter BoolT (u2\<lparr>currentOutputStatus := bool_of v2, usb_out := usb_out u2 @ [''OVLD?'' @ [LF]]\<rparr>) = (Inr v3, u3)"
    "run_proc fin (False, u3\<lparr>OVLDStatus := bool_of v3\<rparr>) = (Inr (), h, t)"
    using 2(2) by (elim run_GetParameter_cases) (simp add: io_simps)
  have "v3 = BoolV False"
    using read_parameter_input(2) [OF 3(1)] read_parameter_input(1) [OF 1(1)]
      read_parameter_input(1) [OF 2(1)] assms(1) by auto
  then show ?thesis using fin [OF 3(2)] by simp
qed

theorem overload_never_seen_witness:
  "\<not> OVLDStatus (snd (snd (run_proc (PerformSweep ((False, 1), 0) Halt) (False, srs_sample sweep_answers))))"
proof -
  have n: "stof (''5'' @ [LF]) = Inr (Fin 5)" "stoi (''1'' @ [LF]) = Inr 1" by code_simp+
  obtain t where "run_proc (PerformSweep ((False, 1), 0) Halt) (False, srs_sample sweep_answers) = (Inr (), False, t)"
    using sweep_runs [of "''5''" "''1''" "''1''" "srs_sample sweep_answers" "[]" "Fin 5" 1 False 1 0] n
    by (auto simp: srs_sample_def sweep_answers_def good_line_def)
  moreover have "Byte NUL \<notin> set (usb_in (srs_sample sweep_answers))"
    by (simp add: srs_sample_def sweep_answers_def sends_def)
  ultimately show ?thesis using overload_never_seen [of "srs_sample sweep_answers" "((False, 1), 0)" False t] by simp
qed

end
