(* ===== verification/PID.thy ===== *)
theory PID
  imports Floats
begin

text \<open>
  \<open>PID_v1.h\<close> and \<open>PID_v1.cpp\<close>. The controller holds pointers to its input, output and set-point
  variables: a variable is a name of type \<open>'v\<close> and the memory maps names to values, so two
  controllers over one memory share what the code lets them share. \<open>std::time(0)\<close> is the argument
  \<open>now\<close>, an \<open>unsigned long\<close>. Members that the constructor leaves unset keep what was in the
  raw storage.
\<close>

definition AUTOMATIC :: int where "AUTOMATIC = 1"
definition MANUAL :: int where "MANUAL = 0"
definition DIRECT :: int where "DIRECT = 0"
definition REVERSE :: int where "REVERSE = 1"
definition P_ON_M :: int where "P_ON_M = 0"
definition P_ON_E :: int where "P_ON_E = 1"

record 'v PID =
  dispKp :: double
  dispKi :: double
  dispKd :: double
  kp :: double
  ki :: double
  kd :: double
  controllerDirection :: int
  pOn :: int
  myInput :: 'v
  myOutput :: 'v
  mySetpoint :: 'v
  lastTime :: "64 word"
  outputSum :: double
  lastInput :: double
  SampleTime :: "64 word"
  outMin :: double
  outMax :: double
  inAuto :: bool
  pOnE :: bool

type_synonym 'v mem = "'v \<Rightarrow> double"

subsection \<open>The operations\<close>

definition SetOutputLimits :: "double \<Rightarrow> double \<Rightarrow> 'v PID \<Rightarrow> 'v mem \<Rightarrow> 'v PID \<times> 'v mem" where
  "SetOutputLimits newMin newMax p m = (if newMax \<le> newMin then (p, m) else
     let p = p\<lparr>outMin := newMin, outMax := newMax\<rparr> in
     if inAuto p then
       (p\<lparr>outputSum := clampf (outMin p) (outMax p) (outputSum p)\<rparr>,
        m(myOutput p := clampf (outMin p) (outMax p) (m (myOutput p))))
     else (p, m))"

definition SetTunings4 :: "double \<Rightarrow> double \<Rightarrow> double \<Rightarrow> int \<Rightarrow> 'v PID \<Rightarrow> 'v PID" where
  "SetTunings4 Kp Ki Kd POn p = (if Kp < Fin 0 \<or> Ki < Fin 0 \<or> Kd < Fin 0 then p else
     let p = p\<lparr>pOn := POn, pOnE := POn = P_ON_E, dispKp := Kp, dispKi := Ki, dispKd := Kd\<rparr>;
       SampleTimeInSec = of_int64 (uint (SampleTime p)) / Fin 1;
       p = p\<lparr>kp := Kp, ki := Ki * SampleTimeInSec, kd := Kd / SampleTimeInSec\<rparr> in
     if controllerDirection p = REVERSE
     then p\<lparr>kp := Fin 0 - kp p, ki := Fin 0 - ki p, kd := Fin 0 - kd p\<rparr> else p)"

definition SetTunings :: "double \<Rightarrow> double \<Rightarrow> double \<Rightarrow> 'v PID \<Rightarrow> 'v PID" where
  "SetTunings Kp Ki Kd p = SetTunings4 Kp Ki Kd (pOn p) p"

definition SetSampleTime :: "int \<Rightarrow> 'v PID \<Rightarrow> 'v PID" where
  "SetSampleTime NewSampleTime p = (if 0 < NewSampleTime then
     let ratio = of_int64 NewSampleTime / of_int64 (uint (SampleTime p)) in
     p\<lparr>ki := ki p * ratio, kd := kd p / ratio, SampleTime := word_of_int NewSampleTime\<rparr> else p)"

definition SetControllerDirection :: "int \<Rightarrow> 'v PID \<Rightarrow> 'v PID" where
  "SetControllerDirection Direction p =
     (if inAuto p \<and> Direction \<noteq> controllerDirection p
      then p\<lparr>kp := Fin 0 - kp p, ki := Fin 0 - ki p, kd := Fin 0 - kd p\<rparr> else p)
     \<lparr>controllerDirection := Direction\<rparr>"

definition Initialize :: "'v PID \<Rightarrow> 'v mem \<Rightarrow> 'v PID" where
  "Initialize p m = p\<lparr>outputSum := clampf (outMin p) (outMax p) (m (myOutput p)),
     lastInput := m (myInput p)\<rparr>"

definition SetMode :: "int \<Rightarrow> 'v PID \<Rightarrow> 'v mem \<Rightarrow> 'v PID" where
  "SetMode Mode p m = (let newAuto = (Mode = AUTOMATIC);
     p = (if newAuto \<and> \<not> inAuto p then Initialize p m else p)
   in p\<lparr>inAuto := newAuto\<rparr>)"

definition Compute :: "64 word \<Rightarrow> 'v PID \<Rightarrow> 'v mem \<Rightarrow> bool \<times> 'v PID \<times> 'v mem" where
  "Compute now p m = (if \<not> inAuto p then (False, p, m) else
     let timeChange = now - lastTime p in
     if SampleTime p \<le> timeChange then
       let input = m (myInput p);
         error = m (mySetpoint p) - input;
         dInput = input - lastInput p;
         sum = outputSum p + ki p * error;
         sum = (if \<not> pOnE p then sum - kp p * dInput else sum);
         sum = clampf (outMin p) (outMax p) sum;
         output = (if pOnE p then kp p * error else Fin 0);
         output = output + (sum - kd p * dInput);
         output = clampf (outMin p) (outMax p) output
       in (True, p\<lparr>outputSum := sum, lastInput := input, lastTime := now\<rparr>,
           m(myOutput p := output))
     else (False, p, m))"

definition PID_new8 :: "'v PID \<Rightarrow> 'v \<Rightarrow> 'v \<Rightarrow> 'v \<Rightarrow> double \<Rightarrow> double \<Rightarrow> double \<Rightarrow> int \<Rightarrow> int
    \<Rightarrow> 64 word \<Rightarrow> 'v mem \<Rightarrow> 'v PID \<times> 'v mem" where
  "PID_new8 raw Input Output Setpoint Kp Ki Kd POn ControllerDirection now m =
    (let p = raw\<lparr>myOutput := Output, myInput := Input, mySetpoint := Setpoint, inAuto := False\<rparr>;
       (p, m) = SetOutputLimits (Fin 0) (Fin 75) p m;
       p = p\<lparr>SampleTime := 1\<rparr>;
       p = SetControllerDirection ControllerDirection p;
       p = SetTunings4 Kp Ki Kd POn p
     in (p\<lparr>lastTime := now - SampleTime p\<rparr>, m))"

definition PID_new7 :: "'v PID \<Rightarrow> 'v \<Rightarrow> 'v \<Rightarrow> 'v \<Rightarrow> double \<Rightarrow> double \<Rightarrow> double \<Rightarrow> int
    \<Rightarrow> 64 word \<Rightarrow> 'v mem \<Rightarrow> 'v PID \<times> 'v mem" where
  "PID_new7 raw Input Output Setpoint Kp Ki Kd ControllerDirection now m =
     PID_new8 raw Input Output Setpoint Kp Ki Kd P_ON_E ControllerDirection now m"

definition GetKp :: "'v PID \<Rightarrow> double" where "GetKp p = dispKp p"
definition GetKi :: "'v PID \<Rightarrow> double" where "GetKi p = dispKi p"
definition GetKd :: "'v PID \<Rightarrow> double" where "GetKd p = dispKd p"
definition GetMode :: "'v PID \<Rightarrow> int" where "GetMode p = (if inAuto p then AUTOMATIC else MANUAL)"
definition GetDirection :: "'v PID \<Rightarrow> int" where "GetDirection p = controllerDirection p"

lemmas pid_consts = AUTOMATIC_def MANUAL_def DIRECT_def REVERSE_def P_ON_M_def P_ON_E_def

subsection \<open>What each operation leaves alone\<close>

lemma SetOutputLimits_frame [pid_simps]:
  "SetOutputLimits lo hi p m = (p', m') \<Longrightarrow>
     p' = p\<lparr>outMin := outMin p', outMax := outMax p', outputSum := outputSum p'\<rparr> \<and>
     (\<forall>v. v \<noteq> myOutput p \<longrightarrow> m' v = m v)"
  by (auto simp: SetOutputLimits_def Let_def split: if_splits)

lemma SetOutputLimits_fields [pid_simps]:
  "inAuto (fst (SetOutputLimits lo hi p m)) = inAuto p"
  "myInput (fst (SetOutputLimits lo hi p m)) = myInput p"
  "myOutput (fst (SetOutputLimits lo hi p m)) = myOutput p"
  "mySetpoint (fst (SetOutputLimits lo hi p m)) = mySetpoint p"
  "lastTime (fst (SetOutputLimits lo hi p m)) = lastTime p"
  "SampleTime (fst (SetOutputLimits lo hi p m)) = SampleTime p"
  "lastInput (fst (SetOutputLimits lo hi p m)) = lastInput p"
  "kp (fst (SetOutputLimits lo hi p m)) = kp p"
  "ki (fst (SetOutputLimits lo hi p m)) = ki p"
  "kd (fst (SetOutputLimits lo hi p m)) = kd p"
  "dispKp (fst (SetOutputLimits lo hi p m)) = dispKp p"
  "dispKi (fst (SetOutputLimits lo hi p m)) = dispKi p"
  "dispKd (fst (SetOutputLimits lo hi p m)) = dispKd p"
  "pOnE (fst (SetOutputLimits lo hi p m)) = pOnE p"
  "pOn (fst (SetOutputLimits lo hi p m)) = pOn p"
  "controllerDirection (fst (SetOutputLimits lo hi p m)) = controllerDirection p"
  "v \<noteq> myOutput p \<Longrightarrow> snd (SetOutputLimits lo hi p m) v = m v"
  by (simp_all add: SetOutputLimits_def Let_def)

lemma SetOutputLimits_set [pid_simps]:
  "\<not> hi \<le> lo \<Longrightarrow> outMin (fst (SetOutputLimits lo hi p m)) = lo"
  "\<not> hi \<le> lo \<Longrightarrow> outMax (fst (SetOutputLimits lo hi p m)) = hi"
  "\<not> hi \<le> lo \<Longrightarrow> inAuto p \<Longrightarrow> snd (SetOutputLimits lo hi p m) (myOutput p) = clampf lo hi (m (myOutput p))"
  "\<not> hi \<le> lo \<Longrightarrow> inAuto p \<Longrightarrow> outputSum (fst (SetOutputLimits lo hi p m)) = clampf lo hi (outputSum p)"
  "\<not> inAuto p \<Longrightarrow> snd (SetOutputLimits lo hi p m) = m"
  "\<not> inAuto p \<Longrightarrow> outputSum (fst (SetOutputLimits lo hi p m)) = outputSum p"
  by (simp_all add: SetOutputLimits_def Let_def)

lemma SetMode_fields [pid_simps]:
  "inAuto (SetMode k p m) = (k = AUTOMATIC)"
  "myInput (SetMode k p m) = myInput p" "myOutput (SetMode k p m) = myOutput p"
  "mySetpoint (SetMode k p m) = mySetpoint p" "lastTime (SetMode k p m) = lastTime p"
  "SampleTime (SetMode k p m) = SampleTime p" "kp (SetMode k p m) = kp p"
  "ki (SetMode k p m) = ki p" "kd (SetMode k p m) = kd p" "pOnE (SetMode k p m) = pOnE p"
  "dispKp (SetMode k p m) = dispKp p" "dispKi (SetMode k p m) = dispKi p"
  "dispKd (SetMode k p m) = dispKd p" "pOn (SetMode k p m) = pOn p"
  "outMin (SetMode k p m) = outMin p" "outMax (SetMode k p m) = outMax p"
  "controllerDirection (SetMode k p m) = controllerDirection p"
  by (simp_all add: SetMode_def Initialize_def Let_def)

lemma SetTunings4_fields [pid_simps]:
  "inAuto (SetTunings4 a b c d p) = inAuto p" "myInput (SetTunings4 a b c d p) = myInput p"
  "myOutput (SetTunings4 a b c d p) = myOutput p"
  "mySetpoint (SetTunings4 a b c d p) = mySetpoint p"
  "lastTime (SetTunings4 a b c d p) = lastTime p"
  "SampleTime (SetTunings4 a b c d p) = SampleTime p"
  "outMin (SetTunings4 a b c d p) = outMin p" "outMax (SetTunings4 a b c d p) = outMax p"
  "outputSum (SetTunings4 a b c d p) = outputSum p"
  "lastInput (SetTunings4 a b c d p) = lastInput p"
  "controllerDirection (SetTunings4 a b c d p) = controllerDirection p"
  by (simp_all add: SetTunings4_def Let_def)

lemma SetTunings_fields [pid_simps]:
  "inAuto (SetTunings a b c p) = inAuto p" "myInput (SetTunings a b c p) = myInput p"
  "myOutput (SetTunings a b c p) = myOutput p" "mySetpoint (SetTunings a b c p) = mySetpoint p"
  "lastTime (SetTunings a b c p) = lastTime p" "SampleTime (SetTunings a b c p) = SampleTime p"
  "outMin (SetTunings a b c p) = outMin p" "outMax (SetTunings a b c p) = outMax p"
  "outputSum (SetTunings a b c p) = outputSum p" "lastInput (SetTunings a b c p) = lastInput p"
  "controllerDirection (SetTunings a b c p) = controllerDirection p"
  by (simp_all add: SetTunings_def pid_simps)

lemma SetTunings_pOnE [pid_simps]: "pOnE p = (pOn p = P_ON_E) \<Longrightarrow> pOnE (SetTunings a b c p) = pOnE p"
  "pOn (SetTunings a b c p) = pOn p"
  by (auto simp: SetTunings_def SetTunings4_def Let_def)

lemma SetControllerDirection_fields [pid_simps]:
  "inAuto (SetControllerDirection d p) = inAuto p" "myInput (SetControllerDirection d p) = myInput p"
  "myOutput (SetControllerDirection d p) = myOutput p"
  "mySetpoint (SetControllerDirection d p) = mySetpoint p"
  "lastTime (SetControllerDirection d p) = lastTime p"
  "SampleTime (SetControllerDirection d p) = SampleTime p"
  "outMin (SetControllerDirection d p) = outMin p" "outMax (SetControllerDirection d p) = outMax p"
  "outputSum (SetControllerDirection d p) = outputSum p"
  "lastInput (SetControllerDirection d p) = lastInput p"
  "controllerDirection (SetControllerDirection d p) = d"
  by (simp_all add: SetControllerDirection_def)

lemma PID_new8_fields:
  fixes raw :: "'v PID"
  assumes "PID_new8 raw inp outp setp Kp Ki Kd POn dir now m = (p, m')"
  shows "m' = m" "inAuto p = False" "outMin p = Fin 0" "outMax p = Fin 75" "SampleTime p = 1"
    "lastTime p = now - 1" "myInput p = inp" "myOutput p = outp" "mySetpoint p = setp"
    "controllerDirection p = dir"
  using assms by (auto simp: PID_new8_def Let_def pid_simps split_def)

lemma Compute_cases:
  assumes "Compute now p m = (b, p', m')"
  obtains (idle) "\<not> b" "p' = p" "m' = m" "\<not> (inAuto p \<and> SampleTime p \<le> now - lastTime p)"
    | (ran) s y where "b" "inAuto p" "SampleTime p \<le> now - lastTime p"
        "p' = p\<lparr>outputSum := clampf (outMin p) (outMax p) s, lastInput := m (myInput p), lastTime := now\<rparr>"
        "m' = m(myOutput p := clampf (outMin p) (outMax p) y)"
  using assms by (auto simp: Compute_def Let_def split: if_splits)

lemma Compute_fields [pid_simps]:
  "Compute now p m = (b, p', m') \<Longrightarrow> inAuto p' = inAuto p \<and> outMin p' = outMin p \<and> outMax p' = outMax p
     \<and> myInput p' = myInput p \<and> myOutput p' = myOutput p \<and> mySetpoint p' = mySetpoint p
     \<and> kp p' = kp p \<and> ki p' = ki p \<and> kd p' = kd p \<and> SampleTime p' = SampleTime p
     \<and> dispKp p' = dispKp p \<and> dispKi p' = dispKi p \<and> dispKd p' = dispKd p
     \<and> pOn p' = pOn p \<and> pOnE p' = pOnE p \<and> controllerDirection p' = controllerDirection p"
  by (erule Compute_cases) auto

lemma Compute_mem:
  "Compute now p m = (b, p', m') \<Longrightarrow> v \<noteq> myOutput p \<Longrightarrow> m' v = m v"
  by (erule Compute_cases) auto

subsection \<open>The interface of a controller with output limits\<close>

locale limited_controller =
  fixes step :: "'t \<Rightarrow> 'c \<Rightarrow> 'm \<Rightarrow> bool \<times> 'c \<times> 'm"
    and set_limits :: "fp \<Rightarrow> fp \<Rightarrow> 'c \<Rightarrow> 'm \<Rightarrow> 'c \<times> 'm"
    and active :: "'c \<Rightarrow> bool"
    and limits :: "'c \<Rightarrow> fp \<times> fp"
    and drive :: "'c \<Rightarrow> 'm \<Rightarrow> fp"
  assumes step_limits: "step t c m = (b, c', m') \<Longrightarrow> limits c' = limits c"
    and step_idle: "step t c m = (False, c', m') \<Longrightarrow> c' = c \<and> m' = m"
    and step_drive: "step t c m = (True, c', m') \<Longrightarrow> limits c = (lo, hi) \<Longrightarrow> \<not> hi < lo \<Longrightarrow>
      between lo hi (drive c' m')"
    and set_limits_limits: "lo < hi \<Longrightarrow> limits (fst (set_limits lo hi c m)) = (lo, hi)"
    and set_limits_drive: "lo < hi \<Longrightarrow> active c \<Longrightarrow> set_limits lo hi c m = (c', m') \<Longrightarrow>
      between lo hi (drive c' m')"
begin

lemma step_keeps:
  assumes "step t c m = (b, c', m')" "limits c = (lo, hi)" "\<not> hi < lo" "between lo hi (drive c m)"
  shows "limits c' = (lo, hi) \<and> between lo hi (drive c' m')"
proof (cases b)
  case True
  then show ?thesis using assms step_limits [of t c m b c' m'] step_drive [of t c m c' m'] by auto
next
  case False
  then show ?thesis using assms step_idle [of t c m c' m'] by auto
qed

lemma steps_keep:
  assumes "limits c = (lo, hi)" "\<not> hi < lo" "between lo hi (drive c m)"
  shows "case fold (\<lambda>t (c, m). snd (step t c m)) ts (c, m) of
    (c', m') \<Rightarrow> limits c' = (lo, hi) \<and> between lo hi (drive c' m')"
  using assms
proof (induction ts arbitrary: c m)
  case (Cons t ts)
  obtain b c1 m1 where s: "step t c m = (b, c1, m1)" by (cases "step t c m") auto
  then show ?case using Cons.IH [of c1 m1] step_keeps [OF s Cons.prems] Cons.prems(2) by simp
qed simp

lemma entered:
  assumes "lo < hi" "active c" "set_limits lo hi c m = (c1, m1)" "step t c1 m1 = (b, c2, m2)"
  shows "limits c2 = (lo, hi)" "between lo hi (drive c2 m2)"
proof -
  have l: "limits c1 = (lo, hi)" using assms set_limits_limits [OF assms(1), of c m] by simp
  have o: "between lo hi (drive c1 m1)" using set_limits_drive assms by blast
  have "\<not> hi < lo" using assms(1) by (rule less_fp_asym)
  from step_keeps [OF assms(4) l this o]
  show "limits c2 = (lo, hi)" "between lo hi (drive c2 m2)" by auto
qed

end

lemma less_imp_not_ge_fp: "lo < hi \<Longrightarrow> \<not> hi \<le> (lo :: fp)"
  by (cases lo; cases hi) (auto simp: less_eq_fp_def)

interpretation pidc: limited_controller Compute SetOutputLimits inAuto
  "\<lambda>p. (outMin p, outMax p)" "\<lambda>p m. m (myOutput p)"
proof unfold_locales
  fix lo hi and p p' :: "'a PID" and m m'
  assume "lo < hi" "inAuto p" "SetOutputLimits lo hi p m = (p', m')"
  then show "between lo hi (m' (myOutput p'))"
    using clampf_between [of hi lo "m (myOutput p)"] less_fp_asym [of lo hi]
    by (auto simp: SetOutputLimits_def Let_def less_imp_not_ge_fp)
qed (auto simp: pid_simps less_imp_not_ge_fp clampf_between dest: Compute_fields elim: Compute_cases)

subsection \<open>When a step runs, and what it writes\<close>

text \<open>\<open>Compute\<close> runs exactly when the controller is automatic and the unsigned 64-bit time since
  the last run has reached the sample time; it reports that, changes nothing when it does not run,
  and otherwise leaves both the output variable and the integral inside the limits and every other
  variable of the memory alone.\<close>

theorem Compute_spec:
  assumes "Compute now p m = (b, p', m')" and "\<not> outMax p < outMin p"
  shows "(b \<longleftrightarrow> inAuto p \<and> SampleTime p \<le> now - lastTime p)
    \<and> (\<not> b \<longrightarrow> p' = p \<and> m' = m)
    \<and> (b \<longrightarrow> between (outMin p) (outMax p) (m' (myOutput p))
          \<and> between (outMin p) (outMax p) (outputSum p')
          \<and> lastTime p' = now \<and> lastInput p' = m (myInput p))
    \<and> (\<forall>v. v \<noteq> myOutput p \<longrightarrow> m' v = m v)"
  using assms by (elim Compute_cases) (auto simp: clampf_between)

definition sample_pid :: "nat PID" where
  "sample_pid = \<lparr>dispKp = Fin 2, dispKi = Fin 5, dispKd = Fin 1, kp = Fin 2, ki = Fin 5, kd = Fin 1,
     controllerDirection = 0, pOn = 0, myInput = 0, myOutput = 1, mySetpoint = 2, lastTime = 10,
     outputSum = Fin 3, lastInput = Fin 290, SampleTime = 1, outMin = Fin 0, outMax = Fin 75,
     inAuto = True, pOnE = False\<rparr>"

definition sample_mem :: "nat mem" where
  "sample_mem = (\<lambda>_. Fin 0)(0 := Fin 291, 1 := Fin 3, 2 := Fin 300)"

theorem Compute_spec_witness:
  "let (b, p', m') = Compute 11 sample_pid sample_mem
   in b \<and> between (Fin 0) (Fin 75) (m' 1) \<and> between (Fin 0) (Fin 75) (outputSum p')"
proof -
  obtain b p' m' where c: "Compute 11 sample_pid sample_mem = (b, p', m')"
    by (cases "Compute 11 sample_pid sample_mem") auto
  show ?thesis using Compute_spec [OF c] unfolding c by (simp add: sample_pid_def)
qed

text \<open>
  The elapsed time is an unsigned difference, so a clock that was set back makes the next
  step run at once (the difference wraps to a huge number) instead of stopping the controller.\<close>

lemma Compute_clock_set_back:
  assumes "inAuto p" "now < lastTime p" "uint (SampleTime p) \<le> 2 ^ 64 - uint (lastTime p - now)"
  shows "fst (Compute now p m)"
proof -
  have "uint (lastTime p - now) = uint (lastTime p) - uint now"
    using assms(2) by (intro uint_sub_lem [THEN iffD1]) (simp add: word_less_def)
  moreover have "uint (now - lastTime p) = (uint now - uint (lastTime p)) mod 2 ^ 64"
    by (simp add: uint_word_ariths)
  moreover have "(uint now - uint (lastTime p)) mod 2 ^ 64 = uint now - uint (lastTime p) + 2 ^ 64"
  proof -
    have "uint now < uint (lastTime p)" using assms(2) by (simp add: word_less_def)
    moreover have "uint (lastTime p) < 2 ^ 64" "0 \<le> uint now"
      using uint_lt2p [of "lastTime p"] by simp_all
    ultimately have "(uint now - uint (lastTime p) + 2 ^ 64) mod 2 ^ 64 = uint now - uint (lastTime p) + 2 ^ 64"
      by (intro mod_pos_pos_trivial) linarith+
    then show ?thesis by (simp only: mod_add_self2)
  qed
  ultimately have "SampleTime p \<le> now - lastTime p"
    using assms(3) by (simp add: word_le_def)
  then show ?thesis using assms(1) by (simp add: Compute_def Let_def)
qed

subsection \<open>Limits, tunings and modes\<close>

text \<open>
  \<open>SetOutputLimits\<close> ignores an empty range; otherwise it installs the range and, in automatic
  mode, pulls the output variable and the integral into it at once.\<close>

lemma SetOutputLimits_spec:
  assumes "SetOutputLimits lo hi p m = (p', m')"
  shows "(hi \<le> lo \<longrightarrow> p' = p \<and> m' = m)
    \<and> (\<not> hi \<le> lo \<longrightarrow> outMin p' = lo \<and> outMax p' = hi
        \<and> (inAuto p \<longrightarrow> m' (myOutput p) = clampf lo hi (m (myOutput p))
              \<and> outputSum p' = clampf lo hi (outputSum p))
        \<and> (\<not> inAuto p \<longrightarrow> m' = m \<and> outputSum p' = outputSum p))
    \<and> (\<forall>v. v \<noteq> myOutput p \<longrightarrow> m' v = m v)"
  using assms by (auto simp: SetOutputLimits_def Let_def split: if_splits)

text \<open>
  Tunings are installed all together or not at all: a negative one leaves the controller
  unchanged, otherwise all three are what the display functions then return, whatever the
  direction and mode.\<close>

lemma SetTunings_spec:
  "(Kp < Fin 0 \<or> Ki < Fin 0 \<or> Kd < Fin 0 \<longrightarrow> SetTunings Kp Ki Kd p = p)
   \<and> (\<not> (Kp < Fin 0 \<or> Ki < Fin 0 \<or> Kd < Fin 0) \<longrightarrow>
       GetKp (SetTunings Kp Ki Kd p) = Kp \<and> GetKi (SetTunings Kp Ki Kd p) = Ki
       \<and> GetKd (SetTunings Kp Ki Kd p) = Kd
       \<and> kp (SetTunings Kp Ki Kd p) = (if GetDirection p = REVERSE then Fin 0 - Kp else Kp))"
  by (auto simp: SetTunings_def SetTunings4_def Let_def GetKp_def GetKi_def GetKd_def
      GetDirection_def)

text \<open>The integral stays inside the limits in automatic mode: the anti-windup invariant.\<close>

definition integral_clamped :: "'v PID \<Rightarrow> bool" where
  "integral_clamped p \<longleftrightarrow> \<not> outMax p < outMin p
     \<and> (inAuto p \<longrightarrow> between (outMin p) (outMax p) (outputSum p))"

text \<open>A run of calls of the public operations, with the writes of the program to the variables that
  the controller points to in between.\<close>

datatype 'v pid_call =
    Call_Compute "64 word"
  | Call_SetOutputLimits double double
  | Call_SetTunings double double double
  | Call_SetSampleTime int
  | Call_SetControllerDirection int
  | Call_SetMode int
  | Call_Write 'v double

fun run_call :: "'v pid_call \<Rightarrow> 'v PID \<times> 'v mem \<Rightarrow> 'v PID \<times> 'v mem" where
  "run_call (Call_Compute t) (p, m) = snd (Compute t p m)"
| "run_call (Call_SetOutputLimits lo hi) (p, m) = SetOutputLimits lo hi p m"
| "run_call (Call_SetTunings a b c) (p, m) = (SetTunings a b c p, m)"
| "run_call (Call_SetSampleTime t) (p, m) = (SetSampleTime t p, m)"
| "run_call (Call_SetControllerDirection d) (p, m) = (SetControllerDirection d p, m)"
| "run_call (Call_SetMode k) (p, m) = (SetMode k p m, m)"
| "run_call (Call_Write v x) (p, m) = (p, m(v := x))"

text \<open>The limits of a call are numbers; a call of plausible size has limits within 1000, gains within a
  million, values within 10000, and keeps the sample time of one second.\<close>

primrec limits_ordered :: "'v pid_call \<Rightarrow> bool" where
  "limits_ordered (Call_Compute t) = True"
| "limits_ordered (Call_SetOutputLimits lo hi) = (lo \<noteq> NaN \<and> hi \<noteq> NaN)"
| "limits_ordered (Call_SetTunings a b c) = True"
| "limits_ordered (Call_SetSampleTime t) = True"
| "limits_ordered (Call_SetControllerDirection d) = True"
| "limits_ordered (Call_SetMode k) = True"
| "limits_ordered (Call_Write v x) = True"

primrec plausible_call :: "'v pid_call \<Rightarrow> bool" where
  "plausible_call (Call_Compute t) = True"
| "plausible_call (Call_SetOutputLimits lo hi) = (mag 1000 lo \<and> mag 1000 hi)"
| "plausible_call (Call_SetTunings a b c) = (mag 1000000 a \<and> mag 1000000 b \<and> mag 1000000 c)"
| "plausible_call (Call_SetSampleTime t) = (t \<le> 1)"
| "plausible_call (Call_SetControllerDirection d) = True"
| "plausible_call (Call_SetMode k) = True"
| "plausible_call (Call_Write v x) = mag 10000 x"

definition limits_real :: "'v PID \<Rightarrow> bool" where
  "limits_real p \<longleftrightarrow> outMin p \<noteq> NaN \<and> outMax p \<noteq> NaN"

lemma pid_call_clamped:
  "integral_clamped (fst s) \<Longrightarrow> limits_real (fst s) \<Longrightarrow> limits_ordered c \<Longrightarrow>
     integral_clamped (fst (run_call c s)) \<and> limits_real (fst (run_call c s))"
proof (induction c s rule: run_call.induct)
  case (1 t p m)
  obtain b p' m' where "Compute t p m = (b, p', m')" by (cases "Compute t p m") auto
  then show ?case using 1
    by (auto simp: integral_clamped_def limits_real_def clampf_between elim: Compute_cases)
next
  case (2 lo hi p m)
  then show ?case
    by (cases "hi \<le> lo"; cases "inAuto p"; cases "hi < lo")
      (simp_all add: integral_clamped_def limits_real_def SetOutputLimits_def Let_def clampf_between less_eq_fp_def)
next
  case (6 k p m)
  then show ?case
    by (auto simp: integral_clamped_def limits_real_def SetMode_def Initialize_def Let_def clampf_between)
qed (auto simp: integral_clamped_def limits_real_def pid_simps SetSampleTime_def SetControllerDirection_def Let_def)

lemma between_real:
  "between lo hi v \<Longrightarrow> lo \<noteq> NaN \<Longrightarrow> hi \<noteq> NaN \<Longrightarrow> v = NaN \<or> lo \<le> v \<and> v \<le> hi"
  by (cases v; cases lo; cases hi) (auto simp: between_def less_eq_fp_def)

subsection \<open>Bounds of one step\<close>

lemma clampf_mag_inside:
  "mag b v \<Longrightarrow> lo \<le> hi \<Longrightarrow> inside lo hi (clampf (Fin lo) (Fin hi) v)"
  by (intro clampf_inside mag_not_NaN)

text \<open>The numbers that \<open>Compute\<close> forms, one after the other, stay far from the range where they
  would overflow.\<close>

lemma Compute_bounds:
  fixes p :: "'v PID" and m :: "'v mem"
  defines "error \<equiv> m (mySetpoint p) - m (myInput p)" and "dInput \<equiv> m (myInput p) - lastInput p"
  assumes lim: "- 1000 \<le> lo" "lo \<le> hi" "hi \<le> 1000" "outMin p = Fin lo" "outMax p = Fin hi"
    and os: "inside lo hi (outputSum p)"
    and g: "mag 1000000 (kp p)" "mag 1000000 (ki p)" "mag 1000000 (kd p)"
    and r: "mag 10000 (m (myInput p))" "mag 10000 (m (mySetpoint p))" "mag 10000 (lastInput p)"
    and c: "Compute now p m = (True, p', m')"
  obtains sum result where
    "sum = (if pOnE p then outputSum p + ki p * error else outputSum p + ki p * error - kp p * dInput)"
    "result = (if pOnE p then kp p * error else Fin 0) + (outputSum p' - kd p * dInput)"
    "outputSum p' = clampf (outMin p) (outMax p) sum" "m' = m(myOutput p := clampf (outMin p) (outMax p) result)"
    "lastInput p' = m (myInput p)"
    "list_all (mag 50000000000) [error, dInput, ki p * error, outputSum p + ki p * error, kp p * dInput, sum,
       kp p * error, kd p * dInput, outputSum p' - kd p * dInput, result]"
    "inside lo hi (outputSum p')" "inside lo hi (m' (myOutput p))"
proof -
  have e: "mag 20000 error" and d: "mag 20000 dInput"
    unfolding error_def dInput_def using r by (auto intro!: mag_minus [of 10000 _ 10000])
  have ke: "mag 20000000000 (kp p * error)" "mag 20000000000 (ki p * error)"
    and kd: "mag 20000000000 (kp p * dInput)" "mag 20000000000 (kd p * dInput)"
    using g e d by (auto intro!: mag_times [of 1000000 _ 20000])
  have os': "mag 1000 (outputSum p)" using os lim by (auto elim: inside_mag)
  have s1: "mag 30000000000 (outputSum p + ki p * error)" using mag_plus [OF os' ke(2)] by simp
  define sum where
    "sum = (if pOnE p then outputSum p + ki p * error else outputSum p + ki p * error - kp p * dInput)"
  have s2: "mag 50000000000 sum"
    unfolding sum_def using mag_minus [OF s1 kd(1), of 50000000000] mag_mono [OF s1, of 50000000000] by simp
  have p': "outputSum p' = clampf (outMin p) (outMax p) sum" "lastInput p' = m (myInput p)"
    using c by (auto simp: Compute_def Let_def sum_def error_def dInput_def split: if_splits)
  have s3: "inside lo hi (outputSum p')"
    unfolding p' lim using s2 lim(2) by (rule clampf_mag_inside)
  then have "mag 1000 (outputSum p')" using lim by (auto elim: inside_mag)
  from mag_minus [OF this kd(2)]
  have t: "mag 30000000000 (outputSum p' - kd p * dInput)" by simp
  define result where "result = (if pOnE p then kp p * error else Fin 0) + (outputSum p' - kd p * dInput)"
  have "mag 20000000000 (if pOnE p then kp p * error else Fin 0)" using ke(1) by simp
  from mag_plus [OF this t] have o: "mag 50000000000 result" by (simp add: result_def)
  have m': "m' = m(myOutput p := clampf (outMin p) (outMax p) result)"
    unfolding result_def p' using c
    by (auto simp: Compute_def Let_def sum_def error_def dInput_def split: if_splits)
  have "inside lo hi (m' (myOutput p))"
    using clampf_mag_inside [OF o lim(2)] by (simp add: m' lim)
  moreover have "list_all (mag 50000000000) [error, dInput, ki p * error, outputSum p + ki p * error, kp p * dInput, sum,
       kp p * error, kd p * dInput, outputSum p' - kd p * dInput, result]"
    using e d ke kd s1 s2 t o by (auto elim: mag_mono)
  ultimately show thesis using that [OF sum_def result_def p'(1) m' p'(2)] s3 by blast
qed

subsection \<open>Numbers of plausible size stay numbers\<close>

definition mem_ok :: "'v mem \<Rightarrow> bool" where
  "mem_ok m \<longleftrightarrow> (\<forall>v. mag 10000 (m v))"

definition pid_ok :: "'v PID \<Rightarrow> bool" where
  "pid_ok p \<longleftrightarrow> SampleTime p = 1 \<and> mag 1000000 (kp p) \<and> mag 1000000 (ki p) \<and> mag 1000000 (kd p)
     \<and> (\<exists>lo hi. - 1000 \<le> lo \<and> lo \<le> hi \<and> hi \<le> 1000 \<and> outMin p = Fin lo \<and> outMax p = Fin hi
          \<and> (inAuto p \<longrightarrow> inside lo hi (outputSum p) \<and> mag 10000 (lastInput p)))"

lemma mem_okD [simp]: "mem_ok m \<Longrightarrow> mag 10000 (m v)"
  by (simp add: mem_ok_def)

lemma mem_ok_upd: "mem_ok m \<Longrightarrow> mag 10000 x \<Longrightarrow> mem_ok (m(v := x))"
  by (simp add: mem_ok_def)

lemma Compute_ok:
  assumes ok: "pid_ok p" "mem_ok m" and c: "Compute now p m = (b, p', m')"
  shows "pid_ok p' \<and> mem_ok m'"
  using c
proof (cases rule: Compute_cases)
  case idle
  then show ?thesis using ok by simp
next
  case (ran s y)
  from ok(1) ran(2) obtain lo hi where
    lim: "- 1000 \<le> lo" "lo \<le> hi" "hi \<le> 1000" "outMin p = Fin lo" "outMax p = Fin hi"
    and st: "inside lo hi (outputSum p)" "mag 10000 (lastInput p)"
    and g: "mag 1000000 (kp p)" "mag 1000000 (ki p)" "mag 1000000 (kd p)" and t: "SampleTime p = 1"
    unfolding pid_ok_def by auto
  have c': "Compute now p m = (True, p', m')" using c ran(1) by simp
  obtain sum result where
    "m' = m(myOutput p := clampf (outMin p) (outMax p) result)" "lastInput p' = m (myInput p)"
    "inside lo hi (outputSum p')" and o: "inside lo hi (m' (myOutput p))"
    by (rule Compute_bounds [OF lim st(1) g mem_okD [OF ok(2)] mem_okD [OF ok(2)] st(2) c'])
  moreover have "mag 10000 (m' (myOutput p))" using o lim by (auto elim: inside_mag)
  moreover have "outMin p' = outMin p" "outMax p' = outMax p" "kp p' = kp p" "ki p' = ki p" "kd p' = kd p"
    "SampleTime p' = SampleTime p"
    using Compute_fields [OF c] by simp_all
  ultimately show ?thesis
    using lim g t ok(2) by (auto simp: pid_ok_def mem_ok_def)
qed

lemma SetOutputLimits_ok:
  assumes ok: "pid_ok p" "mem_ok m" and l: "mag 1000 lo" "mag 1000 hi"
    and s: "SetOutputLimits lo hi p m = (p', m')"
  shows "pid_ok p' \<and> mem_ok m'"
proof (cases "hi \<le> lo")
  case True
  then show ?thesis using ok s by (simp add: SetOutputLimits_def)
next
  case False
  from l obtain a b where ab: "lo = Fin a" "hi = Fin b" "\<bar>a\<bar> \<le> 1000" "\<bar>b\<bar> \<le> 1000" by (auto simp: mag_iff)
  with False have lt: "a \<le> b" by (auto simp: less_eq_fp_def)
  have i: "inside a b (clampf lo hi v)" if "mag 10000 v" for v
    unfolding ab using that lt by (rule clampf_mag_inside)
  have out: "mag 10000 (clampf lo hi (m (myOutput p)))"
    using ab by (intro inside_mag [OF i [OF mem_okD [OF ok(2)]]]) auto
  have os: "inAuto p \<Longrightarrow> inside a b (clampf lo hi (outputSum p))"
    using ok(1) by (intro i) (auto simp: pid_ok_def elim!: inside_mag)
  show ?thesis
    using s False ok out os ab lt
    by (auto simp: SetOutputLimits_def Let_def pid_ok_def mem_ok_def split: if_splits)
qed

lemma one_second:
  "of_int64 1 = Fin 1" "round64 1 = Fin 1"
  using round64_exact [of 1] by (simp_all add: of_int64_def)

lemma SetTunings4_ok:
  assumes "pid_ok p" "mag 1000000 a" "mag 1000000 b" "mag 1000000 c"
  shows "pid_ok (SetTunings4 a b c d p)"
proof (cases "a < Fin 0 \<or> b < Fin 0 \<or> c < Fin 0")
  case True
  then show ?thesis using assms(1) by (simp add: SetTunings4_def)
next
  case False
  have "mag 1000000 (b * Fin 1)" "mag 1000000 (c / Fin 1)"
    using assms(3,4) by (auto intro: mag_times [of 1000000 _ 1] mag_divide)
  moreover have "mag 1000000 (Fin 0 - v)" if "mag 1000000 v" for v
    using that by (intro mag_minus [of 0 _ 1000000]) simp_all
  ultimately show ?thesis
    using assms False by (simp add: SetTunings4_def Let_def pid_ok_def one_second)
qed

lemma pid_call_ok:
  assumes "pid_ok p" "mem_ok m" "plausible_call c" "run_call c (p, m) = (p', m')"
  shows "pid_ok p' \<and> mem_ok m'"
proof (cases c)
  case (Call_Compute t)
  then show ?thesis using assms by (cases "Compute t p m") (auto dest: Compute_ok)
next
  case (Call_SetOutputLimits lo hi)
  then show ?thesis using assms SetOutputLimits_ok [of p m lo hi p' m'] by auto
next
  case (Call_SetTunings x y z)
  then show ?thesis using assms SetTunings4_ok [of p x y z "pOn p"] by (auto simp: SetTunings_def)
next
  case (Call_SetSampleTime t)
  have "t = 1 \<or> t \<le> 0" using assms(3) Call_SetSampleTime by auto
  moreover have "mag 1000000 (ki p * Fin 1)" "mag 1000000 (kd p / Fin 1)"
    using assms(1) by (auto simp: pid_ok_def intro: mag_times [of 1000000 _ 1] mag_divide)
  ultimately show ?thesis using assms Call_SetSampleTime
    by (auto simp: SetSampleTime_def Let_def pid_ok_def one_second)
next
  case (Call_SetControllerDirection d)
  have "mag 1000000 (Fin 0 - v)" if "mag 1000000 v" for v
    using that by (intro mag_minus [of 0 _ 1000000]) simp_all
  then have "pid_ok (SetControllerDirection d p)"
    using assms(1)
    by (cases "inAuto p"; cases "d = controllerDirection p") (simp_all add: SetControllerDirection_def pid_ok_def)
  then show ?thesis using assms(2,4) Call_SetControllerDirection by simp
next
  case (Call_SetMode k)
  then show ?thesis using assms
    by (auto simp: SetMode_def Initialize_def Let_def pid_ok_def intro!: clampf_mag_inside [of 10000])
next
  case (Call_Write v x)
  then show ?thesis using assms mem_ok_upd by auto
qed

lemma pid_calls_ok:
  assumes "pid_ok p" "mem_ok m" "list_all plausible_call cs" "fold run_call cs (p, m) = (p', m')"
  shows "pid_ok p' \<and> mem_ok m'"
  using assms
proof (induction cs arbitrary: p m)
  case (Cons c cs)
  obtain q n where "run_call c (p, m) = (q, n)" by fastforce
  then show ?case using Cons pid_call_ok [of p m c q n] by auto
qed simp

lemma PID_new8_ok:
  assumes n: "PID_new8 raw inp outp setp Kp Ki Kd POn dir now m = (p, m')"
    and g: "inside 0 1000000 Kp" "inside 0 1000000 Ki" "inside 0 1000000 Kd"
  shows "pid_ok p"
proof -
  have neg: "\<not> Kp < Fin 0 \<and> \<not> Ki < Fin 0 \<and> \<not> Kd < Fin 0" and k: "mag 1000000 Kp" "mag 1000000 Ki" "mag 1000000 Kd"
    using g by (auto simp: inside_iff)
  have "mag 1000000 (Ki * Fin 1)" "mag 1000000 (Kd / Fin 1)"
    using k by (auto intro: mag_times [of 1000000 _ 1] mag_divide)
  moreover have "mag 1000000 (Fin 0 - v)" if "mag 1000000 v" for v
    using that by (intro mag_minus [of 0 _ 1000000]) simp_all
  ultimately have "pid_ok (SetTunings4 Kp Ki Kd POn q)"
    if "SampleTime q = 1" "outMin q = Fin 0" "outMax q = Fin 75" "\<not> inAuto q" for q :: "'a PID"
    using neg k that by (simp add: SetTunings4_def Let_def pid_ok_def one_second)
  then have "pid_ok (p\<lparr>lastTime := t\<rparr>)" for t
    using n by (auto simp: PID_new8_def Let_def pid_ok_def pid_simps split_def less_eq_fp_def)
  then show ?thesis by (simp add: pid_ok_def)
qed

lemma integral_run:
  assumes p: "fold run_call cs (PID_new8 raw inp outp setp Kp Ki Kd POn dir now m) = (p, m')"
  shows "list_all limits_ordered cs \<Longrightarrow> inAuto p \<Longrightarrow>
      outputSum p = NaN \<or> outMin p \<le> outputSum p \<and> outputSum p \<le> outMax p"
    and "list_all plausible_call cs \<Longrightarrow> mem_ok m \<Longrightarrow> inside 0 1000000 Kp \<Longrightarrow> inside 0 1000000 Ki \<Longrightarrow>
      inside 0 1000000 Kd \<Longrightarrow> pid_ok p"
proof -
  obtain q n where q: "PID_new8 raw inp outp setp Kp Ki Kd POn dir now m = (q, n)"
    by fastforce
  have "integral_clamped (fst (q, n)) \<and> limits_real (fst (q, n))"
    using PID_new8_fields [OF q] by (simp add: integral_clamped_def limits_real_def)
  moreover have "integral_clamped (fst s) \<and> limits_real (fst s) \<Longrightarrow> list_all limits_ordered cs \<Longrightarrow>
      integral_clamped (fst (fold run_call cs s)) \<and> limits_real (fst (fold run_call cs s))"
    for s :: "'a PID \<times> 'a mem"
    by (induction cs arbitrary: s) (auto simp: pid_call_clamped)
  ultimately show "list_all limits_ordered cs \<Longrightarrow> inAuto p \<Longrightarrow>
      outputSum p = NaN \<or> outMin p \<le> outputSum p \<and> outputSum p \<le> outMax p"
    using p unfolding q by (metis between_real integral_clamped_def limits_real_def fst_conv)
  show "list_all plausible_call cs \<Longrightarrow> mem_ok m \<Longrightarrow> inside 0 1000000 Kp \<Longrightarrow> inside 0 1000000 Ki \<Longrightarrow>
      inside 0 1000000 Kd \<Longrightarrow> pid_ok p"
    using pid_calls_ok [OF PID_new8_ok [OF q], of n cs p m'] p PID_new8_fields(1) [OF q] unfolding q by blast
qed



subsection \<open>Bumpless transfer\<close>

lemma fp_zero_rules:
  "mag b k \<Longrightarrow> k * Fin 0 = Fin 0"
  "Fin x - Fin x = Fin 0"
  "exact64 y \<Longrightarrow> Fin y + Fin 0 = Fin y"
  "exact64 y \<Longrightarrow> Fin 0 + Fin y = Fin y"
  "exact64 y \<Longrightarrow> Fin y - Fin 0 = Fin y"
  using round64_exact [of 0] by (auto simp: mag_iff minus_fp_def round64_exact)

text \<open>C16: switching from manual to automatic is bumpless: when the process is at its set point, the
  output that the operator had set lies within the output limits, the sample time has elapsed and the gains
  are finite numbers, the first step after the switch keeps that output, in both proportional modes.\<close>

theorem bumpless_transfer:
  assumes manual: "\<not> inAuto p" and due: "SampleTime p \<le> now - lastTime p"
    and at_setpoint: "m (myInput p) = Fin x" "m (mySetpoint p) = Fin x"
    and out: "m (myOutput p) = Fin y" "exact64 y" "outMin p = Fin lo" "outMax p = Fin hi" "lo \<le> y" "y \<le> hi"
    and gains: "mag b (kp p)" "mag b (ki p)" "mag b (kd p)"
  shows "\<exists>p'. Compute now (SetMode AUTOMATIC p m) m = (True, p', m)"
proof -
  let ?q = "SetMode AUTOMATIC p m"
  have c: "clampf (Fin lo) (Fin hi) (Fin y) = Fin y"
    using out by (simp add: clampf_def)
  have q: "outputSum ?q = Fin y" "lastInput ?q = Fin x"
    using manual out at_setpoint c by (simp_all add: SetMode_def Initialize_def Let_def)
  have k: "kp p * Fin 0 = Fin 0" "ki p * Fin 0 = Fin 0" "kd p * Fin 0 = Fin 0"
    using gains [THEN fp_zero_rules(1)] by simp_all
  have m: "m(myOutput p := Fin y) = m" using out(1) by (simp add: fun_upd_idem)
  show ?thesis
    unfolding Compute_def Let_def
    using due by (simp add: pid_simps q at_setpoint out(2-4) k c m fp_zero_rules(2,5)
        round64_exact)
qed

theorem bumpless_transfer_witness:
  "\<exists>p'. Compute 11 (SetMode AUTOMATIC (sample_pid\<lparr>inAuto := False\<rparr>) (sample_mem(2 := Fin 291)))
      (sample_mem(2 := Fin 291)) = (True, p', sample_mem(2 := Fin 291))"
  by (rule bumpless_transfer [where x = 291 and y = 3 and lo = 0 and hi = 75 and b = 10])
    (simp_all add: sample_pid_def sample_mem_def)

subsection \<open>Finite outputs\<close>

text \<open>Gains, readings and limits of the sizes this plant has, with a wide margin.\<close>

definition pid_sane :: "rat \<Rightarrow> rat \<Rightarrow> 'v PID \<Rightarrow> 'v mem \<Rightarrow> bool" where
  "pid_sane lo hi p m \<longleftrightarrow> - 1000 \<le> lo \<and> lo \<le> hi \<and> hi \<le> 1000 \<and> outMin p = Fin lo \<and> outMax p = Fin hi
     \<and> mag 1000000 (kp p) \<and> mag 1000000 (ki p) \<and> mag 1000000 (kd p)
     \<and> mag 10000 (m (myInput p)) \<and> mag 10000 (m (mySetpoint p)) \<and> mag 10000 (lastInput p)
     \<and> inside lo hi (outputSum p)"

lemma pid_saneD:
  assumes "pid_sane lo hi p m"
  shows "- 1000 \<le> lo" "lo \<le> hi" "hi \<le> 1000" "outMin p = Fin lo" "outMax p = Fin hi"
    "inside lo hi (outputSum p)" "mag 1000000 (kp p)" "mag 1000000 (ki p)" "mag 1000000 (kd p)"
    "mag 10000 (m (myInput p))" "mag 10000 (m (mySetpoint p))" "mag 10000 (lastInput p)"
  using assms by (simp_all add: pid_sane_def)

text \<open>C17: with gains within a million, readings and set point within 10000 and limits within 1000,
  a step forms the error, the input difference, the three products, the sums and the output without
  leaving the numbers of size at most 5e10, so no intermediate result overflows or is a NaN; integral
  and output are what the code computes from them, numbers inside the limits, and the conditions hold
  again for the next step.\<close>

theorem Compute_finite:
  assumes s: "pid_sane lo hi p m" and c: "Compute now p m = (True, p', m')"
    and distinct: "myOutput p \<noteq> myInput p" "myOutput p \<noteq> mySetpoint p"
  shows "\<exists>error dInput sum result. error = m (mySetpoint p) - m (myInput p)
      \<and> dInput = m (myInput p) - lastInput p
      \<and> sum = (if pOnE p then outputSum p + ki p * error else outputSum p + ki p * error - kp p * dInput)
      \<and> result = (if pOnE p then kp p * error else Fin 0) + (outputSum p' - kd p * dInput)
      \<and> list_all (mag 50000000000) [error, dInput, ki p * error, outputSum p + ki p * error, kp p * dInput,
          sum, kp p * error, kd p * dInput, outputSum p' - kd p * dInput, result]
      \<and> outputSum p' = clampf (Fin lo) (Fin hi) sum \<and> m' (myOutput p) = clampf (Fin lo) (Fin hi) result
      \<and> inside lo hi (outputSum p') \<and> inside lo hi (m' (myOutput p)) \<and> pid_sane lo hi p' m'"
proof -
  obtain sum result where
    eqs: "sum = (if pOnE p then outputSum p + ki p * (m (mySetpoint p) - m (myInput p))
        else outputSum p + ki p * (m (mySetpoint p) - m (myInput p)) - kp p * (m (myInput p) - lastInput p))"
      "result = (if pOnE p then kp p * (m (mySetpoint p) - m (myInput p)) else Fin 0)
        + (outputSum p' - kd p * (m (myInput p) - lastInput p))"
    and os: "outputSum p' = clampf (outMin p) (outMax p) sum"
    and m': "m' = m(myOutput p := clampf (outMin p) (outMax p) result)" and li: "lastInput p' = m (myInput p)"
    and bounds: "list_all (mag 50000000000) [m (mySetpoint p) - m (myInput p), m (myInput p) - lastInput p,
       ki p * (m (mySetpoint p) - m (myInput p)), outputSum p + ki p * (m (mySetpoint p) - m (myInput p)),
       kp p * (m (myInput p) - lastInput p), sum, kp p * (m (mySetpoint p) - m (myInput p)),
       kd p * (m (myInput p) - lastInput p), outputSum p' - kd p * (m (myInput p) - lastInput p), result]"
    and i: "inside lo hi (outputSum p')" "inside lo hi (m' (myOutput p))"
    by (rule Compute_bounds [OF pid_saneD [OF s] c])
  have "pid_sane lo hi p' m'"
    using s i distinct Compute_fields [OF c] by (auto simp: pid_sane_def m' li)
  then show ?thesis
    using eqs bounds i os m' pid_saneD(4,5) [OF s] by fastforce
qed

lemma sample_pid_sane: "pid_sane 0 75 sample_pid sample_mem"
  by (simp add: pid_sane_def sample_pid_def sample_mem_def)

theorem Compute_finite_witness:
  "inside 0 75 (snd (snd (Compute 11 sample_pid sample_mem)) 1)"
proof -
  obtain b p' m' where c: "Compute 11 sample_pid sample_mem = (b, p', m')"
    by (cases "Compute 11 sample_pid sample_mem") auto
  moreover have b: b using c by (elim Compute_cases) (simp_all add: sample_pid_def)
  ultimately show ?thesis
    using Compute_finite [OF sample_pid_sane, of 11 p' m'] by (auto simp: sample_pid_def)
qed

subsection \<open>The sense of the control\<close>

lemma Compute_runs:
  assumes "inAuto p" "SampleTime p \<le> now - lastTime p"
  shows "Compute now p m = (let input = m (myInput p);
         error = m (mySetpoint p) - input;
         dInput = input - lastInput p;
         sum = clampf (outMin p) (outMax p)
           (if pOnE p then outputSum p + ki p * error else outputSum p + ki p * error - kp p * dInput);
         y = clampf (outMin p) (outMax p)
           ((if pOnE p then kp p * error else Fin 0) + (sum - kd p * dInput))
       in (True, p\<lparr>outputSum := sum, lastInput := input, lastTime := now\<rparr>, m(myOutput p := y)))"
  using assms by (simp add: Compute_def Let_def)

lemma mag_NaN [simp]: "\<not> mag b NaN"
  by (simp add: mag_def)

text \<open>A direct-acting controller pushes the right way: from the same state, a higher set point
  never gives a lower output, rounding included.\<close>

theorem Compute_mono_setpoint:
  assumes s: "pid_sane lo hi p m" "pid_sane lo hi p m2"
    and gains: "kp p = Fin a" "0 \<le> a" "ki p = Fin b" "0 \<le> b"
    and m2: "\<forall>v. v \<noteq> mySetpoint p \<longrightarrow> m2 v = m v" "m (mySetpoint p) \<le> m2 (mySetpoint p)"
    and distinct: "mySetpoint p \<noteq> myInput p"
    and run: "inAuto p" "SampleTime p \<le> now - lastTime p"
  shows "snd (snd (Compute now p m)) (myOutput p) \<le> snd (snd (Compute now p m2)) (myOutput p)"
proof -
  have i: "m2 (myInput p) = m (myInput p)" using m2(1) distinct by metis
  have lim: "- 1000 \<le> lo" "lo \<le> hi" "hi \<le> 1000" "outMin p = Fin lo" "outMax p = Fin hi"
    and os: "mag 1000 (outputSum p)"
    and g: "mag 1000000 (kp p)" "mag 1000000 (ki p)" "mag 1000000 (kd p)"
    and r: "mag 10000 (m (myInput p))" "mag 10000 (m (mySetpoint p))" "mag 10000 (m2 (mySetpoint p))"
      "mag 10000 (lastInput p)"
    using s by (auto simp: pid_sane_def elim: inside_mag)
  define e1 e2 d where "e1 = m (mySetpoint p) - m (myInput p)"
    and "e2 = m2 (mySetpoint p) - m (myInput p)" and "d = m (myInput p) - lastInput p"
  have mag: "mag 20000 e1" "mag 20000 e2" "mag 20000 d"
    unfolding e1_def e2_def d_def using r by (auto intro!: mag_minus [of 10000 _ 10000])
  have e: "e1 \<le> e2"
    unfolding e1_def e2_def minus_fp_def using m2(2) mag
    by (intro fp_plus_mono) (auto simp: e1_def e2_def minus_fp_def)
  have k: "mag 20000000000 (c * v)" if "mag 1000000 c" "mag 20000 v" for c v
    using mag_times [OF that, of 20000000000] by simp
  define t1 t2 where "t1 = outputSum p + ki p * e1" and "t2 = outputSum p + ki p * e2"
  have t: "mag 30000000000 t1" "mag 30000000000 t2"
    unfolding t1_def t2_def using mag_plus [OF os k [OF g(2) mag(1)], of 30000000000]
      mag_plus [OF os k [OF g(2) mag(2)], of 30000000000] by simp_all
  have ki: "ki p * e1 \<le> ki p * e2"
    unfolding gains using e gains(4) k [OF g(2) mag(1)] k [OF g(2) mag(2)]
    by (intro fp_times_mono) (auto simp: gains)
  have t12: "t1 \<le> t2"
    unfolding t1_def t2_def using ki t [THEN mag_not_NaN]
    by (intro fp_plus_mono2) (simp_all add: t1_def t2_def)
  define s1 s2 where "s1 = clampf (Fin lo) (Fin hi) (if pOnE p then t1 else t1 - kp p * d)"
    and "s2 = clampf (Fin lo) (Fin hi) (if pOnE p then t2 else t2 - kp p * d)"
  have u: "mag 50000000000 (t1 - kp p * d)" "mag 50000000000 (t2 - kp p * d)"
    using mag_minus [OF t(1) k [OF g(1) mag(3)], of 50000000000]
      mag_minus [OF t(2) k [OF g(1) mag(3)], of 50000000000] by simp_all
  have s12: "s1 \<le> s2"
    unfolding s1_def s2_def
    using t12 fp_minus_mono [OF t12] u [THEN mag_not_NaN] lim(2) by (intro clampf_mono) auto
  have "inside lo hi s1" "inside lo hi s2"
    unfolding s1_def s2_def using t u lim(2) by (auto intro!: clampf_inside dest: mag_not_NaN)
  then have "mag 1000 s1" "mag 1000 s2" using lim by (auto elim: inside_mag)
  then have v: "mag 30000000000 (s1 - kd p * d)" "mag 30000000000 (s2 - kd p * d)"
    using mag_minus [OF _ k [OF g(3) mag(3)], of 1000 _ 30000000000] by simp_all
  define f1 f2 where "f1 = (if pOnE p then kp p * e1 else Fin 0)"
    and "f2 = (if pOnE p then kp p * e2 else Fin 0)"
  have f: "mag 20000000000 f1" "mag 20000000000 f2"
    using k [OF g(1)] mag by (auto simp: f1_def f2_def)
  have f12: "f1 \<le> f2"
    unfolding f1_def f2_def gains using e gains(2) k [OF g(1) mag(1)] k [OF g(1) mag(2)]
    by (auto simp: gains intro!: fp_times_mono)
  have w: "f1 + (s1 - kd p * d) \<noteq> NaN" "f2 + (s1 - kd p * d) \<noteq> NaN" "f2 + (s2 - kd p * d) \<noteq> NaN"
    using mag_plus [OF f(1) v(1), of 50000000000] mag_plus [OF f(2) v(1), of 50000000000]
      mag_plus [OF f(2) v(2), of 50000000000] by (auto dest: mag_not_NaN)
  have "f1 + (s1 - kd p * d) \<le> f2 + (s1 - kd p * d)"
    using f12 w(1,2) by (rule fp_plus_mono)
  moreover have "f2 + (s1 - kd p * d) \<le> f2 + (s2 - kd p * d)"
    using fp_minus_mono [OF s12] v [THEN mag_not_NaN] w(2,3) by (intro fp_plus_mono2)
  ultimately have "f1 + (s1 - kd p * d) \<le> f2 + (s2 - kd p * d)"
    by (rule fp_order_trans)
  then have "clampf (Fin lo) (Fin hi) (f1 + (s1 - kd p * d))
      \<le> clampf (Fin lo) (Fin hi) (f2 + (s2 - kd p * d))"
    using lim(2) by (intro clampf_mono) auto
  then show ?thesis
    unfolding Compute_runs [OF run] Let_def i lim s1_def s2_def f1_def f2_def
      t1_def t2_def e1_def e2_def d_def by simp
qed

theorem Compute_mono_setpoint_witness:
  "snd (snd (Compute 11 sample_pid sample_mem)) 1
     \<le> snd (snd (Compute 11 sample_pid (sample_mem(2 := Fin 310)))) 1"
  using Compute_mono_setpoint [OF sample_pid_sane, of "sample_mem(2 := Fin 310)" 2 5 11] sample_pid_sane
  by (simp add: sample_pid_def sample_mem_def pid_sane_def)

end
