(* ===== verification/CryoState.thy ===== *)
theory CryoState
  imports PID
begin

text \<open>
  \<open>CryoControlSM.hpp\<close>: the data of the cryogenic state machine. The member variables that the two
  PID controllers point to live in the memory \<open>vars\<close>; the other members are fields. Times are
  seconds of the system clock (\<open>time_t\<close>).
\<close>

definition RateMovingAvgN :: double where "RateMovingAvgN = Fin 20"
definition DeltaTRatePerMin :: double where "DeltaTRatePerMin = Fin 1"

record DataPacket =
  dp_kpA :: double
  dp_kiA :: double
  dp_kdA :: double
  dp_kpR :: double
  dp_kiR :: double
  dp_kdR :: double
  dp_TTemp :: double
  dp_curTemp :: double
  dp_curTempLSH :: double
  dp_PMin :: double
  dp_PMax :: double
  dp_PID :: double
  dp_SystemState :: double
  dp_CCPowerStateLast :: bool
  dp_WatchdogFuse :: bool
  dp_SRSPowerState :: bool
  dp_LastCCTime :: int
  dp_LastLSHTime :: int

datatype FSMStates =
    ST_Idle
  | ST_CoolDownHot
  | ST_CoolDownCold
  | ST_Warmup
  | ST_MaintainWarm
  | ST_MaintainCold
  | ST_Fault

text \<open>The cast of the enumeration to \<open>int\<close>; it also orders the keys of \<open>std::map\<close>.\<close>

fun state_int :: "FSMStates \<Rightarrow> int" where
  "state_int ST_Idle = 0"
| "state_int ST_CoolDownHot = 1"
| "state_int ST_CoolDownCold = 2"
| "state_int ST_Warmup = 3"
| "state_int ST_MaintainWarm = 4"
| "state_int ST_MaintainCold = 5"
| "state_int ST_Fault = 6"

lemma state_int_inject: "state_int s = state_int t \<Longrightarrow> s = t"
  by (cases s; cases t) simp_all

instantiation FSMStates :: linorder
begin

definition less_eq_FSMStates :: "FSMStates \<Rightarrow> FSMStates \<Rightarrow> bool" where
  "less_eq_FSMStates s t \<longleftrightarrow> state_int s \<le> state_int t"

definition less_FSMStates :: "FSMStates \<Rightarrow> FSMStates \<Rightarrow> bool" where
  "less_FSMStates s t \<longleftrightarrow> state_int s < state_int t"

instance
  by standard (auto simp: less_eq_FSMStates_def less_FSMStates_def intro: state_int_inject)

end

text \<open>The state functions a pointer to member can hold.\<close>

datatype StateFn = Fn_Idle | Fn_CoolDownHot | Fn_CoolDownCold | Fn_Warmup | Fn_MaintainWarm
  | Fn_MaintainCold | Fn_Fault

text \<open>The variables the two controllers are linked to.\<close>

datatype sm_var = CurrentTemperature | TOutput | SetTemperature
  | TempratureRateMovingAvg | ROutput | RSetpoint

record CryoControlSM =
  LastTemperature :: double
  TimeStamp :: "64 word"
  vars :: "sm_var mem"
  CCoolerPower :: bool
  KpA :: double
  KiA :: double
  KdA :: double
  KpR :: double
  KiR :: double
  KdR :: double
  ThisRunPIDValue :: double
  ThisRunCCPower :: double
  ThisRunHeaterPower :: double
  SentCCPower :: double
  MovingAvgCCRTD :: double
  MovingAvgLSHRTD :: double
  PMax :: double
  PMin :: double
  LastCCTime :: int
  LastLSHTime :: int
  NowTime :: int
  ComputedSRSPowerState :: bool
  AbsPID :: "sm_var PID"
  RatePID :: "sm_var PID"
  STFnTable :: "FSMStates \<rightharpoonup> StateFn"
  CryoStateFn :: "StateFn option"
  CurrentFSMState :: FSMStates
  ShouldBeFSMState :: FSMStates
  EntryGuardActive :: bool
  ExitGuardActive :: bool
  FSMMode :: bool

abbreviation "cur_temp sm \<equiv> vars sm CurrentTemperature"
abbreviation "set_temp sm \<equiv> vars sm SetTemperature"
abbreviation "rate_avg sm \<equiv> vars sm TempratureRateMovingAvg"

definition set_var :: "sm_var \<Rightarrow> double \<Rightarrow> CryoControlSM \<Rightarrow> CryoControlSM" where
  "set_var v x sm = sm\<lparr>vars := (vars sm)(v := x)\<rparr>"

end
