(* ===== verification/CCMySQL.thy ===== *)
theory CCMySQL
  imports CryoState
begin

text \<open>
  \<open>CCMySQLInteraction.cpp\<close>: one exchange of the state machine with the database. The rows that
  the three SELECT statements return are inputs (a time stamp that is NULL is \<open>None\<close>); the
  statements that change the database are the output, in the order they are executed. Connection
  errors and the count of warnings, which is only printed, are not part of the model.
\<close>

record control_row =
  row_TTemperature :: double
  row_Kp :: double
  row_Ki :: double
  row_Kd :: double
  row_KpR :: double
  row_KiR :: double
  row_KdR :: double
  row_CCPowerState :: bool
  row_WatchdogFuse :: bool
  row_SRSPowerState :: bool

record cc_row =
  row_CCTime :: "int option"
  row_TC :: double
  row_PMin :: double
  row_PMax :: double

record lsh_row =
  row_LSHTime :: "int option"
  row_LSHTemp :: double

datatype sql =
    Insert_SMState double int int
  | Set_HeaterPW double
  | Set_CCPower double
  | Set_CCPowerState bool
  | Set_SRSPowerState bool

text \<open>The data packet is an uninitialised local variable of the caller: a NULL time stamp leaves the
  member as it was.\<close>

definition UpdateVars :: "control_row \<Rightarrow> cc_row \<Rightarrow> lsh_row \<Rightarrow> DataPacket \<Rightarrow> CryoControlSM
    \<Rightarrow> DataPacket \<times> CryoControlSM \<times> sql list" where
  "UpdateVars CtrlRow TCRow LSHRow dp sm =
    (let dp = dp\<lparr>
         dp_TTemp := row_TTemperature CtrlRow,
         dp_kpA := row_Kp CtrlRow, dp_kiA := row_Ki CtrlRow, dp_kdA := row_Kd CtrlRow,
         dp_kpR := row_KpR CtrlRow, dp_kiR := row_KiR CtrlRow, dp_kdR := row_KdR CtrlRow,
         dp_CCPowerStateLast := row_CCPowerState CtrlRow,
         dp_WatchdogFuse := row_WatchdogFuse CtrlRow,
         dp_SRSPowerState := row_SRSPowerState CtrlRow\<rparr>;
       dp = (case row_CCTime TCRow of Some t \<Rightarrow> dp\<lparr>dp_LastCCTime := t\<rparr> | None \<Rightarrow> dp);
       dp = dp\<lparr>dp_curTemp := row_TC TCRow, dp_PMin := row_PMin TCRow, dp_PMax := row_PMax TCRow\<rparr>;
       dp = (case row_LSHTime LSHRow of Some t \<Rightarrow> dp\<lparr>dp_LastLSHTime := t\<rparr> | None \<Rightarrow> dp);
       dp = dp\<lparr>dp_curTempLSH := row_LSHTemp LSHRow\<rparr>;
       s1 = Insert_SMState (ThisRunPIDValue sm) (state_int (CurrentFSMState sm))
          (state_int (ShouldBeFSMState sm));
       s2 = Set_HeaterPW (ThisRunHeaterPower sm);
       sm = sm\<lparr>SentCCPower := ThisRunCCPower sm + dp_PMin dp\<rparr>;
       s3 = Set_CCPower (SentCCPower sm);
       s4 = (if dp_CCPowerStateLast dp \<noteq> CCoolerPower sm then [Set_CCPowerState (CCoolerPower sm)] else []);
       s5 = (if dp_SRSPowerState dp \<noteq> ComputedSRSPowerState sm
             then [Set_SRSPowerState (ComputedSRSPowerState sm)] else [])
     in (dp, sm, [s1, s2, s3] @ s4 @ s5))"

lemma UpdateVars_sm [sm_simps]:
  "fst (snd (UpdateVars c t l dp sm)) = sm\<lparr>SentCCPower := ThisRunCCPower sm + row_PMin t\<rparr>"
  by (simp add: UpdateVars_def Let_def split: option.splits)

lemma UpdateVars_dp [sm_simps]:
  "dp_TTemp (fst (UpdateVars c t l dp sm)) = row_TTemperature c"
  "dp_kpA (fst (UpdateVars c t l dp sm)) = row_Kp c" "dp_kiA (fst (UpdateVars c t l dp sm)) = row_Ki c"
  "dp_kdA (fst (UpdateVars c t l dp sm)) = row_Kd c" "dp_kpR (fst (UpdateVars c t l dp sm)) = row_KpR c"
  "dp_kiR (fst (UpdateVars c t l dp sm)) = row_KiR c" "dp_kdR (fst (UpdateVars c t l dp sm)) = row_KdR c"
  "dp_curTemp (fst (UpdateVars c t l dp sm)) = row_TC t"
  "dp_curTempLSH (fst (UpdateVars c t l dp sm)) = row_LSHTemp l"
  "dp_PMin (fst (UpdateVars c t l dp sm)) = row_PMin t" "dp_PMax (fst (UpdateVars c t l dp sm)) = row_PMax t"
  "dp_LastCCTime (fst (UpdateVars c t l dp sm)) = (case row_CCTime t of Some x \<Rightarrow> x | None \<Rightarrow> dp_LastCCTime dp)"
  "dp_LastLSHTime (fst (UpdateVars c t l dp sm)) = (case row_LSHTime l of Some x \<Rightarrow> x | None \<Rightarrow> dp_LastLSHTime dp)"
  by (simp_all add: UpdateVars_def Let_def split: option.splits)

end
