(* ===== verification/CryoControlSM.thy ===== *)
theory CryoControlSM
  imports CCMySQL
begin

text \<open>
  \<open>CryoControlSM.cpp\<close> and \<open>StartSM.cpp\<close>: the constructor, the decision and switch of states, the
  seven state functions, the checks after a run and the engine that is called once per second.
  \<open>printf\<close> output is left out.
\<close>

subsection \<open>The controllers as members\<close>

definition abs_SetMode :: "int \<Rightarrow> CryoControlSM \<Rightarrow> CryoControlSM" where
  "abs_SetMode k sm = sm\<lparr>AbsPID := SetMode k (AbsPID sm) (vars sm)\<rparr>"

definition rate_SetMode :: "int \<Rightarrow> CryoControlSM \<Rightarrow> CryoControlSM" where
  "rate_SetMode k sm = sm\<lparr>RatePID := SetMode k (RatePID sm) (vars sm)\<rparr>"

definition abs_SetOutputLimits :: "double \<Rightarrow> double \<Rightarrow> CryoControlSM \<Rightarrow> CryoControlSM" where
  "abs_SetOutputLimits lo hi sm =
     (case SetOutputLimits lo hi (AbsPID sm) (vars sm) of (p, m) \<Rightarrow> sm\<lparr>AbsPID := p, vars := m\<rparr>)"

definition rate_SetOutputLimits :: "double \<Rightarrow> double \<Rightarrow> CryoControlSM \<Rightarrow> CryoControlSM" where
  "rate_SetOutputLimits lo hi sm =
     (case SetOutputLimits lo hi (RatePID sm) (vars sm) of (p, m) \<Rightarrow> sm\<lparr>RatePID := p, vars := m\<rparr>)"

definition abs_Compute :: "64 word \<Rightarrow> CryoControlSM \<Rightarrow> CryoControlSM" where
  "abs_Compute now sm =
     (case Compute now (AbsPID sm) (vars sm) of (_, p, m) \<Rightarrow> sm\<lparr>AbsPID := p, vars := m\<rparr>)"

definition rate_Compute :: "64 word \<Rightarrow> CryoControlSM \<Rightarrow> CryoControlSM" where
  "rate_Compute now sm =
     (case Compute now (RatePID sm) (vars sm) of (_, p, m) \<Rightarrow> sm\<lparr>RatePID := p, vars := m\<rparr>)"

subsection \<open>The state functions\<close>

text \<open>Each runs its entry block when the entry guard is set, then its regular part.\<close>

definition Idle_entry :: "CryoControlSM \<Rightarrow> CryoControlSM" where
  "Idle_entry sm = (let sm = abs_SetMode MANUAL sm;
     sm = rate_SetMode MANUAL sm;
     sm = rate_SetOutputLimits (Fin 0) (Fin 75) sm;
     sm = abs_SetOutputLimits (Fin 0) (Fin 75) sm
   in sm\<lparr>ThisRunCCPower := Fin 0, CCoolerPower := False, ComputedSRSPowerState := False,
        EntryGuardActive := False\<rparr>)"

definition Idle :: "64 word \<Rightarrow> CryoControlSM \<Rightarrow> CryoControlSM" where
  "Idle now sm = (let sm = (if EntryGuardActive sm then Idle_entry sm else sm)
   in sm\<lparr>ThisRunPIDValue := Fin 0\<rparr>)"

definition Fault_entry :: "CryoControlSM \<Rightarrow> CryoControlSM" where
  "Fault_entry sm = (let sm = abs_SetMode MANUAL sm;
     sm = rate_SetMode MANUAL sm;
     sm = rate_SetOutputLimits (Fin 0) (Fin 75) sm;
     sm = abs_SetOutputLimits (Fin 0) (Fin 75) sm
   in sm\<lparr>CCoolerPower := False, ComputedSRSPowerState := False, EntryGuardActive := False\<rparr>)"

definition Fault :: "64 word \<Rightarrow> CryoControlSM \<Rightarrow> CryoControlSM" where
  "Fault now sm = (let sm = (if EntryGuardActive sm then Fault_entry sm else sm)
   in sm\<lparr>ThisRunPIDValue := Fin 0, ThisRunCCPower := Fin 0, ThisRunHeaterPower := Fin 0\<rparr>)"

definition Warmup_entry :: "CryoControlSM \<Rightarrow> CryoControlSM" where
  "Warmup_entry sm = (let sm = abs_SetMode MANUAL sm;
     sm = rate_SetMode AUTOMATIC sm;
     sm = rate_SetOutputLimits (Fin 0) (Fin 75) sm;
     sm = abs_SetOutputLimits (Fin 0) (Fin 75) sm;
     sm = sm\<lparr>ThisRunCCPower := Fin 0\<rparr>;
     sm = set_var RSetpoint (DeltaTRatePerMin / Fin 60) sm
   in sm\<lparr>CCoolerPower := False, ComputedSRSPowerState := False, EntryGuardActive := False\<rparr>)"

definition Warmup :: "64 word \<Rightarrow> CryoControlSM \<Rightarrow> CryoControlSM" where
  "Warmup now sm = (let sm = (if EntryGuardActive sm then Warmup_entry sm else sm);
     sm = rate_Compute now sm
   in sm\<lparr>ThisRunPIDValue := vars sm ROutput\<rparr>)"

definition CoolDownHot_entry :: "CryoControlSM \<Rightarrow> CryoControlSM" where
  "CoolDownHot_entry sm = (let sm = abs_SetMode MANUAL sm;
     sm = rate_SetMode AUTOMATIC sm;
     sm = rate_SetOutputLimits (Fin 0) (Fin 75) sm;
     sm = abs_SetOutputLimits (Fin 0) (Fin 75) sm;
     sm = set_var RSetpoint (Fin (- 1) * DeltaTRatePerMin / Fin 60) sm
   in sm\<lparr>CCoolerPower := True, ComputedSRSPowerState := False, EntryGuardActive := False\<rparr>)"

definition CoolDownHot :: "64 word \<Rightarrow> CryoControlSM \<Rightarrow> CryoControlSM" where
  "CoolDownHot now sm = (let sm = (if EntryGuardActive sm then CoolDownHot_entry sm else sm);
     sm = rate_Compute now sm
   in sm\<lparr>ThisRunPIDValue := vars sm ROutput\<rparr>)"

definition CoolDownCold_entry :: "CryoControlSM \<Rightarrow> CryoControlSM" where
  "CoolDownCold_entry sm = (let sm = abs_SetMode MANUAL sm;
     sm = rate_SetMode AUTOMATIC sm;
     sm = rate_SetOutputLimits (Fin (- 120)) (Fin 75) sm;
     sm = abs_SetOutputLimits (Fin (- 120)) (Fin 75) sm;
     sm = set_var RSetpoint (Fin (- 1) * DeltaTRatePerMin / Fin 60) sm
   in sm\<lparr>CCoolerPower := True, ComputedSRSPowerState := True, EntryGuardActive := False\<rparr>)"

definition CoolDownCold :: "64 word \<Rightarrow> CryoControlSM \<Rightarrow> CryoControlSM" where
  "CoolDownCold now sm = (let sm = (if EntryGuardActive sm then CoolDownCold_entry sm else sm);
     sm = rate_Compute now sm
   in sm\<lparr>ThisRunPIDValue := vars sm ROutput\<rparr>)"

definition MaintainWarm_entry :: "CryoControlSM \<Rightarrow> CryoControlSM" where
  "MaintainWarm_entry sm = (let sm = abs_SetMode AUTOMATIC sm;
     sm = rate_SetMode MANUAL sm;
     sm = abs_SetOutputLimits (Fin 0) (Fin 75) sm;
     sm = rate_SetOutputLimits (Fin 0) (Fin 75) sm
   in sm\<lparr>CCoolerPower := False, ComputedSRSPowerState := False, EntryGuardActive := False\<rparr>)"

definition MaintainWarm :: "64 word \<Rightarrow> CryoControlSM \<Rightarrow> CryoControlSM" where
  "MaintainWarm now sm = (let sm = (if EntryGuardActive sm then MaintainWarm_entry sm else sm);
     sm = abs_Compute now sm
   in sm\<lparr>ThisRunPIDValue := vars sm TOutput\<rparr>)"

definition MaintainCold_entry :: "CryoControlSM \<Rightarrow> CryoControlSM" where
  "MaintainCold_entry sm = (let sm = abs_SetMode AUTOMATIC sm;
     sm = rate_SetMode MANUAL sm;
     sm = rate_SetOutputLimits (Fin (- 120)) (Fin 75) sm;
     sm = abs_SetOutputLimits (Fin (- 120)) (Fin 75) sm
   in sm\<lparr>CCoolerPower := True, ComputedSRSPowerState := True, EntryGuardActive := False\<rparr>)"

definition MaintainCold :: "64 word \<Rightarrow> CryoControlSM \<Rightarrow> CryoControlSM" where
  "MaintainCold now sm = (let sm = (if EntryGuardActive sm then MaintainCold_entry sm else sm);
     sm = abs_Compute now sm
   in sm\<lparr>ThisRunPIDValue := vars sm TOutput\<rparr>)"

fun call_state_fn :: "StateFn \<Rightarrow> 64 word \<Rightarrow> CryoControlSM \<Rightarrow> CryoControlSM" where
  "call_state_fn Fn_Idle = Idle"
| "call_state_fn Fn_CoolDownHot = CoolDownHot"
| "call_state_fn Fn_CoolDownCold = CoolDownCold"
| "call_state_fn Fn_Warmup = Warmup"
| "call_state_fn Fn_MaintainWarm = MaintainWarm"
| "call_state_fn Fn_MaintainCold = MaintainCold"
| "call_state_fn Fn_Fault = Fault"

subsection \<open>The decision\<close>

definition decide_states :: "double \<Rightarrow> double \<Rightarrow> FSMStates \<Rightarrow> FSMStates" where
  "decide_states Cur Set0 st =
    (let st = (if Fin 300 < Cur \<and> Set0 < Fin 300 then ST_Idle else st);
       st = (if Cur + Fin 10 < Set0 \<and> Cur < Fin 290 then ST_Warmup else st);
       st = (if Set0 < Fin 220 \<and> Set0 < Cur - Fin 10 \<and> Fin 220 < Cur then ST_CoolDownHot else st);
       st = (if Set0 < Fin 220 \<and> Set0 < Cur - Fin 10 \<and> Cur \<le> Fin 220 then ST_CoolDownCold else st);
       st = (if Set0 < Fin 220 \<and> \<bar>Set0 - Cur\<bar> \<le> Fin 10 \<and> Cur \<le> Fin 220 then ST_MaintainCold else st);
       st = (if Fin 220 < Set0 \<and> \<bar>Set0 - Cur\<bar> \<le> Fin 2 \<and> Fin 220 < Cur then ST_MaintainWarm else st)
     in st)"

definition StateDecision :: "int \<Rightarrow> CryoControlSM \<Rightarrow> CryoControlSM" where
  "StateDecision now sm =
    (if (if FSMMode sm then 1 else 0) = MANUAL then sm\<lparr>ShouldBeFSMState := ST_Idle\<rparr> else
     let sm = sm\<lparr>ShouldBeFSMState := decide_states (cur_temp sm) (set_temp sm) (ShouldBeFSMState sm)\<rparr>;
       sm = sm\<lparr>NowTime := now\<rparr>;
       LastDeltaLSH = to_int32 (of_int64 (NowTime sm - LastLSHTime sm));
       LastDeltaCC = to_int32 (of_int64 (NowTime sm - LastCCTime sm))
     in if 60 < LastDeltaLSH \<or> 60 < LastDeltaCC then sm\<lparr>ShouldBeFSMState := ST_Fault\<rparr> else sm)"

definition StateSwitch :: "CryoControlSM \<Rightarrow> CryoControlSM" where
  "StateSwitch sm = (let sm = sm\<lparr>EntryGuardActive := True\<rparr>;
     sm = sm\<lparr>CryoStateFn := STFnTable sm (ShouldBeFSMState sm)\<rparr>
   in sm\<lparr>CurrentFSMState := ShouldBeFSMState sm\<rparr>)"

definition PostRunSanityCheck :: "CryoControlSM \<Rightarrow> CryoControlSM" where
  "PostRunSanityCheck sm =
    (let sm = (if ThisRunPIDValue sm < Fin 0
         then sm\<lparr>ThisRunHeaterPower := Fin 0, ThisRunCCPower := \<bar>ThisRunPIDValue sm\<bar>\<rparr>
         else sm\<lparr>ThisRunHeaterPower := ThisRunPIDValue sm, ThisRunCCPower := Fin 0\<rparr>)
     in if Fin 320 < MovingAvgCCRTD sm \<or> Fin 320 < MovingAvgLSHRTD sm
        then sm\<lparr>ThisRunHeaterPower := Fin 0, ThisRunCCPower := Fin 0\<rparr> else sm)"

subsection \<open>The constructor\<close>

definition default_table :: "FSMStates \<rightharpoonup> StateFn" where
  "default_table = [ST_Idle \<mapsto> Fn_Idle, ST_CoolDownHot \<mapsto> Fn_CoolDownHot,
     ST_CoolDownCold \<mapsto> Fn_CoolDownCold, ST_Warmup \<mapsto> Fn_Warmup,
     ST_MaintainWarm \<mapsto> Fn_MaintainWarm, ST_MaintainCold \<mapsto> Fn_MaintainCold, ST_Fault \<mapsto> Fn_Fault]"

text \<open>The members with an initialiser in the class; \<open>raw\<close> is the storage before construction.\<close>

definition member_defaults :: "CryoControlSM \<Rightarrow> CryoControlSM" where
  "member_defaults raw = raw\<lparr>CCoolerPower := False,
     KpA := Fin 2, KiA := Fin 5, KdA := Fin 1, KpR := Fin 2, KiR := Fin 5, KdR := Fin 1,
     ThisRunPIDValue := Fin 0, ThisRunCCPower := Fin 0, ThisRunHeaterPower := Fin 0,
     SentCCPower := Fin 0,
     vars := (vars raw)(CurrentTemperature := Fin 0, SetTemperature := Fin 0,
        TempratureRateMovingAvg := Fin 0, RSetpoint := Fin 0),
     MovingAvgCCRTD := Fin 0, MovingAvgLSHRTD := Fin 0, PMax := Fin 0, PMin := Fin 0,
     ComputedSRSPowerState := False, EntryGuardActive := False, ExitGuardActive := False,
     FSMMode := (AUTOMATIC \<noteq> 0)\<rparr>"

definition CryoControlSM_new :: "CryoControlSM \<Rightarrow> 64 word \<Rightarrow> 64 word \<Rightarrow> 64 word \<Rightarrow> CryoControlSM" where
  "CryoControlSM_new raw t0 t1 t2 =
    (let sm = member_defaults raw;
       sm = sm\<lparr>STFnTable := default_table, CurrentFSMState := ST_Idle, ShouldBeFSMState := ST_Idle\<rparr>;
       sm = sm\<lparr>CryoStateFn := STFnTable sm (ShouldBeFSMState sm)\<rparr>;
       sm = set_var CurrentTemperature (Fin 0) sm;
       sm = sm\<lparr>LastTemperature := Fin 0, TimeStamp := t0\<rparr>;
       (p, m) = PID_new8 (AbsPID sm) CurrentTemperature TOutput SetTemperature
          (KpA sm) (KiA sm) (KdA sm) P_ON_M DIRECT t1 (vars sm);
       sm = sm\<lparr>AbsPID := p, vars := m\<rparr>;
       (p, m) = PID_new8 (RatePID sm) TempratureRateMovingAvg ROutput RSetpoint
          (KpR sm) (KiR sm) (KdR sm) P_ON_M DIRECT t2 (vars sm);
       sm = sm\<lparr>RatePID := p, vars := m\<rparr>;
       sm = abs_SetOutputLimits (Fin 0) (Fin 75) sm
     in rate_SetOutputLimits (Fin 0) (Fin 75) sm)"

subsection \<open>The engine\<close>

text \<open>What one call takes from outside: the rows of the database, the indeterminate content of the
  local data packet, and the readings of the clock in the decision and in the controllers.\<close>

record engine_input =
  in_control :: control_row
  in_cc :: cc_row
  in_lsh :: lsh_row
  in_packet :: DataPacket
  in_time :: int
  in_pid_time :: "64 word"

definition engine_tunings :: "DataPacket \<Rightarrow> CryoControlSM \<Rightarrow> CryoControlSM" where
  "engine_tunings dp sm =
    (let sm = (if \<not> feq (dp_kpA dp) (GetKp (AbsPID sm)) \<or> \<not> feq (dp_kiA dp) (GetKi (AbsPID sm))
           \<or> \<not> feq (dp_kdA dp) (GetKd (AbsPID sm))
         then sm\<lparr>AbsPID := SetTunings (dp_kpA dp) (dp_kiA dp) (dp_kdA dp) (AbsPID sm)\<rparr> else sm)
     in if \<not> feq (dp_kpR dp) (GetKp (RatePID sm)) \<or> \<not> feq (dp_kiR dp) (GetKi (RatePID sm))
           \<or> \<not> feq (dp_kdR dp) (GetKd (RatePID sm))
         then sm\<lparr>RatePID := SetTunings (dp_kpR dp) (dp_kiR dp) (dp_kdR dp) (RatePID sm)\<rparr> else sm)"

definition moving_avg :: "double \<Rightarrow> double \<Rightarrow> double" where
  "moving_avg avg x = avg + (x - avg) / RateMovingAvgN"

definition engine_readings :: "DataPacket \<Rightarrow> CryoControlSM \<Rightarrow> CryoControlSM" where
  "engine_readings dp sm =
    (let sm = sm\<lparr>PMax := dp_PMax dp, PMin := dp_PMin dp,
         LastCCTime := dp_LastCCTime dp, LastLSHTime := dp_LastLSHTime dp\<rparr>;
       sm = (if \<not> feq (dp_TTemp dp) (set_temp sm) then set_var SetTemperature (dp_TTemp dp) sm else sm);
       sm = sm\<lparr>LastTemperature := cur_temp sm\<rparr>;
       sm = set_var CurrentTemperature (dp_curTemp dp) sm;
       sm = (if \<not> feq (LastTemperature sm) (Fin 0)
         then set_var TempratureRateMovingAvg
           (rate_avg sm + ((cur_temp sm - LastTemperature sm) / RateMovingAvgN
              - rate_avg sm / RateMovingAvgN)) sm
         else sm);
       sm = (if Fin 10 < dp_curTemp dp
         then sm\<lparr>MovingAvgCCRTD := moving_avg (MovingAvgCCRTD sm) (dp_curTemp dp)\<rparr> else sm)
     in if Fin 10 < dp_curTempLSH dp
        then sm\<lparr>MovingAvgLSHRTD := moving_avg (MovingAvgLSHRTD sm) (dp_curTempLSH dp)\<rparr> else sm)"

text \<open>The call goes through the pointer; a null pointer has no behaviour (\<open>None\<close>).\<close>

definition SMEngine :: "engine_input \<Rightarrow> CryoControlSM \<Rightarrow> (CryoControlSM \<times> sql list) option" where
  "SMEngine i sm =
    (let (dp, sm, stmts) = UpdateVars (in_control i) (in_cc i) (in_lsh i) (in_packet i) sm;
       sm = engine_tunings dp sm;
       sm = engine_readings dp sm;
       sm = StateDecision (in_time i) sm;
       sm = (if CurrentFSMState sm \<noteq> ShouldBeFSMState sm then StateSwitch sm else sm)
     in case CryoStateFn sm of
          None \<Rightarrow> None
        | Some f \<Rightarrow> Some (PostRunSanityCheck (call_state_fn f (in_pid_time i) sm), stmts))"

text \<open>\<open>main\<close> of \<open>StartSM.cpp\<close>: the engine for ever; here, once per element of a list of inputs.\<close>

fun StartSM_main :: "engine_input list \<Rightarrow> CryoControlSM \<Rightarrow> (CryoControlSM \<times> sql list) option" where
  "StartSM_main [] sm = Some (sm, [])"
| "StartSM_main (i # is) sm = (case SMEngine i sm of
     None \<Rightarrow> None
   | Some (sm', out) \<Rightarrow> (case StartSM_main is sm' of
        None \<Rightarrow> None
      | Some (sm'', out') \<Rightarrow> Some (sm'', out @ out')))"

subsection \<open>The accessors\<close>

definition getCurrentTemperature :: "CryoControlSM \<Rightarrow> double" where "getCurrentTemperature sm = cur_temp sm"
definition getTargetTemperature :: "CryoControlSM \<Rightarrow> double" where "getTargetTemperature sm = set_temp sm"
definition getCurrentPIDValue :: "CryoControlSM \<Rightarrow> double" where "getCurrentPIDValue sm = ThisRunPIDValue sm"
definition getTemperatureRate :: "CryoControlSM \<Rightarrow> double" where "getTemperatureRate sm = rate_avg sm"
definition getTemperatureSP :: "CryoControlSM \<Rightarrow> double" where "getTemperatureSP sm = set_temp sm"
definition getTRateSP :: "CryoControlSM \<Rightarrow> double" where "getTRateSP sm = vars sm RSetpoint"
definition getCurrentState :: "CryoControlSM \<Rightarrow> int" where "getCurrentState sm = state_int (CurrentFSMState sm)"
definition getShouldBeState :: "CryoControlSM \<Rightarrow> int" where "getShouldBeState sm = state_int (ShouldBeFSMState sm)"
definition getSentCCPower :: "CryoControlSM \<Rightarrow> double" where "getSentCCPower sm = SentCCPower sm"

end
