(* ===== verification/CryoSafety.thy ===== *)
theory CryoSafety
  imports CryoControlSM
begin

text \<open>
  What the state machine guarantees: an invariant of every reachable state that ties the modes and
  limits of the two controllers, the cryocooler and SRS switches and the outputs to the state the
  machine is in, and the safety properties that follow from it.
\<close>

subsection \<open>What each state prescribes\<close>

definition rate_state :: "FSMStates \<Rightarrow> bool" where
  "rate_state st \<longleftrightarrow> st \<in> {ST_Warmup, ST_CoolDownHot, ST_CoolDownCold}"

definition abs_state :: "FSMStates \<Rightarrow> bool" where
  "abs_state st \<longleftrightarrow> st \<in> {ST_MaintainWarm, ST_MaintainCold}"

definition cooler_on :: "FSMStates \<Rightarrow> bool" where
  "cooler_on st \<longleftrightarrow> st \<in> {ST_CoolDownHot, ST_CoolDownCold, ST_MaintainCold}"

definition cold_state :: "FSMStates \<Rightarrow> bool" where
  "cold_state st \<longleftrightarrow> st \<in> {ST_CoolDownCold, ST_MaintainCold}"

definition low_limit :: "FSMStates \<Rightarrow> double" where
  "low_limit st = (if cold_state st then Fin (- 120) else Fin 0)"

lemmas state_class_defs = rate_state_def abs_state_def cooler_on_def cold_state_def low_limit_def

definition wired :: "CryoControlSM \<Rightarrow> bool" where
  "wired sm \<longleftrightarrow> myInput (AbsPID sm) = CurrentTemperature \<and> myOutput (AbsPID sm) = TOutput
     \<and> mySetpoint (AbsPID sm) = SetTemperature \<and> myInput (RatePID sm) = TempratureRateMovingAvg
     \<and> myOutput (RatePID sm) = ROutput \<and> mySetpoint (RatePID sm) = RSetpoint
     \<and> STFnTable sm = default_table \<and> FSMMode sm"

definition settled :: "FSMStates \<Rightarrow> CryoControlSM \<Rightarrow> bool" where
  "settled st sm \<longleftrightarrow> inAuto (RatePID sm) = rate_state st \<and> inAuto (AbsPID sm) = abs_state st
     \<and> outMin (RatePID sm) = low_limit st \<and> outMax (RatePID sm) = Fin 75
     \<and> outMin (AbsPID sm) = low_limit st \<and> outMax (AbsPID sm) = Fin 75
     \<and> CCoolerPower sm = cooler_on st \<and> ComputedSRSPowerState sm = cold_state st
     \<and> (rate_state st \<longrightarrow> between (low_limit st) (Fin 75) (vars sm ROutput))
     \<and> (abs_state st \<longrightarrow> between (low_limit st) (Fin 75) (vars sm TOutput))
     \<and> (st = ST_Warmup \<longrightarrow> vars sm RSetpoint = DeltaTRatePerMin / Fin 60)
     \<and> (st \<in> {ST_CoolDownHot, ST_CoolDownCold} \<longrightarrow>
          vars sm RSetpoint = Fin (- 1) * DeltaTRatePerMin / Fin 60)"

lemma low_limit_bounds [simp]: "\<not> Fin 75 < low_limit st" "\<not> Fin 75 \<le> low_limit st" "low_limit st < Fin 75"
  by (simp_all add: low_limit_def)

lemma limits_fp [simp]:
  "\<not> Fin 75 < Fin (- 120)" "\<not> Fin 75 < Fin 0" "\<not> Fin 75 \<le> Fin (- 120)" "\<not> Fin 75 \<le> Fin 0"
  by simp_all

subsection \<open>The controllers inside the machine\<close>

lemma abs_SetOutputLimits_alt:
  "abs_SetOutputLimits lo hi sm = sm\<lparr>AbsPID := fst (SetOutputLimits lo hi (AbsPID sm) (vars sm)),
     vars := snd (SetOutputLimits lo hi (AbsPID sm) (vars sm))\<rparr>"
  by (simp add: abs_SetOutputLimits_def split_def)

lemma rate_SetOutputLimits_alt:
  "rate_SetOutputLimits lo hi sm = sm\<lparr>RatePID := fst (SetOutputLimits lo hi (RatePID sm) (vars sm)),
     vars := snd (SetOutputLimits lo hi (RatePID sm) (vars sm))\<rparr>"
  by (simp add: rate_SetOutputLimits_def split_def)

lemmas member_ops = abs_SetMode_def rate_SetMode_def abs_SetOutputLimits_alt
  rate_SetOutputLimits_alt set_var_def

lemmas entry_defs = Idle_entry_def Fault_entry_def Warmup_entry_def CoolDownHot_entry_def
  CoolDownCold_entry_def MaintainWarm_entry_def MaintainCold_entry_def

fun entry_of :: "FSMStates \<Rightarrow> CryoControlSM \<Rightarrow> CryoControlSM" where
  "entry_of ST_Idle = Idle_entry"
| "entry_of ST_CoolDownHot = CoolDownHot_entry"
| "entry_of ST_CoolDownCold = CoolDownCold_entry"
| "entry_of ST_Warmup = Warmup_entry"
| "entry_of ST_MaintainWarm = MaintainWarm_entry"
| "entry_of ST_MaintainCold = MaintainCold_entry"
| "entry_of ST_Fault = Fault_entry"

lemma entry_wired: "wired sm \<Longrightarrow> wired (entry_of st sm)"
  by (cases st) (simp_all add: entry_defs member_ops wired_def pid_simps Let_def)

text \<open>From the controller interface: entering the limits in automatic mode bounds the output.\<close>

lemma limits_drive:
  assumes "lo < hi" "inAuto p" "myOutput p = v"
  shows "between lo hi (snd (SetOutputLimits lo hi p m) v)"
proof -
  obtain p' m' where l: "SetOutputLimits lo hi p m = (p', m')" by fastforce
  moreover from this have "myOutput p' = v" using assms(3) SetOutputLimits_fields(3) [of lo hi p m] by simp
  ultimately show ?thesis
    using pidc.set_limits_drive [OF assms(1,2) l] by simp
qed

lemma entry_settled: "wired sm \<Longrightarrow> settled st (entry_of st sm)"
  by (cases st)
    (simp_all add: entry_defs member_ops wired_def settled_def state_class_defs pid_simps Let_def
      pid_consts limits_drive)

lemma entry_guard [simp]: "\<not> EntryGuardActive (entry_of st sm)"
  by (cases st) (simp_all add: entry_defs Let_def)

text \<open>A run of the active controller keeps the machine wired and settled.\<close>

lemma rate_Compute_settled:
  assumes "wired sm" "settled st sm" "rate_state st"
  shows "wired (rate_Compute now sm)" "settled st (rate_Compute now sm)"
proof -
  obtain b p m where c: "Compute now (RatePID sm) (vars sm) = (b, p, m)"
    by (cases "Compute now (RatePID sm) (vars sm)") auto
  have k: "between (low_limit st) (Fin 75) (m ROutput)"
    using pidc.step_keeps [OF c, of "low_limit st" "Fin 75"] assms Compute_fields [OF c]
    by (simp add: settled_def wired_def)
  have v: "m v = vars sm v" if "v \<noteq> ROutput" for v
    using Compute_mem [OF c] that assms(1) by (simp add: wired_def)
  show "wired (rate_Compute now sm)" "settled st (rate_Compute now sm)"
    using assms Compute_fields [OF c] k v
    by (auto simp: rate_Compute_def c wired_def settled_def state_class_defs)
qed

lemma abs_Compute_settled:
  assumes "wired sm" "settled st sm" "abs_state st"
  shows "wired (abs_Compute now sm)" "settled st (abs_Compute now sm)"
proof -
  obtain b p m where c: "Compute now (AbsPID sm) (vars sm) = (b, p, m)"
    by (cases "Compute now (AbsPID sm) (vars sm)") auto
  have k: "between (low_limit st) (Fin 75) (m TOutput)"
    using pidc.step_keeps [OF c, of "low_limit st" "Fin 75"] assms Compute_fields [OF c]
    by (simp add: settled_def wired_def)
  have v: "m v = vars sm v" if "v \<noteq> TOutput" for v
    using Compute_mem [OF c] that assms(1) by (simp add: wired_def)
  show "wired (abs_Compute now sm)" "settled st (abs_Compute now sm)"
    using assms Compute_fields [OF c] k v
    by (auto simp: abs_Compute_def c wired_def settled_def state_class_defs)
qed

subsection \<open>The state functions\<close>

text \<open>Each state function is its entry block, when guarded, and then a body.\<close>

definition body_of :: "FSMStates \<Rightarrow> 64 word \<Rightarrow> CryoControlSM \<Rightarrow> CryoControlSM" where
  "body_of st now sm =
    (if rate_state st then (let sm = rate_Compute now sm in sm\<lparr>ThisRunPIDValue := vars sm ROutput\<rparr>)
     else if abs_state st then (let sm = abs_Compute now sm in sm\<lparr>ThisRunPIDValue := vars sm TOutput\<rparr>)
     else if st = ST_Idle then sm\<lparr>ThisRunPIDValue := Fin 0\<rparr>
     else sm\<lparr>ThisRunPIDValue := Fin 0, ThisRunCCPower := Fin 0, ThisRunHeaterPower := Fin 0\<rparr>)"

lemma state_fn_split:
  assumes "default_table st = Some f"
  shows "call_state_fn f now sm = body_of st now (if EntryGuardActive sm then entry_of st sm else sm)"
  using assms
  by (cases st) (auto simp: default_table_def body_of_def state_class_defs Let_def Idle_def Fault_def
      Warmup_def CoolDownHot_def CoolDownCold_def MaintainWarm_def MaintainCold_def split: if_splits)

lemma body_settled:
  assumes "wired sm" "settled st sm"
  shows "wired (body_of st now sm)" "settled st (body_of st now sm)"
    "between (low_limit st) (Fin 75) (ThisRunPIDValue (body_of st now sm))"
proof -
  consider (r) "rate_state st" | (a) "abs_state st" "\<not> rate_state st"
    | (n) "\<not> rate_state st" "\<not> abs_state st" by blast
  then have "wired (body_of st now sm) \<and> settled st (body_of st now sm)
     \<and> between (low_limit st) (Fin 75) (ThisRunPIDValue (body_of st now sm))"
  proof cases
    case r
    then show ?thesis using rate_Compute_settled [OF assms r, of now]
      by (simp add: body_of_def Let_def wired_def settled_def)
  next
    case a
    then show ?thesis using abs_Compute_settled [OF assms a(1), of now]
      by (simp add: body_of_def Let_def wired_def settled_def)
  next
    case n
    then show ?thesis using assms
      by (auto simp: body_of_def wired_def settled_def state_class_defs between_def)
  qed
  then show "wired (body_of st now sm)" "settled st (body_of st now sm)"
    "between (low_limit st) (Fin 75) (ThisRunPIDValue (body_of st now sm))" by auto
qed

text \<open>The fields no state function touches.\<close>

lemma entry_frame [sm_simps]:
  "CurrentFSMState (entry_of st sm) = CurrentFSMState sm"
  "ShouldBeFSMState (entry_of st sm) = ShouldBeFSMState sm"
  "CryoStateFn (entry_of st sm) = CryoStateFn sm"
  "MovingAvgCCRTD (entry_of st sm) = MovingAvgCCRTD sm"
  "MovingAvgLSHRTD (entry_of st sm) = MovingAvgLSHRTD sm"
  by (cases st; simp add: entry_defs member_ops Let_def)+

lemma body_frame [sm_simps]:
  "CurrentFSMState (body_of st now sm) = CurrentFSMState sm"
  "ShouldBeFSMState (body_of st now sm) = ShouldBeFSMState sm"
  "CryoStateFn (body_of st now sm) = CryoStateFn sm"
  "EntryGuardActive (body_of st now sm) = EntryGuardActive sm"
  "MovingAvgCCRTD (body_of st now sm) = MovingAvgCCRTD sm"
  "MovingAvgLSHRTD (body_of st now sm) = MovingAvgLSHRTD sm"
  by (simp_all add: body_of_def rate_Compute_def abs_Compute_def Let_def split_def)

subsection \<open>The invariant of the engine\<close>

definition outputs_ok :: "CryoControlSM \<Rightarrow> bool" where
  "outputs_ok sm \<longleftrightarrow> between (Fin 0) (Fin 75) (ThisRunHeaterPower sm)
     \<and> inside 0 120 (ThisRunCCPower sm)
     \<and> (ThisRunHeaterPower sm = Fin 0 \<or> ThisRunCCPower sm = Fin 0)
     \<and> (Fin 320 < MovingAvgCCRTD sm \<or> Fin 320 < MovingAvgLSHRTD sm \<longrightarrow>
          ThisRunHeaterPower sm = Fin 0 \<and> ThisRunCCPower sm = Fin 0)"

definition sm_inv :: "CryoControlSM \<Rightarrow> bool" where
  "sm_inv sm \<longleftrightarrow> wired sm \<and> settled (CurrentFSMState sm) sm \<and> \<not> EntryGuardActive sm
     \<and> ShouldBeFSMState sm = CurrentFSMState sm
     \<and> CryoStateFn sm = default_table (CurrentFSMState sm)
     \<and> between (low_limit (CurrentFSMState sm)) (Fin 75) (ThisRunPIDValue sm)
     \<and> outputs_ok sm"

lemma default_table_total: "\<exists>f. default_table st = Some f"
  by (cases st) (auto simp: default_table_def)

lemma PostRun_frame [sm_simps]:
  "wired (PostRunSanityCheck sm) = wired sm" "settled st (PostRunSanityCheck sm) = settled st sm"
  "EntryGuardActive (PostRunSanityCheck sm) = EntryGuardActive sm"
  "CurrentFSMState (PostRunSanityCheck sm) = CurrentFSMState sm"
  "ShouldBeFSMState (PostRunSanityCheck sm) = ShouldBeFSMState sm"
  "CryoStateFn (PostRunSanityCheck sm) = CryoStateFn sm"
  "ThisRunPIDValue (PostRunSanityCheck sm) = ThisRunPIDValue sm"
  "MovingAvgCCRTD (PostRunSanityCheck sm) = MovingAvgCCRTD sm"
  "MovingAvgLSHRTD (PostRunSanityCheck sm) = MovingAvgLSHRTD sm"
  "vars (PostRunSanityCheck sm) = vars sm"
  "AbsPID (PostRunSanityCheck sm) = AbsPID sm" "RatePID (PostRunSanityCheck sm) = RatePID sm"
  by (simp_all add: PostRunSanityCheck_def Let_def wired_def settled_def)

lemma PostRun_outputs:
  assumes "between (low_limit st) (Fin 75) (ThisRunPIDValue sm)"
  shows "outputs_ok (PostRunSanityCheck sm)"
  using assms
  by (cases "ThisRunPIDValue sm")
    (auto simp: PostRunSanityCheck_def Let_def outputs_ok_def between_def low_limit_def
      split: if_splits)

text \<open>The stages before the decision.\<close>

lemma tunings_frame [sm_simps]:
  "wired sm \<Longrightarrow> wired (engine_tunings dp sm)" "settled st sm \<Longrightarrow> settled st (engine_tunings dp sm)"
  "EntryGuardActive (engine_tunings dp sm) = EntryGuardActive sm"
  "CurrentFSMState (engine_tunings dp sm) = CurrentFSMState sm"
  "ShouldBeFSMState (engine_tunings dp sm) = ShouldBeFSMState sm"
  "CryoStateFn (engine_tunings dp sm) = CryoStateFn sm"
  "MovingAvgCCRTD (engine_tunings dp sm) = MovingAvgCCRTD sm"
  "MovingAvgLSHRTD (engine_tunings dp sm) = MovingAvgLSHRTD sm"
  "vars (engine_tunings dp sm) = vars sm" "FSMMode (engine_tunings dp sm) = FSMMode sm"
  by (simp_all add: engine_tunings_def Let_def wired_def settled_def pid_simps)

lemma readings_frame [sm_simps]:
  "wired sm \<Longrightarrow> wired (engine_readings dp sm)" "settled st sm \<Longrightarrow> settled st (engine_readings dp sm)"
  "EntryGuardActive (engine_readings dp sm) = EntryGuardActive sm"
  "CurrentFSMState (engine_readings dp sm) = CurrentFSMState sm"
  "ShouldBeFSMState (engine_readings dp sm) = ShouldBeFSMState sm"
  "CryoStateFn (engine_readings dp sm) = CryoStateFn sm"
  "AbsPID (engine_readings dp sm) = AbsPID sm" "RatePID (engine_readings dp sm) = RatePID sm"
  "LastCCTime (engine_readings dp sm) = dp_LastCCTime dp"
  "LastLSHTime (engine_readings dp sm) = dp_LastLSHTime dp"
  "cur_temp (engine_readings dp sm) = dp_curTemp dp"
  "MovingAvgCCRTD (engine_readings dp sm) =
     (if Fin 10 < dp_curTemp dp then moving_avg (MovingAvgCCRTD sm) (dp_curTemp dp) else MovingAvgCCRTD sm)"
  "MovingAvgLSHRTD (engine_readings dp sm) =
     (if Fin 10 < dp_curTempLSH dp then moving_avg (MovingAvgLSHRTD sm) (dp_curTempLSH dp)
      else MovingAvgLSHRTD sm)"
  by (simp_all add: engine_readings_def Let_def wired_def settled_def set_var_def)

lemma decision_frame [sm_simps]:
  "wired (StateDecision t sm) = wired sm" "settled st (StateDecision t sm) = settled st sm"
  "EntryGuardActive (StateDecision t sm) = EntryGuardActive sm"
  "CurrentFSMState (StateDecision t sm) = CurrentFSMState sm"
  "CryoStateFn (StateDecision t sm) = CryoStateFn sm"
  "MovingAvgCCRTD (StateDecision t sm) = MovingAvgCCRTD sm"
  "MovingAvgLSHRTD (StateDecision t sm) = MovingAvgLSHRTD sm"
  "vars (StateDecision t sm) = vars sm"
  "AbsPID (StateDecision t sm) = AbsPID sm" "RatePID (StateDecision t sm) = RatePID sm"
  by (simp_all add: StateDecision_def Let_def wired_def settled_def)

text \<open>The state of the machine just before the switch.\<close>

definition before_switch :: "engine_input \<Rightarrow> CryoControlSM \<Rightarrow> CryoControlSM" where
  "before_switch i sm = (case UpdateVars (in_control i) (in_cc i) (in_lsh i) (in_packet i) sm of
     (dp, sm, stmts) \<Rightarrow> StateDecision (in_time i) (engine_readings dp (engine_tunings dp sm)))"

definition statements :: "engine_input \<Rightarrow> CryoControlSM \<Rightarrow> sql list" where
  "statements i sm = snd (snd (UpdateVars (in_control i) (in_cc i) (in_lsh i) (in_packet i) sm))"

definition packet :: "engine_input \<Rightarrow> CryoControlSM \<Rightarrow> DataPacket" where
  "packet i sm = fst (UpdateVars (in_control i) (in_cc i) (in_lsh i) (in_packet i) sm)"

lemma before_switch_alt:
  "before_switch i sm = StateDecision (in_time i) (engine_readings (packet i sm)
     (engine_tunings (packet i sm) (sm\<lparr>SentCCPower := ThisRunCCPower sm + row_PMin (in_cc i)\<rparr>)))"
  by (simp add: before_switch_def packet_def split_def UpdateVars_sm)

lemma SentCCPower_frame [simp]:
  "wired (sm\<lparr>SentCCPower := x\<rparr>) = wired sm" "settled st (sm\<lparr>SentCCPower := x\<rparr>) = settled st sm"
  by (simp_all add: wired_def settled_def)

lemma before_switch_frame:
  assumes "sm_inv sm"
  shows "wired (before_switch i sm)" "settled (CurrentFSMState sm) (before_switch i sm)"
    "\<not> EntryGuardActive (before_switch i sm)"
    "CurrentFSMState (before_switch i sm) = CurrentFSMState sm"
    "CryoStateFn (before_switch i sm) = default_table (CurrentFSMState sm)"
  using assms by (simp_all add: before_switch_alt sm_simps sm_inv_def)

text \<open>The engine in one equation: the next state, its entry block if it is a new state, its body and
  the final checks.\<close>

definition engine_result :: "engine_input \<Rightarrow> CryoControlSM \<Rightarrow> CryoControlSM" where
  "engine_result i sm = (let b = before_switch i sm; st = ShouldBeFSMState b in
     PostRunSanityCheck (body_of st (in_pid_time i)
       (if st \<noteq> CurrentFSMState sm then entry_of st (StateSwitch b) else b)))"

lemma SMEngine_eq:
  assumes "sm_inv sm"
  shows "SMEngine i sm = Some (engine_result i sm, statements i sm)"
proof -
  let ?b = "before_switch i sm"
  have e: "SMEngine i sm = (let s = (if CurrentFSMState ?b \<noteq> ShouldBeFSMState ?b then StateSwitch ?b else ?b)
      in case CryoStateFn s of None \<Rightarrow> None
         | Some f \<Rightarrow> Some (PostRunSanityCheck (call_state_fn f (in_pid_time i) s), statements i sm))"
    unfolding SMEngine_def before_switch_def statements_def split_def Let_def by (rule refl)
  obtain f where f: "default_table (ShouldBeFSMState ?b) = Some f" using default_table_total by blast
  show ?thesis
    using before_switch_frame [OF assms, of i] f
    by (auto simp: e engine_result_def Let_def StateSwitch_def wired_def state_fn_split)
qed

lemma StateSwitch_frame [simp]:
  "wired (StateSwitch sm) = wired sm" "EntryGuardActive (StateSwitch sm)"
  "CurrentFSMState (StateSwitch sm) = ShouldBeFSMState sm"
  "ShouldBeFSMState (StateSwitch sm) = ShouldBeFSMState sm"
  "CryoStateFn (StateSwitch sm) = STFnTable sm (ShouldBeFSMState sm)"
  "MovingAvgCCRTD (StateSwitch sm) = MovingAvgCCRTD sm"
  "MovingAvgLSHRTD (StateSwitch sm) = MovingAvgLSHRTD sm" "vars (StateSwitch sm) = vars sm"
  "AbsPID (StateSwitch sm) = AbsPID sm" "RatePID (StateSwitch sm) = RatePID sm"
  by (simp_all add: StateSwitch_def Let_def wired_def)

lemma engine_result_inv:
  assumes "sm_inv sm"
  shows "sm_inv (engine_result i sm)" "CurrentFSMState (engine_result i sm) = ShouldBeFSMState (before_switch i sm)"
proof -
  let ?b = "before_switch i sm"
  let ?st = "ShouldBeFSMState ?b"
  define s where "s = (if ?st \<noteq> CurrentFSMState sm then entry_of ?st (StateSwitch ?b) else ?b)"
  note b = before_switch_frame [OF assms, of i]
  have s: "wired s" "settled ?st s" "\<not> EntryGuardActive s" "CurrentFSMState s = ?st"
      "ShouldBeFSMState s = ?st" "CryoStateFn s = default_table ?st"
    using b by (auto simp: s_def sm_simps entry_wired entry_settled) (simp add: wired_def)
  note r = body_settled [OF s(1,2), of "in_pid_time i"]
  have e: "engine_result i sm = PostRunSanityCheck (body_of ?st (in_pid_time i) s)"
    by (simp add: engine_result_def s_def Let_def)
  show c: "CurrentFSMState (engine_result i sm) = ?st"
    using s by (simp add: e sm_simps)
  show "sm_inv (engine_result i sm)"
    unfolding sm_inv_def c unfolding e using s r by (simp add: sm_simps PostRun_outputs [OF r(3)])
qed

subsection \<open>Reachable states\<close>

inductive sm_reachable :: "CryoControlSM \<Rightarrow> bool" where
  start: "sm_reachable (CryoControlSM_new raw t0 t1 t2)"
| run: "sm_reachable sm \<Longrightarrow> SMEngine i sm = Some (sm', out) \<Longrightarrow> sm_reachable sm'"

lemma new_inv: "sm_inv (CryoControlSM_new raw t0 t1 t2)"
proof -
  define s0 where "s0 = (member_defaults raw)\<lparr>STFnTable := default_table, CurrentFSMState := ST_Idle,
    ShouldBeFSMState := ST_Idle, CryoStateFn := default_table ST_Idle,
    LastTemperature := Fin 0, TimeStamp := t0\<rparr>"
  define m where "m = (vars (member_defaults raw))(CurrentTemperature := Fin 0)"
  obtain p m1 where p: "PID_new8 (AbsPID raw) CurrentTemperature TOutput SetTemperature
      (Fin 2) (Fin 5) (Fin 1) P_ON_M DIRECT t1 m = (p, m1)" by fastforce
  obtain q m2 where q: "PID_new8 (RatePID raw) TempratureRateMovingAvg ROutput RSetpoint
      (Fin 2) (Fin 5) (Fin 1) P_ON_M DIRECT t2 m1 = (q, m2)" by fastforce
  note P = PID_new8_fields [OF p] and Q = PID_new8_fields [OF q]
  have n: "CryoControlSM_new raw t0 t1 t2 = rate_SetOutputLimits (Fin 0) (Fin 75)
      (abs_SetOutputLimits (Fin 0) (Fin 75) (s0\<lparr>AbsPID := p, RatePID := q, vars := m2\<rparr>))"
    using p q by (simp add: CryoControlSM_new_def s0_def Let_def set_var_def m_def member_defaults_def)
  show ?thesis
    using P Q unfolding n
    by (simp add: sm_inv_def wired_def settled_def outputs_ok_def member_ops pid_simps s0_def
        member_defaults_def state_class_defs pid_consts between_def)
qed

lemma reachable_inv: "sm_reachable sm \<Longrightarrow> sm_inv sm"
proof (induction rule: sm_reachable.induct)
  case (start raw t0 t1 t2)
  show ?case by (rule new_inv)
next
  case (run sm i sm' out)
  then show ?case using SMEngine_eq [of sm i] engine_result_inv(1) [of sm i] by simp
qed

end
