(* ===== verification/CryoNumbers.thy ===== *)
theory CryoNumbers
  imports CryoSafety
begin

text \<open>
  A NaN passes every comparison of the code as if it were in range, so the bounds of the outputs
  that the invariant of CryoSafety gives leave it open whether they are numbers. Here they
  are: as long as the rows of the database hold numbers of plausible size, and so do the two output
  variables that the constructor leaves uninitialised, every number the state machine computes
  stays finite.
\<close>

text \<open>A row of plausible size: gains within a million, temperatures and the reported power within
  1000.\<close>

definition plausible :: "engine_input \<Rightarrow> bool" where
  "plausible i \<longleftrightarrow> list_all (mag 1000000) [row_Kp (in_control i), row_Ki (in_control i), row_Kd (in_control i),
       row_KpR (in_control i), row_KiR (in_control i), row_KdR (in_control i)]
     \<and> list_all (mag 1000) [row_TTemperature (in_control i), row_TC (in_cc i), row_PMin (in_cc i)]"

definition raw_ok :: "CryoControlSM \<Rightarrow> bool" where
  "raw_ok raw \<longleftrightarrow> mag 10000 (vars raw TOutput) \<and> mag 10000 (vars raw ROutput)"

definition sm_numbers :: "CryoControlSM \<Rightarrow> bool" where
  "sm_numbers sm \<longleftrightarrow> pid_ok (AbsPID sm) \<and> pid_ok (RatePID sm) \<and> mem_ok (vars sm)
     \<and> mag 1000 (cur_temp sm) \<and> mag 4000 (rate_avg sm)"

subsection \<open>The averaged rate\<close>

text \<open>The code adds the reading over 20 and takes the average over 20 away. From 2000 on what is
  taken away is at least 100, which is more than a reading can add: the average stays within 4000.\<close>

lemma rate_step_above:
  fixes a e :: rat
  assumes "a \<le> 4000" "e \<le> 100" "- 4000 \<le> a"
    and small: "\<bar>rnd_rat 53 (- 1022) (e - rnd_rat 53 (- 1022) (a / 20))\<bar> \<le> 300"
  shows "a + rnd_rat 53 (- 1022) (e - rnd_rat 53 (- 1022) (a / 20)) \<le> 4000"
proof (cases "2000 \<le> a")
  case True
  let ?r = "rnd_rat 53 (- 1022)"
  have "?r 100 = 100" "?r 0 = 0" using exact64_of_int [of 100] exact64_0_1(1) by (simp_all add: exact64_def)
  then have "100 \<le> ?r (a / 20)" using b64.above [of 100 "a / 20"] True by simp
  then have "?r (e - ?r (a / 20)) \<le> 0" using b64.below [of "e - ?r (a / 20)" 0] \<open>?r 0 = 0\<close> assms(2) by simp
  then show ?thesis using assms(1) by simp
next
  case False
  then show ?thesis using small by linarith
qed

lemma rate_step:
  assumes "mag 4000 r" "mag 1000 c" "mag 1000 l"
  shows "mag 4000 (r + ((c - l) / RateMovingAvgN - r / RateMovingAvgN))"
proof -
  let ?r = "rnd_rat 53 (- 1022)"
  obtain a where a: "r = Fin a" "\<bar>a\<bar> \<le> 4000" using assms(1) by (auto simp: mag_iff)
  have e20: "\<bar>?r 20\<bar> = 20" "?r 100 = 100" "?r 200 = 200" "?r (- 100) = - 100" "?r (- 200) = - 200"
    using exact64_of_int [of 20] exact64_of_int [of 100] exact64_of_int [of 200]
      exact64_of_int [of "- 100"] exact64_of_int [of "- 200"] by (simp_all add: exact64_def)
  have "mag 2000 (c - l)" using assms(2,3) by (rule mag_minus) simp_all
  then obtain y where y: "c - l = Fin y" "\<bar>y\<bar> \<le> 2000" by (auto simp: mag_iff)
  have small: "\<bar>?r (y / 20)\<bar> \<le> 100" "\<bar>?r (a / 20)\<bar> \<le> 200"
    using b64.magnitude [of "y / 20" 100] b64.magnitude [of "a / 20" 200] e20 y(2) a(2) by simp_all
  have fin: "Fin y / Fin 20 = Fin (?r (y / 20))" "Fin a / Fin 20 = Fin (?r (a / 20))"
    using small by (simp_all add: round64_Fin pw2_def)
  let ?e = "?r (y / 20)"
  have "mag 300 (Fin ?e - Fin (?r (a / 20)))"
    using small by (intro mag_minus [of 100 _ 200]) simp_all
  then have d: "Fin ?e - Fin (?r (a / 20)) = Fin (?r (?e - ?r (a / 20)))"
      "\<bar>?r (?e - ?r (a / 20))\<bar> \<le> 300"
    by (auto simp: minus_fp_def round64_def in_format_def Let_def mag_iff split: if_splits)
  have up: "a + ?r (?e - ?r (a / 20)) \<le> 4000"
    using rate_step_above [of a ?e] a(2) small(1) d(2) by (simp add: abs_le_iff)
  have "?r (- ?e - ?r (- a / 20)) = - ?r (?e - ?r (a / 20))"
    using b64.r_minus [of "a / 20"] b64.r_minus [of "?e - ?r (a / 20)"] by simp
  then have down: "- 4000 \<le> a + ?r (?e - ?r (a / 20))"
    using rate_step_above [of "- a" "- ?e"] a(2) small(1) d(2) by (simp add: abs_le_iff)
  have "mag 4000 (round64 (a + ?r (?e - ?r (a / 20))))"
    using up down by (intro round64_mag) (simp_all add: abs_le_iff)
  then show ?thesis
    unfolding RateMovingAvgN_def y(1) fin a(1) d(1) by simp
qed

subsection \<open>The entry blocks and bodies\<close>

lemma SetMode_ok: "pid_ok p \<Longrightarrow> mem_ok m \<Longrightarrow> pid_ok (SetMode k p m)"
  using pid_call_ok [of p m "Call_SetMode k"] by simp

lemma SetTunings_ok:
  "pid_ok p \<Longrightarrow> mag 1000000 a \<Longrightarrow> mag 1000000 b \<Longrightarrow> mag 1000000 c \<Longrightarrow> pid_ok (SetTunings a b c p)"
  by (simp add: SetTunings_def SetTunings4_ok)

lemma limits_ok:
  assumes "pid_ok p" "mem_ok m" "mag 1000 lo" "mag 1000 hi"
  shows "pid_ok (fst (SetOutputLimits lo hi p m))" "mem_ok (snd (SetOutputLimits lo hi p m))"
  using SetOutputLimits_ok [OF assms, of "fst (SetOutputLimits lo hi p m)" "snd (SetOutputLimits lo hi p m)"]
  by simp_all

text \<open>Controllers and memory hold numbers of plausible size.\<close>

definition parts_ok :: "CryoControlSM \<Rightarrow> bool" where
  "parts_ok sm \<longleftrightarrow> pid_ok (AbsPID sm) \<and> pid_ok (RatePID sm) \<and> mem_ok (vars sm)"

lemma rate_setpoints: "mag 10000 (DeltaTRatePerMin / Fin 60)" "mag 10000 (Fin (- 1) * DeltaTRatePerMin / Fin 60)"
  unfolding DeltaTRatePerMin_def by (auto intro!: mag_divide mag_times [of 1 _ 10000] simp del: times_fp.simps divide_fp.simps)

lemma parts_ok_ops:
  assumes "parts_ok sm"
  shows "parts_ok (abs_SetMode k sm)" "parts_ok (rate_SetMode k sm)"
    "mag 1000 lo \<Longrightarrow> mag 1000 hi \<Longrightarrow> parts_ok (abs_SetOutputLimits lo hi sm)"
    "mag 1000 lo \<Longrightarrow> mag 1000 hi \<Longrightarrow> parts_ok (rate_SetOutputLimits lo hi sm)"
    "mag 10000 x \<Longrightarrow> parts_ok (set_var v x sm)"
  using assms by (simp_all add: parts_ok_def member_ops SetMode_ok limits_ok mem_ok_upd)

lemma parts_ok_frame [simp]:
  "parts_ok (sm\<lparr>ThisRunCCPower := x\<rparr>) = parts_ok sm" "parts_ok (sm\<lparr>CCoolerPower := b\<rparr>) = parts_ok sm"
  "parts_ok (sm\<lparr>ComputedSRSPowerState := b\<rparr>) = parts_ok sm" "parts_ok (sm\<lparr>EntryGuardActive := b\<rparr>) = parts_ok sm"
  "parts_ok (sm\<lparr>ThisRunPIDValue := x\<rparr>) = parts_ok sm" "parts_ok (sm\<lparr>ThisRunHeaterPower := x\<rparr>) = parts_ok sm"
  by (simp_all add: parts_ok_def)

lemma entry_parts_ok: "parts_ok sm \<Longrightarrow> parts_ok (entry_of st sm)"
  by (cases st) (simp_all add: entry_defs Let_def parts_ok_ops rate_setpoints)

lemma Compute_parts_ok:
  assumes "parts_ok sm"
  shows "parts_ok (abs_Compute now sm)" "parts_ok (rate_Compute now sm)"
  using assms
  by (auto simp: abs_Compute_def rate_Compute_def parts_ok_def split: prod.splits dest: Compute_ok)

lemma body_parts_ok: "parts_ok sm \<Longrightarrow> parts_ok (body_of st now sm)"
  by (simp add: body_of_def Let_def Compute_parts_ok)

text \<open>Neither writes the two inputs of the controllers.\<close>

lemma entry_inputs:
  assumes "wired sm"
  shows "cur_temp (entry_of st sm) = cur_temp sm" "rate_avg (entry_of st sm) = rate_avg sm"
  using assms by (cases st; simp add: entry_defs member_ops wired_def pid_simps Let_def)+

lemma body_inputs:
  assumes "wired sm"
  shows "cur_temp (body_of st now sm) = cur_temp sm" "rate_avg (body_of st now sm) = rate_avg sm"
proof -
  have "vars (abs_Compute now sm) v = vars sm v" "vars (rate_Compute now sm) v = vars sm v"
    if "v \<noteq> TOutput" "v \<noteq> ROutput" for v
    using Compute_mem [of now "AbsPID sm" "vars sm"] Compute_mem [of now "RatePID sm" "vars sm"] assms that
    by (auto simp: abs_Compute_def rate_Compute_def wired_def split: prod.splits)
  then show "cur_temp (body_of st now sm) = cur_temp sm" "rate_avg (body_of st now sm) = rate_avg sm"
    by (simp_all add: body_of_def Let_def)
qed

subsection \<open>One call of the engine\<close>

lemma tunings_ok:
  assumes "parts_ok sm" "list_all (mag 1000000) [dp_kpA dp, dp_kiA dp, dp_kdA dp, dp_kpR dp, dp_kiR dp, dp_kdR dp]"
  shows "parts_ok (engine_tunings dp sm)"
  using assms by (simp add: engine_tunings_def Let_def parts_ok_def SetTunings_ok)

lemma readings_ok:
  assumes "parts_ok sm" "mag 1000 (cur_temp sm)" "mag 4000 (rate_avg sm)"
    and "mag 1000 (dp_TTemp dp)" "mag 1000 (dp_curTemp dp)"
  shows "sm_numbers (engine_readings dp sm)"
proof -
  define r where "r = rate_avg sm + ((dp_curTemp dp - cur_temp sm) / RateMovingAvgN - rate_avg sm / RateMovingAvgN)"
  have r: "mag 4000 r" unfolding r_def using rate_step [OF assms(3,5,2)] .
  define m where "m = (if \<not> feq (dp_TTemp dp) (set_temp sm) then (vars sm)(SetTemperature := dp_TTemp dp) else vars sm)
    (CurrentTemperature := dp_curTemp dp)"
  have v: "vars (engine_readings dp sm) =
      (if \<not> feq (cur_temp sm) (Fin 0) then m(TempratureRateMovingAvg := r) else m)"
    by (simp add: engine_readings_def Let_def set_var_def m_def r_def)
  have big: "mag 10000 (dp_TTemp dp)" "mag 10000 (dp_curTemp dp)" "mag 10000 r"
    using mag_mono [OF assms(4), of 10000] mag_mono [OF assms(5), of 10000] mag_mono [OF r, of 10000] by simp_all
  have "mem_ok (vars sm)" using assms(1) by (simp add: parts_ok_def)
  then have "mem_ok m" by (simp add: m_def mem_ok_upd big)
  then have "mem_ok (vars (engine_readings dp sm))" by (simp add: v mem_ok_upd big)
  moreover have "rate_avg (engine_readings dp sm) = (if \<not> feq (cur_temp sm) (Fin 0) then r else rate_avg sm)"
    by (simp add: v m_def)
  ultimately show ?thesis
    using assms r by (simp add: sm_numbers_def parts_ok_def sm_simps)
qed

lemma engine_numbers:
  assumes inv: "sm_inv sm" and n: "sm_numbers sm" and i: "plausible i"
  shows "sm_numbers (engine_result i sm)" "ThisRunPIDValue (engine_result i sm) \<noteq> NaN"
proof -
  let ?b = "before_switch i sm" and ?st = "ShouldBeFSMState (before_switch i sm)"
  define t where "t = engine_tunings (packet i sm) (sm\<lparr>SentCCPower := ThisRunCCPower sm + row_PMin (in_cc i)\<rparr>)"
  have "parts_ok t"
    unfolding t_def using n i
    by (intro tunings_ok) (simp_all add: sm_numbers_def parts_ok_def plausible_def packet_def sm_simps)
  moreover have "vars t = vars sm" by (simp add: t_def sm_simps)
  ultimately have "sm_numbers (engine_readings (packet i sm) t)"
    using n i by (intro readings_ok) (simp_all add: sm_numbers_def plausible_def packet_def sm_simps)
  then have b: "sm_numbers ?b"
    by (simp add: before_switch_alt t_def sm_numbers_def sm_simps)
  have wired: "wired ?b" using before_switch_frame(1) [OF inv] .
  define s where "s = (if ?st \<noteq> CurrentFSMState sm then entry_of ?st (StateSwitch ?b) else ?b)"
  have s: "wired s" "parts_ok s" "mag 1000 (cur_temp s)" "mag 4000 (rate_avg s)"
    using b wired by (auto simp: s_def entry_wired entry_inputs sm_numbers_def intro!: entry_parts_ok)
      (simp_all add: parts_ok_def)
  have e: "engine_result i sm = PostRunSanityCheck (body_of ?st (in_pid_time i) s)"
    by (simp add: engine_result_def s_def Let_def)
  show "sm_numbers (engine_result i sm)"
    using s body_parts_ok [OF s(2), of ?st "in_pid_time i"]
    by (simp add: e sm_numbers_def sm_simps body_inputs parts_ok_def)
  have "mag 10000 (vars (rate_Compute (in_pid_time i) s) ROutput)"
      "mag 10000 (vars (abs_Compute (in_pid_time i) s) TOutput)"
    using Compute_parts_ok [OF s(2), of "in_pid_time i"] by (simp_all add: parts_ok_def)
  then show "ThisRunPIDValue (engine_result i sm) \<noteq> NaN"
    by (auto simp: e sm_simps body_of_def Let_def dest: mag_not_NaN)
qed

lemma new_numbers:
  assumes "raw_ok raw"
  shows "sm_numbers (CryoControlSM_new raw t0 t1 t2)"
proof -
  define m where "m = (vars (member_defaults raw))(CurrentTemperature := Fin 0)"
  have m: "mem_ok m"
  proof -
    have "mag 10000 (m v)" for v
      using assms by (cases v) (simp_all add: m_def member_defaults_def raw_ok_def)
    then show ?thesis by (simp add: mem_ok_def)
  qed
  obtain p m1 where p: "PID_new8 (AbsPID raw) CurrentTemperature TOutput SetTemperature
      (Fin 2) (Fin 5) (Fin 1) P_ON_M DIRECT t1 m = (p, m1)" by fastforce
  obtain q m2 where q: "PID_new8 (RatePID raw) TempratureRateMovingAvg ROutput RSetpoint
      (Fin 2) (Fin 5) (Fin 1) P_ON_M DIRECT t2 m1 = (q, m2)" by fastforce
  note P = PID_new8_fields [OF p] and Q = PID_new8_fields [OF q]
  define s where "s = (member_defaults raw)\<lparr>STFnTable := default_table, CurrentFSMState := ST_Idle,
    ShouldBeFSMState := ST_Idle, CryoStateFn := default_table ST_Idle,
    LastTemperature := Fin 0, TimeStamp := t0, AbsPID := p, RatePID := q, vars := m\<rparr>"
  have n: "CryoControlSM_new raw t0 t1 t2 = rate_SetOutputLimits (Fin 0) (Fin 75)
      (abs_SetOutputLimits (Fin 0) (Fin 75) s)"
    using p q P(1) Q(1) by (simp add: CryoControlSM_new_def s_def Let_def set_var_def m_def member_defaults_def)
  have "parts_ok s"
    using PID_new8_ok [OF p] PID_new8_ok [OF q] m by (simp add: s_def parts_ok_def)
  then have "parts_ok (CryoControlSM_new raw t0 t1 t2)" by (simp add: n parts_ok_ops)
  moreover have "vars (CryoControlSM_new raw t0 t1 t2) = m"
    using P Q by (simp add: n s_def member_ops pid_simps)
  ultimately show ?thesis by (simp add: sm_numbers_def parts_ok_def m_def member_defaults_def)
qed

subsection \<open>A run of the program\<close>

text \<open>What one call writes: the powers are the outputs of the machine, the cryocooler's on top of the
  minimum power that the cryocooler has reported.\<close>

definition pass_powers :: "engine_input \<Rightarrow> sql list \<Rightarrow> double \<Rightarrow> double \<Rightarrow> bool" where
  "pass_powers i stmts h y \<longleftrightarrow> (\<exists>p c s tail. stmts = [Insert_SMState p c s, Set_HeaterPW h,
       Set_CCPower (y + row_PMin (in_cc i))] @ tail
     \<and> (\<forall>x. Set_HeaterPW x \<notin> set tail \<and> Set_CCPower x \<notin> set tail))"

lemma statements_powers:
  "pass_powers i (statements i sm) (ThisRunHeaterPower sm) (ThisRunCCPower sm)"
  by (auto simp: pass_powers_def statements_def UpdateVars_def Let_def split: option.splits)

definition real_outputs :: "CryoControlSM \<Rightarrow> bool" where
  "real_outputs sm \<longleftrightarrow> inside 0 75 (ThisRunHeaterPower sm) \<and> inside 0 120 (ThisRunCCPower sm)"

lemma outputs_real:
  assumes "sm_inv sm"
  shows "ThisRunHeaterPower sm = NaN \<or> inside 0 75 (ThisRunHeaterPower sm)" "inside 0 120 (ThisRunCCPower sm)"
  using assms between_Fin_iff [of 0 75] by (simp_all add: sm_inv_def outputs_ok_def)

lemma engine_real:
  assumes "sm_inv sm" "sm_numbers sm" "plausible i"
  shows "real_outputs (engine_result i sm)"
proof -
  have "ThisRunHeaterPower (PostRunSanityCheck s) = Fin 0
      \<or> ThisRunHeaterPower (PostRunSanityCheck s) = ThisRunPIDValue (PostRunSanityCheck s)" for s
    by (simp add: PostRunSanityCheck_def Let_def)
  then have "ThisRunHeaterPower (engine_result i sm) \<noteq> NaN"
    using engine_numbers(2) [OF assms] unfolding engine_result_def Let_def by (metis fp.distinct(3))
  then show ?thesis
    using outputs_real [OF engine_result_inv(1) [OF assms(1)]] by (auto simp: real_outputs_def)
qed

text \<open>The run, call by call. \<open>b\<close> says that the numbers are plausible.\<close>

definition pass_ok :: "bool \<Rightarrow> engine_input \<Rightarrow> sql list \<Rightarrow> bool" where
  "pass_ok b i stmts \<longleftrightarrow> (\<exists>h y. pass_powers i stmts h y \<and> (h = NaN \<or> inside 0 75 h) \<and> inside 0 120 y
     \<and> (b \<longrightarrow> inside 0 75 h))"

lemma statements_pass:
  assumes "sm_inv sm" "b \<longrightarrow> real_outputs sm"
  shows "pass_ok b i (statements i sm)"
  using statements_powers [of i sm] outputs_real [OF assms(1)] assms(2)
  unfolding pass_ok_def real_outputs_def by blast

lemma main_run:
  assumes "sm_reachable sm" "StartSM_main is sm = Some (sm', out)"
    and "b \<longrightarrow> sm_numbers sm \<and> real_outputs sm \<and> list_all plausible is"
  shows "sm_reachable sm' \<and> (\<exists>outs. out = concat outs \<and> list_all2 (pass_ok b) is outs)
    \<and> (b \<longrightarrow> real_outputs sm')"
  using assms
proof (induction "is" arbitrary: sm out)
  case (Cons i "is")
  let ?sm = "engine_result i sm"
  have inv: "sm_inv sm" using reachable_inv [OF Cons.prems(1)] .
  have e: "SMEngine i sm = Some (?sm, statements i sm)" using SMEngine_eq [OF inv] .
  then have r: "sm_reachable ?sm" using Cons.prems(1) by (rule sm_reachable.run [rotated])
  from Cons.prems(2) e obtain out' where
    m: "StartSM_main is ?sm = Some (sm', out')" and o: "out = statements i sm @ out'"
    by (auto split: option.splits)
  have n: "b \<longrightarrow> sm_numbers ?sm \<and> real_outputs ?sm \<and> list_all plausible is"
    using engine_numbers(1) [OF inv] engine_real [OF inv] Cons.prems(3) by simp
  from Cons.IH [OF r m n] obtain outs where
    outs: "out' = concat outs" "list_all2 (pass_ok b) is outs" and
    rest: "sm_reachable sm'" "b \<longrightarrow> real_outputs sm'" by blast
  have "out = concat (statements i sm # outs)" "list_all2 (pass_ok b) (i # is) (statements i sm # outs)"
    using o outs statements_pass [OF inv] Cons.prems(3) by simp_all
  then show ?case using rest by blast
qed auto

lemma new_real: "real_outputs (CryoControlSM_new raw t0 t1 t2)"
  by (simp add: real_outputs_def CryoControlSM_new_def Let_def split_def member_ops member_defaults_def)

end
