(* ===== verification/CryoProps.thy ===== *)
theory CryoProps
  imports CryoNumbers
begin

text \<open>
  The properties of the state machine, each from the invariant of its reachable states: bounds and
  exclusion of the two outputs, the interlocks of each state, the over-temperature trip, the
  shutdown on lost communication, what is written to the database and when, and the decision table.
\<close>

subsection \<open>A concrete machine for the examples\<close>

definition raw_pid :: "sm_var PID" where
  "raw_pid = \<lparr>dispKp = Fin 0, dispKi = Fin 0, dispKd = Fin 0, kp = Fin 0, ki = Fin 0, kd = Fin 0,
     controllerDirection = 7, pOn = 7, myInput = TOutput, myOutput = TOutput, mySetpoint = TOutput,
     lastTime = 0, outputSum = Fin 9, lastInput = Fin 9, SampleTime = 0, outMin = Fin 0,
     outMax = Fin 0, inAuto = True, pOnE = True\<rparr>"

definition raw_sm :: CryoControlSM where
  "raw_sm = \<lparr>LastTemperature = Fin 0, TimeStamp = 0, vars = (\<lambda>_. Fin 0), CCoolerPower = True,
     KpA = Fin 0, KiA = Fin 0, KdA = Fin 0, KpR = Fin 0, KiR = Fin 0, KdR = Fin 0,
     ThisRunPIDValue = Fin 5, ThisRunCCPower = Fin 5, ThisRunHeaterPower = Fin 5, SentCCPower = Fin 5,
     MovingAvgCCRTD = Fin 5, MovingAvgLSHRTD = Fin 5, PMax = Fin 0, PMin = Fin 0,
     LastCCTime = 0, LastLSHTime = 0, NowTime = 0, ComputedSRSPowerState = True,
     AbsPID = raw_pid, RatePID = raw_pid, STFnTable = Map.empty, CryoStateFn = None,
     CurrentFSMState = ST_Fault, ShouldBeFSMState = ST_Fault, EntryGuardActive = True,
     ExitGuardActive = True, FSMMode = False\<rparr>"

definition sm0 :: CryoControlSM where
  "sm0 = CryoControlSM_new raw_sm 1000 1000 1000"

definition packet0 :: DataPacket where
  "packet0 = \<lparr>dp_kpA = Fin 0, dp_kiA = Fin 0, dp_kdA = Fin 0, dp_kpR = Fin 0, dp_kiR = Fin 0,
     dp_kdR = Fin 0, dp_TTemp = Fin 0, dp_curTemp = Fin 0, dp_curTempLSH = Fin 0, dp_PMin = Fin 0,
     dp_PMax = Fin 0, dp_PID = Fin 0, dp_SystemState = Fin 0, dp_CCPowerStateLast = False,
     dp_WatchdogFuse = False, dp_SRSPowerState = False, dp_LastCCTime = 0, dp_LastLSHTime = 0\<rparr>"

text \<open>An input: temperature, set point, time, and the times of the last drone reports.\<close>

definition input0 :: "rat \<Rightarrow> rat \<Rightarrow> int \<Rightarrow> int \<Rightarrow> int \<Rightarrow> engine_input" where
  "input0 c s now tc th = \<lparr>in_control = \<lparr>row_TTemperature = Fin s, row_Kp = Fin 2, row_Ki = Fin 5,
       row_Kd = Fin 1, row_KpR = Fin 2, row_KiR = Fin 5, row_KdR = Fin 1, row_CCPowerState = False,
       row_WatchdogFuse = True, row_SRSPowerState = False\<rparr>,
     in_cc = \<lparr>row_CCTime = Some tc, row_TC = Fin c, row_PMin = Fin 80, row_PMax = Fin 200\<rparr>,
     in_lsh = \<lparr>row_LSHTime = Some th, row_LSHTemp = Fin c\<rparr>,
     in_packet = packet0, in_time = now, in_pid_time = word_of_int now\<rparr>"

lemma reach0: "sm_reachable sm0"
  unfolding sm0_def by (rule sm_reachable.start)

lemma reach1: "sm_reachable (engine_result i sm0)"
  using reach0 SMEngine_eq [OF reachable_inv [OF reach0], of i] by (rule sm_reachable.run)

subsection \<open>The outputs\<close>

text \<open>C1: after any number of calls of the engine the cryocooler output is a number between 0 and 120 and
  the heater output is between 0 and 75 unless it is a NaN, at most one of them is not zero, and both are zero
  while either averaged temperature is above 320. With numbers of plausible size in the rows (gains
  within a million, temperatures and the reported minimum power within 1000) and in the two output
  variables that the constructor leaves uninitialised, the heater output is never a NaN.\<close>

theorem outputs_always_ok:
  assumes "StartSM_main is (CryoControlSM_new raw t0 t1 t2) = Some (sm, out)"
  shows "(ThisRunHeaterPower sm = NaN \<or> inside 0 75 (ThisRunHeaterPower sm))
    \<and> inside 0 120 (ThisRunCCPower sm)
    \<and> (ThisRunHeaterPower sm = Fin 0 \<or> ThisRunCCPower sm = Fin 0)
    \<and> (Fin 320 < MovingAvgCCRTD sm \<or> Fin 320 < MovingAvgLSHRTD sm \<longrightarrow>
         ThisRunHeaterPower sm = Fin 0 \<and> ThisRunCCPower sm = Fin 0)
    \<and> (raw_ok raw \<and> list_all plausible is \<longrightarrow> inside 0 75 (ThisRunHeaterPower sm))"
proof -
  note run = main_run [OF sm_reachable.start assms, of "raw_ok raw \<and> list_all plausible is"]
  have inv: "sm_inv sm" using run new_numbers new_real reachable_inv by blast
  moreover have "raw_ok raw \<and> list_all plausible is \<longrightarrow> inside 0 75 (ThisRunHeaterPower sm)"
    using run new_numbers new_real by (auto simp: real_outputs_def)
  ultimately show ?thesis using outputs_real [OF inv] by (auto simp: sm_inv_def outputs_ok_def)
qed

theorem outputs_always_ok_witness:
  "inside 0 75 (ThisRunHeaterPower (engine_result (input0 290 150 1000 999 999) sm0))"
proof -
  have m: "StartSM_main [input0 290 150 1000 999 999] (CryoControlSM_new raw_sm 1000 1000 1000)
      = Some (engine_result (input0 290 150 1000 999 999) sm0, statements (input0 290 150 1000 999 999) sm0)"
    using SMEngine_eq [OF reachable_inv [OF reach0]] by (simp add: sm0_def)
  show ?thesis
    using outputs_always_ok [OF m] by (simp add: raw_ok_def raw_sm_def plausible_def input0_def)
qed

text \<open>C2: the state the machine reports decides the switches: the cryocooler is on exactly in the
  two cool-down states and in MaintainCold, the SRS supply exactly in CoolDownCold and MaintainCold,
  the rate controller is automatic exactly in the three ramping states and the temperature controller
  exactly in the two holding states, so never both, and only the two cold states allow a negative
  (cooling) output.\<close>

theorem state_interlocks:
  assumes "sm_reachable sm"
  shows "CCoolerPower sm = cooler_on (CurrentFSMState sm)
    \<and> ComputedSRSPowerState sm = cold_state (CurrentFSMState sm)
    \<and> inAuto (RatePID sm) = rate_state (CurrentFSMState sm)
    \<and> inAuto (AbsPID sm) = abs_state (CurrentFSMState sm)
    \<and> \<not> (inAuto (RatePID sm) \<and> inAuto (AbsPID sm))
    \<and> between (if cold_state (CurrentFSMState sm) then Fin (- 120) else Fin 0) (Fin 75) (ThisRunPIDValue sm)"
proof -
  note inv = reachable_inv [OF assms, unfolded sm_inv_def settled_def low_limit_def]
  have "\<not> (rate_state st \<and> abs_state st)" for st
    by (cases st) (simp_all add: rate_state_def abs_state_def)
  then show ?thesis using inv by blast
qed

theorem state_interlocks_witness:
  "CCoolerPower (engine_result (input0 290 150 1000 999 999) sm0)
     = cooler_on (CurrentFSMState (engine_result (input0 290 150 1000 999 999) sm0))"
  using state_interlocks [OF reach1] by blast

text \<open>C15: the state function pointer is never null: the engine returns from every reachable state,
  the pointer always belongs to the state the machine reports, and no entry block is left pending.\<close>

theorem engine_returns:
  assumes "sm_reachable sm"
  shows "\<exists>sm' out. SMEngine i sm = Some (sm', out) \<and> CryoStateFn sm' = STFnTable sm' (CurrentFSMState sm')
    \<and> CryoStateFn sm' \<noteq> None \<and> ShouldBeFSMState sm' = CurrentFSMState sm' \<and> \<not> EntryGuardActive sm'"
proof -
  note inv = reachable_inv [OF assms]
  obtain f where "default_table (CurrentFSMState (engine_result i sm)) = Some f"
    using default_table_total by blast
  then show ?thesis
    using SMEngine_eq [OF inv, of i] engine_result_inv(1) [OF inv, of i]
    by (auto simp: sm_inv_def wired_def)
qed

theorem engine_returns_witness:
  "\<exists>sm' out. SMEngine (input0 290 150 1000 999 999) sm0 = Some (sm', out) \<and> CryoStateFn sm' \<noteq> None"
  using engine_returns [OF reach0] by blast

subsection \<open>The statements sent to the database\<close>

lemma statements_eq:
  "statements i sm = [Insert_SMState (ThisRunPIDValue sm) (getCurrentState sm) (getShouldBeState sm),
      Set_HeaterPW (ThisRunHeaterPower sm), Set_CCPower (ThisRunCCPower sm + row_PMin (in_cc i))]
    @ (if row_CCPowerState (in_control i) \<noteq> CCoolerPower sm then [Set_CCPowerState (CCoolerPower sm)] else [])
    @ (if row_SRSPowerState (in_control i) \<noteq> ComputedSRSPowerState sm
       then [Set_SRSPowerState (ComputedSRSPowerState sm)] else [])"
  by (simp add: statements_def UpdateVars_def Let_def getCurrentState_def getShouldBeState_def
      split: option.splits)

text \<open>C5: for as long as the program runs, each call of the engine writes to the database one heater power
  and one cryocooler power, in this order: the first is between 0 and 75 unless it is a NaN, the second
  is the minimum power that the row read in this call reports plus an excess between 0 and 120. With numbers
  of plausible size in the rows and in the two uninitialised variables no heater power is a NaN.\<close>

theorem commanded_powers:
  assumes "StartSM_main is (CryoControlSM_new raw t0 t1 t2) = Some (sm', out)"
  shows "\<exists>outs. out = concat outs \<and> list_all2 (\<lambda>i stmts. \<exists>p c s h y tail.
      stmts = [Insert_SMState p c s, Set_HeaterPW h, Set_CCPower (y + row_PMin (in_cc i))] @ tail
      \<and> (\<forall>x. Set_HeaterPW x \<notin> set tail \<and> Set_CCPower x \<notin> set tail)
      \<and> (h = NaN \<or> inside 0 75 h) \<and> inside 0 120 y
      \<and> (raw_ok raw \<and> list_all plausible is \<longrightarrow> inside 0 75 h)) is outs"
proof -
  let ?b = "raw_ok raw \<and> list_all plausible is"
  obtain outs where "out = concat outs" "list_all2 (pass_ok ?b) is outs"
    using main_run [OF sm_reachable.start assms, of ?b] new_numbers new_real by blast
  then show ?thesis
    by (intro exI [of _ outs] conjI) (assumption, erule list_all2_mono, unfold pass_ok_def pass_powers_def, blast)
qed

lemma main_total:
  "sm_reachable sm \<Longrightarrow> \<exists>sm' out. StartSM_main is sm = Some (sm', out) \<and> sm_reachable sm'"
proof (induction "is" arbitrary: sm)
  case (Cons i "is")
  have e: "SMEngine i sm = Some (engine_result i sm, statements i sm)"
    using SMEngine_eq [OF reachable_inv [OF Cons.prems]] .
  then have "sm_reachable (engine_result i sm)" using Cons.prems by (rule sm_reachable.run [rotated])
  from Cons.IH [OF this] show ?case using e by auto
qed auto

theorem commanded_powers_witness:
  "\<exists>sm' out h y. StartSM_main [input0 290 150 1000 999 999, input0 289 150 1001 999 999] sm0 = Some (sm', out)
     \<and> Set_HeaterPW h \<in> set out \<and> inside 0 75 h \<and> Set_CCPower (y + Fin 80) \<in> set out \<and> inside 0 120 y"
proof -
  obtain sm' out where m: "StartSM_main [input0 290 150 1000 999 999, input0 289 150 1001 999 999]
      (CryoControlSM_new raw_sm 1000 1000 1000) = Some (sm', out)"
    using main_total [OF sm_reachable.start] by blast
  have p: "raw_ok raw_sm" "list_all plausible [input0 290 150 1000 999 999, input0 289 150 1001 999 999]"
    by (simp_all add: raw_ok_def raw_sm_def plausible_def input0_def)
  have c: "row_PMin (in_cc (input0 t s n c h)) = Fin 80" for t s n c h by (simp add: input0_def)
  show ?thesis
    using commanded_powers [OF m] m p unfolding sm0_def
    by (clarsimp simp: list_all2_Cons1 c) blast
qed

text \<open>
  The program never stops by itself: from construction, any sequence of inputs is processed.\<close>

lemma main_runs_on:
  "\<exists>sm' out. StartSM_main is (CryoControlSM_new raw t0 t1 t2) = Some (sm', out) \<and> sm_reachable sm'"
  using main_total sm_reachable.start by blast

subsection \<open>Lost communication\<close>

lemma to_int32_delta:
  assumes "\<bar>d\<bar> < 2 ^ 31"
  shows "to_int32 (of_int64 d) = d"
proof -
  have "of_int64 d = Fin (of_int d)" using assms by (intro of_int64_exact) simp
  then show ?thesis using assms by (simp add: to_int32_Fin_int abs_less_iff)
qed

lemma readings_set_temp: "set_temp (engine_readings dp sm) = dp_TTemp dp"
  by (auto simp: engine_readings_def Let_def set_var_def)

text \<open>The state the decision leads to: Fault when either drone has been silent for more than a minute,
  otherwise the table.\<close>

lemma before_switch_state:
  assumes "sm_inv sm" "row_CCTime (in_cc i) = Some tc" "row_LSHTime (in_lsh i) = Some th"
    and "\<bar>in_time i - tc\<bar> < 2 ^ 31" "\<bar>in_time i - th\<bar> < 2 ^ 31"
  shows "ShouldBeFSMState (before_switch i sm) =
    (if 60 < in_time i - th \<or> 60 < in_time i - tc then ST_Fault
     else decide_states (row_TC (in_cc i)) (row_TTemperature (in_control i)) (CurrentFSMState sm))"
proof -
  define s where "s = engine_readings (packet i sm)
     (engine_tunings (packet i sm) (sm\<lparr>SentCCPower := ThisRunCCPower sm + row_PMin (in_cc i)\<rparr>))"
  have "wired s" "ShouldBeFSMState s = CurrentFSMState sm"
    using assms(1) by (simp_all add: s_def sm_simps sm_inv_def)
  moreover have "LastCCTime s = tc" "LastLSHTime s = th" "cur_temp s = row_TC (in_cc i)"
      "set_temp s = row_TTemperature (in_control i)"
    using assms(2,3)
    by (simp_all add: s_def sm_simps packet_def readings_set_temp)
  moreover have "before_switch i sm = StateDecision (in_time i) s"
    by (simp add: before_switch_alt s_def)
  ultimately show ?thesis
    using assms(4,5) by (simp add: StateDecision_def Let_def to_int32_delta wired_def pid_consts)
qed

lemma Fault_outputs_off:
  assumes "sm_inv sm" "CurrentFSMState (engine_result i sm) = ST_Fault"
  shows "ThisRunHeaterPower (engine_result i sm) = Fin 0" "ThisRunCCPower (engine_result i sm) = Fin 0"
    "ThisRunPIDValue (engine_result i sm) = Fin 0"
proof -
  have st: "ShouldBeFSMState (before_switch i sm) = ST_Fault"
    using assms engine_result_inv(2) by simp
  show "ThisRunHeaterPower (engine_result i sm) = Fin 0" "ThisRunCCPower (engine_result i sm) = Fin 0"
    "ThisRunPIDValue (engine_result i sm) = Fin 0"
    by (simp_all add: engine_result_def Let_def st body_of_def state_class_defs PostRunSanityCheck_def)
qed

lemma silent_engine:
  assumes "sm_reachable sm" "SMEngine i sm = Some (sm', out)"
    and "row_CCTime (in_cc i) = Some tc" "row_LSHTime (in_lsh i) = Some th"
    and "\<bar>in_time i - tc\<bar> < 2 ^ 31" "\<bar>in_time i - th\<bar> < 2 ^ 31"
    and silent: "60 < in_time i - tc \<or> 60 < in_time i - th"
  shows "getCurrentState sm' = 6 \<and> ThisRunHeaterPower sm' = Fin 0 \<and> ThisRunCCPower sm' = Fin 0
    \<and> \<not> CCoolerPower sm' \<and> \<not> ComputedSRSPowerState sm' \<and> \<not> inAuto (AbsPID sm') \<and> \<not> inAuto (RatePID sm')"
proof -
  note inv = reachable_inv [OF assms(1)]
  have sm': "sm' = engine_result i sm" using SMEngine_eq [OF inv, of i] assms(2) by simp
  have st: "CurrentFSMState sm' = ST_Fault"
    using before_switch_state [OF inv assms(3-6)] engine_result_inv(2) [OF inv, of i] silent sm' by auto
  have "sm_inv sm'" using engine_result_inv(1) [OF inv] sm' by simp
  then show ?thesis
    using st Fault_outputs_off [OF inv] sm'
    by (auto simp: sm_inv_def settled_def state_class_defs getCurrentState_def)
qed

text \<open>C3: when the last report of either drone is more than 60 seconds old, the very same call of the
  engine ends in Fault with heater and cryocooler power 0, cryocooler and SRS supply off and both
  controllers manual, whatever the temperatures and the state before.\<close>

theorem fault_on_silence:
  assumes "sm_reachable sm" "SMEngine i sm = Some (sm', out)"
    and "row_CCTime (in_cc i) = Some tc" "row_LSHTime (in_lsh i) = Some th"
    and "\<bar>in_time i - tc\<bar> < 2 ^ 31" "\<bar>in_time i - th\<bar> < 2 ^ 31"
    and silent: "60 < in_time i - tc \<or> 60 < in_time i - th"
  shows "getCurrentState sm' = 6 \<and> ThisRunHeaterPower sm' = Fin 0 \<and> ThisRunCCPower sm' = Fin 0
    \<and> \<not> CCoolerPower sm' \<and> \<not> ComputedSRSPowerState sm' \<and> \<not> inAuto (AbsPID sm') \<and> \<not> inAuto (RatePID sm')"
  by (rule silent_engine [OF assms])

theorem fault_on_silence_witness:
  "getCurrentState (engine_result (input0 290 150 1000 1000 939) sm0) = 6
   \<and> \<not> CCoolerPower (engine_result (input0 290 150 1000 1000 939) sm0)"
  using fault_on_silence [OF reach0 SMEngine_eq [OF reachable_inv [OF reach0]],
      of "input0 290 150 1000 1000 939" 1000 939]
  by (simp add: input0_def)

text \<open>No false alarm: while both reports are at most 60 seconds old (the clocks may even disagree
  by less than 68 years), the state is the one of the decision table.\<close>

theorem no_fault_while_talking:
  assumes "sm_reachable sm" "SMEngine i sm = Some (sm', out)"
    and "row_CCTime (in_cc i) = Some tc" "row_LSHTime (in_lsh i) = Some th"
    and "\<bar>in_time i - tc\<bar> < 2 ^ 31" "\<bar>in_time i - th\<bar> < 2 ^ 31"
    and "in_time i - tc \<le> 60" "in_time i - th \<le> 60"
  shows "CurrentFSMState sm' =
    decide_states (row_TC (in_cc i)) (row_TTemperature (in_control i)) (CurrentFSMState sm)"
proof -
  note inv = reachable_inv [OF assms(1)]
  have sm': "sm' = engine_result i sm" using SMEngine_eq [OF inv, of i] assms(2) by simp
  then show ?thesis
    using before_switch_state [OF inv assms(3-6)] engine_result_inv(2) [OF inv, of i] assms(7,8)
    by simp
qed

theorem no_fault_while_talking_witness:
  "CurrentFSMState (engine_result (input0 290 150 1000 999 940) sm0)
     = decide_states (Fin 290) (Fin 150) ST_Idle"
proof -
  have "CurrentFSMState sm0 = ST_Idle"
    by (simp add: sm0_def CryoControlSM_new_def Let_def split_def member_ops)
  then show ?thesis
    using no_fault_while_talking [OF reach0 SMEngine_eq [OF reachable_inv [OF reach0]],
        of "input0 290 150 1000 999 940" 999 940]
    by (simp add: input0_def)
qed

subsection \<open>The decision table\<close>

text \<open>The intended table over exact temperatures: the state demanded by the current temperature \<open>c\<close>
  and the set point \<open>s\<close>; \<open>None\<close> where no rule applies.\<close>

definition demanded :: "rat \<Rightarrow> rat \<Rightarrow> FSMStates option" where
  "demanded c s =
    (if s < 220 then
       (if 10 < c - s then Some (if 220 < c then ST_CoolDownHot else ST_CoolDownCold)
        else if 10 < s - c then Some ST_Warmup
        else if c \<le> 220 then Some ST_MaintainCold else None)
     else if 220 < s \<and> \<bar>s - c\<bar> \<le> 2 \<and> 220 < c then Some ST_MaintainWarm
     else if 10 < s - c \<and> c < 290 then Some ST_Warmup
     else if 300 < c \<and> s < 300 then Some ST_Idle
     else None)"

lemma decide_demanded:
  assumes "exact64 (c + 10)" "exact64 (c - 10)" "exact64 (s - c)"
  shows "decide_states (Fin c) (Fin s) st = (case demanded c s of Some t \<Rightarrow> t | None \<Rightarrow> st)"
proof -
  have a: "Fin c + Fin 10 = Fin (c + 10)" "Fin c - Fin 10 = Fin (c - 10)" "\<bar>Fin s - Fin c\<bar> = Fin \<bar>s - c\<bar>"
    using assms by (simp_all add: minus_fp_def round64_exact)
  show ?thesis
    unfolding decide_states_def a by (auto simp: demanded_def Let_def abs_if)
qed

text \<open>C4: for every pair of finite temperatures whose sums and differences are representable, the
  sequence of overlapping \<open>if\<close> statements computes the table, and keeps the old state where no rule
  applies. In particular a chamber above 300 K with a set point below 220 K is cooled, not idled.\<close>

theorem decision_table:
  assumes "exact64 (c + 10)" "exact64 (c - 10)" "exact64 (s - c)"
  shows "decide_states (Fin c) (Fin s) st = (case demanded c s of Some t \<Rightarrow> t | None \<Rightarrow> st)"
  by (rule decide_demanded [OF assms])

theorem decision_table_witness:
  "decide_states (Fin 310) (Fin 150) ST_Idle = ST_CoolDownHot
   \<and> decide_states (Fin 225) (Fin 218) ST_CoolDownHot = ST_CoolDownHot"
  using decision_table [of 310 150 ST_Idle] decision_table [of 225 218 ST_CoolDownHot]
  by (simp add: demanded_def)

text \<open>
  The table leaves the state to history on a region of its plane, among it the whole line
  \<open>s = 220\<close> from 210 K to 300 K and every temperature more than 2 K above a set point over 220 K:
  there a machine that was cooling goes on cooling, and one in Fault stays in Fault after the
  communication has come back.\<close>

lemma undecided_region:
  assumes "exact64 (c + 10)" "exact64 (c - 10)" "exact64 (s - c)"
    and "(s = 220 \<and> 210 \<le> c \<and> c \<le> 300) \<or> (220 < s \<and> s + 2 < c \<and> c \<le> 300)
      \<or> (s < 220 \<and> 220 < c \<and> c \<le> s + 10)"
  shows "decide_states (Fin c) (Fin s) st = st"
proof -
  have a: "Fin c + Fin 10 = Fin (c + 10)" "Fin c - Fin 10 = Fin (c - 10)" "\<bar>Fin s - Fin c\<bar> = Fin \<bar>s - c\<bar>"
    using assms by (simp_all add: minus_fp_def round64_exact)
  show ?thesis
    using assms(4) unfolding decide_states_def a by (auto simp: Let_def abs_if)
qed

subsection \<open>The averaged temperatures and the trip\<close>

lemma moving_avg_inside:
  assumes "inside lo hi a" "inside lo hi x" "- 1000 \<le> lo" "hi \<le> 1000" "exact64 lo" "exact64 hi"
  shows "inside lo hi (moving_avg a x)"
  unfolding moving_avg_def RateMovingAvgN_def
  by (rule avg_step_inside [OF assms(1,2), of 20 1000]) (use assms in simp_all)

lemma engine_avgs:
  assumes "sm_inv sm"
  shows "MovingAvgCCRTD (engine_result i sm) =
      (if Fin 10 < row_TC (in_cc i) then moving_avg (MovingAvgCCRTD sm) (row_TC (in_cc i))
       else MovingAvgCCRTD sm)"
    "MovingAvgLSHRTD (engine_result i sm) =
      (if Fin 10 < row_LSHTemp (in_lsh i) then moving_avg (MovingAvgLSHRTD sm) (row_LSHTemp (in_lsh i))
       else MovingAvgLSHRTD sm)"
  by (simp_all add: engine_result_def Let_def sm_simps before_switch_alt packet_def)

lemma avg_kept_below:
  assumes "inside 0 320 a" "\<not> Fin 320 < x"
  shows "inside 0 320 (if Fin 10 < x then moving_avg a x else a)"
  using assms by (cases x) (auto intro!: moving_avg_inside)

text \<open>No false trip: as long as no reading is above 320 K (dropouts below 10 K, infinities below and
  NaN readings included), both averages stay real numbers between 0 and 320 and the over-temperature
  branch is never taken.\<close>

theorem no_false_trip:
  assumes "StartSM_main is (CryoControlSM_new raw t0 t1 t2) = Some (sm', out)"
    and "\<forall>i \<in> set is. \<not> Fin 320 < row_TC (in_cc i) \<and> \<not> Fin 320 < row_LSHTemp (in_lsh i)"
  shows "inside 0 320 (MovingAvgCCRTD sm') \<and> inside 0 320 (MovingAvgLSHRTD sm')"
proof -
  have "inside 0 320 (MovingAvgCCRTD sm') \<and> inside 0 320 (MovingAvgLSHRTD sm')"
    if "StartSM_main is sm = Some (sm', out)" "sm_reachable sm"
      "inside 0 320 (MovingAvgCCRTD sm)" "inside 0 320 (MovingAvgLSHRTD sm)" for sm
    using that assms(2)
  proof (induction "is" arbitrary: sm out)
    case (Cons i "is")
    let ?sm = "engine_result i sm"
    have inv: "sm_inv sm" using reachable_inv [OF Cons.prems(2)] .
    have e: "SMEngine i sm = Some (?sm, statements i sm)" using SMEngine_eq [OF inv] .
    then have r: "sm_reachable ?sm" using Cons.prems(2) by (rule sm_reachable.run [rotated])
    from Cons.prems(1) e obtain out' where m: "StartSM_main is ?sm = Some (sm', out')"
      by (auto split: option.splits)
    show ?case
      using Cons.IH [OF m r] Cons.prems(3-5) avg_kept_below by (simp add: engine_avgs [OF inv])
  qed simp
  moreover have "MovingAvgCCRTD (CryoControlSM_new raw t0 t1 t2) = Fin 0"
      "MovingAvgLSHRTD (CryoControlSM_new raw t0 t1 t2) = Fin 0"
    by (simp_all add: CryoControlSM_new_def Let_def split_def member_ops member_defaults_def)
  ultimately show ?thesis using assms(1) sm_reachable.start by simp
qed

theorem no_false_trip_witness:
  "\<exists>sm' out. StartSM_main [input0 290 150 1000 999 999, input0 5 150 1001 999 999] sm0 = Some (sm', out)
     \<and> inside 0 320 (MovingAvgCCRTD sm')"
proof -
  obtain sm' out where m: "StartSM_main [input0 290 150 1000 999 999, input0 5 150 1001 999 999]
      (CryoControlSM_new raw_sm 1000 1000 1000) = Some (sm', out)"
    using main_total [OF sm_reachable.start] by blast
  from no_false_trip [OF m] m show ?thesis unfolding sm0_def by (simp add: input0_def)
qed

lemma avg_climbs:
  assumes a: "inside (of_nat (min n 321)) 1000 a" and x: "inside 341 1000 x"
  shows "inside (of_nat (min (Suc n) 321)) 1000 (moving_avg a x)"
proof -
  let ?k = "min n 321"
  obtain u y where u: "a = Fin u" "x = Fin y" "of_nat ?k \<le> u" "u \<le> 1000" "341 \<le> y" "y \<le> 1000"
    using a x by (auto simp: inside_iff)
  have "0 \<le> u" using u(3) of_nat_0_le_iff [of ?k] by linarith
  then have range: "inside 0 1000 (moving_avg a x)" using u by (intro moving_avg_inside) auto
  show ?thesis
  proof (cases "321 \<le> u")
    case True
    then have "inside 321 1000 (moving_avg a x)" using u by (intro moving_avg_inside) auto
    then show ?thesis by (rule inside_mono) auto
  next
    case False
    then have k: "?k = n" "n < 321" using u(3) by (auto simp: min_def split: if_splits)
    let ?r = "rnd_rat 53 (- 1022)"
    have e: "?r 20 = 20" "?r 1 = 1" "?r (of_nat (Suc n)) = of_nat (Suc n)"
      using k exact64_of_int [of 20] exact64_of_int [of 1] exact64_of_int [of "int (Suc n)"]
      by (simp_all add: exact64_def)
    have "20 \<le> ?r (y - u)" using b64.above [OF _ e(1)] u(5) False by simp
    then have "1 \<le> ?r (?r (y - u) / 20)" using b64.above [OF _ e(2)] by simp
    then have s: "of_nat (Suc n) \<le> ?r (u + ?r (?r (y - u) / 20))"
      using b64.above [OF _ e(3)] u(3) k by simp
    have m: "mag 2000 (x - a)" using u \<open>0 \<le> u\<close> by (intro mag_minus [of 1000 _ 1000]) auto
    then have d: "x - a = Fin (?r (y - u))" "\<bar>?r (y - u)\<bar> \<le> 2000"
      by (auto simp: u minus_fp_def round64_def in_format_def Let_def mag_iff split: if_splits)
    have "mag 2000 (Fin (?r (y - u)) / Fin 20)"
      using d by (intro mag_divide) auto
    then have q: "Fin (?r (y - u)) / Fin 20 = Fin (?r (?r (y - u) / 20))"
      by (auto simp: round64_def in_format_def Let_def mag_iff split: if_splits)
    have v: "moving_avg a x = round64 (u + ?r (?r (y - u) / 20))"
      unfolding moving_avg_def RateMovingAvgN_def d(1) q by (simp add: u(1))
    show ?thesis
      using range s k unfolding v
      by (auto simp: round64_def in_format_def Let_def inside_iff split: if_splits)
  qed
qed

text \<open>C9: the trip is not missed: from any reachable state whose average is between 0 and 1000 K, 321 or
  more consecutive cryocooler readings between 341 and 1000 K switch both outputs to 0, whatever the
  state and the set point. (A reading of plus infinity would make the average infinite and then NaN,
  which does not trip; hence the upper bound.)\<close>

theorem overtemperature_trips:
  assumes "sm_reachable sm" "inside 0 1000 (MovingAvgCCRTD sm)"
    and "StartSM_main is sm = Some (sm', out)" "321 \<le> length is"
    and hot: "\<forall>i \<in> set is. inside 341 1000 (row_TC (in_cc i))"
  shows "ThisRunHeaterPower sm' = Fin 0 \<and> ThisRunCCPower sm' = Fin 0"
proof -
  have "sm_reachable sm' \<and> inside (of_nat (min (n + length is) 321)) 1000 (MovingAvgCCRTD sm')"
    if "sm_reachable sm" "inside (of_nat (min n 321)) 1000 (MovingAvgCCRTD sm)"
      "StartSM_main is sm = Some (sm', out)" for n sm
    using that hot
  proof (induction "is" arbitrary: sm out n)
    case (Cons i "is")
    let ?sm = "engine_result i sm"
    have inv: "sm_inv sm" using reachable_inv [OF Cons.prems(1)] .
    have e: "SMEngine i sm = Some (?sm, statements i sm)" using SMEngine_eq [OF inv] .
    then have r: "sm_reachable ?sm" using Cons.prems(1) by (rule sm_reachable.run [rotated])
    from Cons.prems(3) e obtain out' where m: "StartSM_main is ?sm = Some (sm', out')"
      by (auto split: option.splits)
    have "inside 341 1000 (row_TC (in_cc i))" using Cons.prems(4) by simp
    then have "inside (of_nat (min (Suc n) 321)) 1000 (MovingAvgCCRTD ?sm)"
      using avg_climbs [OF Cons.prems(2)] by (auto simp: engine_avgs [OF inv] inside_iff)
    from Cons.IH [OF r this m] show ?case using Cons.prems(4) by simp
  qed simp
  from this [of sm 0] assms have "sm_reachable sm'" "inside 321 1000 (MovingAvgCCRTD sm')"
    by simp_all
  then show ?thesis using reachable_inv [of sm'] by (auto simp: sm_inv_def outputs_ok_def inside_iff)
qed

theorem overtemperature_trips_witness:
  "\<exists>sm' out. StartSM_main (replicate 400 (input0 350 340 1000 999 999)) sm0 = Some (sm', out)
     \<and> ThisRunHeaterPower sm' = Fin 0"
proof -
  obtain sm' out where m: "StartSM_main (replicate 400 (input0 350 340 1000 999 999)) sm0 = Some (sm', out)"
    using main_total [OF reach0] by blast
  have a: "inside 0 1000 (MovingAvgCCRTD sm0)"
    by (simp add: sm0_def CryoControlSM_new_def Let_def split_def member_ops member_defaults_def)
  have "\<forall>i \<in> set (replicate 400 (input0 350 340 1000 999 999)). inside 341 1000 (row_TC (in_cc i))"
    by (simp add: input0_def)
  from overtemperature_trips [OF reach0 a m _ this] m show ?thesis by simp
qed

end
