(* ===== verification/LakeShore.thy ===== *)
theory LakeShore
  imports Serial
begin

text \<open>
  \<open>LakeShoreHeater.cpp\<close>, the driver of the LakeShore 325 heater controller, and
  \<open>LSHDroneStart.cpp\<close>, the process that keeps it in step with the database. The members
  \<open>_cHeaterMode\<close> and the local variable \<open>_cWatchdogFuse\<close> of \<open>UpdateMysql\<close> are never used.
\<close>

record LakeShore = SerialDevice +
  currentPW :: float
  currentTempK :: float
  setPW :: float
  currentMode :: int
  setMode :: int
  WatchdogFuse :: bool
  SQLStatusMsg :: string
  cWatchdogFuse :: int

subsection \<open>The driver\<close>

text \<open>\<open>IXON\<close> is a flag of \<open>c_iflag\<close>; in \<open>c_cflag\<close> the bit it sets is \<open>HUPCL\<close>.\<close>

definition lsh_line :: "termios \<Rightarrow> termios" where
  "lsh_line t = (let t = set_speed 9600 t;
       t = t\<lparr>c_cflag := c_cflag t OR PARENB\<rparr>;
       t = t\<lparr>c_cflag := c_cflag t OR PARODD\<rparr>;
       t = t\<lparr>c_cflag := c_cflag t AND NOT CSTOPB\<rparr>;
       t = t\<lparr>c_cflag := c_cflag t AND NOT CSIZE\<rparr>;
       t = t\<lparr>c_cflag := c_cflag t OR CS7\<rparr>;
       t = t\<lparr>c_cflag := c_cflag t OR IXON\<rparr>
     in t\<lparr>c_cflag := c_cflag t AND NOT CRTSCTS\<rparr>)"

text \<open>The constructor: the port's attributes, the input that is flushed, the success of
  \<open>tcsetattr\<close>, and the memory of the members it leaves alone.\<close>

definition LakeShore_new :: "termios option \<Rightarrow> nat \<Rightarrow> bool \<Rightarrow> LakeShore \<Rightarrow> (LakeShore, unit) io" where
  "LakeShore_new attrs flushed set_ok m = io_seq [
     io_update (\<lambda>d. m\<lparr>usb_in := drop flushed (usb_in d), usb_out := usb_out d,
       tty := lsh_line (new_tty attrs), line := line d, SQLStatusMsg := []\<rparr>),
     io_update (\<lambda>d. if set_ok then d\<lparr>line := Some (tty d)\<rparr> else d),
     io_update (\<lambda>d. d\<lparr>WatchdogFuse := True, setPW := Fin 0, currentTempK := Fin (- 1)\<rparr>)]"

definition CRLF :: string where
  "CRLF = [CR, LF]"

definition ReadPower :: "(LakeShore, unit) io" where
  "ReadPower = io_then (WriteString (''HTR? 1'' @ CRLF))
     (io_bind ReadLine (\<lambda>LSP_String. case stof LSP_String of
        Inr v \<Rightarrow> io_update (\<lambda>d. d\<lparr>currentPW := v\<rparr>)
      | Inl _ \<Rightarrow> io_return ()))"

definition ReadTemperatureK :: "(LakeShore, unit) io" where
  "ReadTemperatureK = io_then (WriteString (''KRDG?'' @ CRLF))
     (io_bind ReadLine (\<lambda>LSP_String. case stof LSP_String of
        Inr v \<Rightarrow> io_update (\<lambda>d. d\<lparr>currentTempK := v\<rparr>)
      | Inl _ \<Rightarrow> io_return ()))"

definition ReadMode :: "(LakeShore, unit) io" where
  "ReadMode = io_then (WriteString (''RANGE? 1'' @ CRLF))
     (io_bind ReadLine (\<lambda>LSP_String. case stof LSP_String of
        Inr v \<Rightarrow> io_update (\<lambda>d. d\<lparr>currentMode := to_int32 v\<rparr>)
      | Inl _ \<Rightarrow> io_return ()))"

definition limit_power :: "float \<Rightarrow> float" where
  "limit_power p = (let p = (if p < Fin 0 then Fin 0 else p) in if Fin 100 < p then Fin 100 else p)"

definition mout :: "float \<Rightarrow> string" where
  "mout p = ''MOUT 1,'' @ to_string_fp p @ CRLF"

definition SetPowerLevel :: "float \<Rightarrow> (LakeShore, unit) io" where
  "SetPowerLevel newPowerLevel = (let p = limit_power newPowerLevel in
     io_then (WriteString (mout p)) (io_update (\<lambda>d. d\<lparr>setPW := p\<rparr>)))"

definition heater_range :: "int \<Rightarrow> string" where
  "heater_range n = ''RANGE 1,'' @ to_string_int n @ CRLF"

definition TurnONOFF :: "int \<Rightarrow> (LakeShore, unit) io" where
  "TurnONOFF pwstate =
    (if pwstate < 3 \<and> 0 \<le> pwstate
     then io_then (io_bind (io_get setPW) SetPowerLevel) (WriteString (heater_range pwstate))
     else WriteString (heater_range 0))"

text \<open>One exchange with the database: the control row read, and the row inserted.\<close>

definition LSH_UpdateMysql :: "double \<times> int \<times> int \<Rightarrow> nat
    \<Rightarrow> (LakeShore, float \<times> float \<times> float \<times> int \<times> bool) io" where
  "LSH_UpdateMysql CtrlRow warnings = (case CtrlRow of (pw, mode, fuse) \<Rightarrow>
     io_then (io_update (\<lambda>d. d\<lparr>setPW := to_float pw, setMode := mode, cWatchdogFuse := fuse\<rparr>))
     (io_bind (io_get (\<lambda>d. (currentPW d, currentTempK d, setPW d, currentMode d, WatchdogFuse d)))
       (\<lambda>row. io_then (io_update (\<lambda>d. d\<lparr>SQLStatusMsg :=
             (if warnings = 0 then ''OK'' else ''WARN!'' @ [LF])\<rparr>))
          (io_return row))))"

subsection \<open>The process\<close>

definition lsh_act :: "(LakeShore, unit) io" where
  "lsh_act = io_if (\<lambda>s. cWatchdogFuse s \<noteq> 1)
     (io_then (TurnONOFF 0) (io_update (\<lambda>s. s\<lparr>WatchdogFuse := False\<rparr>)))
     (io_then (io_if (\<lambda>s. \<not> feq (currentPW s) (setPW s)) (io_bind (io_get setPW) SetPowerLevel) (io_return ()))
       (io_if (\<lambda>s. setMode s \<noteq> currentMode s) (io_bind (io_get setMode) TurnONOFF) (io_return ())))"

definition lsh_pass :: "(double \<times> int \<times> int) \<times> nat \<Rightarrow> (LakeShore, unit) io" where
  "lsh_pass e = io_then ReadPower (io_then ReadMode (io_then ReadTemperatureK
     (io_then (LSH_UpdateMysql (fst e) (snd e)) lsh_act)))"

definition lsh_run :: "((double \<times> int \<times> int) \<times> nat) list \<Rightarrow> (LakeShore, unit) io" where
  "lsh_run es = io_seq (map lsh_pass es)"

subsection \<open>What a pass sends\<close>

text \<open>The orders that the members call for.\<close>

definition lsh_orders :: "float \<Rightarrow> int \<Rightarrow> int \<Rightarrow> float \<Rightarrow> int \<Rightarrow> string list" where
  "lsh_orders want mode fuse pw cur = (let m = mout (limit_power want) in
     if fuse \<noteq> 1 then [m, heater_range 0]
     else (if feq pw want then [] else [m]) @
       (if mode = cur then [] else if mode < 3 \<and> 0 \<le> mode then [m, heater_range mode] else [heater_range 0]))"

lemma limit_power_idem [simp]: "limit_power (limit_power p) = limit_power p"
  by (cases p) (auto simp: limit_power_def Let_def)

lemma limit_power_inside: "p \<noteq> NaN \<Longrightarrow> \<exists>x. limit_power p = Fin x \<and> 0 \<le> x \<and> x \<le> 100"
  by (cases p) (auto simp: limit_power_def Let_def)

lemma SetPowerLevel_run: "SetPowerLevel p d =
    (Inr (), d\<lparr>usb_out := usb_out d @ [mout (limit_power p)], setPW := limit_power p\<rparr>)"
  by (simp add: SetPowerLevel_def Let_def io_simps io_bind_def WriteString_def)

lemma TurnONOFF_run: "TurnONOFF n d = (Inr (),
    if n < 3 \<and> 0 \<le> n then d\<lparr>usb_out := usb_out d @ [mout (limit_power (setPW d)), heater_range n],
      setPW := limit_power (setPW d)\<rparr>
    else d\<lparr>usb_out := usb_out d @ [heater_range 0]\<rparr>)"
  by (simp add: TurnONOFF_def io_simps io_bind_def SetPowerLevel_run WriteString_def)

lemma lsh_act_run:
  assumes "lsh_act d = (r, t)"
  shows "r = Inr ()"
    and "usb_out t = usb_out d @ lsh_orders (setPW d) (setMode d) (cWatchdogFuse d) (currentPW d) (currentMode d)"
    and "WatchdogFuse t \<longleftrightarrow> WatchdogFuse d \<and> cWatchdogFuse d = 1"
    and "usb_in t = usb_in d"
    and "currentPW t = currentPW d" "currentMode t = currentMode d" "currentTempK t = currentTempK d" "setMode t = setMode d"
  using assms
  by (auto simp: lsh_act_def io_simps io_bind_def SetPowerLevel_run TurnONOFF_run lsh_orders_def Let_def
      split: if_splits)

definition heater_query :: "string \<Rightarrow> bool" where
  "heater_query c \<longleftrightarrow> c \<in> {''HTR? 1'' @ CRLF, ''KRDG?'' @ CRLF, ''RANGE? 1'' @ CRLF}"

lemma queries_quiet:
  "writes heater_query ReadPower" "writes heater_query ReadMode" "writes heater_query ReadTemperatureK"
  unfolding ReadPower_def ReadMode_def ReadTemperatureK_def
  by (auto split: sum.splits simp: heater_query_def simp del: append.simps)

lemma queries_keep:
  "keeps WatchdogFuse ReadPower" "keeps WatchdogFuse ReadMode" "keeps WatchdogFuse ReadTemperatureK"
  unfolding ReadPower_def ReadMode_def ReadTemperatureK_def
  by (auto split: sum.splits)

text \<open>The last two steps of a pass, from any state.\<close>

lemma update_act:
  assumes "io_then (LSH_UpdateMysql (pw, mode, fuse) w) lsh_act d = (r, t)"
  shows "r = Inr ()"
    and "usb_out t = usb_out d @ lsh_orders (to_float pw) mode fuse (currentPW d) (currentMode d)"
    and "WatchdogFuse t \<longleftrightarrow> WatchdogFuse d \<and> fuse = 1"
    and "usb_in t = usb_in d"
    and "currentPW t = currentPW d" "currentMode t = currentMode d" "currentTempK t = currentTempK d" "setMode t = mode"
proof -
  let ?u = "d\<lparr>setPW := to_float pw, setMode := mode, cWatchdogFuse := fuse,
    SQLStatusMsg := (if w = 0 then ''OK'' else ''WARN!'' @ [LF])\<rparr>"
  have "io_then (LSH_UpdateMysql (pw, mode, fuse) w) lsh_act d = lsh_act ?u"
    by (simp add: LSH_UpdateMysql_def io_simps io_bind_def)
  then have "lsh_act ?u = (r, t)" using assms by simp
  note t = lsh_act_run [OF this]
  show "r = Inr ()" "usb_out t = usb_out d @ lsh_orders (to_float pw) mode fuse (currentPW d) (currentMode d)"
    "WatchdogFuse t \<longleftrightarrow> WatchdogFuse d \<and> fuse = 1" "usb_in t = usb_in d"
    "currentPW t = currentPW d" "currentMode t = currentMode d" "currentTempK t = currentTempK d" "setMode t = mode"
    using t by simp_all
qed

lemma update_act_writes:
  assumes "\<And>pw' cur. list_all P (lsh_orders (to_float pw) mode fuse pw' cur)"
  shows "writes P (io_then (LSH_UpdateMysql (pw, mode, fuse) w) lsh_act)"
  unfolding writes_def outputs_def
proof
  fix d
  let ?m = "io_then (LSH_UpdateMysql (pw, mode, fuse) w) lsh_act d"
  obtain r t where rt: "?m = (r, t)" by (cases ?m) auto
  show "\<exists>ws. usb_out (snd ?m) = usb_out d @ ws \<and> list_all P ws"
    using update_act(2) [OF rt] assms rt by auto
qed

lemma pass_writes:
  assumes "\<And>c. heater_query c \<Longrightarrow> P c"
    and "\<And>pw' cur. list_all P (lsh_orders (to_float pw) mode fuse pw' cur)"
  shows "writes P (lsh_pass ((pw, mode, fuse), w))"
  unfolding lsh_pass_def fst_conv snd_conv
  by (intro writes_then update_act_writes assms(2) writes_mono [OF queries_quiet(1)]
      writes_mono [OF queries_quiet(2)] writes_mono [OF queries_quiet(3)] assms(1))

lemma run_writes:
  assumes "\<And>pw mode fuse w. ((pw, mode, fuse), w) \<in> set es \<Longrightarrow> writes P (lsh_pass ((pw, mode, fuse), w))"
  shows "writes P (lsh_run es)"
  unfolding lsh_run_def using assms by (intro writes_seq) (auto simp: list_all_iff)

lemma run_writesD:
  assumes "writes P (lsh_run es)" "lsh_run es d = (r, t)"
  shows "\<exists>ws. usb_out t = usb_out d @ ws \<and> list_all P ws"
  using outputsD [OF assms(1) [unfolded writes_def] assms(2)] by blast

subsection \<open>Properties\<close>

text \<open>An order that is safe whatever the heater does: a query, a range from 0 to 2, or a power whose
  text reads as a number from 0 to a bound.\<close>

definition order_upto :: "int \<Rightarrow> string \<Rightarrow> bool" where
  "order_upto b c \<longleftrightarrow> heater_query c \<or> c = heater_range 0 \<or> c = heater_range 1 \<or> c = heater_range 2
     \<or> (\<exists>t y. c = ''MOUT 1,'' @ t \<and> strtod t = Some (LitNum y) \<and> 0 \<le> y \<and> y \<le> of_int b)"

lemma mout_upto:
  assumes "0 \<le> x" "x \<le> of_int b"
  shows "order_upto b (mout (Fin x))"
proof -
  have "ends_number CRLF" by (simp add: ends_number_def CRLF_def)
  then have "strtod (to_string_fp (Fin x) @ CRLF) = Some (LitNum (printed_value x))"
    by (rule strtod_to_string_fp)
  moreover have "rne (x * 1000000) \<le> b * 1000000" "0 \<le> rne (x * 1000000)"
    using rne_mono [of "x * 1000000" "of_int (b * 1000000)"] rne_mono [of 0 "x * 1000000"] assms
      rne_of_int [of "b * 1000000"] rne_of_int [of 0] by simp_all
  then have "of_int (rne (x * 1000000)) \<le> (of_int (b * 1000000) :: rat)" by (simp only: of_int_le_iff)
  with \<open>0 \<le> rne (x * 1000000)\<close> have "0 \<le> printed_value x" "printed_value x \<le> of_int b"
    using assms by (simp_all add: printed_value_def signed_def)
  ultimately show ?thesis unfolding order_upto_def mout_def by blast
qed

lemma orders_upto:
  assumes "limit_power want = Fin x" "0 \<le> x" "x \<le> of_int b"
  shows "list_all (order_upto b) (lsh_orders want mode fuse pw cur)"
proof -
  have "order_upto b (heater_range n)" if "n < 3" "0 \<le> n" for n
  proof -
    have "n = 0 \<or> n = 1 \<or> n = 2" using that by presburger
    then show ?thesis by (auto simp: order_upto_def)
  qed
  then show ?thesis using mout_upto [OF assms(2,3)] assms(1) by (auto simp: lsh_orders_def Let_def)
qed

lemma orders_safe: "want \<noteq> NaN \<Longrightarrow> list_all (order_upto 100) (lsh_orders want mode fuse pw cur)"
  using limit_power_inside [of want] orders_upto [of want _ 100] by force

lemma to_float_NaN: "to_float d = NaN \<longleftrightarrow> d = NaN"
  by (cases d) (auto simp: to_float_def round32_def in_format_def Let_def split: if_splits)

text \<open>
  C20: the heater is never ordered beyond its limits. Over any run in which no power read from the database
  is a NaN, with any answers and other orders, every string sent is a query, a range 0, 1 or 2, or
  a power whose text reads as a number from 0 to 100. (A NaN passes both comparisons of the clamp.)
\<close>

theorem heater_orders_safe:
  assumes "\<And>pw mode fuse w. ((pw, mode, fuse), w) \<in> set es \<Longrightarrow> pw \<noteq> NaN"
    and "lsh_run es d = (r, t)"
  shows "\<exists>ws. usb_out t = usb_out d @ ws \<and> list_all (order_upto 100) ws"
proof (rule run_writesD [OF run_writes assms(2)])
  fix pw mode fuse w assume "((pw, mode, fuse), w) \<in> set es"
  then have "to_float pw \<noteq> NaN" using assms(1) to_float_NaN by blast
  then show "writes (order_upto 100) (lsh_pass ((pw, mode, fuse), w))"
    by (intro pass_writes orders_safe) (simp add: order_upto_def)
qed

definition heater_sample :: "rd list \<Rightarrow> LakeShore" where
  "heater_sample ins = \<lparr>usb_in = ins, usb_out = [], tty = zero_termios, line = None,
     currentPW = Fin 0, currentTempK = Fin (- 1), setPW = Fin 0, currentMode = 0, setMode = 0,
     WatchdogFuse = True, SQLStatusMsg = [], cWatchdogFuse = 1\<rparr>"

text \<open>The answers to the three queries of a pass.\<close>

definition heater_answers :: "rd list" where
  "heater_answers = sends ''+0'' @ sends ''2'' @ sends ''+150'' @ []"

theorem heater_orders_safe_witness:
  "\<exists>ws. usb_out (snd (lsh_run [((Fin 250, 2, 1), 0)] (heater_sample heater_answers)))
      = usb_out (heater_sample heater_answers) @ ws \<and> list_all (order_upto 100) ws"
  by (rule heater_orders_safe [where es = "[((Fin 250, 2, 1), 0)]"
        and r = "fst (lsh_run [((Fin 250, 2, 1), 0)] (heater_sample heater_answers))"]) simp_all

text \<open>The orders that switch the heater on.\<close>

definition heater_on :: "string \<Rightarrow> bool" where
  "heater_on c \<longleftrightarrow> (\<exists>n. n \<noteq> 0 \<and> c = heater_range n)"

lemma to_string_int_inj:
  assumes "to_string_int m = to_string_int n"
  shows "m = n"
proof -
  have "take_sign (dropWhile is_space (to_string_int k)) = (k < 0, nat_string (nat \<bar>k\<bar>))" for k
    using strip_sign [of "nat_string (nat \<bar>k\<bar>)" "k < 0" "[]"]
    by (simp add: to_string_int_def nat_string_digits)
  with assms have "(m < 0) = (n < 0)" "nat_string (nat \<bar>m\<bar>) = nat_string (nat \<bar>n\<bar>)"
    by (metis prod.inject)+
  then have "nat \<bar>m\<bar> = nat \<bar>n\<bar>" by (metis nat_string_val)
  with \<open>(m < 0) = (n < 0)\<close> show ?thesis by linarith
qed

lemma not_on [simp]:
  "\<not> heater_on (heater_range 0)" "\<not> heater_on (mout p)" "heater_query c \<Longrightarrow> \<not> heater_on c"
  by (auto simp: heater_on_def heater_range_def mout_def heater_query_def dest: to_string_int_inj)

lemma lsh_run_Cons: "lsh_run (e # es) s = io_bind (lsh_pass e) (\<lambda>_. lsh_run es) s"
  by (simp add: lsh_run_def io_simps)

text \<open>A pass that is completed ends with the exchange and the orders.\<close>

lemma pass_completed:
  assumes "lsh_pass ((pw, mode, fuse), w) d = (Inr (), t)"
  obtains u ws where "usb_out u = usb_out d @ ws" "list_all heater_query ws"
    and "io_then (LSH_UpdateMysql (pw, mode, fuse) w) lsh_act u = (Inr (), t)"
proof -
  define m where "m = io_then (LSH_UpdateMysql (pw, mode, fuse) w) lsh_act"
  have run: "io_bind ReadPower (\<lambda>_. io_bind ReadMode (\<lambda>_. io_bind ReadTemperatureK (\<lambda>_. m))) d = (Inr (), t)"
    using assms(1) by (simp add: lsh_pass_def m_def io_then_def)
  have step: "\<exists>ws. usb_out v = usb_out u @ ws \<and> list_all heater_query ws"
    if "q u = (Inr (), v)" "writes heater_query q" for q u v
    using outputsD [OF that(2) [unfolded writes_def] that(1)] by blast
  from run obtain u1 u2 u where q: "ReadPower d = (Inr (), u1)" "ReadMode u1 = (Inr (), u2)"
    "ReadTemperatureK u2 = (Inr (), u)" and u: "m u = (Inr (), t)"
    by (elim io_bind_cases) auto
  show thesis
    using that [of u] step [OF q(1) queries_quiet(1)] step [OF q(2) queries_quiet(2)] step [OF q(3) queries_quiet(3)] u
    unfolding m_def by force
qed

lemma pass_fuse:
  assumes "lsh_pass ((pw, mode, fuse), w) d = (Inr (), t)" "fuse \<noteq> 1"
  shows "last (usb_out t) = heater_range 0 \<and> \<not> WatchdogFuse t"
proof -
  obtain u where "io_then (LSH_UpdateMysql (pw, mode, fuse) w) lsh_act u = (Inr (), t)"
    using pass_completed [OF assms(1)] .
  from update_act [OF this] show ?thesis using assms(2) by (simp add: lsh_orders_def Let_def)
qed

lemma run_fuse:
  assumes "\<And>pw mode fuse w. ((pw, mode, fuse), w) \<in> set es \<Longrightarrow> fuse \<noteq> 1"
    and "lsh_run es d = (Inr (), t)" "es \<noteq> []"
  shows "last (usb_out t) = heater_range 0 \<and> \<not> WatchdogFuse t"
  using assms
proof (induction es arbitrary: d)
  case (Cons e es)
  obtain pw mode fuse w where e: "e = ((pw, mode, fuse), w)" by (metis prod.exhaust)
  obtain u where u: "lsh_pass e d = (Inr (), u)" "lsh_run es u = (Inr (), t)"
    using Cons.prems(2) unfolding lsh_run_Cons by (elim io_bind_cases) auto
  show ?case
  proof (cases "es = []")
    case True
    then have "u = t" using u(2) by (simp add: lsh_run_def io_simps)
    then show ?thesis using pass_fuse u(1) Cons.prems(1) unfolding e by (metis list.set_intros(1))
  next
    case False
    then show ?thesis using Cons.IH [OF _ u(2)] Cons.prems(1) by (metis list.set_intros(2))
  qed
qed simp

text \<open>
  C21: a blown fuse keeps the heater off. While the database says that the fuse is blown, no run of
  the process sends an order that switches the heater on, and every run of at least one pass that
  returns has sent the order to switch it off last and reports a blown fuse.
\<close>

theorem fuse_keeps_heater_off:
  assumes "\<And>pw mode fuse w. ((pw, mode, fuse), w) \<in> set es \<Longrightarrow> fuse \<noteq> 1"
    and "lsh_run es d = (r, t)"
  shows "(\<exists>ws. usb_out t = usb_out d @ ws \<and> list_all (\<lambda>c. \<not> heater_on c) ws)
    \<and> (r = Inr () \<and> es \<noteq> [] \<longrightarrow> last (usb_out t) = heater_range 0 \<and> \<not> WatchdogFuse t)"
proof
  show "\<exists>ws. usb_out t = usb_out d @ ws \<and> list_all (\<lambda>c. \<not> heater_on c) ws"
  proof (rule run_writesD [OF run_writes assms(2)])
    fix pw mode fuse w assume "((pw, mode, fuse), w) \<in> set es"
    then have "fuse \<noteq> 1" using assms(1) by blast
    then show "writes (\<lambda>c. \<not> heater_on c) (lsh_pass ((pw, mode, fuse), w))"
      by (intro pass_writes) (auto simp: lsh_orders_def Let_def)
  qed
  show "r = Inr () \<and> es \<noteq> [] \<longrightarrow> last (usb_out t) = heater_range 0 \<and> \<not> WatchdogFuse t"
  proof
    assume e: "r = Inr () \<and> es \<noteq> []"
    show "last (usb_out t) = heater_range 0 \<and> \<not> WatchdogFuse t"
      by (rule run_fuse [of es d]) (use assms e in blast)+
  qed
qed

theorem fuse_keeps_heater_off_witness:
  "let t = snd (lsh_run [((Fin 50, 2, 0), 0)] (heater_sample heater_answers));
       r = fst (lsh_run [((Fin 50, 2, 0), 0)] (heater_sample heater_answers))
   in (\<exists>ws. usb_out t = usb_out (heater_sample heater_answers) @ ws \<and> list_all (\<lambda>c. \<not> heater_on c) ws)
    \<and> (r = Inr () \<and> [((Fin 50, 2, 0), 0)] \<noteq> ([] :: ((double \<times> int \<times> int) \<times> nat) list)
        \<longrightarrow> last (usb_out t) = heater_range 0 \<and> \<not> WatchdogFuse t)"
  unfolding Let_def by (rule fuse_keeps_heater_off [OF _ surjective_pairing]) simp

lemma query_run:
  assumes "good_line l" "usb_in d = sends l @ rs" "stof (l @ [LF]) = Inr v"
  shows "ReadPower d = (Inr (), d\<lparr>usb_in := rs, usb_out := usb_out d @ [''HTR? 1'' @ CRLF], currentPW := v\<rparr>)"
    and "ReadMode d = (Inr (), d\<lparr>usb_in := rs, usb_out := usb_out d @ [''RANGE? 1'' @ CRLF], currentMode := to_int32 v\<rparr>)"
    and "ReadTemperatureK d = (Inr (), d\<lparr>usb_in := rs, usb_out := usb_out d @ [''KRDG?'' @ CRLF], currentTempK := v\<rparr>)"
  using assms port.query_then [OF assms(1,2)]
  by (simp_all add: ReadPower_def ReadMode_def ReadTemperatureK_def io_simps io_bind_def
      WriteString_def ReadLine_sends set_queues_def)

lemma full_pass:
  assumes "good_line l1" "good_line l2" "good_line l3"
    and "usb_in d = sends l1 @ sends l2 @ sends l3 @ rs"
    and "stof (l1 @ [LF]) = Inr pw" "stof (l2 @ [LF]) = Inr md" "stof (l3 @ [LF]) = Inr temp"
    and "lsh_pass ((want, mode, fuse), w) d = (r, t)"
  shows "r = Inr () \<and> usb_in t = rs
    \<and> currentPW t = pw \<and> currentMode t = to_int32 md \<and> currentTempK t = temp \<and> setMode t = mode
    \<and> (WatchdogFuse t \<longleftrightarrow> WatchdogFuse d \<and> fuse = 1)
    \<and> usb_out t = usb_out d @
      [''HTR? 1'' @ CRLF, ''RANGE? 1'' @ CRLF, ''KRDG?'' @ CRLF] @
      lsh_orders (to_float want) mode fuse pw (to_int32 md)"
proof -
  let ?d = "d\<lparr>usb_in := rs, usb_out := usb_out d @ [''HTR? 1'' @ CRLF, ''RANGE? 1'' @ CRLF, ''KRDG?'' @ CRLF],
    currentPW := pw, currentMode := to_int32 md, currentTempK := temp\<rparr>"
  have "lsh_pass ((want, mode, fuse), w) d = io_then (LSH_UpdateMysql (want, mode, fuse) w) lsh_act ?d"
    using assms(1-7) unfolding lsh_pass_def fst_conv snd_conv
    by (cases d) (simp add: io_then_def [of ReadPower] io_then_def [of ReadMode]
        io_then_def [of ReadTemperatureK] io_bind_def query_run)
  then have "io_then (LSH_UpdateMysql (want, mode, fuse) w) lsh_act ?d = (r, t)" using assms(8) by simp
  from update_act [OF this] show ?thesis by simp
qed

text \<open>
  C24: one pass. With the answers to the three queries waiting, a pass stores the power, the mode and the
  temperature that it reads and the mode that the database wants, reports the fuse as blown once the
  database has said so, sends the queries and then exactly the orders that the difference between the
  database and the heater calls for: none when they agree.
\<close>

theorem heater_pass:
  assumes "good_line l1" "good_line l2" "good_line l3"
    and "usb_in d = sends l1 @ sends l2 @ sends l3 @ rs"
    and "stof (l1 @ [LF]) = Inr pw" "stof (l2 @ [LF]) = Inr md" "stof (l3 @ [LF]) = Inr temp"
    and "lsh_pass ((want, mode, fuse), w) d = (r, t)"
  shows "r = Inr () \<and> usb_in t = rs
    \<and> currentPW t = pw \<and> currentMode t = to_int32 md \<and> currentTempK t = temp \<and> setMode t = mode
    \<and> (WatchdogFuse t \<longleftrightarrow> WatchdogFuse d \<and> fuse = 1)
    \<and> usb_out t = usb_out d @
      [''HTR? 1'' @ CRLF, ''RANGE? 1'' @ CRLF, ''KRDG?'' @ CRLF] @
      lsh_orders (to_float want) mode fuse pw (to_int32 md)"
  by (rule full_pass [OF assms])

theorem heater_pass_witness:
  "let t = snd (lsh_pass ((Fin 50, 2, 1), 0) (heater_sample (sends ''0'' @ sends ''2'' @ sends ''100'' @ [])));
       r = fst (lsh_pass ((Fin 50, 2, 1), 0) (heater_sample (sends ''0'' @ sends ''2'' @ sends ''100'' @ [])))
   in r = Inr () \<and> usb_in t = [] \<and> currentPW t = Fin 0 \<and> currentMode t = to_int32 (Fin 2)
    \<and> currentTempK t = Fin 100 \<and> setMode t = 2
    \<and> (WatchdogFuse t \<longleftrightarrow> WatchdogFuse (heater_sample (sends ''0'' @ sends ''2'' @ sends ''100'' @ [])) \<and> (1 :: int) = 1)
    \<and> usb_out t = usb_out (heater_sample (sends ''0'' @ sends ''2'' @ sends ''100'' @ [])) @
      [''HTR? 1'' @ CRLF, ''RANGE? 1'' @ CRLF, ''KRDG?'' @ CRLF] @
      lsh_orders (to_float (Fin 50)) 2 1 (Fin 0) (to_int32 (Fin 2))"
proof -
  have n: "stof (''0'' @ [LF]) = Inr (Fin 0)" "stof (''2'' @ [LF]) = Inr (Fin 2)" "stof (''100'' @ [LF]) = Inr (Fin 100)"
    by code_simp+
  show ?thesis unfolding Let_def
    by (rule heater_pass [OF _ _ _ _ n surjective_pairing]) (simp_all add: good_line_def heater_sample_def)
qed

text \<open>
  The settings of the line. It is raw at 9600 baud with seven bits, odd parity and one stop bit;
  the flow control the code asks for is not switched on, and \<open>HUPCL\<close>, which it does not ask for, is.
\<close>

lemma heater_line_settings:
  "let t = lsh_line (new_tty attrs) in
     c_ospeed t = 9600 \<and> c_ispeed t = 9600 \<and> c_cflag t AND CSIZE = CS7
     \<and> c_cflag t AND (PARENB OR PARODD) = PARENB OR PARODD
     \<and> c_cflag t AND CSTOPB = 0 \<and> c_iflag t AND IXON = 0 \<and> c_cflag t AND HUPCL = HUPCL"
  by (simp add: Let_def lsh_line_def new_tty_def cfmakeraw_def set_speed_def flag_simps)

end
