(* ===== verification/Cryocooler.thy ===== *)
theory Cryocooler
  imports Serial
begin

text \<open>
  \<open>Cryocooler.cpp\<close>: the driver of the Sunpower cryocooler. Each member function is an operation on
  the object, which is the serial device with the members of the class. \<open>RReadLine\<close> stores its two
  results in members. \<open>CCTC_Firstline\<close>, which four functions use and only \<open>GetTC\<close> declares, is
  taken as the local variable it stands for, and the values that \<open>SetCryoMode\<close> returns although it
  is \<open>void\<close> are dropped. The debug log is compiled out (\<open>DebugMode\<close> is 0).
\<close>

record Cryocooler = SerialDevice +
  TC :: float
  PCurrent :: float
  PMax :: float
  PMin :: float
  PSet :: float
  PAsk :: float
  isON :: bool
  newCCPowerState :: bool
  newCCPower :: int
  ControllerMode :: int
  hasStalled :: bool
  NReadBytes :: int
  SQLStatusMsg :: string

subsection \<open>The constructor\<close>

text \<open>
  What the environment decides when the object is made: the attributes of the port, how much of
  the input has arrived already and is flushed, whether \<open>tcsetattr\<close> succeeds, and the contents of
  the memory of the members that the constructor does not set.
\<close>

record cc_open =
  open_attrs :: "termios option"
  open_flushed :: nat
  open_set_ok :: bool
  open_memory :: Cryocooler

definition cc_line :: "termios \<Rightarrow> termios" where
  "cc_line t = (let t = set_speed 4800 t;
       t = t\<lparr>c_cflag := c_cflag t AND NOT PARENB\<rparr>;
       t = t\<lparr>c_cflag := c_cflag t AND NOT CSTOPB\<rparr>;
       t = t\<lparr>c_cflag := c_cflag t AND NOT CSIZE\<rparr>;
       t = t\<lparr>c_cflag := c_cflag t OR CS8\<rparr>
     in t\<lparr>c_cflag := c_cflag t AND NOT CRTSCTS\<rparr>)"

definition cc_members :: "Cryocooler \<Rightarrow> 'a Cryocooler_scheme \<Rightarrow> 'a Cryocooler_scheme" where
  "cc_members m d = d\<lparr>TC := TC m, PCurrent := PCurrent m, PMax := PMax m, PMin := PMin m,
     PSet := PSet m, PAsk := PAsk m, isON := isON m, newCCPowerState := newCCPowerState m,
     newCCPower := newCCPower m, ControllerMode := ControllerMode m, hasStalled := hasStalled m,
     NReadBytes := NReadBytes m, SQLStatusMsg := []\<rparr>"

definition Cryocooler_new :: "cc_open \<Rightarrow> ('a Cryocooler_scheme, unit) io" where
  "Cryocooler_new e = io_seq [
     io_update (\<lambda>d. (cc_members (open_memory e) d)\<lparr>tty := cc_line (new_tty (open_attrs e))\<rparr>),
     io_update (\<lambda>d. d\<lparr>usb_in := drop (open_flushed e) (usb_in d)\<rparr>),
     io_update (\<lambda>d. if open_set_ok e then d\<lparr>line := Some (tty d)\<rparr> else d),
     WriteString (''VERSION'' @ [CR]),
     io_then ReadLine (io_return ()),
     io_then ReadLine (io_return ()),
     io_update (\<lambda>d. d\<lparr>PAsk := Fin 0, ControllerMode := 0, hasStalled := False\<rparr>)]"

subsection \<open>Reading the controller\<close>

text \<open>The first line of an answer, an echo of the command; the result says whether it stalled.\<close>

definition first_line :: "('a Cryocooler_scheme, bool) io" where
  "first_line = io_bind RReadLine (\<lambda>(_, n, stalled).
     io_then (io_update (\<lambda>d. d\<lparr>NReadBytes := n, hasStalled := stalled\<rparr>)) (io_return stalled))"

definition GetTC :: "('a Cryocooler_scheme, int) io" where
  "GetTC = io_then (WriteString (''TC'' @ [CR]))
     (io_bind first_line (\<lambda>stalled. if stalled then io_return (- 1)
      else io_bind ReadLine (\<lambda>CCTC_String. case stof CCTC_String of
          Inr v \<Rightarrow> io_then (io_update (\<lambda>d. d\<lparr>TC := v\<rparr>)) (io_return 0)
        | Inl _ \<Rightarrow> io_return (- 2))))"

definition GetP :: "('a Cryocooler_scheme, int) io" where
  "GetP = io_then (WriteString (''P'' @ [CR]))
     (io_bind first_line (\<lambda>stalled. if stalled then io_return (- 1)
      else io_bind ReadLine (\<lambda>CC_String. case stof CC_String of
          Inr v \<Rightarrow> io_then (io_update (\<lambda>d. d\<lparr>PCurrent := v\<rparr>)) (io_return 0)
        | Inl _ \<Rightarrow> io_return (- 2))))"

definition GetPIDState :: "('a Cryocooler_scheme, int) io" where
  "GetPIDState = io_then (WriteString (''SET PID'' @ [CR]))
     (io_bind first_line (\<lambda>stalled. if stalled then io_return (- 1)
      else io_bind ReadLine (\<lambda>CC_String. case stod CC_String of
          Inr v \<Rightarrow> io_then (io_update (\<lambda>d. d\<lparr>ControllerMode := to_int32 v\<rparr>)) (io_return 0)
        | Inl _ \<Rightarrow> io_return (- 2))))"

definition GetE :: "('a Cryocooler_scheme, int) io" where
  "GetE = io_then (WriteString (''E'' @ [CR]))
     (io_bind first_line (\<lambda>stalled. if stalled then io_return (- 1)
      else io_bind ReadLine (\<lambda>CC_S1. case stof CC_S1 of
          Inl _ \<Rightarrow> io_return (- 2)
        | Inr v1 \<Rightarrow> io_then (io_update (\<lambda>d. d\<lparr>PMax := v1\<rparr>))
      (io_bind ReadLine (\<lambda>CC_S2. case stof CC_S2 of
          Inl _ \<Rightarrow> io_return (- 2)
        | Inr v2 \<Rightarrow> io_then (io_update (\<lambda>d. d\<lparr>PMin := v2\<rparr>))
      (io_bind ReadLine (\<lambda>CC_S3. case stof CC_S3 of
          Inl _ \<Rightarrow> io_return (- 2)
        | Inr v3 \<Rightarrow> io_then (io_update (\<lambda>d. d\<lparr>PSet := v3\<rparr>)) (io_return 0))))))))"

text \<open>A \<open>double\<close> stored in a \<open>bool\<close>: everything but zero is \<open>true\<close>.\<close>

definition to_bool :: "double \<Rightarrow> bool" where
  "to_bool v \<longleftrightarrow> v \<noteq> Fin 0"

definition checkIfON :: "('a Cryocooler_scheme, int) io" where
  "checkIfON = io_then (WriteString (''SET SSTOP'' @ [CR]))
     (io_bind first_line (\<lambda>stalled. if stalled then io_return (- 1)
      else io_bind ReadLine (\<lambda>CC_String. io_bind (io_parse (stod CC_String)) (\<lambda>v.
        io_then (io_update (\<lambda>d. d\<lparr>isON := \<not> to_bool v\<rparr>)) (io_return 0)))))"

subsection \<open>Commands\<close>

lemma throwr_loop_le: "length (snd (throwr_loop acc rs)) \<le> length rs - 1"
proof (induction rs arbitrary: acc)
  case (Cons r rs)
  have "length (snd (throwr_loop a rs)) \<le> length rs" for a
    using Cons.IH [of a] by simp
  then show ?case by (cases r) auto
qed simp

lemma throwr_loop_shorter:
  assumes "throwr_loop acc rs = (Inr r, rs')"
  shows "length rs' < length rs"
proof (cases rs)
  case Nil
  then show ?thesis using assms by simp
next
  case (Cons x xs)
  then show ?thesis using throwr_loop_le [of acc rs] assms by simp
qed

text \<open>
  The lines of the shutdown, until one ends in \<open>COMPLETE.\<close>: \<open>compare\<close> is called with the
  position \<open>size() - 9\<close>, which wraps for a shorter line and is then out of range.
\<close>

function complete_loop :: "rd list \<Rightarrow> (fault + unit) \<times> rd list" where
  "complete_loop rs = (case throwr_loop [] rs of
      (Inl e, rs') \<Rightarrow> (Inl e, rs')
    | (Inr r, rs') \<Rightarrow> (let s = finish_line r in
        if length s < 9 then (Inl (Uncaught Out_of_range), rs')
        else if drop (length s - 9) s = ''COMPLETE.'' then (Inr (), rs')
        else complete_loop rs'))"
  by pat_completeness auto

termination
  by (relation "measure length") (auto dest!: sym [THEN throwr_loop_shorter])

declare complete_loop.simps [simp del]

definition wait_complete :: "('a SerialDevice_scheme, unit) io" where
  "wait_complete d = (case complete_loop (usb_in d) of (r, rs) \<Rightarrow> (r, d\<lparr>usb_in := rs\<rparr>))"

text \<open>\<open>junk\<close> is what the uninitialised \<open>sstop_status\<close> holds when the last answer is not a number.\<close>

definition PowerOnOff :: "bool \<Rightarrow> bool \<Rightarrow> ('a Cryocooler_scheme, unit) io" where
  "PowerOnOff junk newPowerState =
    (if newPowerState then
       io_then (WriteString (''SET SSTOP=0'' @ [CR]))
       (io_then ReadLine
       (io_bind ReadLine (\<lambda>CC_String. io_bind (io_parse (stod CC_String)) (\<lambda>v.
         io_update (\<lambda>d. d\<lparr>isON := \<not> to_bool v\<rparr>)))))
     else
       io_then (WriteString (''SET SSTOP=1'' @ [CR]))
       (io_then ReadLine
       (io_then ReadLine
       (io_then wait_complete
       (io_then ReadLine
       (io_then (WriteString (''SET SSTOP'' @ [CR]))
       (io_then ReadLine
       (io_bind ReadLine (\<lambda>CC_String.
         let sstop_status = (case stod CC_String of Inr v \<Rightarrow> to_bool v | Inl _ \<Rightarrow> junk)
         in io_update (\<lambda>d. d\<lparr>isON := \<not> sstop_status\<rparr>))))))))))"

definition sendCCPower :: "'a Cryocooler_scheme \<Rightarrow> int" where
  "sendCCPower d = (let minP = to_int32 (PMin d); maxP = to_int32 (PMax d);
       p = (if newCCPower d > minP then newCCPower d else minP)
     in if p > maxP then maxP else p)"

definition pwout_command :: "int \<Rightarrow> string" where
  "pwout_command n = ''SET PWOUT='' @ to_string_int n @ [CR]"

definition AdjustCryoPower :: "('a Cryocooler_scheme, unit) io" where
  "AdjustCryoPower = io_bind (io_get sendCCPower) (\<lambda>p.
     io_then (WriteString (pwout_command p))
     (io_then ReadLine
     (io_then ReadLine
       (io_update (\<lambda>d. d\<lparr>PAsk := round32 (of_int p)\<rparr>)))))"

definition SetCryoMode :: "('a Cryocooler_scheme, unit) io" where
  "SetCryoMode = io_then (WriteString (''SET PID=0'' @ [CR]))
     (io_bind first_line (\<lambda>stalled. if stalled then io_return ()
      else io_bind ReadLine (\<lambda>CC_String. case stod CC_String of
          Inr v \<Rightarrow> io_update (\<lambda>d. d\<lparr>ControllerMode := to_int32 v\<rparr>)
        | Inl _ \<Rightarrow> io_return ())))"

text \<open>One exchange with the database: the control row read, and the texts of the row inserted.\<close>

definition CC_UpdateMysql :: "bool \<times> int \<Rightarrow> nat \<Rightarrow> ('a Cryocooler_scheme, string list) io" where
  "CC_UpdateMysql CtrlRow warnings =
     io_then (io_update (\<lambda>d. d\<lparr>newCCPowerState := fst CtrlRow, newCCPower := snd CtrlRow\<rparr>))
     (io_bind (io_get (\<lambda>d. [to_string_fp (TC d), to_string_fp (PMin d), to_string_fp (PMax d),
          to_string_fp (PCurrent d), to_string_bool (isON d), to_string_int (ControllerMode d)]))
        (\<lambda>row. io_then (io_update (\<lambda>d. d\<lparr>SQLStatusMsg :=
             (if warnings = 0 then ''OK'' else ''WARN!'' @ [LF])\<rparr>))
          (io_return row)))"

subsection \<open>Exchanges\<close>

text \<open>The device after it answered: \<open>rs\<close> is left of the input and \<open>c\<close> has been sent.\<close>

abbreviation asked :: "string \<Rightarrow> rd list \<Rightarrow> 'a SerialDevice_scheme \<Rightarrow> 'a SerialDevice_scheme" where
  "asked c rs d \<equiv> d\<lparr>usb_in := rs, usb_out := usb_out d @ [c]\<rparr>"

abbreviation heard :: "int \<Rightarrow> bool \<Rightarrow> 'a Cryocooler_scheme \<Rightarrow> 'a Cryocooler_scheme" where
  "heard n st d \<equiv> d\<lparr>NReadBytes := n, hasStalled := st\<rparr>"

definition is_echo :: "string \<Rightarrow> bool" where
  "is_echo l \<longleftrightarrow> l \<noteq> [] \<and> good_line l"

lemma WriteString_bind [io_simps]:
  "io_bind (WriteString c) f d = f () (d\<lparr>usb_out := usb_out d @ [c]\<rparr>)"
  by (simp add: io_bind_def WriteString_def)

lemma ReadLine_bind [io_simps]:
  assumes "good_line l" "usb_in d = sends l @ rs"
  shows "io_bind ReadLine f d = f (l @ [LF]) (d\<lparr>usb_in := rs\<rparr>)"
  using ReadLine_sends [OF assms] by (simp add: io_bind_def)

lemma update_bind [io_simps]:
  "io_bind (io_update g) f d = f () (g d)"
  by (simp add: io_bind_def io_update_def)

lemma first_line_echo:
  assumes "is_echo l" "usb_in d = sends l @ rs"
  shows "io_bind first_line f d = f False (heard 1 False (d\<lparr>usb_in := rs\<rparr>))"
proof -
  obtain c l' where l: "l = c # l'" using assms by (cases l) (auto simp: is_echo_def)
  have "RReadLine d = (Inr (c # l' @ [LF], 1, False), d\<lparr>usb_in := rs\<rparr>)"
    using assms l by (intro RReadLine_sends) (auto simp: is_echo_def)
  then show ?thesis by (simp add: first_line_def io_bind_def io_simps)
qed

text \<open>Nothing arrives for five seconds.\<close>

definition silent :: "rd list \<Rightarrow> bool" where
  "silent rs \<longleftrightarrow> (case rs of [] \<Rightarrow> True | r # _ \<Rightarrow> r = Silence)"

lemma first_line_silent:
  assumes "silent (usb_in d)"
  shows "io_bind first_line f d = f True (heard 0 True (d\<lparr>usb_in := List.tl (usb_in d)\<rparr>))"
proof -
  have "RReadLine d = (Inr ([], 0, True), d\<lparr>usb_in := List.tl (usb_in d)\<rparr>)"
    using assms by (cases "usb_in d") (auto simp: silent_def RReadLine_def)
  then show ?thesis by (simp add: first_line_def io_bind_def io_simps)
qed

lemmas exchange_simps = io_simps first_line_echo first_line_silent

lemma GetTC_run:
  assumes "is_echo e" "good_line l" "usb_in d = sends e @ sends l @ rs"
  shows "GetTC d = (case stof (l @ [LF]) of
      Inr v \<Rightarrow> (Inr 0, heard 1 False (asked (''TC'' @ [CR]) rs d)\<lparr>TC := v\<rparr>)
    | Inl _ \<Rightarrow> (Inr (- 2), heard 1 False (asked (''TC'' @ [CR]) rs d)))"
  using assms by (simp add: GetTC_def exchange_simps split: sum.splits)

lemma GetP_run:
  assumes "is_echo e" "good_line l" "usb_in d = sends e @ sends l @ rs"
  shows "GetP d = (case stof (l @ [LF]) of
      Inr v \<Rightarrow> (Inr 0, heard 1 False (asked (''P'' @ [CR]) rs d)\<lparr>PCurrent := v\<rparr>)
    | Inl _ \<Rightarrow> (Inr (- 2), heard 1 False (asked (''P'' @ [CR]) rs d)))"
  using assms by (simp add: GetP_def exchange_simps split: sum.splits)

lemma GetPIDState_run:
  assumes "is_echo e" "good_line l" "usb_in d = sends e @ sends l @ rs"
  shows "GetPIDState d = (case stod (l @ [LF]) of
      Inr v \<Rightarrow> (Inr 0, heard 1 False (asked (''SET PID'' @ [CR]) rs d)\<lparr>ControllerMode := to_int32 v\<rparr>)
    | Inl _ \<Rightarrow> (Inr (- 2), heard 1 False (asked (''SET PID'' @ [CR]) rs d)))"
  using assms by (simp add: GetPIDState_def exchange_simps split: sum.splits)

lemma GetE_run:
  assumes "is_echo e" "good_line l1" "good_line l2" "good_line l3"
    and "usb_in d = sends e @ sends l1 @ sends l2 @ sends l3 @ rs"
    and "stof (l1 @ [LF]) = Inr v1" "stof (l2 @ [LF]) = Inr v2" "stof (l3 @ [LF]) = Inr v3"
  shows "GetE d = (Inr 0, heard 1 False (asked (''E'' @ [CR]) rs d)\<lparr>PMax := v1, PMin := v2, PSet := v3\<rparr>)"
  using assms by (simp add: GetE_def exchange_simps)

lemma checkIfON_run:
  assumes "is_echo e" "good_line l" "usb_in d = sends e @ sends l @ rs"
  shows "checkIfON d = (case stod (l @ [LF]) of
      Inr v \<Rightarrow> (Inr 0, heard 1 False (asked (''SET SSTOP'' @ [CR]) rs d)\<lparr>isON := \<not> to_bool v\<rparr>)
    | Inl x \<Rightarrow> (Inl (Uncaught x), heard 1 False (asked (''SET SSTOP'' @ [CR]) rs d)))"
  using assms by (simp add: checkIfON_def exchange_simps split: sum.splits)

lemma query_stalled:
  assumes "silent (usb_in d)"
  shows "GetTC d = (Inr (- 1), heard 0 True (asked (''TC'' @ [CR]) (List.tl (usb_in d)) d))"
    and "GetP d = (Inr (- 1), heard 0 True (asked (''P'' @ [CR]) (List.tl (usb_in d)) d))"
    and "GetE d = (Inr (- 1), heard 0 True (asked (''E'' @ [CR]) (List.tl (usb_in d)) d))"
    and "GetPIDState d = (Inr (- 1), heard 0 True (asked (''SET PID'' @ [CR]) (List.tl (usb_in d)) d))"
    and "checkIfON d = (Inr (- 1), heard 0 True (asked (''SET SSTOP'' @ [CR]) (List.tl (usb_in d)) d))"
  using assms
  by (simp_all add: GetTC_def GetP_def GetE_def GetPIDState_def checkIfON_def exchange_simps)

subsection \<open>The shutdown\<close>

text \<open>A line of the shutdown ends in a carriage return; the last one ends in \<open>COMPLETE.\<close>\<close>

definition sends_cr :: "string \<Rightarrow> rd list" where
  "sends_cr l = map Byte (l @ [CR])"

definition says_complete :: "string \<Rightarrow> bool" where
  "says_complete l \<longleftrightarrow> drop (length l - 9) l = ''COMPLETE.''"

definition shutdown_line :: "string \<Rightarrow> bool" where
  "shutdown_line l \<longleftrightarrow> CR \<notin> set l \<and> NUL \<notin> set l \<and> length l \<le> 1023"

lemma throwr_loop_line:
  assumes "shutdown_line l"
  shows "throwr_loop [] (sends_cr l @ rs) = (Inr (1, l), rs)"
  using assms by (simp add: sends_cr_def throwr_loop_bytes shutdown_line_def)

lemma complete_loop_line:
  assumes "shutdown_line l"
  shows "complete_loop (sends_cr l @ rs) =
    (if length l < 9 then (Inl (Uncaught Out_of_range), rs)
     else if says_complete l then (Inr (), rs) else complete_loop rs)"
  using assms
  by (subst complete_loop.simps)
    (simp add: throwr_loop_line finish_line_def c_string_id shutdown_line_def says_complete_def Let_def)

lemma complete_loop_lines:
  assumes "list_all (\<lambda>l. shutdown_line l \<and> 9 \<le> length l \<and> \<not> says_complete l) ls"
  shows "complete_loop (concat (map sends_cr ls) @ rs) = complete_loop rs"
  using assms by (induction ls) (simp_all add: complete_loop_line)

lemma says_complete_length:
  assumes "says_complete l"
  shows "9 \<le> length l"
proof -
  have "length (drop (length l - 9) l) = 9"
    using assms unfolding says_complete_def by (simp only:) simp
  then show ?thesis by simp
qed

lemma wait_complete_run:
  assumes "list_all (\<lambda>l. shutdown_line l \<and> 9 \<le> length l \<and> \<not> says_complete l) ls"
    and "shutdown_line l" "says_complete l"
    and "usb_in d = concat (map sends_cr ls) @ sends_cr l @ rs"
  shows "wait_complete d = (Inr (), d\<lparr>usb_in := rs\<rparr>)"
  using assms says_complete_length [of l]
  by (simp add: wait_complete_def complete_loop_lines complete_loop_line)

lemma wait_complete_bind [io_simps]:
  assumes "list_all (\<lambda>l. shutdown_line l \<and> 9 \<le> length l \<and> \<not> says_complete l) ls"
    and "shutdown_line l" "says_complete l"
    and "usb_in d = concat (map sends_cr ls) @ sends_cr l @ rs"
  shows "io_bind wait_complete f d = f () (d\<lparr>usb_in := rs\<rparr>)"
  using wait_complete_run [OF assms] by (rule io_bind_run)

lemma AdjustCryoPower_run:
  assumes "good_line l1" "good_line l2" "usb_in d = sends l1 @ sends l2 @ rs"
  shows "AdjustCryoPower d = (Inr (), asked (pwout_command (sendCCPower d)) rs d
    \<lparr>PAsk := round32 (of_int (sendCCPower d))\<rparr>)"
proof -
  have "io_bind (io_get sendCCPower) f d = f (sendCCPower d) d" for f :: "int \<Rightarrow> ('a Cryocooler_scheme, unit) io"
    by (simp add: io_bind_def io_get_def)
  then show ?thesis using assms by (simp add: AdjustCryoPower_def exchange_simps)
qed

lemma sendCCPower_clamp:
  "sendCCPower d = min (to_int32 (PMax d)) (max (newCCPower d) (to_int32 (PMin d)))"
  by (simp add: sendCCPower_def Let_def min_def max_def)

lemma sendCCPower_range: "newCCPower d \<in> {- (2 ^ 31)..<2 ^ 31} \<Longrightarrow> sendCCPower d \<in> {- (2 ^ 31)..<2 ^ 31}"
  using to_int32_range [of "PMin d"] to_int32_range [of "PMax d"] by (auto simp: sendCCPower_def Let_def)

subsection \<open>What the driver may send\<close>

definition power_switch :: "string \<Rightarrow> bool" where
  "power_switch c \<longleftrightarrow> c = ''SET SSTOP=0'' @ [CR] \<or> c = ''SET SSTOP=1'' @ [CR]"

definition plain_command :: "string \<Rightarrow> bool" where
  "plain_command c \<longleftrightarrow> c \<in> {''VERSION'' @ [CR], ''TC'' @ [CR], ''P'' @ [CR], ''E'' @ [CR],
     ''SET PID'' @ [CR], ''SET PID=0'' @ [CR], ''SET SSTOP'' @ [CR]} \<or> (\<exists>n. c = pwout_command n)"

lemma plain_not_switch: "plain_command c \<Longrightarrow> \<not> power_switch c"
  by (auto simp: plain_command_def power_switch_def pwout_command_def)

lemma plain_commands [simp]:
  "plain_command (''VERSION'' @ [CR])" "plain_command (''TC'' @ [CR])" "plain_command (''P'' @ [CR])"
  "plain_command (''E'' @ [CR])" "plain_command (''SET PID'' @ [CR])"
  "plain_command (''SET PID=0'' @ [CR])" "plain_command (''SET SSTOP'' @ [CR])"
  "plain_command (pwout_command n)"
  by (auto simp: plain_command_def)

lemma first_line_writes [intro, simp]: "writes P first_line"
  unfolding first_line_def by (auto split: prod.splits)

lemma wait_complete_writes [intro, simp]: "writes P wait_complete"
  unfolding writes_def
  by (rule outputs_quiet) (auto simp: wait_complete_def split: prod.splits)

lemma plain_operations:
  "writes plain_command GetTC" "writes plain_command GetP" "writes plain_command GetE"
  "writes plain_command GetPIDState" "writes plain_command checkIfON"
  "writes plain_command AdjustCryoPower" "writes plain_command SetCryoMode"
  "writes plain_command (CC_UpdateMysql row w)"
  unfolding GetTC_def GetP_def GetE_def GetPIDState_def checkIfON_def AdjustCryoPower_def
    SetCryoMode_def CC_UpdateMysql_def
  by (auto split: sum.splits simp del: append.simps)

lemma plain_new: "writes plain_command (Cryocooler_new e)"
  unfolding Cryocooler_new_def
  by (rule writes_seq) (auto simp: cc_members_def simp del: append.simps)

lemma PowerOnOff_emits: "emits power_switch 1 (PowerOnOff junk b)"
proof -
  have on: "writes (\<lambda>c. \<not> power_switch c) (io_then ReadLine (io_bind ReadLine (\<lambda>s.
      io_bind (io_parse (stod s)) (\<lambda>v. io_update (\<lambda>d. d\<lparr>isON := \<not> to_bool v\<rparr>)))))"
    by auto
  have "\<not> power_switch (''SET SSTOP'' @ [CR])"
    by (rule plain_not_switch) (rule plain_commands)
  then have off: "writes (\<lambda>c. \<not> power_switch c) (io_then ReadLine (io_then ReadLine
      (io_then wait_complete (io_then ReadLine (io_then (WriteString (''SET SSTOP'' @ [CR]))
      (io_then ReadLine (io_bind ReadLine (\<lambda>s. let t = (case stod s of Inr v \<Rightarrow> to_bool v | Inl _ \<Rightarrow> junk)
         in io_update (\<lambda>d. d\<lparr>isON := \<not> t\<rparr>)))))))))"
    by (auto simp: Let_def simp del: append.simps)
  show ?thesis
  proof (cases b)
    case True
    have "emits power_switch (1 + 0) (PowerOnOff junk True)"
      unfolding PowerOnOff_def if_True by (rule emits_then [OF emits_once emits_none [OF on]])
    with True show ?thesis by simp
  next
    case False
    have "emits power_switch (1 + 0) (PowerOnOff junk False)"
      unfolding PowerOnOff_def if_False by (rule emits_then [OF emits_once emits_none [OF off]])
    with False show ?thesis by simp
  qed
qed

text \<open>No operation touches what extends the object.\<close>

abbreviation cc_more :: "'a Cryocooler_scheme \<Rightarrow> 'a" where
  "cc_more \<equiv> Cryocooler.Cryocooler.more"

lemma keeps_more:
  "keeps cc_more GetTC" "keeps cc_more GetP" "keeps cc_more GetE"
  "keeps cc_more GetPIDState" "keeps cc_more checkIfON"
  "keeps cc_more SetCryoMode" "keeps cc_more AdjustCryoPower"
  "keeps cc_more (CC_UpdateMysql row w)" "keeps cc_more (PowerOnOff junk b)"
  "keeps cc_more (Cryocooler_new e)"
proof -
  have 1 [intro!]: "keeps cc_more first_line"
    unfolding first_line_def by (auto split: prod.splits)
  have 2 [intro!]: "keeps cc_more wait_complete"
    unfolding keeps_def by (auto simp: wait_complete_def split: prod.splits)
  note defs = GetTC_def GetP_def GetE_def GetPIDState_def checkIfON_def SetCryoMode_def
    AdjustCryoPower_def CC_UpdateMysql_def PowerOnOff_def Cryocooler_new_def cc_members_def Let_def
  show "keeps cc_more GetTC" "keeps cc_more GetP" "keeps cc_more GetE"
    "keeps cc_more GetPIDState" "keeps cc_more checkIfON"
    "keeps cc_more SetCryoMode" "keeps cc_more AdjustCryoPower"
    "keeps cc_more (CC_UpdateMysql row w)" "keeps cc_more (PowerOnOff junk b)"
    unfolding defs by (auto split: sum.splits)
  show "keeps cc_more (Cryocooler_new e)"
    unfolding Cryocooler_new_def by (rule keeps_seq) (auto simp: cc_members_def)
qed

text \<open>The order to switch is only read from the database: the commands leave it alone, and a switch
  is sent in the direction asked for.\<close>

definition switch_to :: "bool \<Rightarrow> string \<Rightarrow> bool" where
  "switch_to b c \<longleftrightarrow> (power_switch c \<longrightarrow> c = (if b then ''SET SSTOP=0'' else ''SET SSTOP=1'') @ [CR])"

lemma plain_switch_to: "plain_command c \<Longrightarrow> switch_to b c"
  by (simp add: switch_to_def plain_not_switch)

lemma PowerOnOff_writes: "writes (switch_to b) (PowerOnOff junk b)"
proof -
  have "switch_to b (''SET SSTOP'' @ [CR])" by (rule plain_switch_to) (rule plain_commands)
  moreover have "switch_to b ((if b then ''SET SSTOP=0'' else ''SET SSTOP=1'') @ [CR])" by (simp add: switch_to_def)
  ultimately show ?thesis
    unfolding PowerOnOff_def by (cases b) (auto simp: Let_def simp del: append.simps)
qed

lemma keeps_order:
  "keeps newCCPowerState GetPIDState" "keeps newCCPowerState SetCryoMode" "keeps newCCPowerState AdjustCryoPower"
  "keeps newCCPowerState (PowerOnOff junk b)"
proof -
  have 1 [intro!]: "keeps newCCPowerState first_line"
    unfolding first_line_def by (auto split: prod.splits)
  have 2 [intro!]: "keeps newCCPowerState wait_complete"
    unfolding keeps_def by (auto simp: wait_complete_def split: prod.splits)
  show "keeps newCCPowerState GetPIDState" "keeps newCCPowerState SetCryoMode" "keeps newCCPowerState AdjustCryoPower"
    "keeps newCCPowerState (PowerOnOff junk b)"
    unfolding GetPIDState_def SetCryoMode_def AdjustCryoPower_def PowerOnOff_def Let_def by (auto split: sum.splits)
qed

subsection \<open>Properties\<close>

text \<open>The text of a stored number reads back as the number rounded to six decimals.\<close>

definition reads_as :: "string \<Rightarrow> rat \<Rightarrow> bool" where
  "reads_as t x \<longleftrightarrow> (\<exists>y. strtod t = Some (LitNum y) \<and> \<bar>y - x\<bar> \<le> 1 / 2000000)"

lemma to_string_fp_reads: "reads_as (to_string_fp (Fin x)) x"
  using strtod_to_string_fp [of "[]" x] printed_value_close [of x]
  by (auto simp: reads_as_def ends_number_def)

text \<open>
  The power sent to the cooler. With the two lines of an answer waiting, \<open>AdjustCryoPower\<close>
  sends one \<open>SET PWOUT\<close> command; its number reads back as the power asked for by the database,
  limited to the whole parts of the limits the controller reported, the upper limit winning; and
  it is stored in \<open>PAsk\<close>.
\<close>

theorem power_command_limited:
  assumes "good_line l1" "good_line l2" "usb_in d = sends l1 @ sends l2 @ rs"
    and "newCCPower d \<in> {- (2 ^ 31)..<2 ^ 31}"
  shows "\<exists>n text. AdjustCryoPower d =
      (Inr (), d\<lparr>usb_in := rs, usb_out := usb_out d @ [''SET PWOUT='' @ text], PAsk := round32 (of_int n)\<rparr>)
    \<and> stoi text = Inr n
    \<and> n = min (to_int32 (PMax d)) (max (newCCPower d) (to_int32 (PMin d)))"
proof -
  let ?n = "sendCCPower d"
  have "stoi (to_string_int ?n @ [CR]) = Inr ?n"
    using sendCCPower_range [OF assms(4)] by (intro stoi_to_string_int) (auto simp: ends_number_def is_digit_def)
  then show ?thesis
    using AdjustCryoPower_run [OF assms(1-3)] sendCCPower_clamp [of d]
    by (intro exI [of _ ?n] exI [of _ "to_string_int ?n @ [CR]"]) (simp add: pwout_command_def)
qed

text \<open>A cooler as the constructor leaves it, with limits 70 and 240 and 400 asked for.\<close>

definition cc_sample :: "rd list \<Rightarrow> Cryocooler" where
  "cc_sample ins = \<lparr>usb_in = ins, usb_out = [], tty = zero_termios, line = None,
     TC = Fin 0, PCurrent = Fin 0, PMax = Fin 240, PMin = Fin 70, PSet = Fin 0, PAsk = Fin 0,
     isON = True, newCCPowerState = True, newCCPower = 400, ControllerMode = 0,
     hasStalled = False, NReadBytes = 0, SQLStatusMsg = []\<rparr>"

theorem power_command_limited_witness:
  "\<exists>n text. AdjustCryoPower (cc_sample (sends ''a'' @ sends ''240'' @ [])) =
      (Inr (), (cc_sample (sends ''a'' @ sends ''240'' @ []))\<lparr>usb_in := [],
         usb_out := usb_out (cc_sample (sends ''a'' @ sends ''240'' @ [])) @ [''SET PWOUT='' @ text],
         PAsk := round32 (of_int n)\<rparr>)
    \<and> stoi text = Inr n
    \<and> n = min (to_int32 (PMax (cc_sample (sends ''a'' @ sends ''240'' @ []))))
        (max (newCCPower (cc_sample (sends ''a'' @ sends ''240'' @ [])))
          (to_int32 (PMin (cc_sample (sends ''a'' @ sends ''240'' @ [])))))"
  by (rule power_command_limited) (simp_all add: cc_sample_def good_line_def)

text \<open>
  Switching the cooler off. When the controller acknowledges with two lines, talks on with any
  number of lines of at least nine characters, ends with one that says \<open>COMPLETE.\<close> and answers the
  status query, \<open>PowerOnOff\<close> returns, has sent exactly the switch command and the query, has read
  exactly these lines, and \<open>isON\<close> is the state the controller reported.
\<close>

theorem power_off_exchange:
  assumes "good_line a1" "good_line a2" "good_line a3" "good_line a4" "good_line a5"
    and "list_all (\<lambda>l. shutdown_line l \<and> 9 \<le> length l \<and> \<not> says_complete l) ls"
    and "shutdown_line l" "says_complete l"
    and "usb_in d = sends a1 @ sends a2 @ concat (map sends_cr ls) @ sends_cr l @ sends a3
      @ sends a4 @ sends a5 @ rs"
    and "stod (a5 @ [LF]) = Inr v"
  shows "PowerOnOff junk False d = (Inr (), d\<lparr>usb_in := rs,
    usb_out := usb_out d @ [''SET SSTOP=1'' @ [CR], ''SET SSTOP'' @ [CR]], isON := \<not> to_bool v\<rparr>)"
  using assms by (simp add: PowerOnOff_def exchange_simps wait_complete_bind [of ls l] Let_def)

theorem power_off_exchange_witness:
  "PowerOnOff False False (cc_sample (sends ''a'' @ sends ''b'' @ concat (map sends_cr [''Power: 100''])
      @ sends_cr ''COMPLETE.'' @ sends [] @ sends ''SET SSTOP'' @ sends ''1'' @ [])) =
    (Inr (), (cc_sample (sends ''a'' @ sends ''b'' @ concat (map sends_cr [''Power: 100''])
      @ sends_cr ''COMPLETE.'' @ sends [] @ sends ''SET SSTOP'' @ sends ''1'' @ []))\<lparr>usb_in := [],
    usb_out := usb_out (cc_sample (sends ''a'' @ sends ''b'' @ concat (map sends_cr [''Power: 100''])
      @ sends_cr ''COMPLETE.'' @ sends [] @ sends ''SET SSTOP'' @ sends ''1'' @ []))
      @ [''SET SSTOP=1'' @ [CR], ''SET SSTOP'' @ [CR]], isON := \<not> to_bool (Fin 1)\<rparr>)"
proof (rule power_off_exchange [where ?a1.0 = "''a''" and ?a2.0 = "''b''" and ls = "[''Power: 100'']"
      and ?a3.0 = "[]" and ?a4.0 = "''SET SSTOP''"])
  show "stod (''1'' @ [LF]) = Inr (Fin 1)" by code_simp
qed (simp_all add: cc_sample_def good_line_def shutdown_line_def says_complete_def)

text \<open>
  A short line ends the process. While it waits for the end of the shutdown, the first line of
  fewer than nine characters throws \<open>out_of_range\<close> out of \<open>PowerOnOff\<close>, with the switch command sent
  and the cooler's state never read back.
\<close>

theorem power_off_short_line:
  assumes "good_line a1" "good_line a2" "shutdown_line l" "length l < 9"
    and "list_all (\<lambda>l. shutdown_line l \<and> 9 \<le> length l \<and> \<not> says_complete l) ls"
    and "usb_in d = sends a1 @ sends a2 @ concat (map sends_cr ls) @ sends_cr l @ rs"
  shows "PowerOnOff junk False d = (Inl (Uncaught Out_of_range),
    d\<lparr>usb_in := rs, usb_out := usb_out d @ [''SET SSTOP=1'' @ [CR]]\<rparr>)"
proof -
  have "io_bind wait_complete f (d\<lparr>usb_out := usb_out d @ [''SET SSTOP=1'' @ [CR]],
      usb_in := concat (map sends_cr ls) @ sends_cr l @ rs\<rparr>)
    = (Inl (Uncaught Out_of_range), d\<lparr>usb_in := rs, usb_out := usb_out d @ [''SET SSTOP=1'' @ [CR]]\<rparr>)" for f :: "unit \<Rightarrow> ('a Cryocooler_scheme, unit) io"
    using assms(3-5)
    by (simp add: io_bind_def wait_complete_def complete_loop_lines complete_loop_line)
  then show ?thesis using assms by (simp add: PowerOnOff_def exchange_simps)
qed

theorem power_off_short_line_witness:
  "PowerOnOff True False (cc_sample (sends ''a'' @ sends ''b'' @ concat (map sends_cr [])
      @ sends_cr ''...'' @ sends_cr ''COMPLETE.'')) =
    (Inl (Uncaught Out_of_range), (cc_sample (sends ''a'' @ sends ''b'' @ concat (map sends_cr [])
      @ sends_cr ''...'' @ sends_cr ''COMPLETE.''))\<lparr>usb_in := sends_cr ''COMPLETE.'',
      usb_out := usb_out (cc_sample (sends ''a'' @ sends ''b'' @ concat (map sends_cr [])
      @ sends_cr ''...'' @ sends_cr ''COMPLETE.'')) @ [''SET SSTOP=1'' @ [CR]]\<rparr>)"
  by (rule power_off_short_line [where ?a1.0 = "''a''" and ?a2.0 = "''b''" and ls = "[]"])
    (simp_all add: cc_sample_def good_line_def shutdown_line_def)

text \<open>
  What the driver stores in the database. The row that \<open>UpdateMysql\<close> inserts reads back as the
  members of the object, the four numbers to within half a millionth.
\<close>

lemma stored_row_reads_back:
  assumes "TC d = Fin t" "PMin d = Fin lo" "PMax d = Fin hi" "PCurrent d = Fin p"
    and "ControllerMode d \<in> {- (2 ^ 31)..<2 ^ 31}"
  shows "\<exists>a b c e f g d'. CC_UpdateMysql (s, n) w d = (Inr [a, b, c, e, f, g], d')
    \<and> reads_as a t \<and> reads_as b lo \<and> reads_as c hi \<and> reads_as e p
    \<and> stoi f = Inr (if isON d then 1 else 0) \<and> stoi g = Inr (ControllerMode d)
    \<and> newCCPowerState d' = s \<and> newCCPower d' = n"
proof -
  have i: "stoi (to_string_int k) = Inr k" if "k \<in> {- (2 ^ 31)..<2 ^ 31}" for k
    using stoi_to_string_int [of k "[]"] that by (simp add: ends_number_def)
  have b: "stoi (to_string_bool (isON d)) = Inr (if isON d then 1 else 0)"
    unfolding to_string_bool_def by (rule i) simp
  have "\<exists>d'. CC_UpdateMysql (s, n) w d = (Inr [to_string_fp (Fin t), to_string_fp (Fin lo),
      to_string_fp (Fin hi), to_string_fp (Fin p), to_string_bool (isON d),
      to_string_int (ControllerMode d)], d') \<and> newCCPowerState d' = s \<and> newCCPower d' = n"
    using assms(1-4) by (simp add: CC_UpdateMysql_def io_simps io_bind_run)
  then show ?thesis using to_string_fp_reads b i [OF assms(5)] by blast
qed

text \<open>
  The settings of the line. Whatever the port was set to, the cooler's line is raw at 4800 baud
  with eight bits, no parity, one stop bit and no flow control; but a read waits for a character
  without a time limit, because \<open>cfmakeraw\<close> comes after the time limit is set.
\<close>

lemma cooler_line_settings:
  "let t = cc_line (new_tty attrs) in
     c_ospeed t = 4800 \<and> c_ispeed t = 4800 \<and> c_cflag t AND CSIZE = CS8 \<and> c_cflag t AND PARENB = 0
     \<and> c_cflag t AND CSTOPB = 0 \<and> c_cflag t AND CRTSCTS = 0
     \<and> c_cflag t AND (CREAD OR CLOCAL) = CREAD OR CLOCAL
     \<and> c_vmin t = 1 \<and> c_vtime t = 0"
  by (simp add: Let_def cc_line_def new_tty_def cfmakeraw_def set_speed_def flag_simps)

end
