(* ===== verification/CCDrone.thy ===== *)
theory CCDrone
  imports Cryocooler
begin

text \<open>
  \<open>CCDroneStart.cpp\<close>: the process that keeps the cooler in step with the database. Its local
  variables extend the object they work on; \<open>Status\<close> has no initial value. \<open>slept\<close> counts the
  seconds the loop has slept and is not a variable of the program. \<open>numRefreshes\<close> counts up from 0, once a second at most,
  and is a natural number here: the \<open>int\<close> overflows after 68 years.
\<close>

record CCDrone = Cryocooler +
  numRefreshes :: nat
  Status :: int
  slept :: nat

text \<open>What one pass of the loop meets: the database row, the count of warnings, the memory of
  \<open>PowerOnOff\<close>'s local variable, and the port as a new object finds it.\<close>

record cc_env =
  env_row :: "bool \<times> int"
  env_warnings :: nat
  env_junk :: bool
  env_open :: cc_open

definition set_Status :: "int \<Rightarrow> (CCDrone, unit) io" where
  "set_Status r = io_update (\<lambda>s. s\<lparr>Status := r\<rparr>)"

definition sleep_loop :: "nat \<Rightarrow> (CCDrone, unit) io" where
  "sleep_loop n = io_update (\<lambda>s. s\<lparr>slept := slept s + n\<rparr>)"

text \<open>\<open>Status = query(); if (Status != 0) continue;\<close>\<close>

definition checked :: "(CCDrone, int) io \<Rightarrow> (CCDrone, unit) io \<Rightarrow> (CCDrone, unit) io" where
  "checked q k = io_bind q (\<lambda>r. io_then (set_Status r) (if r \<noteq> 0 then io_return () else k))"

definition cc_power :: "cc_env \<Rightarrow> (CCDrone, unit) io" where
  "cc_power e = io_bind (io_get newCCPowerState) (\<lambda>b.
     io_then (PowerOnOff (env_junk e) b) (io_if isON AdjustCryoPower (io_return ())))"

definition cc_regulate :: "cc_env \<Rightarrow> nat \<Rightarrow> (CCDrone, unit) io" where
  "cc_regulate e n =
     io_then (io_update (\<lambda>s. s\<lparr>numRefreshes := n + 1\<rparr>))
     (io_then (if n mod 5 = 0 then io_then AdjustCryoPower (io_then GetPIDState (io_return ())) else io_return ())
     (io_then (io_if (\<lambda>s. ControllerMode s \<noteq> 0 \<and> numRefreshes s mod 30 = 0) SetCryoMode (io_return ()))
     (io_then (io_if (\<lambda>s. newCCPowerState s \<noteq> isON s \<and> numRefreshes s mod 30 = 0) (cc_power e) (io_return ()))
       (sleep_loop 1))))"

definition cc_refresh :: "cc_env \<Rightarrow> (CCDrone, unit) io" where
  "cc_refresh e = checked GetTC (checked GetP (checked GetE (checked checkIfON
     (io_then (CC_UpdateMysql (env_row e) (env_warnings e))
       (io_bind (io_get numRefreshes) (cc_regulate e))))))"

definition cc_pass :: "cc_env \<Rightarrow> (CCDrone, unit) io" where
  "cc_pass e = io_if (\<lambda>s. Status s = 0) (cc_refresh e) (Cryocooler_new (env_open e))"

definition cc_run :: "cc_env list \<Rightarrow> (CCDrone, unit) io" where
  "cc_run es = io_seq (map cc_pass es)"

text \<open>\<open>main\<close> for the passes that the list describes.\<close>

definition cc_main :: "cc_open \<Rightarrow> cc_env list \<Rightarrow> (CCDrone, unit) io" where
  "cc_main e0 es = io_then (io_update (\<lambda>s. s\<lparr>numRefreshes := 0\<rparr>))
     (io_then (Cryocooler_new e0) (io_then (sleep_loop 1) (cc_run es)))"

subsection \<open>What the loop sends\<close>

lemma more_fields:
  fixes s t :: CCDrone
  shows "cc_more s = cc_more t \<Longrightarrow> numRefreshes s = numRefreshes t \<and> Status s = Status t \<and> slept s = slept t"
  by (cases s; cases t) simp

lemma keeps_fields:
  fixes m :: "(CCDrone, 'a) io"
  assumes "keeps cc_more m"
  shows "keeps numRefreshes m" "keeps Status m" "keeps slept m"
proof -
  have "cc_more (snd (m s)) = cc_more s" for s
    using assms by (simp add: keeps_def)
  then have "numRefreshes (snd (m s)) = numRefreshes s \<and> Status (snd (m s)) = Status s
      \<and> slept (snd (m s)) = slept s" for s
    by (rule more_fields)
  then show "keeps numRefreshes m" "keeps Status m" "keeps slept m"
    by (simp_all add: keeps_def)
qed

lemmas keeps_CCDrone = keeps_more [THEN keeps_fields(1)] keeps_more [THEN keeps_fields(2)]
  keeps_more [THEN keeps_fields(3)]

abbreviation switches :: "string list \<Rightarrow> nat" where
  "switches ws \<equiv> length (List.filter power_switch ws)"

text \<open>From a state with count \<open>k\<close>, \<open>m\<close> keeps the count and switches at most \<open>j\<close> times.\<close>

definition steady :: "nat \<Rightarrow> nat \<Rightarrow> (CCDrone, 'b) io \<Rightarrow> bool" where
  "steady k j m \<longleftrightarrow> (\<forall>s. numRefreshes s = k \<longrightarrow> numRefreshes (snd (m s)) = k \<and>
     (\<exists>ws. usb_out (snd (m s)) = usb_out s @ ws \<and> switches ws \<le> j))"

lemma steadyI: "keeps numRefreshes m \<Longrightarrow> emits power_switch j m \<Longrightarrow> steady k j m"
  by (auto simp: steady_def keeps_def emits_def outputs_def)

lemma steadyD:
  fixes m :: "(CCDrone, 'b) io"
  assumes "steady k j m" "numRefreshes s = k" "m s = (r, t)"
  obtains ws where "numRefreshes t = k" "usb_out t = usb_out s @ ws" "switches ws \<le> j"
proof -
  have "snd (m s) = t" using assms(3) by simp
  then show ?thesis using that assms(1,2) unfolding steady_def by auto
qed

lemma steady_bind:
  assumes m: "steady k i m" and f: "\<And>x. steady k j (f x)"
  shows "steady k (i + j) (io_bind m f)"
  unfolding steady_def
proof (intro allI impI)
  fix s :: CCDrone
  assume s: "numRefreshes s = k"
  obtain r t where r: "m s = (r, t)" by (cases "m s") auto
  obtain ws where ws: "numRefreshes t = k" "usb_out t = usb_out s @ ws" "switches ws \<le> i"
    using steadyD [OF m s r] .
  show "numRefreshes (snd (io_bind m f s)) = k \<and>
    (\<exists>ws. usb_out (snd (io_bind m f s)) = usb_out s @ ws \<and> switches ws \<le> i + j)"
  proof (cases r)
    case (Inl e)
    then show ?thesis using r ws by (simp add: io_bind_def)
  next
    case (Inr x)
    obtain r' u where u: "f x t = (r', u)" by (cases "f x t") auto
    obtain vs where "numRefreshes u = k" "usb_out u = usb_out t @ vs" "switches vs \<le> j"
      using steadyD [OF f ws(1) u] .
    then show ?thesis using r u ws Inr by (auto simp: io_bind_def intro!: exI [of _ "ws @ vs"])
  qed
qed

lemma steady_then: "steady k i m \<Longrightarrow> steady k j n \<Longrightarrow> steady k (i + j) (io_then m n)"
  unfolding io_then_def by (rule steady_bind)

lemma steady_if:
  assumes "\<And>s. numRefreshes s = k \<Longrightarrow> b s \<Longrightarrow> steady k j m" "steady k j n"
  shows "steady k j (io_if b m n)"
  using assms by (auto simp: steady_def io_simps)

lemma steady_quiet: "keeps numRefreshes m \<Longrightarrow> writes plain_command m \<Longrightarrow> steady k 0 m"
  by (intro steadyI emits_none) (auto elim!: writes_mono simp: plain_not_switch)

lemma steady_return: "steady k 0 (io_return x)"
  by (simp add: steady_def io_simps)

lemma steady_power: "steady k 1 (cc_power e)"
proof -
  have p: "steady k 1 (PowerOnOff (env_junk e) b)" for b
    by (intro steadyI PowerOnOff_emits keeps_CCDrone)
  have a: "steady k 0 (io_if isON AdjustCryoPower (io_return ()))"
    by (intro steady_if steady_return steady_quiet keeps_CCDrone plain_operations)
  have "steady k (0 + (1 + 0)) (cc_power e)"
    unfolding cc_power_def
    by (intro steady_bind steady_then p a) (simp add: steady_def io_simps)
  then show ?thesis by simp
qed

text \<open>The part of a pass after the count went up to \<open>k\<close>: one switch, and only when 30 divides \<open>k\<close>.\<close>

definition cc_tail :: "cc_env \<Rightarrow> nat \<Rightarrow> (CCDrone, unit) io" where
  "cc_tail e n =
     io_then (if n mod 5 = 0 then io_then AdjustCryoPower (io_then GetPIDState (io_return ())) else io_return ())
     (io_then (io_if (\<lambda>s. ControllerMode s \<noteq> 0 \<and> numRefreshes s mod 30 = 0) SetCryoMode (io_return ()))
     (io_then (io_if (\<lambda>s. newCCPowerState s \<noteq> isON s \<and> numRefreshes s mod 30 = 0) (cc_power e) (io_return ()))
       (sleep_loop 1)))"

lemma cc_regulate_tail: "cc_regulate e n s = cc_tail e n (s\<lparr>numRefreshes := n + 1\<rparr>)"
  by (simp add: cc_regulate_def cc_tail_def io_simps)

definition allowed :: "nat \<Rightarrow> nat" where
  "allowed k = (if k mod 30 = 0 then 1 else 0)"

lemma allowed_div: "allowed (n + 1) = (n + 1) div 30 - n div 30"
  unfolding allowed_def by (simp add: div_Suc mod_Suc)

lemma steady_tail: "steady k (allowed k) (cc_tail e n)"
proof -
  have a: "steady k 0 (if n mod 5 = 0 then io_then AdjustCryoPower (io_then GetPIDState (io_return ())) else io_return ())"
    using steady_then [OF steady_quiet steady_then [OF steady_quiet steady_return]] keeps_CCDrone plain_operations
    by (auto intro: steady_return)
  have b: "steady k 0 (io_if (\<lambda>s. ControllerMode s \<noteq> 0 \<and> numRefreshes s mod 30 = 0) SetCryoMode (io_return ()))"
    by (intro steady_if steady_return steady_quiet keeps_CCDrone plain_operations)
  have ret: "steady k (allowed k) (io_return ())"
    by (simp add: steady_def io_simps)
  have c: "steady k (allowed k) (io_if (\<lambda>s. newCCPowerState s \<noteq> isON s \<and> numRefreshes s mod 30 = 0)
      (cc_power e) (io_return ()))"
  proof (intro steady_if ret)
    fix s :: CCDrone
    assume "numRefreshes s = k" "newCCPowerState s \<noteq> isON s \<and> numRefreshes s mod 30 = 0"
    then show "steady k (allowed k) (cc_power e)" using steady_power [of k e] by (simp add: allowed_def)
  qed
  have d: "steady k 0 (sleep_loop 1)"
    by (simp add: steady_def sleep_loop_def io_simps)
  have "steady k (0 + (0 + (allowed k + 0))) (cc_tail e n)"
    unfolding cc_tail_def by (intro steady_then a b c d)
  then show ?thesis by simp
qed

text \<open>A relation between the ends of a run and what was sent, which composes.\<close>

definition paced :: "CCDrone \<Rightarrow> CCDrone \<Rightarrow> bool" where
  "paced s t \<longleftrightarrow> numRefreshes s \<le> numRefreshes t \<and> (\<exists>ws. usb_out t = usb_out s @ ws
     \<and> switches ws \<le> numRefreshes t div 30 - numRefreshes s div 30)"

lemma paced_trans:
  assumes "paced s t" "paced t u"
  shows "paced s u"
proof -
  obtain ws vs where ws: "usb_out t = usb_out s @ ws" "usb_out u = usb_out t @ vs"
    "switches ws \<le> numRefreshes t div 30 - numRefreshes s div 30"
    "switches vs \<le> numRefreshes u div 30 - numRefreshes t div 30"
    "numRefreshes s \<le> numRefreshes t" "numRefreshes t \<le> numRefreshes u"
    using assms by (auto simp: paced_def)
  then have "numRefreshes s div 30 \<le> numRefreshes t div 30" "numRefreshes t div 30 \<le> numRefreshes u div 30"
    by (auto intro: div_le_mono)
  moreover have "a + b \<le> z - x" if "a \<le> y - x" "b \<le> z - y" "x \<le> y" "y \<le> z" for a b x y z :: nat
    using that by arith
  ultimately have "switches (ws @ vs) \<le> numRefreshes u div 30 - numRefreshes s div 30"
    using ws(3,4) by (simp only: filter_append length_append)
  with ws show ?thesis unfolding paced_def by (intro conjI exI [of _ "ws @ vs"]) auto
qed

interpretation pacing: run_order paced
  by unfold_locales (auto simp: paced_def intro: paced_trans)

lemma steady_paced:
  assumes "\<And>k. steady k 0 m"
  shows "follows paced m"
  unfolding follows_def
proof
  fix s
  show "paced s (snd (m s))" using assms [of "numRefreshes s"] unfolding steady_def paced_def by auto
qed

lemma paced_quiet: "keeps numRefreshes m \<Longrightarrow> writes plain_command m \<Longrightarrow> follows paced m"
  by (intro steady_paced steady_quiet)

lemma paced_regulate: "paced s (snd (cc_regulate e (numRefreshes s) s))"
proof -
  let ?n = "numRefreshes s" and ?s = "s\<lparr>numRefreshes := numRefreshes s + 1\<rparr>"
  obtain r t where r: "cc_tail e ?n ?s = (r, t)" by (cases "cc_tail e ?n ?s") auto
  obtain ws where "numRefreshes t = ?n + 1" "usb_out t = usb_out ?s @ ws" "switches ws \<le> allowed (?n + 1)"
    using steadyD [OF steady_tail _ r] by auto
  then show ?thesis unfolding cc_regulate_tail r paced_def allowed_div by auto
qed

lemma paced_Status: "follows paced (set_Status r)"
  by (simp add: follows_def set_Status_def io_simps paced_def)

lemma paced_checked: "follows paced q \<Longrightarrow> follows paced k \<Longrightarrow> follows paced (checked q k)"
  unfolding checked_def by (auto intro!: pacing.closed paced_Status)

lemma paced_pass: "follows paced (cc_pass e)"
proof -
  have "follows paced (io_bind (io_get numRefreshes) (cc_regulate e))"
    by (simp add: follows_def io_bind_def io_simps paced_regulate)
  moreover have "follows paced (CC_UpdateMysql (env_row e) (env_warnings e))"
    by (intro paced_quiet keeps_CCDrone plain_operations)
  ultimately have "follows paced (io_then (CC_UpdateMysql (env_row e) (env_warnings e))
      (io_bind (io_get numRefreshes) (cc_regulate e)))" by (rule pacing.seq_two [rotated])
  then have "follows paced (cc_refresh e)"
    unfolding cc_refresh_def by (intro paced_checked) (assumption | intro paced_quiet keeps_CCDrone plain_operations)+
  then show ?thesis
    unfolding cc_pass_def by (rule pacing.branch [OF _ paced_quiet [OF keeps_CCDrone(10) plain_new]])
qed

lemma paced_run: "follows paced (cc_run es)"
  unfolding cc_run_def by (rule pacing.sequence) (simp add: list_all_iff paced_pass)

lemma checked_ok: "q s = (Inr 0, t) \<Longrightarrow> checked q k s = k (t\<lparr>Status := 0\<rparr>)"
  by (simp add: checked_def set_Status_def io_simps io_bind_run)

subsection \<open>The direction of a switch\<close>

text \<open>A run from a state in which the order is \<open>b\<close> keeps it and switches in no other direction.\<close>

definition obeying :: "bool \<Rightarrow> CCDrone \<Rightarrow> CCDrone \<Rightarrow> bool" where
  "obeying b s t \<longleftrightarrow> (newCCPowerState s = b \<longrightarrow> newCCPowerState t = b \<and> sends_more (switch_to b) s t)"

interpretation obeying: run_order "obeying b" for b
  by unfold_locales (auto simp: obeying_def intro: sending.refl sending.trans)

lemma obeyingI: "keeps newCCPowerState m \<Longrightarrow> writes (switch_to b) m \<Longrightarrow> follows (obeying b) m"
  by (simp add: obeying_def keeps_def writes_follows follows_def)

lemma obeying_plain: "keeps newCCPowerState m \<Longrightarrow> writes plain_command m \<Longrightarrow> follows (obeying b) m"
  by (rule obeyingI) (auto elim: writes_mono intro: plain_switch_to)

lemma obeying_update:
  "(\<And>s. newCCPowerState (g s) = newCCPowerState s \<and> usb_out (g s) = usb_out s) \<Longrightarrow> follows (obeying b) (io_update g)"
  by (simp add: follows_def obeying_def sends_more_def io_simps)

lemma obeying_power: "follows (obeying b) (cc_power e)"
  unfolding follows_def
proof
  fix s
  have "follows (obeying b) (io_then (PowerOnOff (env_junk e) b) (io_if isON AdjustCryoPower (io_return ())))"
    by (intro obeying.closed obeyingI [OF keeps_order(4) PowerOnOff_writes] obeying_plain keeps_order plain_operations)
  then show "obeying b s (snd (cc_power e s))"
    by (cases "newCCPowerState s = b") (simp_all add: follows_def cc_power_def io_simps, simp_all add: obeying_def)
qed

lemma obeying_regulate: "follows (obeying b) (cc_regulate e n)"
  unfolding cc_regulate_def sleep_loop_def
  by (cases "n mod 5 = 0")
    (simp_all, (intro obeying.closed obeying_update obeying_power obeying_plain keeps_order plain_operations; simp)+)

text \<open>Before the row is read nothing switches at all.\<close>

lemma sends_plain: "writes plain_command m \<Longrightarrow> follows (sends_more (switch_to b)) m"
  unfolding writes_follows [symmetric] by (erule writes_mono) (rule plain_switch_to)

lemma sends_checked:
  "writes plain_command q \<Longrightarrow> follows (sends_more (switch_to b)) k \<Longrightarrow> follows (sends_more (switch_to b)) (checked q k)"
  unfolding checked_def set_Status_def
  by (intro sending.bind sending.seq_two)
    (auto intro: sends_plain sending.still simp: follows_def [where m = "io_update _"] io_simps sends_more_def)

lemma sends_pass:
  assumes "fst (env_row e) = b"
  shows "follows (sends_more (switch_to b)) (cc_pass e)"
proof -
  have "follows (sends_more (switch_to b)) (io_then (CC_UpdateMysql (env_row e) (env_warnings e)) (io_bind (io_get numRefreshes) (cc_regulate e)))"
    unfolding follows_def
  proof
    fix s :: CCDrone
    obtain row t where t: "CC_UpdateMysql (env_row e) (env_warnings e) s = (Inr row, t)" "newCCPowerState t = b" "usb_out t = usb_out s"
      using assms by (simp add: CC_UpdateMysql_def io_simps)
    have "obeying b t (snd (cc_regulate e (numRefreshes t) t))"
      using obeying_regulate unfolding follows_def by blast
    then show "sends_more (switch_to b) s (snd (io_then (CC_UpdateMysql (env_row e) (env_warnings e)) (io_bind (io_get numRefreshes) (cc_regulate e)) s))"
      using t by (simp add: obeying_def sends_more_def io_then_def io_bind_def io_simps)
  qed
  then have "follows (sends_more (switch_to b)) (cc_refresh e)"
    unfolding cc_refresh_def by (intro sends_checked plain_operations)
  then show ?thesis unfolding cc_pass_def by (rule sending.branch [OF _ sends_plain [OF plain_new]])
qed

subsection \<open>After a stall\<close>

definition version_only :: "string \<Rightarrow> bool" where
  "version_only c \<longleftrightarrow> c = ''VERSION'' @ [CR]"

lemma new_writes: "writes version_only (Cryocooler_new e)"
  unfolding Cryocooler_new_def
  by (rule writes_seq) (auto simp: cc_members_def version_only_def simp del: append.simps)

lemma pass_stuck:
  fixes s t :: CCDrone
  assumes "Status s \<noteq> 0" "cc_pass e s = (r, t)"
  shows "Status t = Status s \<and> (\<exists>ws. usb_out t = usb_out s @ ws \<and> list_all version_only ws)"
proof -
  have n: "Cryocooler_new (env_open e) s = (r, t)"
    using assms by (simp add: cc_pass_def io_simps)
  obtain ws where "usb_out t = usb_out s @ ws" "list_all version_only ws"
    using outputsD [OF new_writes [unfolded writes_def] n] .
  moreover have "keeps Status (Cryocooler_new (env_open e) :: (CCDrone, unit) io)" by (rule keeps_CCDrone)
  then have "Status t = Status s" using n unfolding keeps_def by (metis snd_conv)
  ultimately show ?thesis by auto
qed

lemma run_Cons: "cc_run (e # es) s = io_bind (cc_pass e) (\<lambda>_. cc_run es) s"
  by (simp add: cc_run_def io_simps)

lemma run_stuck:
  fixes s t :: CCDrone
  assumes "Status s \<noteq> 0" "cc_run es s = (r, t)"
  shows "Status t = Status s \<and> (\<exists>ws. usb_out t = usb_out s @ ws \<and> list_all version_only ws)"
  using assms
proof (induction es arbitrary: s)
  case Nil
  then show ?case by (auto simp: cc_run_def io_simps)
next
  case (Cons e es)
  from Cons.prems(2) show ?case unfolding run_Cons
  proof (cases rule: io_bind_cases)
    case (fail x)
    then show ?thesis using pass_stuck [OF Cons.prems(1)] by blast
  next
    case (ok x u)
    obtain ws where u: "Status u = Status s" "usb_out u = usb_out s @ ws" "list_all version_only ws"
      using pass_stuck [OF Cons.prems(1) ok(1)] by blast
    then obtain vs where "Status t = Status s" "usb_out t = usb_out u @ vs" "list_all version_only vs"
      using Cons.IH [of u] Cons.prems(1) ok(2) by auto
    then show ?thesis using u by (intro conjI exI [of _ "ws @ vs"]) auto
  qed
qed

lemma pass_stalls:
  assumes "Status s = 0" "silent (usb_in s)"
  shows "cc_pass e s = (Inr (), (heard 0 True (asked (''TC'' @ [CR]) (List.tl (usb_in s)) s))\<lparr>Status := - 1\<rparr>)"
  using assms query_stalled(1) [OF assms(2)]
  by (simp add: cc_pass_def cc_refresh_def checked_def set_Status_def io_simps io_bind_run)

subsection \<open>Properties\<close>

text \<open>
  C22: the cooler is not switched too often. Over any run of the loop, in any environment, however
  it ends, the number of switch commands sent is at most the number of multiples of thirty that the
  count of refreshes passed, so thirty refreshes lie between two of them.
\<close>

theorem switching_is_paced:
  assumes "cc_run es s = (r, t)"
  shows "\<exists>ws. usb_out t = usb_out s @ ws
    \<and> length (List.filter power_switch ws) \<le> numRefreshes t div 30 - numRefreshes s div 30"
  using followsD [OF paced_run assms] by (auto simp: paced_def)

text \<open>A process whose cooler has answered nothing yet.\<close>

definition drone_sample :: "rd list \<Rightarrow> nat \<Rightarrow> CCDrone" where
  "drone_sample ins n = \<lparr>usb_in = ins, usb_out = [], tty = zero_termios, line = None,
     TC = Fin 0, PCurrent = Fin 0, PMax = Fin 0, PMin = Fin 0, PSet = Fin 0, PAsk = Fin 0,
     isON = False, newCCPowerState = False, newCCPower = 0, ControllerMode = 0,
     hasStalled = False, NReadBytes = 0, SQLStatusMsg = [], numRefreshes = n, Status = 0, slept = 0\<rparr>"

definition env_sample :: cc_env where
  "env_sample = \<lparr>env_row = (True, 100), env_warnings = 0, env_junk = False,
     env_open = \<lparr>open_attrs = None, open_flushed = 0, open_set_ok = True,
       open_memory = cc_sample []\<rparr>\<rparr>"

theorem switching_is_paced_witness:
  "\<exists>ws. usb_out (snd (cc_run [env_sample] (drone_sample [Silence] 29))) = usb_out (drone_sample [Silence] 29) @ ws
    \<and> length (List.filter power_switch ws)
      \<le> numRefreshes (snd (cc_run [env_sample] (drone_sample [Silence] 29))) div 30
        - numRefreshes (drone_sample [Silence] 29) div 30"
  by (rule switching_is_paced [where r = "fst (cc_run [env_sample] (drone_sample [Silence] 29))"]) simp

text \<open>
  A stall is final. If the cooler is silent for five seconds when a refresh begins, then in no
  later pass, whatever the cooler answers, is anything but \<open>VERSION\<close> sent: \<open>Status\<close> is never
  cleared, so the loop makes the object anew for ever and does not control the cooler again.
\<close>

theorem stall_is_final:
  assumes "Status s = 0" "silent (usb_in s)" "cc_run (e # es) s = (r, t)"
  shows "Status t = - 1 \<and> (\<exists>ws. usb_out t = usb_out s @ [''TC'' @ [CR]] @ ws
    \<and> list_all (\<lambda>c. c = ''VERSION'' @ [CR]) ws)"
proof -
  let ?u = "(heard 0 True (asked (''TC'' @ [CR]) (List.tl (usb_in s)) s))\<lparr>Status := - 1\<rparr>"
  have "cc_run es ?u = (r, t)"
    using assms(3) pass_stalls [OF assms(1,2), of e] by (simp add: run_Cons io_bind_def)
  from run_stuck [OF _ this] show ?thesis by (simp add: version_only_def [abs_def])
qed

theorem stall_is_final_witness:
  "Status (snd (cc_run [env_sample, env_sample] (drone_sample [Silence] 0))) = - 1
    \<and> (\<exists>ws. usb_out (snd (cc_run [env_sample, env_sample] (drone_sample [Silence] 0)))
        = usb_out (drone_sample [Silence] 0) @ [''TC'' @ [CR]] @ ws
      \<and> list_all (\<lambda>c. c = ''VERSION'' @ [CR]) ws)"
  by (rule stall_is_final [where e = env_sample and es = "[env_sample]"
        and r = "fst (cc_run [env_sample, env_sample] (drone_sample [Silence] 0))"])
    (simp_all add: drone_sample_def silent_def)

text \<open>
  C23: a refresh. Take a pass that begins with \<open>Status\<close> 0 and in which no periodic work is due: the number of refreshes is no
  multiple of 5, and the next one no multiple of 30. When the cooler answers each of the four queries with an echo
  and the lines it has to give, every one a good line that reads as a number, the pass sends exactly these queries, stores
  every number it received and the orders of the database, counts one refresh and sleeps one second.
\<close>

theorem refresh_pass:
  assumes "Status s = 0" "numRefreshes s mod 5 \<noteq> 0" "(numRefreshes s + 1) mod 30 \<noteq> 0"
    and "is_echo e1" "is_echo e2" "is_echo e3" "is_echo e4"
    and "good_line l1" "good_line l2" "good_line l3" "good_line l4" "good_line l5" "good_line l6"
    and "usb_in s = sends e1 @ sends l1 @ sends e2 @ sends l2 @ sends e3 @ sends l3 @ sends l4
      @ sends l5 @ sends e4 @ sends l6 @ rs"
    and "stof (l1 @ [LF]) = Inr tc" "stof (l2 @ [LF]) = Inr p" "stof (l3 @ [LF]) = Inr hi"
      "stof (l4 @ [LF]) = Inr lo" "stof (l5 @ [LF]) = Inr ps" "stod (l6 @ [LF]) = Inr stop"
  shows "cc_pass e s = (Inr (), s\<lparr>usb_in := rs,
    usb_out := usb_out s @ [''TC'' @ [CR], ''P'' @ [CR], ''E'' @ [CR], ''SET SSTOP'' @ [CR]],
    TC := tc, PCurrent := p, PMax := hi, PMin := lo, PSet := ps, isON := \<not> to_bool stop,
    newCCPowerState := fst (env_row e), newCCPower := snd (env_row e), hasStalled := False,
    NReadBytes := 1, SQLStatusMsg := (if env_warnings e = 0 then ''OK'' else ''WARN!'' @ [LF]),
    numRefreshes := numRefreshes s + 1, Status := 0, slept := slept s + 1\<rparr>)"
proof -
  let ?n = "numRefreshes s"
  have "cc_refresh e s = (io_then (CC_UpdateMysql (env_row e) (env_warnings e)) (io_bind (io_get numRefreshes) (cc_regulate e)))
    (s\<lparr>usb_in := rs,
      usb_out := usb_out s @ [''TC'' @ [CR], ''P'' @ [CR], ''E'' @ [CR], ''SET SSTOP'' @ [CR]],
      TC := tc, PCurrent := p, PMax := hi, PMin := lo, PSet := ps, isON := \<not> to_bool stop,
      hasStalled := False, NReadBytes := 1, Status := 0\<rparr>)"
    using assms(4-20) by (cases s) (simp add: cc_refresh_def checked_ok GetTC_run GetP_run GetE_run checkIfON_run)
  also have "\<dots> = (Inr (), s\<lparr>usb_in := rs,
    usb_out := usb_out s @ [''TC'' @ [CR], ''P'' @ [CR], ''E'' @ [CR], ''SET SSTOP'' @ [CR]],
    TC := tc, PCurrent := p, PMax := hi, PMin := lo, PSet := ps, isON := \<not> to_bool stop,
    newCCPowerState := fst (env_row e), newCCPower := snd (env_row e), hasStalled := False,
    NReadBytes := 1, SQLStatusMsg := (if env_warnings e = 0 then ''OK'' else ''WARN!'' @ [LF]),
    numRefreshes := ?n + 1, Status := 0, slept := slept s + 1\<rparr>)"
    using assms(2,3)
    by (simp add: CC_UpdateMysql_def cc_regulate_def sleep_loop_def io_bind_def io_simps)
  finally show ?thesis using assms(1) by (simp add: cc_pass_def io_simps)
qed

theorem refresh_pass_witness:
  "cc_pass env_sample (drone_sample (sends ''TC'' @ sends ''120'' @ sends ''P'' @ sends ''100''
      @ sends ''E'' @ sends ''240'' @ sends ''70'' @ sends ''100'' @ sends ''SET SSTOP'' @ sends ''0'' @ []) 1)
   = (Inr (), (drone_sample (sends ''TC'' @ sends ''120'' @ sends ''P'' @ sends ''100''
      @ sends ''E'' @ sends ''240'' @ sends ''70'' @ sends ''100'' @ sends ''SET SSTOP'' @ sends ''0'' @ []) 1)
      \<lparr>usb_in := [],
    usb_out := usb_out (drone_sample [] 1) @ [''TC'' @ [CR], ''P'' @ [CR], ''E'' @ [CR], ''SET SSTOP'' @ [CR]],
    TC := Fin 120, PCurrent := Fin 100, PMax := Fin 240, PMin := Fin 70, PSet := Fin 100,
    isON := \<not> to_bool (Fin 0), newCCPowerState := fst (env_row env_sample),
    newCCPower := snd (env_row env_sample), hasStalled := False,
    NReadBytes := 1, SQLStatusMsg := (if env_warnings env_sample = 0 then ''OK'' else ''WARN!'' @ [LF]),
    numRefreshes := 1 + 1, Status := 0, slept := 0 + 1\<rparr>)"
proof -
  have n: "stof (''120'' @ [LF]) = Inr (Fin 120)" "stof (''100'' @ [LF]) = Inr (Fin 100)"
    "stof (''240'' @ [LF]) = Inr (Fin 240)" "stof (''70'' @ [LF]) = Inr (Fin 70)"
    "stod (''0'' @ [LF]) = Inr (Fin 0)"
    by code_simp+
  let ?in = "sends ''TC'' @ sends ''120'' @ sends ''P'' @ sends ''100''
      @ sends ''E'' @ sends ''240'' @ sends ''70'' @ sends ''100'' @ sends ''SET SSTOP'' @ sends ''0'' @ []"
  show ?thesis
    using refresh_pass [where s = "drone_sample ?in 1" and e = env_sample and rs = "[]",
        OF _ _ _ _ _ _ _ _ _ _ _ _ _ _ n(1) n(2) n(3) n(4) n(2) n(5),
        of "''TC''" "''P''" "''E''" "''SET SSTOP''"]
    by (simp add: drone_sample_def is_echo_def good_line_def)
qed

end
