(* ===== verification/Plant.thy ===== *)
theory Plant
  imports CryoProps LakeShore CCDrone
begin

text \<open>
  The processes together. The state machine, the heater process and the cooler process never call each
  other: they meet in the row \<open>IDX = 1\<close> of the table \<open>ControlParameters\<close>, which the machine updates
  (\<open>CCMySQLInteraction.cpp\<close>), the other two read (\<open>LakeShoreHeater.cpp\<close>, \<open>Cryocooler.cpp\<close>) and the
  operator edits.
  The database is not part of the sources: what a column keeps of a value is the parameter \<open>store\<close>,
  and \<open>number_column\<close> states the documented behaviour that the code relies on.
\<close>

subsection \<open>The shared row\<close>

record ControlParameters =
  col_TTemperature :: double
  col_Kp :: double
  col_Ki :: double
  col_Kd :: double
  col_KpR :: double
  col_KiR :: double
  col_KdR :: double
  col_HeaterPW :: double
  col_HeaterMode :: int
  col_CCPower :: double
  col_CCPowerState :: bool
  col_SRSPowerState :: bool
  col_WatchdogFuse :: int

text \<open>What the state machine, the heater process and the cooler process select of it; how the number
  in \<open>CCPower\<close> becomes an \<open>int\<close> depends on the type of the column and is left open.\<close>

definition control_view :: "ControlParameters \<Rightarrow> control_row" where
  "control_view c = \<lparr>row_TTemperature = col_TTemperature c, row_Kp = col_Kp c, row_Ki = col_Ki c,
     row_Kd = col_Kd c, row_KpR = col_KpR c, row_KiR = col_KiR c, row_KdR = col_KdR c,
     row_CCPowerState = col_CCPowerState c, row_WatchdogFuse = (col_WatchdogFuse c \<noteq> 0),
     row_SRSPowerState = col_SRSPowerState c\<rparr>"

definition heater_view :: "ControlParameters \<Rightarrow> double \<times> int \<times> int" where
  "heater_view c = (col_HeaterPW c, col_HeaterMode c, col_WatchdogFuse c)"

definition cooler_view :: "ControlParameters \<Rightarrow> int \<Rightarrow> bool \<times> int" where
  "cooler_view c pw = (col_CCPowerState c, pw)"

text \<open>The statements of the machine; one that is refused raises an exception, and the later ones are
  not executed.\<close>

fun exec_sql :: "(double \<Rightarrow> double option) \<Rightarrow> sql \<Rightarrow> ControlParameters \<Rightarrow> ControlParameters option" where
  "exec_sql store (Insert_SMState v s t) c = map_option (\<lambda>_. c) (store v)"
| "exec_sql store (Set_HeaterPW v) c = map_option (\<lambda>w. c\<lparr>col_HeaterPW := w\<rparr>) (store v)"
| "exec_sql store (Set_CCPower v) c = map_option (\<lambda>w. c\<lparr>col_CCPower := w\<rparr>) (store v)"
| "exec_sql store (Set_CCPowerState b) c = Some (c\<lparr>col_CCPowerState := b\<rparr>)"
| "exec_sql store (Set_SRSPowerState b) c = Some (c\<lparr>col_SRSPowerState := b\<rparr>)"

fun exec_all :: "(double \<Rightarrow> double option) \<Rightarrow> sql list \<Rightarrow> ControlParameters \<Rightarrow> bool \<times> ControlParameters" where
  "exec_all store [] c = (True, c)"
| "exec_all store (q # qs) c = (case exec_sql store q c of None \<Rightarrow> (False, c) | Some c' \<Rightarrow> exec_all store qs c')"

text \<open>A numeric column refuses NaN and the infinities, and whatever its precision it does not move a
  value over an integer up to 1000 in size.\<close>

definition number_column :: "(double \<Rightarrow> double option) \<Rightarrow> bool" where
  "number_column store \<longleftrightarrow> (\<forall>v w. store v = Some w \<longrightarrow> (\<exists>x y. v = Fin x \<and> w = Fin y
     \<and> (\<forall>a. \<bar>a\<bar> \<le> 1000 \<longrightarrow> of_int a \<le> x \<longrightarrow> of_int a \<le> y)
     \<and> (\<forall>b. \<bar>b\<bar> \<le> 1000 \<longrightarrow> x \<le> of_int b \<longrightarrow> y \<le> of_int b)))"

lemma store_inside:
  assumes "number_column store" "store v = Some w" "between (Fin (of_int a)) (Fin (of_int b)) v"
    and "\<bar>a\<bar> \<le> 1000" "\<bar>b\<bar> \<le> 1000"
  shows "inside (of_int a) (of_int b) w"
proof -
  obtain x y where "v = Fin x" "w = Fin y" "\<forall>a. \<bar>a\<bar> \<le> 1000 \<longrightarrow> of_int a \<le> x \<longrightarrow> of_int a \<le> y"
    "\<forall>b. \<bar>b\<bar> \<le> 1000 \<longrightarrow> x \<le> of_int b \<longrightarrow> y \<le> of_int b"
    using assms(1,2) unfolding number_column_def by blast
  then show ?thesis using assms(3-5) by (auto simp: between_Fin_iff)
qed

subsection \<open>The running system\<close>

record plant =
  params :: ControlParameters
  machine :: CryoControlSM
  machine_up :: bool
  heater :: LakeShore
  heater_up :: bool
  cooler :: CCDrone
  cooler_up :: bool

text \<open>
  A step is a turn of one of the three processes, or an edit of the row by anybody else; which edits are
  made is the parameter \<open>edits\<close>, a relation between the row before and after. The rows of the two
  measurement tables are inputs of the machine. Each process reads the row once in a turn, so turns are
  taken one after the other. A process that an exception or a silent instrument has stopped takes no more steps.
\<close>

inductive plant_step :: "(double \<Rightarrow> double option) \<Rightarrow> (ControlParameters \<Rightarrow> ControlParameters \<Rightarrow> bool)
    \<Rightarrow> plant \<Rightarrow> plant \<Rightarrow> bool" for store edits where
  engine: "machine_up p \<Longrightarrow> in_control i = control_view (params p) \<Longrightarrow> SMEngine i (machine p) = Some (sm, out)
    \<Longrightarrow> exec_all store out (params p) = (ok, c)
    \<Longrightarrow> plant_step store edits p (p\<lparr>params := c, machine := sm, machine_up := ok\<rparr>)"
| regulate: "heater_up p \<Longrightarrow> lsh_pass (heater_view (params p), w) (heater p) = (r, d)
    \<Longrightarrow> plant_step store edits p (p\<lparr>heater := d, heater_up := (r = Inr ())\<rparr>)"
| refresh: "cooler_up p \<Longrightarrow> env_row e = cooler_view (params p) pw \<Longrightarrow> cc_pass e (cooler p) = (r, d)
    \<Longrightarrow> plant_step store edits p (p\<lparr>cooler := d, cooler_up := (r = Inr ())\<rparr>)"
| operate: "edits (params p) c \<Longrightarrow> plant_step store edits p (p\<lparr>params := c\<rparr>)"

abbreviation plant_run :: "(double \<Rightarrow> double option) \<Rightarrow> (ControlParameters \<Rightarrow> ControlParameters \<Rightarrow> bool)
    \<Rightarrow> plant \<Rightarrow> plant \<Rightarrow> bool" where
  "plant_run store edits \<equiv> rtranclp (plant_step store edits)"

text \<open>Edits that leave the heater power or set it to a number from 0 to \<open>b\<close>.\<close>

definition power_edits :: "int \<Rightarrow> (ControlParameters \<Rightarrow> ControlParameters \<Rightarrow> bool) \<Rightarrow> bool" where
  "power_edits b edits \<longleftrightarrow> (\<forall>c c'. edits c c' \<longrightarrow> col_HeaterPW c' = col_HeaterPW c \<or> inside 0 (of_int b) (col_HeaterPW c'))"

definition plant_ok :: "int \<Rightarrow> plant \<Rightarrow> bool" where
  "plant_ok b p \<longleftrightarrow> sm_reachable (machine p) \<and> list_all (order_upto (min b 100)) (usb_out (heater p))
     \<and> inside 0 (of_int b) (col_HeaterPW (params p))"

lemma exec_all_power:
  assumes "number_column store" "exec_all store qs c = (ok, c')" "75 \<le> b"
    and "\<And>v. Set_HeaterPW v \<in> set qs \<Longrightarrow> between (Fin 0) (Fin 75) v" "inside 0 (of_int b) (col_HeaterPW c)"
  shows "inside 0 (of_int b) (col_HeaterPW c')"
  using assms(2,4,5)
proof (induction qs arbitrary: c)
  case (Cons q qs)
  show ?case
  proof (cases "exec_sql store q c")
    case None
    then show ?thesis using Cons.prems by simp
  next
    case (Some d)
    have "inside 0 (of_int b) (col_HeaterPW d)"
    proof (cases q)
      case (Set_HeaterPW v)
      then have "between (Fin (of_int 0)) (Fin (of_int 75)) v" using Cons.prems(2) by simp
      then have "inside 0 75 (col_HeaterPW d)"
        using store_inside [OF assms(1), of v _ 0 75] Some Set_HeaterPW by auto
      moreover have "75 \<le> (of_int b :: rat)" using assms(3) by linarith
      ultimately show ?thesis by (auto intro: inside_mono)
    qed (use Some Cons.prems(3) in auto)
    then show ?thesis using Cons.IH [of d] Cons.prems Some by simp
  qed
qed simp

lemma heater_pass_upto:
  assumes "lsh_pass ((v, mode, fuse), w) d = (r, t)" "inside 0 (of_int b) v" "75 \<le> b" "b \<le> 1000"
    and "list_all (order_upto (min b 100)) (usb_out d)"
  shows "list_all (order_upto (min b 100)) (usb_out t)"
proof -
  have "inside (of_int 0) (of_int b) (to_float v)" using assms(2-4) by (intro to_float_inside) auto
  then obtain x where x: "to_float v = Fin x" "0 \<le> x" "x \<le> of_int b" by (auto simp: inside_iff)
  then have l: "limit_power (to_float v) = Fin (min x 100)" by (auto simp: limit_power_def Let_def min_def)
  have m: "0 \<le> min x 100" "min x 100 \<le> of_int (min b 100)" using x by (auto simp: min_def)
  have "writes (order_upto (min b 100)) (lsh_pass ((v, mode, fuse), w))"
    by (intro pass_writes orders_upto [OF l m]) (simp add: order_upto_def)
  then obtain ws where "usb_out t = usb_out d @ ws" "list_all (order_upto (min b 100)) ws"
    using assms(1) unfolding writes_def outputs_def by (metis snd_conv)
  then show ?thesis using assms(5) by simp
qed

lemma plant_ok_step:
  assumes "plant_step store edits p q" "number_column store" "power_edits b edits" "75 \<le> b" "b \<le> 1000" "plant_ok b p"
  shows "plant_ok b q"
  using assms(1)
proof cases
  case (engine i sm out ok c)
  have r: "sm_reachable (machine p)" using assms(6) by (simp add: plant_ok_def)
  have out: "out = statements i (machine p)" using SMEngine_eq [OF reachable_inv [OF r], of i] engine(4) by simp
  have "between (Fin 0) (Fin 75) v" if "Set_HeaterPW v \<in> set out" for v
    using that reachable_inv [OF r] by (auto simp: out statements_eq sm_inv_def outputs_ok_def split: if_splits)
  then have "inside 0 (of_int b) (col_HeaterPW c)"
    using exec_all_power [OF assms(2) engine(5) assms(4)] assms(6) by (auto simp: plant_ok_def)
  then show ?thesis using engine sm_reachable.run [OF r engine(4)] assms(6) by (simp add: plant_ok_def)
next
  case (regulate w r d)
  then show ?thesis using assms(4-6) heater_pass_upto [OF regulate(3) [unfolded heater_view_def]]
    by (simp add: plant_ok_def)
next
  case (refresh e pw r d)
  then show ?thesis using assms(6) by (simp add: plant_ok_def)
next
  case (operate c)
  then have "inside 0 (of_int b) (col_HeaterPW c)"
    using assms(3,6) unfolding plant_ok_def power_edits_def by metis
  then show ?thesis using operate assms(6) by (simp add: plant_ok_def)
qed

lemma plant_ok_run:
  assumes "plant_run store edits p q" "number_column store" "power_edits b edits" "75 \<le> b" "b \<le> 1000" "plant_ok b p"
  shows "plant_ok b q"
  using assms(1,6) by (induction rule: rtranclp_induct) (use plant_ok_step assms(2-5) in blast)+

subsection \<open>Properties\<close>

text \<open>
  C11: the heater never gets more than the controller or the operator allows. The machine, the heater
  process, the cooler process and the other users of the database take turns in any order; if the power in the
  row at the start and every power that the operator writes into it are numbers from 0 to \<open>b\<close>, with \<open>b\<close> at
  least the 75 of the controllers, then whatever the instruments and the tables of measurements say, every string that the
  heater process sends is a query, a range 0, 1 or 2, or a power whose text reads as a number from 0 to
  the smaller of \<open>b\<close> and 100: 75 when the operator stays within 75 or leaves the power alone.
\<close>

theorem plant_heater_bounded:
  assumes "number_column store" "sm_reachable (machine p)" "usb_out (heater p) = []"
    and "75 \<le> b" "b \<le> 1000" "inside 0 (of_int b) (col_HeaterPW (params p))"
    and "\<And>c c'. edits c c' \<Longrightarrow> col_HeaterPW c' = col_HeaterPW c \<or> inside 0 (of_int b) (col_HeaterPW c')"
    and "rtranclp (plant_step store edits) p q"
  shows "list_all (order_upto (min b 100)) (usb_out (heater q))"
proof -
  have "power_edits b edits" using assms(7) by (simp add: power_edits_def)
  moreover have "plant_ok b p" using assms(2,3,6) by (simp add: plant_ok_def)
  ultimately show ?thesis using plant_ok_run [OF assms(8,1)] assms(4,5) by (simp add: plant_ok_def)
qed

text \<open>A column of type \<open>DOUBLE\<close>.\<close>

definition double_store :: "double \<Rightarrow> double option" where
  "double_store v = (case v of Fin x \<Rightarrow> Some v | _ \<Rightarrow> None)"

lemma double_store_column: "number_column double_store"
  by (auto simp: number_column_def double_store_def split: fp.splits)

definition params0 :: ControlParameters where
  "params0 = \<lparr>col_TTemperature = Fin 150, col_Kp = Fin 2, col_Ki = Fin 5, col_Kd = Fin 1, col_KpR = Fin 2,
     col_KiR = Fin 5, col_KdR = Fin 1, col_HeaterPW = Fin 75, col_HeaterMode = 2, col_CCPower = Fin 0,
     col_CCPowerState = True, col_SRSPowerState = True, col_WatchdogFuse = 1\<rparr>"

definition plant0 :: plant where
  "plant0 = \<lparr>params = params0, machine = sm0, machine_up = True, heater = heater_sample heater_answers,
     heater_up = True, cooler = drone_sample [] 29, cooler_up = True\<rparr>"

text \<open>The operator asks for power 90, and the heater process takes a turn.\<close>

definition params1 :: ControlParameters where
  "params1 = params0\<lparr>col_HeaterPW := Fin 90\<rparr>"

definition plant1 :: plant where
  "plant1 = (case lsh_pass (heater_view params1, 0) (heater plant0) of
     (r, d) \<Rightarrow> plant0\<lparr>params := params1, heater := d, heater_up := (r = Inr ())\<rparr>)"

lemma plant1_reached: "plant_run double_store (\<lambda>_ c. c = params1) plant0 plant1"
proof -
  obtain r d where rd: "lsh_pass (heater_view params1, 0) (heater plant0) = (r, d)"
    by (cases "lsh_pass (heater_view params1, 0) (heater plant0)") auto
  have "plant_step double_store (\<lambda>_ c. c = params1) plant0 (plant0\<lparr>params := params1\<rparr>)"
    by (rule plant_step.operate) simp
  moreover have "plant_step double_store (\<lambda>_ c. c = params1) (plant0\<lparr>params := params1\<rparr>) plant1"
    using plant_step.regulate [of "plant0\<lparr>params := params1\<rparr>" 0 r d] rd by (simp add: plant1_def) (simp add: plant0_def)
  ultimately show ?thesis by (meson converse_rtranclp_into_rtranclp r_into_rtranclp)
qed

theorem plant_heater_bounded_witness: "list_all (order_upto 90) (usb_out (heater plant1))"
  using plant_heater_bounded [OF double_store_column _ _ _ _ _ _ plant1_reached, of 90]
  by (simp add: plant0_def reach0 heater_sample_def params0_def params1_def)

text \<open>What the row says of the machine: the four outputs, and everything else untouched.\<close>

definition publishes :: "(double \<Rightarrow> double option) \<Rightarrow> double \<Rightarrow> CryoControlSM \<Rightarrow> ControlParameters \<Rightarrow> ControlParameters \<Rightarrow> bool" where
  "publishes store pmin sm c c' \<longleftrightarrow> (\<exists>pw cc. store (ThisRunHeaterPower sm) = Some pw
     \<and> store (ThisRunCCPower sm + pmin) = Some cc
     \<and> c' = c\<lparr>col_HeaterPW := pw, col_CCPower := cc, col_CCPowerState := CCoolerPower sm,
          col_SRSPowerState := ComputedSRSPowerState sm\<rparr>)"

lemma statements_publish:
  assumes "in_control i = control_view c" "exec_all store (statements i sm) c = (True, c')"
  shows "publishes store (row_PMin (in_cc i)) sm c c'"
  using assms
  by (cases c) (auto simp: statements_eq publishes_def control_view_def split: option.splits if_splits)

text \<open>In Idle and Fault the outputs are 0, and only the cold states give the cooler more than its minimum.\<close>

lemma body_resting:
  assumes "st \<in> {ST_Idle, ST_Fault}"
  shows "ThisRunPIDValue (body_of st now sm) = Fin 0"
  using assms by (auto simp: body_of_def state_class_defs)

lemma resting_outputs:
  assumes "sm_reachable sm" "CurrentFSMState sm \<in> {ST_Idle, ST_Fault}"
  shows "ThisRunHeaterPower sm = Fin 0"
  using assms
proof cases
  case (start raw t0 t1 t2)
  then show ?thesis by (simp add: CryoControlSM_new_def Let_def split_def member_ops member_defaults_def)
next
  case (run s i out)
  have inv: "sm_inv s" using reachable_inv [OF run(1)] .
  have "sm = engine_result i s" using SMEngine_eq [OF inv, of i] run(2) by simp
  moreover have "ShouldBeFSMState (before_switch i s) \<in> {ST_Idle, ST_Fault}"
    using engine_result_inv(2) [OF inv, of i] assms(2) calculation by simp
  ultimately show ?thesis
    by (simp add: engine_result_def Let_def PostRunSanityCheck_def body_resting)
qed

lemma excess_only_cold:
  assumes "sm_reachable sm" "\<not> cold_state (CurrentFSMState sm)"
  shows "ThisRunCCPower sm = Fin 0"
  using assms(1)
proof cases
  case (start raw t0 t1 t2)
  then show ?thesis by (simp add: CryoControlSM_new_def Let_def split_def member_ops member_defaults_def)
next
  case (run s i out)
  have inv: "sm_inv s" using reachable_inv [OF run(1)] .
  have sm: "sm = engine_result i s" using SMEngine_eq [OF inv, of i] run(2) by simp
  have "between (Fin 0) (Fin 75) (ThisRunPIDValue sm)"
    using reachable_inv [OF assms(1)] assms(2) by (simp add: sm_inv_def low_limit_def)
  moreover have "ThisRunPIDValue (PostRunSanityCheck q) < Fin 0 \<or> ThisRunCCPower (PostRunSanityCheck q) = Fin 0" for q
    by (simp add: PostRunSanityCheck_def Let_def)
  ultimately show ?thesis unfolding sm engine_result_def Let_def by (metis between_def)
qed

text \<open>The contract of a turn: the mode of the machine and the two switches in the shared row. The new mode is
  Fault when a drone is silent and the one that the table demands otherwise; the switches become
  those of the mode before.\<close>

definition turn_view :: "CryoControlSM \<Rightarrow> ControlParameters \<Rightarrow> FSMStates \<times> bool \<times> bool" where
  "turn_view sm c = (CurrentFSMState sm, col_CCPowerState c, col_SRSPowerState c)"

fun turn_spec :: "bool \<Rightarrow> rat \<Rightarrow> rat \<Rightarrow> FSMStates \<times> bool \<times> bool \<Rightarrow> FSMStates \<times> bool \<times> bool" where
  "turn_spec mute cur want (mode, cc_switch, srs_switch) =
     (if mute then ST_Fault else (case demanded cur want of Some t \<Rightarrow> t | None \<Rightarrow> mode),
      mode \<in> {ST_CoolDownHot, ST_CoolDownCold, ST_MaintainCold}, mode \<in> {ST_CoolDownCold, ST_MaintainCold})"

text \<open>
  C7: a turn of the machine implements its contract, one turn late. When the statements of a turn are all
  accepted, the view of machine and row commutes with the abstract turn: the machine goes to Fault if a
  drone has been silent for more than 60 seconds and otherwise to the state that the decision table
  demands, while the switches in the row become those of the state with which the turn began, whatever they were
  before. The row holds the powers with which the turn began: the heater power is from 0 to 75, and 0 if
  that state was Idle or Fault, the cooler power is the reported minimum unless that state was a cold
  one, and every other column is untouched.
\<close>

theorem database_follows_machine:
  assumes "sm_reachable sm" "in_control i = control_view c" "SMEngine i sm = Some (sm', out)"
    and "number_column store" "exec_all store out c = (True, c')"
    and "row_CCTime (in_cc i) = Some tc" "row_LSHTime (in_lsh i) = Some th"
    and "\<bar>in_time i - tc\<bar> < 2 ^ 31" "\<bar>in_time i - th\<bar> < 2 ^ 31"
    and "row_TC (in_cc i) = Fin x" "col_TTemperature c = Fin s" "exact64 (x + 10)" "exact64 (x - 10)" "exact64 (s - x)"
  shows "turn_view sm' c' = turn_spec (60 < in_time i - tc \<or> 60 < in_time i - th) x s (turn_view sm c)
    \<and> store (ThisRunHeaterPower sm) = Some (col_HeaterPW c') \<and> inside 0 75 (col_HeaterPW c')
    \<and> (CurrentFSMState sm \<in> {ST_Idle, ST_Fault} \<longrightarrow> col_HeaterPW c' = Fin 0)
    \<and> store (ThisRunCCPower sm + row_PMin (in_cc i)) = Some (col_CCPower c')
    \<and> (CurrentFSMState sm \<notin> {ST_CoolDownCold, ST_MaintainCold} \<longrightarrow> ThisRunCCPower sm = Fin 0)
    \<and> (\<exists>pw cc a b. c' = c\<lparr>col_HeaterPW := pw, col_CCPower := cc, col_CCPowerState := a, col_SRSPowerState := b\<rparr>)"
proof -
  have inv: "sm_inv sm" using reachable_inv [OF assms(1)] .
  have e: "out = statements i sm" "sm' = engine_result i sm" using SMEngine_eq [OF inv, of i] assms(3) by simp_all
  have "publishes store (row_PMin (in_cc i)) sm c c'" using statements_publish assms(2,5) e by blast
  then obtain pw cc where p: "store (ThisRunHeaterPower sm) = Some pw" "store (ThisRunCCPower sm + row_PMin (in_cc i)) = Some cc"
    "c' = c\<lparr>col_HeaterPW := pw, col_CCPower := cc, col_CCPowerState := CCoolerPower sm,
          col_SRSPowerState := ComputedSRSPowerState sm\<rparr>" by (auto simp: publishes_def)
  have sw: "CCoolerPower sm = cooler_on (CurrentFSMState sm)" "ComputedSRSPowerState sm = cold_state (CurrentFSMState sm)"
    using inv by (simp_all add: sm_inv_def settled_def)
  have "row_TTemperature (in_control i) = Fin s" using assms(2,11) by (simp add: control_view_def)
  then have st: "CurrentFSMState sm' = (if 60 < in_time i - tc \<or> 60 < in_time i - th then ST_Fault
      else (case demanded x s of Some t \<Rightarrow> t | None \<Rightarrow> CurrentFSMState sm))"
    using before_switch_state [OF inv assms(6-9)] engine_result_inv(2) [OF inv, of i] assms(10) e(2)
      decide_demanded [OF assms(12-14)] by auto
  have "between (Fin (of_int 0)) (Fin (of_int 75)) (ThisRunHeaterPower sm)"
    using inv by (simp add: sm_inv_def outputs_ok_def)
  then have "inside 0 75 pw" using store_inside [OF assms(4) p(1), of 0 75] by simp
  moreover have "pw = Fin 0" if "CurrentFSMState sm \<in> {ST_Idle, ST_Fault}"
    using store_inside [OF assms(4) p(1), of 0 0] resting_outputs [OF assms(1) that]
    by (auto simp: between_def inside_iff)
  moreover have "ThisRunCCPower sm = Fin 0" if "CurrentFSMState sm \<notin> {ST_CoolDownCold, ST_MaintainCold}"
    using excess_only_cold [OF assms(1)] that by (simp add: cold_state_def)
  ultimately show ?thesis
    using p sw st by (auto simp: turn_view_def cooler_on_def cold_state_def)
qed

text \<open>An input whose control row is the row \<open>c\<close>.\<close>

definition input_from :: "ControlParameters \<Rightarrow> engine_input" where
  "input_from c = (input0 290 150 1000 1000 939)\<lparr>in_control := control_view c\<rparr>"

lemma input_from_view [simp]: "in_control (input_from c) = control_view c"
  by (simp add: input_from_def)

lemma sm0_outputs:
  "ThisRunPIDValue sm0 = Fin 0" "ThisRunHeaterPower sm0 = Fin 0" "ThisRunCCPower sm0 = Fin 0"
  by (simp_all add: sm0_def CryoControlSM_new_def Let_def split_def abs_SetOutputLimits_def rate_SetOutputLimits_def
      member_defaults_def set_var_def)

lemma double_store_accepts:
  assumes "ThisRunPIDValue sm = Fin x" "ThisRunHeaterPower sm = Fin y" "ThisRunCCPower sm + row_PMin (in_cc i) = Fin z"
  shows "fst (exec_all double_store (statements i sm) c)"
  using assms by (simp add: statements_eq double_store_def)

lemma round_80 [simp]: "round64 80 = Fin 80"
  by code_simp

lemma params0_accepted:
  "exec_all double_store (statements (input_from params0) sm0) params0
    = (True, snd (exec_all double_store (statements (input_from params0) sm0) params0))"
  using double_store_accepts [of sm0 0 0 "input_from params0" 80 params0]
  by (simp add: sm0_outputs prod_eq_iff input_from_def input0_def)

theorem database_follows_machine_witness:
  "turn_view (engine_result (input_from params0) sm0) (snd (exec_all double_store (statements (input_from params0) sm0) params0))
    = turn_spec True 290 150 (turn_view sm0 params0)"
proof -
  have "exact64 300" "exact64 280" "exact64 (- 140)" by simp_all
  then show ?thesis
    using database_follows_machine [OF reach0 input_from_view SMEngine_eq [OF reachable_inv [OF reach0]] double_store_column
        params0_accepted, of 1000 939 290 150]
    by (simp add: input_from_def input0_def params0_def)
qed

text \<open>A pass of the heater process over a row with power 0.\<close>

lemma off_pass:
  assumes "lsh_pass ((Fin 0, mode, fuse), w) d = (Inr (), t)"
  shows "\<exists>ws. usb_out t = usb_out d @ ws
    \<and> list_all (\<lambda>m. heater_query m \<or> (\<exists>n. m = heater_range n) \<or> m = mout (Fin 0)) ws
    \<and> (\<not> feq (currentPW t) (Fin 0) \<longrightarrow> mout (Fin 0) \<in> set ws)"
proof -
  obtain u qs where u: "usb_out u = usb_out d @ qs" "list_all heater_query qs"
    and run: "io_then (LSH_UpdateMysql (Fin 0, mode, fuse) w) lsh_act u = (Inr (), t)"
    using pass_completed [OF assms] .
  have f: "to_float (Fin 0) = Fin 0" using to_float_inside [of 0 0 "Fin 0"] by (auto simp: inside_iff)
  have l: "limit_power (Fin 0) = Fin 0" by (simp add: limit_power_def Let_def)
  let ?os = "lsh_orders (Fin 0) mode fuse (currentPW t) (currentMode t)"
  have "usb_out t = usb_out d @ (qs @ ?os)" using update_act [OF run] u(1) f by simp
  moreover have "list_all (\<lambda>m. heater_query m \<or> (\<exists>n. m = heater_range n) \<or> m = mout (Fin 0)) (qs @ ?os)"
    using u(2) by (auto simp: list_all_iff lsh_orders_def Let_def l)
  moreover have "\<not> feq (currentPW t) (Fin 0) \<longrightarrow> mout (Fin 0) \<in> set (qs @ ?os)"
    by (auto simp: lsh_orders_def Let_def l)
  ultimately show ?thesis by blast
qed

text \<open>
  C8: a silent drone shuts the plant down through the database. If a turn of the machine finds one of
  the two drones silent for more than 60 seconds, the next turn whose statements are accepted leaves
  the row with heater power 0 and both switches off. Every pass that the heater process then completes over
  that row sends no power but 0, whatever the mode and the fuse, and it does send power 0 if the
  power that the heater has just reported is another one.
\<close>

theorem silence_shuts_down:
  assumes "number_column store" "sm_reachable sm" "SMEngine i sm = Some (sm', out)"
    and "row_CCTime (in_cc i) = Some tc" "row_LSHTime (in_lsh i) = Some th"
    and "\<bar>in_time i - tc\<bar> < 2 ^ 31" "\<bar>in_time i - th\<bar> < 2 ^ 31"
    and "60 < in_time i - tc \<or> 60 < in_time i - th"
    and "in_control j = control_view c" "SMEngine j sm' = Some (sm'', out')" "exec_all store out' c = (True, c')"
  shows "col_HeaterPW c' = Fin 0 \<and> \<not> col_CCPowerState c' \<and> \<not> col_SRSPowerState c'
    \<and> (\<forall>w d t. lsh_pass (heater_view c', w) d = (Inr (), t) \<longrightarrow>
         (\<exists>ws. usb_out t = usb_out d @ ws
           \<and> list_all (\<lambda>m. heater_query m \<or> (\<exists>n. m = heater_range n) \<or> m = mout (Fin 0)) ws
           \<and> (\<not> feq (currentPW t) (Fin 0) \<longrightarrow> mout (Fin 0) \<in> set ws)))"
proof -
  note off = silent_engine [OF assms(2-8)]
  have r: "sm_reachable sm'" using assms(2,3) by (rule sm_reachable.run)
  have "out' = statements j sm'" using SMEngine_eq [OF reachable_inv [OF r], of j] assms(10) by simp
  then have "publishes store (row_PMin (in_cc j)) sm' c c'" using statements_publish assms(9,11) by blast
  then obtain pw where "store (Fin 0) = Some pw" "col_HeaterPW c' = pw"
    "\<not> col_CCPowerState c'" "\<not> col_SRSPowerState c'"
    using off by (auto simp: publishes_def)
  moreover have "inside (of_int 0) (of_int 0) pw" if "store (Fin 0) = Some pw" for pw
    using store_inside [OF assms(1) that, of 0 0] by (simp add: between_def)
  ultimately have "col_HeaterPW c' = Fin 0" "\<not> col_CCPowerState c'" "\<not> col_SRSPowerState c'"
    by (auto simp: inside_iff)
  then show ?thesis using off_pass by (simp add: heater_view_def)
qed

text \<open>The machine after a turn that found the heater process silent, and the row after the next one.\<close>

definition silent_machine :: CryoControlSM where
  "silent_machine = engine_result (input_from params0) sm0"

definition params2 :: ControlParameters where
  "params2 = snd (exec_all double_store (statements (input_from params0) silent_machine) params0)"

text \<open>A heater that answers that it runs at 50.\<close>

definition hot_heater :: LakeShore where
  "hot_heater = heater_sample (sends ''50'' @ sends ''2'' @ sends ''100'' @ [])"

theorem silence_shuts_down_witness:
  "col_HeaterPW params2 = Fin 0 \<and> \<not> col_CCPowerState params2 \<and> \<not> col_SRSPowerState params2
    \<and> mout (Fin 0) \<in> set (usb_out (snd (lsh_pass (heater_view params2, 0) hot_heater)))"
proof -
  let ?i = "input_from params0"
  have run: "SMEngine ?i sm0 = Some (silent_machine, statements ?i sm0)"
    using SMEngine_eq [OF reachable_inv [OF reach0]] by (simp add: silent_machine_def)
  have r: "sm_reachable silent_machine" using reach0 run by (rule sm_reachable.run)
  have run2: "SMEngine ?i silent_machine = Some (engine_result ?i silent_machine, statements ?i silent_machine)"
    by (rule SMEngine_eq [OF reachable_inv [OF r]])
  have i: "row_CCTime (in_cc ?i) = Some 1000" "row_LSHTime (in_lsh ?i) = Some 939" "in_time ?i = 1000"
    "row_PMin (in_cc ?i) = Fin 80"
    by (simp_all add: input_from_def input0_def)
  have "CurrentFSMState silent_machine = ST_Fault"
    using silent_engine [OF reach0 run i(1,2)] i state_int_inject [of "CurrentFSMState silent_machine" ST_Fault]
    by (simp add: getCurrentState_def)
  then have "exec_all double_store (statements ?i silent_machine) params0 = (True, params2)"
    using Fault_outputs_off [OF reachable_inv [OF reach0], of ?i] i(4)
      double_store_accepts [of silent_machine 0 0 ?i 80 params0]
    by (simp add: prod_eq_iff params2_def silent_machine_def)
  from silence_shuts_down [OF double_store_column reach0 run i(1,2) _ _ _ input_from_view run2 this]
  have off: "col_HeaterPW params2 = Fin 0 \<and> \<not> col_CCPowerState params2 \<and> \<not> col_SRSPowerState params2"
    and pass: "lsh_pass (heater_view params2, 0) hot_heater = (Inr (), t) \<Longrightarrow> \<not> feq (currentPW t) (Fin 0) \<Longrightarrow>
      mout (Fin 0) \<in> set (usb_out t)" for t
    by (fastforce simp: i)+
  have n: "stof (''50'' @ [LF]) = Inr (Fin 50)" "stof (''2'' @ [LF]) = Inr (Fin 2)" "stof (''100'' @ [LF]) = Inr (Fin 100)"
    by code_simp+
  obtain r t where rt: "lsh_pass (heater_view params2, 0) hot_heater = (r, t)"
    by (cases "lsh_pass (heater_view params2, 0) hot_heater")
  have "r = Inr () \<and> currentPW t = Fin 50"
    using full_pass [OF _ _ _ _ n rt [unfolded heater_view_def], of "[]"]
    by (simp add: good_line_def hot_heater_def heater_sample_def)
  then show ?thesis using off pass [of t] rt by simp
qed

text \<open>A step after which the order for the cooler is the same as before.\<close>

definition calm_step :: "(double \<Rightarrow> double option) \<Rightarrow> (ControlParameters \<Rightarrow> ControlParameters \<Rightarrow> bool)
    \<Rightarrow> plant \<Rightarrow> plant \<Rightarrow> bool" where
  "calm_step store edits p q \<longleftrightarrow> plant_step store edits p q \<and> col_CCPowerState (params q) = col_CCPowerState (params p)"

lemma calm_cooler:
  assumes "calm_step store edits p q"
  shows "sends_more (switch_to (col_CCPowerState (params p))) (cooler p) (cooler q)"
proof -
  have "plant_step store edits p q" using assms by (simp add: calm_step_def)
  then show ?thesis
  proof cases
    case (refresh e pw r d)
    have "follows (sends_more (switch_to (col_CCPowerState (params p)))) (cc_pass e)"
      by (rule sends_pass) (simp add: refresh(3) cooler_view_def)
    from followsD [OF this refresh(4)] show ?thesis by (simp add: refresh(1))
  qed (auto intro: sending.refl)
qed

lemma calm_steps_cooler:
  assumes "rtranclp (calm_step store edits) p q"
  shows "col_CCPowerState (params q) = col_CCPowerState (params p)
    \<and> sends_more (switch_to (col_CCPowerState (params p))) (cooler p) (cooler q)"
  using assms
proof (induction rule: rtranclp_induct)
  case base
  then show ?case by (simp add: sending.refl)
next
  case (step q r)
  then have "sends_more (switch_to (col_CCPowerState (params p))) (cooler q) (cooler r)"
    using calm_cooler [of store edits q r] by simp
  then show ?case using step sending.trans by (metis calm_step_def)
qed

text \<open>
  C6: the cooler is only switched as the machine asks, one turn late. After a turn of the machine whose
  statements are accepted, whatever the processes and the operator do until somebody changes the order,
  the cooler is sent no switch to on when the state with which the turn began (the one decided in
  the turn before) was not a cool-down state or MaintainCold, and no switch to off when it was.
\<close>

theorem cooler_follows_machine:
  assumes r: "sm_reachable (machine p)" and "in_control i = control_view (params p)"
    and "SMEngine i (machine p) = Some (sm, out)" "exec_all store out (params p) = (True, c)"
    and "rtranclp (calm_step store edits) (p\<lparr>params := c, machine := sm\<rparr>) q"
  shows "\<exists>ws. usb_out (cooler q) = usb_out (cooler p) @ ws
    \<and> list_all (switch_to (CurrentFSMState (machine p) \<in> {ST_CoolDownHot, ST_CoolDownCold, ST_MaintainCold})) ws"
proof -
  have "out = statements i (machine p)" using SMEngine_eq [OF reachable_inv [OF r], of i] assms(3) by simp
  then have "publishes store (row_PMin (in_cc i)) (machine p) (params p) c" using statements_publish assms(2,4) by blast
  then have "col_CCPowerState c = CCoolerPower (machine p)" by (auto simp: publishes_def)
  also have "\<dots> = cooler_on (CurrentFSMState (machine p))"
    using reachable_inv [OF r] by (simp add: sm_inv_def settled_def)
  finally show ?thesis using calm_steps_cooler [OF assms(5)] by (simp add: sends_more_def cooler_on_def)
qed

text \<open>The plant after a turn of the machine and one refresh of the cooler, which is silent.\<close>

definition plant_turned :: plant where
  "plant_turned = plant0\<lparr>params := snd (exec_all double_store (statements (input_from params0) sm0) params0),
     machine := engine_result (input_from params0) sm0\<rparr>"

definition plant_refreshed :: plant where
  "plant_refreshed = (case cc_pass (env_sample\<lparr>env_row := cooler_view (params plant_turned) 100\<rparr>) (cooler plant_turned) of
     (r, d) \<Rightarrow> plant_turned\<lparr>cooler := d, cooler_up := (r = Inr ())\<rparr>)"

theorem cooler_follows_machine_witness:
  "\<exists>ws. usb_out (cooler plant_refreshed) = usb_out (cooler plant0) @ ws
    \<and> list_all (switch_to (CurrentFSMState sm0 \<in> {ST_CoolDownHot, ST_CoolDownCold, ST_MaintainCold})) ws"
proof -
  have p: "sm_reachable (machine plant0)" by (simp add: plant0_def reach0)
  obtain r d where rd: "cc_pass (env_sample\<lparr>env_row := cooler_view (params plant_turned) 100\<rparr>) (cooler plant_turned) = (r, d)"
    by (cases "cc_pass (env_sample\<lparr>env_row := cooler_view (params plant_turned) 100\<rparr>) (cooler plant_turned)") auto
  have "plant_step double_store (\<lambda>_ _. False) plant_turned plant_refreshed"
    using plant_step.refresh [of plant_turned "env_sample\<lparr>env_row := cooler_view (params plant_turned) 100\<rparr>" 100 r d] rd
    by (simp add: plant_refreshed_def) (simp add: plant_turned_def plant0_def)
  then have "calm_step double_store (\<lambda>_ _. False) plant_turned plant_refreshed"
    by (simp add: calm_step_def) (simp add: plant_refreshed_def split_def)
  moreover have "machine plant0 = sm0" "params plant0 = params0" by (simp_all add: plant0_def)
  ultimately show ?thesis
    using cooler_follows_machine [OF p, of "input_from params0"] SMEngine_eq [OF reachable_inv [OF reach0]]
      params0_accepted by (metis input_from_view plant_turned_def r_into_rtranclp)
qed

end
