(* ===== verification/Facility.thy ===== *)
theory Facility
  imports SRS Plant
begin

text \<open>
  All four processes on the shared row: the plant of \<open>Plant\<close> and the SRS server beside it. A sweep of the
  server reads the row (\<open>SRSPowerSupply::UpdateMysql\<close>) that the state machine writes, and the calls of remote clients
  ask for ramps. A sweep or a call is one turn here; how the two threads of the server interleave inside is the
  subject of \<open>SRS\<close>, and a ramp that was let in before a sweep counts as served before it.
\<close>

subsection \<open>What the server sends in a turn\<close>

definition srs_query :: "string \<Rightarrow> bool" where
  "srs_query c \<longleftrightarrow> c \<in> set sweep_block"

lemma read_parameter_state:
  assumes "read_parameter T s = (r, t)"
  shows "usb_out t = usb_out s \<and> SRSPowerState t = SRSPowerState s"
proof -
  have "\<exists>rs. t = s\<lparr>usb_in := rs\<rparr>"
    using assms
    by (auto simp: read_parameter_def io_bind_def ReadLine_def io_simps split: sum.splits prod.splits)
  then show ?thesis by auto
qed

text \<open>A query either ends the process or goes on with its answer.\<close>

lemma run_query:
  assumes "run_proc (GetParameterFromSRS T c k) (h, s) = (r, h', t)"
  obtains (fails) e where "r = Inl e" "usb_out t = usb_out s @ [c]" "SRSPowerState t = SRSPowerState s"
  | (answers) v u where "run_proc (k v) (h, u) = (r, h', t)" "usb_out u = usb_out s @ [c]" "SRSPowerState u = SRSPowerState s"
proof -
  obtain x u where x: "read_parameter T (s\<lparr>usb_out := usb_out s @ [c]\<rparr>) = (x, u)" by fastforce
  note u = read_parameter_state [OF x]
  show thesis
  proof (cases x)
    case (Inl e)
    then show thesis using fails [of e] assms x u by (simp add: GetParameterFromSRS_def io_simps)
  next
    case (Inr v)
    then show thesis using answers [of v u] assms x u by (simp add: GetParameterFromSRS_def io_simps)
  qed
qed

text \<open>A sweep sends queries and takes over the power state of the row; its ramp is never let through.\<close>

lemma sweep_turn:
  assumes "run_proc (PerformSweep e Halt) (False, s) = (r, h, t)"
  shows "(\<exists>ws. usb_out t = usb_out s @ ws \<and> list_all srs_query ws)
    \<and> SRSPowerState t \<in> {SRSPowerState s, fst (fst e)} \<and> (r = Inr () \<longrightarrow> SRSPowerState t = fst (fst e))"
proof -
  define fin where "fin = SRS_UpdateMysql (fst e) (snd e) (look SRSPowerState (\<lambda>on.
      if SRSPowerState s \<and> SRSPowerState s \<noteq> on then look currentVoltage (\<lambda>v. VoltageRamp v (Fin 0) (Fin 5) True Halt) else Halt))"
  have fin: "run_proc fin (False, u) = (r, h, t) \<Longrightarrow> usb_out t = usb_out u \<and> SRSPowerState t = fst (fst e)" for u
    by (auto simp: fin_def SRS_UpdateMysql_def VoltageRamp_def io_simps split: if_splits)
  have run: "run_proc (GetParameterFromSRS FloatT (''VOLT?'' @ [LF]) (\<lambda>v.
      change (\<lambda>s. s\<lparr>currentVoltage := float_of v\<rparr>) (GetParameterFromSRS IntT (''SOUT?'' @ [LF]) (\<lambda>b.
      change (\<lambda>s. s\<lparr>currentOutputStatus := bool_of b\<rparr>) (GetParameterFromSRS BoolT (''OVLD?'' @ [LF]) (\<lambda>o'.
      change (\<lambda>s. s\<lparr>OVLDStatus := bool_of o'\<rparr>) (Unlock fin))))))) (True, s) = (r, h, t)"
    using assms by (simp add: PerformSweep_def ReadPSVoltage_def ReadPSOutput_def IsOVLD_def io_simps fin_def)
  have q: "srs_query (''VOLT?'' @ [LF])" "srs_query (''SOUT?'' @ [LF])" "srs_query (''OVLD?'' @ [LF])"
    by (simp_all add: srs_query_def sweep_block_def)
  from run show ?thesis
  proof (cases rule: run_query)
    case (fails e')
    then show ?thesis using q by simp
  next
    case 1: (answers v1 u1)
    from 1(1) have "run_proc (GetParameterFromSRS IntT (''SOUT?'' @ [LF]) (\<lambda>b.
      change (\<lambda>s. s\<lparr>currentOutputStatus := bool_of b\<rparr>) (GetParameterFromSRS BoolT (''OVLD?'' @ [LF]) (\<lambda>o'.
      change (\<lambda>s. s\<lparr>OVLDStatus := bool_of o'\<rparr>) (Unlock fin))))) (True, u1\<lparr>currentVoltage := float_of v1\<rparr>) = (r, h, t)"
      by (simp add: io_simps)
    then show ?thesis
    proof (cases rule: run_query)
      case (fails e')
      then show ?thesis using q 1(2,3) by simp
    next
      case 2: (answers v2 u2)
      from 2(1) have "run_proc (GetParameterFromSRS BoolT (''OVLD?'' @ [LF]) (\<lambda>o'.
        change (\<lambda>s. s\<lparr>OVLDStatus := bool_of o'\<rparr>) (Unlock fin))) (True, u2\<lparr>currentOutputStatus := bool_of v2\<rparr>) = (r, h, t)"
        by (simp add: io_simps)
      then show ?thesis
      proof (cases rule: run_query)
        case (fails e')
        then show ?thesis using q 1(2,3) 2(2,3) by simp
      next
        case 3: (answers v3 u3)
        then have "run_proc fin (False, u3\<lparr>OVLDStatus := bool_of v3\<rparr>) = (r, h, t)" by (simp add: io_simps)
        from fin [OF this] show ?thesis using q 1(2) 2(2) 3(2) by simp
      qed
    qed
  qed
qed

text \<open>While the power state is off, a call sends queries only, and never changes the state but by a sweep.\<close>

lemma ramp_turn_off: "\<not> SRSPowerState s \<Longrightarrow> run_proc (VoltageRamp a b c d Halt) (False, s) = (Inr (), False, s)"
  by (simp add: VoltageRamp_def io_simps)

lemma ramp_turn_state:
  assumes "run_proc (VoltageRamp a b c d Halt) (False, s) = (r, h, t)"
  shows "SRSPowerState t = SRSPowerState s"
proof (cases "SRSPowerState s")
  case True
  then have "\<exists>x. run_proc (GetParameterFromSRS IntT (''SOUT?'' @ [LF]) (\<lambda>b. change (\<lambda>s. s\<lparr>currentOutputStatus := bool_of b\<rparr>)
      (send (''SCAD ON'' @ [LF]) (send (''SCAA 1'' @ [LF]) (send (''*TRG'' @ [LF]) (Unlock Halt)))))) (True, s\<lparr>usb_out := x\<rparr>) = (r, h, t)"
    using assms by (simp add: VoltageRamp_def WritePSOutput_def ReadPSOutput_def io_simps) blast
  then obtain x where "run_proc (GetParameterFromSRS IntT (''SOUT?'' @ [LF]) (\<lambda>b. change (\<lambda>s. s\<lparr>currentOutputStatus := bool_of b\<rparr>)
      (send (''SCAD ON'' @ [LF]) (send (''SCAA 1'' @ [LF]) (send (''*TRG'' @ [LF]) (Unlock Halt)))))) (True, s\<lparr>usb_out := x\<rparr>) = (r, h, t)" ..
  then show ?thesis
    by (cases rule: run_query) (auto simp: io_simps)
qed (use assms ramp_turn_off in auto)

subsection \<open>The running facility\<close>

text \<open>What \<open>SRSPowerSupply::UpdateMysql\<close> selects of the row.\<close>

definition srs_view :: "ControlParameters \<Rightarrow> bool \<times> int" where
  "srs_view c = (col_SRSPowerState c, col_WatchdogFuse c)"

record facility =
  processes :: plant
  source :: SRSServer
  source_up :: bool

text \<open>A sweep is asked for by the timer or by a client; a turn that ends with a fault is the last one of the server.\<close>

inductive facility_step :: "(double \<Rightarrow> double option) \<Rightarrow> (ControlParameters \<Rightarrow> ControlParameters \<Rightarrow> bool)
    \<Rightarrow> facility \<Rightarrow> facility \<Rightarrow> bool" for store edits where
  plants: "plant_step store edits (processes f) p \<Longrightarrow> facility_step store edits f (f\<lparr>processes := p\<rparr>)"
| sweep: "source_up f \<Longrightarrow> run_proc (PerformSweep (srs_view (params (processes f)), w) Halt) (False, source f) = (r, h, d)
    \<Longrightarrow> facility_step store edits f (f\<lparr>source := d, source_up := (r = Inr ())\<rparr>)"
| ramp: "source_up f \<Longrightarrow> run_proc (serve [Call_VoltageRamp a b t x]) (False, source f) = (r, h, d)
    \<Longrightarrow> facility_step store edits f (f\<lparr>source := d, source_up := (r = Inr ())\<rparr>)"
| reading: "source_up f \<Longrightarrow> run_proc (serve [Call_ReadMemVoltage]) (False, source f) = (r, h, d)
    \<Longrightarrow> facility_step store edits f (f\<lparr>source := d, source_up := (r = Inr ())\<rparr>)"

text \<open>A step after which the row asks for the same state of the supply.\<close>

definition calm_supply :: "(double \<Rightarrow> double option) \<Rightarrow> (ControlParameters \<Rightarrow> ControlParameters \<Rightarrow> bool)
    \<Rightarrow> facility \<Rightarrow> facility \<Rightarrow> bool" where
  "calm_supply store edits f g \<longleftrightarrow> facility_step store edits f g
     \<and> col_SRSPowerState (params (processes g)) = col_SRSPowerState (params (processes f))"

text \<open>Only queries are sent.\<close>

definition only_queries :: "SRSServer \<Rightarrow> SRSServer \<Rightarrow> bool" where
  "only_queries s t \<longleftrightarrow> (\<exists>ws. usb_out t = usb_out s @ ws \<and> list_all srs_query ws)"

lemma only_queries_refl [simp]: "only_queries s s"
  by (simp add: only_queries_def)

lemma only_queries_trans: "only_queries s t \<Longrightarrow> only_queries t u \<Longrightarrow> only_queries s u"
  by (force simp: only_queries_def)

lemma calm_supply_step:
  assumes "calm_supply store edits f g" "SRSPowerState (source f) = col_SRSPowerState (params (processes f))"
  shows "SRSPowerState (source g) = SRSPowerState (source f) \<and> (\<not> SRSPowerState (source f) \<longrightarrow> only_queries (source f) (source g))"
proof -
  have "facility_step store edits f g" using assms(1) by (simp add: calm_supply_def)
  then show ?thesis
  proof cases
    case (sweep w r h d)
    from sweep_turn [OF sweep(3)] show ?thesis using sweep(1) assms(2) by (auto simp: srs_view_def only_queries_def)
  next
    case (ramp a b t x r h d)
    then have run: "run_proc (VoltageRamp a b t x Halt) (False, source f) = (r, h, d)" by simp
    then show ?thesis using ramp(1) ramp_turn_state [OF run] ramp_turn_off [of "source f" a b t x] by auto
  next
    case (reading r h d)
    then have "d = (source f)\<lparr>replies := replies (source f) @ [currentVoltage (source f)]\<rparr>"
      by (simp add: ReadMemPSVoltage_def io_simps)
    then show ?thesis using reading(1) by (simp add: only_queries_def)
  qed simp
qed

lemma calm_supply_run:
  assumes "rtranclp (calm_supply store edits) f g" "SRSPowerState (source f) = col_SRSPowerState (params (processes f))"
  shows "col_SRSPowerState (params (processes g)) = col_SRSPowerState (params (processes f))
    \<and> SRSPowerState (source g) = SRSPowerState (source f) \<and> (\<not> SRSPowerState (source f) \<longrightarrow> only_queries (source f) (source g))"
  using assms
proof (induction rule: rtranclp_induct)
  case (step g g')
  then have "SRSPowerState (source g) = col_SRSPowerState (params (processes g))" by simp
  from calm_supply_step [OF step.hyps(2) this] show ?case
    using step only_queries_trans by (auto simp: calm_supply_def)
qed simp

lemma calm_supply_row:
  "rtranclp (calm_supply store edits) f g \<Longrightarrow> col_SRSPowerState (params (processes g)) = col_SRSPowerState (params (processes f))"
  by (induction rule: rtranclp_induct) (simp_all add: calm_supply_def)

subsection \<open>Properties\<close>

text \<open>
  C10: the voltage source ramps only as the machine allows, when the server serves sweeps and calls one after
  the other. After a turn of the machine whose statements are accepted, and the next sweep of the server that ends
  without a fault, the server has taken over whether the state with which the turn began was CoolDownCold or
  MaintainCold; and until somebody changes the order in the row, whatever the processes and the operator do, it
  keeps that, and if the state was another one the instrument is sent nothing but the three queries of the sweeps,
  whatever ramps the clients ask for. (A call that tested the power state before the sweep and still waits for
  the mutex ramps afterwards: the theory SRSRace.)
\<close>

theorem supply_follows_machine:
  assumes r: "sm_reachable (machine (processes f))" and "in_control i = control_view (params (processes f))"
    and "SMEngine i (machine (processes f)) = Some (sm, out)" "exec_all store out (params (processes f)) = (True, c)"
    and "rtranclp (calm_supply store edits) (f\<lparr>processes := (processes f)\<lparr>params := c, machine := sm\<rparr>\<rparr>) g"
    and "run_proc (PerformSweep (srs_view (params (processes g)), w) Halt) (False, source g) = (Inr (), h, d)"
    and "rtranclp (calm_supply store edits) (g\<lparr>source := d\<rparr>) g'"
  shows "let on = (CurrentFSMState (machine (processes f)) \<in> {ST_CoolDownCold, ST_MaintainCold}) in
    SRSPowerState (source g') = on
    \<and> (\<not> on \<longrightarrow> (\<exists>ws. usb_out (source g') = usb_out d @ ws \<and> set ws \<subseteq> {''VOLT?'' @ [LF], ''SOUT?'' @ [LF], ''OVLD?'' @ [LF]}))"
proof -
  let ?p = "processes f"
  have "out = statements i (machine ?p)" using SMEngine_eq [OF reachable_inv [OF r], of i] assms(3) by simp
  then have "publishes store (row_PMin (in_cc i)) (machine ?p) (params ?p) c" using statements_publish assms(2,4) by blast
  then have "col_SRSPowerState c = ComputedSRSPowerState (machine ?p)" by (auto simp: publishes_def)
  also have "\<dots> = cold_state (CurrentFSMState (machine ?p))"
    using reachable_inv [OF r] by (simp add: sm_inv_def settled_def)
  finally have on: "col_SRSPowerState (params (processes g)) = cold_state (CurrentFSMState (machine ?p))"
    using calm_supply_row [OF assms(5)] by simp
  have "SRSPowerState d = cold_state (CurrentFSMState (machine ?p))"
    using sweep_turn [OF assms(6)] on by (simp add: srs_view_def)
  then show ?thesis using calm_supply_run [OF assms(7)] on
    by (auto simp: Let_def only_queries_def cold_state_def list_all_iff srs_query_def sweep_block_def)
qed

text \<open>The machine idles; its turn switches the supply off, and the server sweeps once and then is asked for a ramp.\<close>

definition facility0 :: facility where
  "facility0 = \<lparr>processes = plant0, source = srs_sample sweep_answers, source_up = True\<rparr>"

definition swept_source :: SRSServer where
  "swept_source = snd (snd (run_proc (PerformSweep (srs_view (params plant_turned), 0) Halt) (False, srs_sample sweep_answers)))"

lemma swept:
  "run_proc (PerformSweep (srs_view (params plant_turned), 0) Halt) (False, srs_sample sweep_answers) = (Inr (), False, swept_source)"
proof -
  have "stof (''5'' @ [LF]) = Inr (Fin 5)" "stoi (''1'' @ [LF]) = Inr 1" by code_simp+
  then have "\<exists>t. run_proc (PerformSweep ((on, n), 0) Halt) (False, srs_sample sweep_answers) = (Inr (), False, t)" for on n
    using sweep_runs [of "''5''" "''1''" "''1''" "srs_sample sweep_answers" "[]" "Fin 5" 1 on n 0]
    by (simp add: srs_sample_def sweep_answers_def good_line_def) blast
  then obtain t where "run_proc (PerformSweep (srs_view (params plant_turned), 0) Halt) (False, srs_sample sweep_answers) = (Inr (), False, t)"
    unfolding srs_view_def by blast
  then show ?thesis by (simp add: swept_source_def)
qed

definition facility_asked :: facility where
  "facility_asked = (case run_proc (serve [Call_VoltageRamp (Fin 0) (Fin 5) (Fin 1) True]) (False, swept_source) of
     (r, h, d) \<Rightarrow> facility0\<lparr>processes := plant_turned, source := d, source_up := (r = Inr ())\<rparr>)"

theorem supply_follows_machine_witness:
  "\<not> SRSPowerState (source facility_asked) \<and> (\<exists>ws. usb_out (source facility_asked) = usb_out swept_source @ ws
    \<and> set ws \<subseteq> {''VOLT?'' @ [LF], ''SOUT?'' @ [LF], ''OVLD?'' @ [LF]})"
proof -
  define g where "g = facility0\<lparr>processes := plant_turned\<rparr>"
  have f: "sm_reachable (machine (processes facility0))" by (simp add: facility0_def plant0_def reach0)
  have p: "machine plant0 = sm0" "params plant0 = params0" by (simp_all add: plant0_def)
  have "plant_turned = (processes facility0)\<lparr>params := snd (exec_all double_store (statements (input_from params0) sm0) params0),
     machine := engine_result (input_from params0) sm0\<rparr>" by (simp add: plant_turned_def facility0_def)
  then have start: "rtranclp (calm_supply double_store (\<lambda>_ _. False)) (facility0\<lparr>processes := (processes facility0)\<lparr>
      params := snd (exec_all double_store (statements (input_from params0) sm0) params0),
      machine := engine_result (input_from params0) sm0\<rparr>\<rparr>) g" by (simp add: g_def)
  obtain r h d where ask: "run_proc (serve [Call_VoltageRamp (Fin 0) (Fin 5) (Fin 1) True]) (False, swept_source) = (r, h, d)"
    by (cases "run_proc (serve [Call_VoltageRamp (Fin 0) (Fin 5) (Fin 1) True]) (False, swept_source)") auto
  have "facility_step double_store (\<lambda>_ _. False) (g\<lparr>source := swept_source\<rparr>) facility_asked"
    using facility_step.ramp [of "g\<lparr>source := swept_source\<rparr>"] ask by (simp add: facility_asked_def g_def) (simp add: facility0_def)
  then have asked: "rtranclp (calm_supply double_store (\<lambda>_ _. False)) (g\<lparr>source := swept_source\<rparr>) facility_asked"
    by (intro r_into_rtranclp) (simp add: calm_supply_def, simp only: facility_asked_def ask, simp add: g_def)
  have idle: "CurrentFSMState sm0 = ST_Idle"
    by (simp add: sm0_def CryoControlSM_new_def Let_def split_def abs_SetOutputLimits_def rate_SetOutputLimits_def
      member_defaults_def set_var_def)
  have turn: "SMEngine (input_from params0) (machine (processes facility0)) = Some (engine_result (input_from params0) sm0, statements (input_from params0) sm0)"
    "exec_all double_store (statements (input_from params0) sm0) (params (processes facility0)) =
      (True, snd (exec_all double_store (statements (input_from params0) sm0) params0))"
    "in_control (input_from params0) = control_view (params (processes facility0))"
    using SMEngine_eq [OF reachable_inv [OF reach0]] params0_accepted by (simp_all add: facility0_def p prod_eq_iff)
  have sweep: "run_proc (PerformSweep (srs_view (params (processes g)), 0) Halt) (False, source g) = (Inr (), False, swept_source)"
    using swept by (simp add: g_def facility0_def)
  show ?thesis
    using supply_follows_machine [OF f turn(3,1,2) start sweep asked] idle
    by (simp add: facility0_def p)
qed

end
