(* ===== verification/Outage.thy ===== *)
theory Outage
  imports Plant
begin

text \<open>
  The plant of \<open>Plant\<close> after the state machine has ended. \<open>CCMySQLInteraction.cpp\<close> catches none of the exceptions of
  the database, so a statement that is refused ends the process; the heater and the cooler process go on with what
  stands in the row.
\<close>

text \<open>A query, a range, or the power that stands in the row.\<close>

definition stale_order :: "double \<Rightarrow> string \<Rightarrow> bool" where
  "stale_order v c \<longleftrightarrow> heater_query c \<or> (\<exists>n. c = heater_range n) \<or> c = mout (limit_power (to_float v))"

lemma stale_pass: "writes (stale_order v) (lsh_pass ((v, mode, fuse), w))"
  by (rule pass_writes) (auto simp: stale_order_def lsh_orders_def Let_def)

definition sends_stale :: "double \<Rightarrow> LakeShore \<Rightarrow> LakeShore \<Rightarrow> bool" where
  "sends_stale v s t \<longleftrightarrow> (\<exists>ws. usb_out t = usb_out s @ ws \<and> list_all (stale_order v) ws)"

lemma sends_stale_refl [simp]: "sends_stale v s s"
  by (simp add: sends_stale_def)

lemma sends_stale_trans: "sends_stale v s t \<Longrightarrow> sends_stale v t u \<Longrightarrow> sends_stale v s u"
  by (force simp: sends_stale_def)

text \<open>Edits that leave the two orders in the row alone.\<close>

definition keeps_orders :: "(ControlParameters \<Rightarrow> ControlParameters \<Rightarrow> bool) \<Rightarrow> bool" where
  "keeps_orders edits \<longleftrightarrow> (\<forall>c c'. edits c c' \<longrightarrow> col_HeaterPW c' = col_HeaterPW c \<and> col_CCPowerState c' = col_CCPowerState c)"

lemma outage_step:
  assumes "plant_step store edits p q" "keeps_orders edits" "\<not> machine_up p"
  shows "\<not> machine_up q \<and> machine q = machine p \<and> col_HeaterPW (params q) = col_HeaterPW (params p)
    \<and> calm_step store edits p q \<and> sends_stale (col_HeaterPW (params p)) (heater p) (heater q)"
  using assms(1)
proof cases
  case (regulate w r d)
  have "sends_stale (col_HeaterPW (params p)) (heater p) d"
    unfolding sends_stale_def using outputsD [OF stale_pass [unfolded writes_def] regulate(3) [unfolded heater_view_def]] by blast
  then show ?thesis using regulate(1) assms(1,3) by (simp add: calm_step_def)
next
  case (operate c)
  then have "col_HeaterPW c = col_HeaterPW (params p)" "col_CCPowerState c = col_CCPowerState (params p)"
    using assms(2) by (simp_all add: keeps_orders_def)
  then show ?thesis using operate(1) assms(1,3) by (simp add: calm_step_def)
qed (use assms(1,3) in \<open>simp_all add: calm_step_def\<close>)

lemma outage_run:
  assumes "plant_run store edits p q" "keeps_orders edits" "\<not> machine_up p"
  shows "\<not> machine_up q \<and> machine q = machine p \<and> col_HeaterPW (params q) = col_HeaterPW (params p)
    \<and> rtranclp (calm_step store edits) p q \<and> sends_stale (col_HeaterPW (params p)) (heater p) (heater q)"
  using assms(1)
proof (induction rule: rtranclp_induct)
  case (step q r)
  then show ?case using outage_step [OF step.hyps(2) assms(2)]
    by (auto intro: sends_stale_trans rtranclp.rtrancl_into_rtrancl)
qed (simp add: assms(3))

text \<open>
  C12: nobody notices that the state machine has ended. If a statement of one of its turns is refused, the process is
  gone, and as long as nobody else changes the power or the order for the cooler in the row, whatever the
  instruments measure, both stay what they were; the heater process goes on to send queries, ranges and that one power,
  and the cooler is sent no switch but to the state ordered last. No interlock of the machine acts any more.
\<close>

theorem outage_freezes_orders:
  assumes "machine_up p" "in_control i = control_view (params p)" "SMEngine i (machine p) = Some (sm, out)"
    and "exec_all store out (params p) = (False, c)"
    and "\<And>c c'. edits c c' \<Longrightarrow> col_HeaterPW c' = col_HeaterPW c \<and> col_CCPowerState c' = col_CCPowerState c"
    and "rtranclp (plant_step store edits) (p\<lparr>params := c, machine := sm, machine_up := False\<rparr>) q"
  shows "plant_step store edits p (p\<lparr>params := c, machine := sm, machine_up := False\<rparr>)
    \<and> \<not> machine_up q \<and> machine q = sm \<and> col_HeaterPW (params q) = col_HeaterPW c \<and> col_CCPowerState (params q) = col_CCPowerState c
    \<and> (\<exists>ws. usb_out (heater q) = usb_out (heater p) @ ws \<and> list_all (stale_order (col_HeaterPW c)) ws)
    \<and> (\<exists>ws. usb_out (cooler q) = usb_out (cooler p) @ ws \<and> list_all (switch_to (col_CCPowerState c)) ws)"
proof -
  have "keeps_orders edits" using assms(5) by (simp add: keeps_orders_def)
  note run = outage_run [OF assms(6) this]
  then show ?thesis
    using plant_step.engine [OF assms(1-4)] calm_steps_cooler [of store edits "p\<lparr>params := c, machine := sm, machine_up := False\<rparr>" q]
    by (simp add: sends_stale_def sends_more_def)
qed

text \<open>A database that takes no numbers any more: the heater is ordered to 75 after the machine has ended.\<close>

definition plant_ended :: plant where
  "plant_ended = plant0\<lparr>machine := engine_result (input_from params0) sm0, machine_up := False\<rparr>"

definition plant_heating :: plant where
  "plant_heating = (case lsh_pass (heater_view params0, 0) (heater plant0) of
     (r, d) \<Rightarrow> plant_ended\<lparr>heater := d, heater_up := (r = Inr ())\<rparr>)"

lemma refused: "exec_all (\<lambda>_. None) (statements i sm) c = (False, c)"
  by (simp add: statements_eq)

theorem outage_freezes_orders_witness:
  "col_HeaterPW (params plant_heating) = Fin 75 \<and> \<not> machine_up plant_heating
    \<and> (\<exists>ws. usb_out (heater plant_heating) = usb_out (heater plant0) @ ws \<and> list_all (stale_order (Fin 75)) ws)"
proof -
  have p: "machine_up plant0" "machine plant0 = sm0" "params plant0 = params0" by (simp_all add: plant0_def)
  have e: "plant0\<lparr>params := params0, machine := engine_result (input_from params0) sm0, machine_up := False\<rparr> = plant_ended"
    by (simp add: plant_ended_def) (simp add: plant0_def)
  obtain r d where rd: "lsh_pass (heater_view params0, 0) (heater plant0) = (r, d)"
    by (cases "lsh_pass (heater_view params0, 0) (heater plant0)") auto
  have "plant_step (\<lambda>_. None) (\<lambda>_ _. False) plant_ended plant_heating"
    using plant_step.regulate [of plant_ended 0 r d] rd by (simp add: plant_heating_def) (simp add: plant_ended_def plant0_def)
  then have run: "plant_run (\<lambda>_. None) (\<lambda>_ _. False) (plant0\<lparr>params := params0, machine := engine_result (input_from params0) sm0,
      machine_up := False\<rparr>) plant_heating" by (simp add: e)
  have turn: "SMEngine (input_from params0) (machine plant0) = Some (engine_result (input_from params0) sm0, statements (input_from params0) sm0)"
    using SMEngine_eq [OF reachable_inv [OF reach0]] p by simp
  have "in_control (input_from params0) = control_view (params plant0)" using input_from_view by (simp add: p)
  from outage_freezes_orders [OF p(1) this turn _ _ run] show ?thesis
    by (simp add: refused p) (simp add: params0_def)
qed

end
