(* ===== verification/SRSRace.thy ===== *)
theory SRSRace
  imports SRS
begin

text \<open>
  A race of the SRS server: \<open>VoltageRamp\<close> of \<open>SRSPowerSupply.cpp\<close> tests the power state before it
  takes the mutex and not again after. Here is counted how many ramps can still be triggered while
  the power state is off, and the run in which one is.
\<close>

text \<open>What is sent ends a ramp by the trigger of the instrument; \<open>triggers\<close> counts them.\<close>

definition trigger :: string where
  "trigger = ''*TRG'' @ [LF]"

definition triggers :: "string list \<Rightarrow> nat" where
  "triggers ws = length (filter (\<lambda>w. w = trigger) ws)"

lemma triggers_simps [simp]:
  "triggers [] = 0" "triggers (ws @ vs) = triggers ws + triggers vs"
  "triggers [w] = (if w = trigger then 1 else 0)"
  by (simp_all add: triggers_def)

subsection \<open>Threads while the power is off\<close>

text \<open>
  \<open>calm n p\<close>: the thread \<open>p\<close> sends at most \<open>n\<close> triggers in any run in which the power state stays
  off, whatever the other thread does to the rest of the object. \<open>polite p\<close>: at whatever point of a
  run of \<open>p\<close>, with the power on or off before it, at most one.
\<close>

inductive calm :: "nat \<Rightarrow> proc \<Rightarrow> bool" where
  calm_Halt: "calm n Halt"
| calm_Lock: "calm n k \<Longrightarrow> calm n (Lock k)"
| calm_Unlock: "calm n k \<Longrightarrow> calm n (Unlock k)"
| calm_Act: "(\<And>s r t. \<not> SRSPowerState s \<Longrightarrow> f s = (r, t) \<Longrightarrow>
      \<exists>ws. usb_out t = usb_out s @ ws \<and> triggers ws \<le> n
        \<and> (\<forall>k. r = Inr k \<and> \<not> SRSPowerState t \<longrightarrow> calm (n - triggers ws) k)) \<Longrightarrow> calm n (Act f)"

inductive polite :: "proc \<Rightarrow> bool" where
  polite_Halt: "polite Halt"
| polite_Lock: "polite k \<Longrightarrow> polite (Lock k)"
| polite_Unlock: "polite k \<Longrightarrow> polite (Unlock k)"
| polite_Act: "calm 1 (Act f) \<Longrightarrow> (\<And>s k t. f s = (Inr k, t) \<Longrightarrow> polite k) \<Longrightarrow> polite (Act f)"

inductive_cases calm_LockE: "calm n (Lock k)"
inductive_cases calm_UnlockE: "calm n (Unlock k)"
inductive_cases calm_ActE: "calm n (Act f)"
inductive_cases polite_LockE: "polite (Lock k)"
inductive_cases polite_UnlockE: "polite (Unlock k)"
inductive_cases polite_ActE: "polite (Act f)"

lemma polite_calm: "polite p \<Longrightarrow> calm 1 p"
  by (induction rule: polite.induct) (assumption | rule calm_Halt calm_Lock calm_Unlock)+

lemma calm_ActD:
  assumes "calm n (Act f)" "\<not> SRSPowerState s" "f s = (r, t)"
  shows "\<exists>ws. usb_out t = usb_out s @ ws \<and> triggers ws \<le> n
    \<and> (\<forall>k. r = Inr k \<and> \<not> SRSPowerState t \<longrightarrow> calm (n - triggers ws) k)"
  using assms(1) by (rule calm_ActE) (use assms(2,3) in simp)

lemma calm_mono: "calm n p \<Longrightarrow> n \<le> m \<Longrightarrow> calm m p"
proof (induction arbitrary: m rule: calm.induct)
  case (calm_Act f n)
  show ?case
  proof (rule calm.calm_Act)
    fix s r t assume st: "\<not> SRSPowerState s" "f s = (r, t)"
    obtain ws where "usb_out t = usb_out s @ ws" "triggers ws \<le> n"
      "\<forall>k. r = Inr k \<and> \<not> SRSPowerState t \<longrightarrow> (\<forall>m \<ge> n - triggers ws. calm m k)"
      using calm_Act.IH [OF st] by (elim exE conjE) (rule that, assumption, assumption, simp)
    then show "\<exists>ws. usb_out t = usb_out s @ ws \<and> triggers ws \<le> m
        \<and> (\<forall>k. r = Inr k \<and> \<not> SRSPowerState t \<longrightarrow> calm (m - triggers ws) k)"
      using calm_Act.prems by (intro exI [of _ ws]) auto
  qed
qed (auto intro: calm.intros)

lemma calm_do_io:
  assumes "\<And>s. usb_out (snd (m s)) = usb_out s @ ws" "triggers ws \<le> n"
    "\<And>s x t. \<not> SRSPowerState s \<Longrightarrow> m s = (Inr x, t) \<Longrightarrow> calm (n - triggers ws) (k x)"
  shows "calm n (do_io m k)"
  unfolding do_io_def
proof (rule calm_Act)
  fix s r t
  assume off: "\<not> SRSPowerState s" and f: "(case m s of (Inl e, t) \<Rightarrow> (Inl e, t) | (Inr x, t) \<Rightarrow> (Inr (k x), t)) = (r, t)"
  then have "usb_out t = usb_out s @ ws" "\<forall>k. r = Inr k \<longrightarrow> calm (n - triggers ws) k"
    using assms(1) [of s] assms(3) [OF off] by (auto split: prod.splits sum.splits)
  then show "\<exists>ws. usb_out t = usb_out s @ ws \<and> triggers ws \<le> n
      \<and> (\<forall>k. r = Inr k \<and> \<not> SRSPowerState t \<longrightarrow> calm (n - triggers ws) k)"
    using assms(2) by blast
qed

lemma polite_do_io: "calm 1 (do_io m k) \<Longrightarrow> (\<And>x. polite (k x)) \<Longrightarrow> polite (do_io m k)"
  unfolding do_io_def by (rule polite_Act) (auto split: prod.splits sum.splits)

subsection \<open>The operations\<close>

lemma calm_send: "c \<noteq> trigger \<Longrightarrow> calm n k \<Longrightarrow> calm n (send c k)"
  unfolding send_def by (rule calm_do_io [where ws = "[c]"]) (auto simp: WriteString_def)

lemma calm_trigger: "calm n k \<Longrightarrow> calm (Suc n) (send trigger k)"
  unfolding send_def by (rule calm_do_io [where ws = "[trigger]"]) (auto simp: WriteString_def)

lemma calm_change: "(\<And>s. usb_out (g s) = usb_out s) \<Longrightarrow> calm n k \<Longrightarrow> calm n (change g k)"
  unfolding change_def by (rule calm_do_io [where ws = "[]"]) (auto simp: io_simps)

lemma calm_look: "(\<And>s. \<not> SRSPowerState s \<Longrightarrow> calm n (k (g s))) \<Longrightarrow> calm n (look g k)"
  unfolding look_def by (rule calm_do_io [where ws = "[]"]) (auto simp: io_simps)

lemma calm_GetParameter: "c \<noteq> trigger \<Longrightarrow> (\<And>v. calm n (k v)) \<Longrightarrow> calm n (GetParameterFromSRS T c k)"
  unfolding GetParameterFromSRS_def
  by (rule calm_send, assumption, rule calm_do_io [where ws = "[]"]) (simp_all add: read_parameter_quiet)

lemma polite_send: "c \<noteq> trigger \<Longrightarrow> polite k \<Longrightarrow> polite (send c k)"
  using calm_send [of c 1 k] polite_calm unfolding send_def by (auto intro: polite_do_io)

lemma polite_trigger: "calm 0 k \<Longrightarrow> polite k \<Longrightarrow> polite (send trigger k)"
  using calm_trigger [of 0 k] unfolding send_def by (auto intro: polite_do_io)

lemma polite_change: "(\<And>s. usb_out (g s) = usb_out s) \<Longrightarrow> polite k \<Longrightarrow> polite (change g k)"
  using calm_change [of g 1 k] polite_calm unfolding change_def by (auto intro: polite_do_io)

lemma polite_look: "(\<And>x. polite (k x)) \<Longrightarrow> polite (look g k)"
  using calm_look [of 1 k g] polite_calm unfolding look_def by (auto intro: polite_do_io)

lemma polite_GetParameter: "c \<noteq> trigger \<Longrightarrow> (\<And>v. polite (k v)) \<Longrightarrow> polite (GetParameterFromSRS T c k)"
  unfolding GetParameterFromSRS_def
  by (rule polite_send, assumption, rule polite_do_io, rule calm_do_io [where ws = "[]"])
    (simp_all add: read_parameter_quiet polite_calm [unfolded One_nat_def])

lemma calm_VoltageRamp: "calm n k \<Longrightarrow> calm n (VoltageRamp a b t d k)"
  unfolding VoltageRamp_def by (rule calm_look) simp

lemma calm_if: "calm n p \<Longrightarrow> calm n q \<Longrightarrow> calm n (if b then p else q)"
  by simp

lemma polite_if: "polite p \<Longrightarrow> polite q \<Longrightarrow> polite (if b then p else q)"
  by simp

lemma not_trigger:
  "''SCAR RANGE'' @ x \<noteq> trigger" "''SCAB '' @ x \<noteq> trigger" "''SCAE '' @ x \<noteq> trigger"
  "''SCAT '' @ x \<noteq> trigger" "''SOUT '' @ x \<noteq> trigger" "''SCAD ON'' @ x \<noteq> trigger"
  "''SCAA 1'' @ x \<noteq> trigger" "''VOLT?'' @ x \<noteq> trigger" "''SOUT?'' @ x \<noteq> trigger" "''OVLD?'' @ x \<noteq> trigger"
  by (simp_all add: trigger_def)

lemmas calm_rules = calm.intros(1-3) calm_change calm_look calm_GetParameter calm_if not_trigger
lemmas polite_rules = polite.intros(1-3) polite_send polite_change polite_look polite_GetParameter polite_if not_trigger

lemma polite_ramp:
  assumes "polite k" "polite p"
  shows "polite (look SRSPowerState (\<lambda>on. if on then Lock
    (send (''SCAR RANGE'' @ x1) (send (''SCAB '' @ x2) (send (''SCAE '' @ x3) (send (''SCAT '' @ x4)
    (send (''SOUT '' @ x5) (GetParameterFromSRS IntT (''SOUT?'' @ x6) (\<lambda>v.
      change (\<lambda>s. s\<lparr>currentOutputStatus := bool_of v\<rparr>) (send (''SCAD ON'' @ x7) (send (''SCAA 1'' @ x8) p)))))))))
    else k))"
  by (intro polite_rules assms) simp

lemma polite_VoltageRamp:
  assumes "calm 0 k" "polite k"
  shows "polite (VoltageRamp a b t d k)"
proof -
  have "polite (send (''*TRG'' @ [LF]) (Unlock k))"
    using polite_trigger [OF calm_Unlock [OF assms(1)] polite_Unlock [OF assms(2)]] by (simp add: trigger_def)
  then show ?thesis
    unfolding VoltageRamp_def WritePSOutput_def ReadPSOutput_def by (rule polite_ramp [OF assms(2)])
qed

lemma PerformSweep_calm: "calm n k \<Longrightarrow> calm n (PerformSweep e k)"
  unfolding PerformSweep_def SRS_UpdateMysql_def ReadPSVoltage_def ReadPSOutput_def IsOVLD_def
  by (intro calm_rules calm_VoltageRamp) simp_all

lemma PerformSweep_polite: "calm 0 k \<Longrightarrow> polite k \<Longrightarrow> polite (PerformSweep e k)"
  unfolding PerformSweep_def SRS_UpdateMysql_def ReadPSVoltage_def ReadPSOutput_def IsOVLD_def
  by (intro polite_rules polite_VoltageRamp) simp_all

lemma timer_calm: "calm 0 (timer_start es) \<and> polite (timer_start es)"
  by (induction es) (auto intro: calm_Halt polite_Halt PerformSweep_calm PerformSweep_polite)

lemma serve_calm: "calm 0 (serve cs) \<and> polite (serve cs)"
  by (induction cs rule: serve.induct)
    (auto simp: ReadMemPSVoltage_def intro!: calm_Halt polite_Halt PerformSweep_calm PerformSweep_polite
      calm_VoltageRamp polite_VoltageRamp calm_look polite_look calm_change polite_change)

subsection \<open>Runs with the power off\<close>

inductive stays_off :: "system \<Rightarrow> system \<Rightarrow> bool" where
  off_start: "\<not> SRSPowerState (srs c) \<Longrightarrow> stays_off c c"
| off_step: "stays_off c d \<Longrightarrow> thread_step i d = Some d' \<Longrightarrow> \<not> SRSPowerState (srs d') \<Longrightarrow> stays_off c d'"

lemma polite_thread_step:
  assumes "thread_step i c = Some d" "\<forall>p \<in> set (threads c). polite p"
  shows "\<forall>p \<in> set (threads d). polite p"
proof -
  have i: "i < length (threads c)" using assms(1) by (auto simp: thread_step_def split: if_splits)
  then have "polite (threads c ! i)" using assms(2) by simp
  then show ?thesis using assms i
    by (cases "threads c ! i")
      (auto simp: thread_step_def split: if_splits prod.splits sum.splits
        elim: polite_LockE polite_UnlockE polite_ActE dest!: set_update_subset_insert [THEN subsetD])
qed

lemma polite_reaches: "reaches c d \<Longrightarrow> \<forall>p \<in> set (threads c). polite p \<Longrightarrow> \<forall>p \<in> set (threads d). polite p"
proof (induction rule: reaches.induct)
  case (step c d i d')
  then show ?case by (intro polite_thread_step [of i d d'])
qed simp

text \<open>The threads together have at most \<open>n\<close> triggers left.\<close>

definition calm_system :: "nat \<Rightarrow> system \<Rightarrow> bool" where
  "calm_system n c \<longleftrightarrow> crashed c = None \<longrightarrow> (\<exists>ns. list_all2 calm ns (threads c) \<and> sum_list ns \<le> n)"

lemma calm_systemI: "list_all2 calm ns (threads c) \<Longrightarrow> sum_list ns \<le> n \<Longrightarrow> calm_system n c"
  unfolding calm_system_def by blast

lemma calm_thread:
  assumes "thread_step i c = Some d" "\<not> SRSPowerState (srs c)" "\<not> SRSPowerState (srs d)" "calm n (threads c ! i)"
  shows "\<exists>ws. usb_out (srs d) = usb_out (srs c) @ ws \<and> triggers ws \<le> n
    \<and> (crashed d = None \<longrightarrow> (\<exists>q. calm (n - triggers ws) q \<and> threads d = (threads c)[i := q]))"
proof (cases "threads c ! i")
  case (Lock k)
  then have "d = c\<lparr>owner := Some i, threads := (threads c)[i := k]\<rparr>"
    using assms(1) by (auto simp: thread_step_def split: if_splits)
  moreover have "calm n k" using assms(4) Lock by (auto elim: calm_LockE)
  ultimately show ?thesis by (intro exI [of _ "[]"]) auto
next
  case (Unlock k)
  then have "d = c\<lparr>owner := None, threads := (threads c)[i := k]\<rparr>"
    using assms(1) by (auto simp: thread_step_def split: if_splits)
  moreover have "calm n k" using assms(4) Unlock by (auto elim: calm_UnlockE)
  ultimately show ?thesis by (intro exI [of _ "[]"]) auto
next
  case (Act f)
  obtain r t where f: "f (srs c) = (r, t)" by (cases "f (srs c)")
  obtain ws where ws: "usb_out t = usb_out (srs c) @ ws" "triggers ws \<le> n"
    "\<forall>k. r = Inr k \<and> \<not> SRSPowerState t \<longrightarrow> calm (n - triggers ws) k"
    using calm_ActD [OF assms(4) [unfolded Act] assms(2) f] by (elim exE conjE)
  moreover have "crashed d = None \<longrightarrow> (\<exists>q. calm (n - triggers ws) q \<and> threads d = (threads c)[i := q])"
    "srs d = t"
    using assms(1,3) f Act ws(3) by (cases r; force simp: thread_step_def split: if_splits)+
  ultimately show ?thesis by (intro exI [of _ ws]) simp
qed (use assms(1) in \<open>auto simp: thread_step_def split: if_splits\<close>)

lemma calm_system_step:
  assumes "calm_system n c" "thread_step i c = Some d" "\<not> SRSPowerState (srs c)" "\<not> SRSPowerState (srs d)"
  shows "\<exists>ws. usb_out (srs d) = usb_out (srs c) @ ws \<and> triggers ws \<le> n \<and> calm_system (n - triggers ws) d"
proof -
  have i: "i < length (threads c)" "crashed c = None"
    using assms(2) by (auto simp: thread_step_def split: if_splits)
  obtain ns where ns: "list_all2 calm ns (threads c)" "sum_list ns \<le> n"
    using assms(1) i(2) by (auto simp: calm_system_def)
  have len: "i < length ns" using ns(1) i(1) by (metis list_all2_lengthD)
  obtain ws where ws: "usb_out (srs d) = usb_out (srs c) @ ws" "triggers ws \<le> ns ! i"
    "crashed d = None \<longrightarrow> (\<exists>q. calm (ns ! i - triggers ws) q \<and> threads d = (threads c)[i := q])"
    using calm_thread [OF assms(2-4)] list_all2_nthD [OF ns(1) len] by blast
  have le: "ns ! i \<le> sum_list ns" using len by (simp add: member_le_sum_list)
  have "calm_system (n - triggers ws) d"
    unfolding calm_system_def
  proof
    assume "crashed d = None"
    then obtain q where q: "calm (ns ! i - triggers ws) q" "threads d = (threads c)[i := q]" using ws(3) by blast
    have "sum_list (ns[i := ns ! i - triggers ws]) \<le> n - triggers ws"
      using sum_list_update [OF len, of "ns ! i - triggers ws"] ws(2) le ns(2) by linarith
    then show "\<exists>ns. list_all2 calm ns (threads d) \<and> sum_list ns \<le> n - triggers ws"
      using list_all2_update_cong [OF ns(1) q(1), of i] q(2) by metis
  qed
  then show ?thesis using ws le ns(2) by (intro exI [of _ ws]) auto
qed

lemma calm_system_runs:
  assumes "stays_off c d" "calm_system n c"
  shows "\<exists>ws. usb_out (srs d) = usb_out (srs c) @ ws \<and> triggers ws \<le> n \<and> calm_system (n - triggers ws) d"
  using assms
proof (induction rule: stays_off.induct)
  case (off_step c d i d')
  then obtain ws where ws: "usb_out (srs d) = usb_out (srs c) @ ws" "triggers ws \<le> n"
    "calm_system (n - triggers ws) d" by blast
  have "\<not> SRSPowerState (srs d)" using off_step.hyps(1) by (cases rule: stays_off.cases) auto
  then obtain vs where "usb_out (srs d') = usb_out (srs d) @ vs" "triggers vs \<le> n - triggers ws"
    "calm_system (n - triggers ws - triggers vs) d'"
    using calm_system_step [OF ws(3) off_step.hyps(2) _ off_step.hyps(3)] by blast
  then show ?case using ws by (intro exI [of _ "ws @ vs"]) (auto simp: diff_diff_add)
qed (auto intro: exI [of _ "[]"])

lemma server_calm:
  "calm_system 0 (server_start s es cs)"
  "reaches (server_start s es cs) c \<Longrightarrow> calm_system 2 c"
proof -
  show "calm_system 0 (server_start s es cs)"
    using timer_calm [of es] serve_calm [of cs]
    by (intro calm_systemI [of "[0, 0]"]) (simp_all add: server_start_def)
  assume r: "reaches (server_start s es cs) c"
  have two: "length (threads c) = 2"
    using r by (induction "server_start s es cs" c rule: reaches.induct)
      (auto simp: server_start_def thread_step_def split: if_splits proc.splits prod.splits sum.splits)
  have "\<forall>p \<in> set (threads c). polite p"
    by (rule polite_reaches [OF r]) (use timer_calm serve_calm in \<open>simp add: server_start_def\<close>)
  then have "list_all2 calm (replicate 2 1) (threads c)"
    using two polite_calm by (auto simp: list_all2_conv_all_nth nth_replicate)
  then show "calm_system 2 c" by (rule calm_systemI) (simp add: sum_list_replicate)
qed

subsection \<open>The run in which a ramp is late\<close>

text \<open>A schedule names the thread that makes each step; in \<open>replay_off\<close> every state has the power
  off.\<close>

fun replay :: "nat list \<Rightarrow> system \<Rightarrow> system option" where
  "replay [] c = Some c"
| "replay (i # is) c = Option.bind (thread_step i c) (replay is)"

fun replay_off :: "nat list \<Rightarrow> system \<Rightarrow> system option" where
  "replay_off [] c = (if SRSPowerState (srs c) then None else Some c)"
| "replay_off (i # is) c = (if SRSPowerState (srs c) then None else Option.bind (thread_step i c) (replay_off is))"

lemma reaches_trans: "reaches d e \<Longrightarrow> reaches c d \<Longrightarrow> reaches c e"
  by (induction rule: reaches.induct) (auto intro: reaches.step)

lemma replay_reaches: "replay is c = Some d \<Longrightarrow> reaches c d"
proof (induction "is" arbitrary: c)
  case (Cons i "is")
  then obtain c' where "thread_step i c = Some c'" "reaches c' d" by (auto simp: bind_eq_Some_conv)
  then show ?case using reaches.step [OF reaches.start] reaches_trans by blast
qed (auto intro: reaches.start)

lemma stays_off_trans: "stays_off d e \<Longrightarrow> stays_off c d \<Longrightarrow> stays_off c e"
  by (induction rule: stays_off.induct) (auto intro: off_step)

lemma replay_stays_off: "replay_off is c = Some d \<Longrightarrow> stays_off c d"
proof (induction "is" arbitrary: c)
  case (Cons i "is")
  then obtain c' where c': "thread_step i c = Some c'" "stays_off c' d" "\<not> SRSPowerState (srs c)"
    by (auto simp: bind_eq_Some_conv split: if_splits)
  have "\<not> SRSPowerState (srs c')" using Cons.prems c'(1) by (cases "is") (auto split: if_splits)
  then show ?case using off_step [OF off_start c'(1)] c' stays_off_trans by blast
qed (auto intro: off_start split: if_splits)

lemma step_do_io:
  "thread_step 0 \<lparr>owner = ow, srs = s, threads = [do_io m k, q], crashed = None\<rparr> = (case m s of
      (Inl e, t) \<Rightarrow> Some \<lparr>owner = ow, srs = t, threads = [do_io m k, q], crashed = Some e\<rparr>
    | (Inr x, t) \<Rightarrow> Some \<lparr>owner = ow, srs = t, threads = [k x, q], crashed = None\<rparr>)"
  "thread_step (Suc 0) \<lparr>owner = ow, srs = s, threads = [q, do_io m k], crashed = None\<rparr> = (case m s of
      (Inl e, t) \<Rightarrow> Some \<lparr>owner = ow, srs = t, threads = [q, do_io m k], crashed = Some e\<rparr>
    | (Inr x, t) \<Rightarrow> Some \<lparr>owner = ow, srs = t, threads = [q, k x], crashed = None\<rparr>)"
  by (simp_all add: thread_step_def do_io_def split: prod.splits sum.splits)

lemma step_locks:
  "thread_step 0 \<lparr>owner = None, srs = s, threads = [Lock k, q], crashed = None\<rparr>
    = Some \<lparr>owner = Some 0, srs = s, threads = [k, q], crashed = None\<rparr>"
  "thread_step (Suc 0) \<lparr>owner = None, srs = s, threads = [q, Lock k], crashed = None\<rparr>
    = Some \<lparr>owner = Some (Suc 0), srs = s, threads = [q, k], crashed = None\<rparr>"
  "thread_step 0 \<lparr>owner = ow, srs = s, threads = [Unlock k, q], crashed = None\<rparr>
    = Some \<lparr>owner = None, srs = s, threads = [k, q], crashed = None\<rparr>"
  "thread_step (Suc 0) \<lparr>owner = ow, srs = s, threads = [q, Unlock k], crashed = None\<rparr>
    = Some \<lparr>owner = None, srs = s, threads = [q, k], crashed = None\<rparr>"
  by (simp_all add: thread_step_def)

text \<open>The four answers that the run reads: three of the sweep and one of the ramp.\<close>

definition late_answers :: "rd list" where
  "late_answers = sends ''5'' @ sends ''1'' @ sends ''0'' @ sends ''1'' @ [Silence]"

lemma ReadLine_queue: "usb_in d = sends l @ rs \<Longrightarrow> good_line l \<Longrightarrow> ReadLine d = (Inr (l @ [LF]), d\<lparr>usb_in := rs\<rparr>)"
  by (rule ReadLine_sends)

lemma late_values: "stof (''5'' @ [LF]) = Inr (Fin 5)" "stoi (''1'' @ [LF]) = Inr 1"
  by code_simp+

lemma late_run:
  "\<exists>c d. replay (1 # replicate 14 0) (server_start (srs_sample late_answers) [((False, 1), 0)] [Call_VoltageRamp a b t True]) = Some c
    \<and> replay_off (replicate 13 1) c = Some d \<and> usb_out (srs d) = usb_out (srs c) @ ramp_block a b t"
  using late_values
  by (simp add: server_start_def PerformSweep_def VoltageRamp_def SRS_UpdateMysql_def ReadPSVoltage_def
      ReadPSOutput_def IsOVLD_def WritePSOutput_def GetParameterFromSRS_def send_def change_def look_def
      step_do_io step_locks numeral_eq_Suc io_simps WriteString_def read_parameter_def io_bind_def
      srs_sample_def late_answers_def ReadLine_queue good_line_def parse_parameter_def ramp_block_def)

subsection \<open>Properties\<close>

lemma ramps_bounded:
  assumes "reaches (server_start s es cs) c" "stays_off c d"
  shows "\<exists>ws. usb_out (srs d) = usb_out (srs c) @ ws \<and> triggers ws \<le> 2
    \<and> (c = server_start s es cs \<longrightarrow> triggers ws = 0)"
proof -
  obtain ws where ws: "usb_out (srs d) = usb_out (srs c) @ ws" "triggers ws \<le> 2"
    using calm_system_runs [OF assms(2) server_calm(2) [OF assms(1)]] by blast
  have "triggers ws = 0" if "c = server_start s es cs"
    using calm_system_runs [OF assms(2), of 0] server_calm(1) that ws(1) by auto
  then show ?thesis using ws by blast
qed

text \<open>
  C19: ramps while the power is off. However the two threads interleave and whatever the instrument
  answers, a server that starts with the power state off triggers no ramp while it stays off, and after the
  power state was switched off at most two ramps are still triggered: one for each thread that had
  tested the state before. The witness is a run in which this happens: a call
  tests the state, the sweep reads from the database that the power is off, and the whole ramp,
  with the order to switch the output on, is sent after that.
\<close>

theorem late_ramps:
  assumes "reaches (server_start s es cs) c" "stays_off c d"
  shows "\<exists>ws. usb_out (srs d) = usb_out (srs c) @ ws \<and> triggers ws \<le> 2
    \<and> (c = server_start s es cs \<longrightarrow> triggers ws = 0)"
  by (rule ramps_bounded [OF assms])

theorem late_ramps_witness:
  "\<exists>c d. reaches (server_start (srs_sample late_answers) [((False, 1), 0)] [Call_VoltageRamp (Fin 0) (Fin 100) (Fin 5) True]) c
    \<and> stays_off c d \<and> usb_out (srs d) = usb_out (srs c) @ ramp_block (Fin 0) (Fin 100) (Fin 5)
    \<and> triggers (ramp_block (Fin 0) (Fin 100) (Fin 5)) \<in> {1, 2}"
proof -
  obtain c d where cd: "reaches (server_start (srs_sample late_answers) [((False, 1), 0)]
      [Call_VoltageRamp (Fin 0) (Fin 100) (Fin 5) True]) c" "stays_off c d"
    and u: "usb_out (srs d) = usb_out (srs c) @ ramp_block (Fin 0) (Fin 100) (Fin 5)"
    using late_run [of "Fin 0" "Fin 100" "Fin 5"] replay_reaches replay_stays_off by blast
  have "triggers (ramp_block (Fin 0) (Fin 100) (Fin 5)) \<le> 2"
    using late_ramps [OF cd] u by auto
  moreover have "1 \<le> triggers (ramp_block (Fin 0) (Fin 100) (Fin 5))"
    by (simp add: triggers_def ramp_block_def trigger_def)
  ultimately have "triggers (ramp_block (Fin 0) (Fin 100) (Fin 5)) \<in> {1, 2}" by force
  then show ?thesis using cd u by blast
qed

end
