(* ===== verification/TempControl.thy ===== *)
theory TempControl
  imports PID
begin

text \<open>
  \<open>TemperatureControl.cpp\<close>, the older stand-alone controller: one PID over its own three variables,
  and \<open>UtilityFunctions.cpp\<close>. The variables \<open>Input\<close>, \<open>Output\<close> and \<open>Setpoint\<close> are uninitialised when
  the controller is made, and \<open>Output\<close> still is when it is switched on.
\<close>

datatype tc_var = V_Setpoint | V_Input | V_Output

record TempControl =
  tc_pid :: "tc_var PID"
  tc_mem :: "tc_var mem"
  tc_Kp :: double
  tc_Ki :: double
  tc_Kd :: double

text \<open>The rows the database returns to one exchange.\<close>

record tc_rows =
  tr_TTemperature :: double
  tr_Kp :: double
  tr_Ki :: double
  tr_Kd :: double
  tr_TC :: double

datatype tc_sql = Insert_PID double | Update_HeaterPW double

definition TC_UpdateMysql :: "tc_rows \<Rightarrow> double \<Rightarrow> TempControl \<Rightarrow> TempControl \<times> tc_sql list" where
  "TC_UpdateMysql r out s = (s\<lparr>tc_Kp := tr_Kp r, tc_Ki := tr_Ki r, tc_Kd := tr_Kd r,
       tc_mem := (tc_mem s)(V_Setpoint := tr_TTemperature r, V_Input := tr_TC r)\<rparr>,
     [Insert_PID out, Update_HeaterPW out])"

definition tc_start :: "tc_var PID \<Rightarrow> tc_var mem \<Rightarrow> 64 word \<Rightarrow> TempControl" where
  "tc_start raw m now = (let Kp = Fin 2; Ki = Fin 5; Kd = Fin 1;
       (p, m) = PID_new8 raw V_Input V_Output V_Setpoint Kp Ki Kd P_ON_M DIRECT now m;
       m = m(V_Setpoint := Fin 150);
       m = m(V_Input := Fin 273)
     in \<lparr>tc_pid = SetMode AUTOMATIC p m, tc_mem = m, tc_Kp = Kp, tc_Ki = Ki, tc_Kd = Kd\<rparr>)"

definition tc_retune :: "TempControl \<Rightarrow> TempControl" where
  "tc_retune s = (if \<not> feq (tc_Kp s) (GetKp (tc_pid s)) \<or> \<not> feq (tc_Ki s) (GetKi (tc_pid s))
       \<or> \<not> feq (tc_Kd s) (GetKd (tc_pid s))
     then s\<lparr>tc_pid := SetTunings (tc_Kp s) (tc_Ki s) (tc_Kd s) (tc_pid s)\<rparr> else s)"

text \<open>One turn of the loop: the time, the rows, and the statements executed.\<close>

definition tc_loop :: "64 word \<times> tc_rows \<Rightarrow> TempControl \<Rightarrow> TempControl \<times> tc_sql list" where
  "tc_loop e s = (let (_, p, m) = Compute (fst e) (tc_pid s) (tc_mem s);
       s = s\<lparr>tc_pid := p, tc_mem := m\<rparr>;
       (s, q) = TC_UpdateMysql (snd e) \<bar>tc_mem s V_Output\<bar> s
     in (tc_retune s, q))"

fun tc_run :: "(64 word \<times> tc_rows) list \<Rightarrow> TempControl \<Rightarrow> TempControl \<times> tc_sql list" where
  "tc_run [] s = (s, [])"
| "tc_run (e # es) s = (let (s, q) = tc_loop e s; (s, qs) = tc_run es s in (s, q @ qs))"

subsection \<open>Utility functions\<close>

text \<open>\<open>stat\<close> is the system call: the size of the file, or \<open>None\<close> when the call fails.\<close>

definition advance_cursor :: "nat \<Rightarrow> char \<times> nat" where
  "advance_cursor pos = ([CHR ''/'', CHR ''-'', CHR 0x5C, CHR 0x7C] ! pos, (pos + 1) mod 4)"

definition getFilesize :: "(string \<Rightarrow> nat option) \<Rightarrow> string \<Rightarrow> nat" where
  "getFilesize stat filename = (case stat filename of None \<Rightarrow> 0 | Some n \<Rightarrow> n)"

definition doesFileExist :: "(string \<Rightarrow> nat option) \<Rightarrow> string \<Rightarrow> bool" where
  "doesFileExist stat name \<longleftrightarrow> stat name \<noteq> None"

text \<open>What \<open>n\<close> calls print, from the position the first finds.\<close>

fun cursor_run :: "nat \<Rightarrow> nat \<Rightarrow> string \<times> nat" where
  "cursor_run 0 pos = ([], pos)"
| "cursor_run (Suc n) pos = (let (c, pos) = advance_cursor pos; (cs, pos) = cursor_run n pos in (c # cs, pos))"

subsection \<open>Facts\<close>

text \<open>The wiring and the limits, which no turn changes.\<close>

definition tc_ok :: "TempControl \<Rightarrow> bool" where
  "tc_ok s \<longleftrightarrow> inAuto (tc_pid s) \<and> myOutput (tc_pid s) = V_Output \<and> myInput (tc_pid s) = V_Input
     \<and> mySetpoint (tc_pid s) = V_Setpoint \<and> outMin (tc_pid s) = Fin 0 \<and> outMax (tc_pid s) = Fin 75"

definition tc_safe :: "tc_sql \<Rightarrow> bool" where
  "tc_safe q = (case q of Insert_PID v \<Rightarrow> between (Fin 0) (Fin 75) v | Update_HeaterPW v \<Rightarrow> between (Fin 0) (Fin 75) v)"

lemma abs_between: "between (Fin 0) (Fin 75) v \<Longrightarrow> between (Fin 0) (Fin 75) \<bar>v\<bar>"
  by (cases v) (auto simp: between_def)

lemma Compute_output:
  assumes "outMin p = Fin 0" "outMax p = Fin 75" "Compute now p m = (b, p', m')"
    and "b \<or> between (Fin 0) (Fin 75) (m (myOutput p))"
  shows "between (Fin 0) (Fin 75) (m' (myOutput p))"
proof (cases b)
  case True
  then show ?thesis
    using pidc.step_drive [of now p m p' m' "Fin 0" "Fin 75"] Compute_fields [OF assms(3)] assms(1-3) by simp
next
  case False
  then show ?thesis using pidc.step_idle [of now p m p' m'] assms(3,4) by simp
qed

lemma tc_retune_fields:
  "tc_mem (tc_retune s) = tc_mem s" "inAuto (tc_pid (tc_retune s)) = inAuto (tc_pid s)"
  "myOutput (tc_pid (tc_retune s)) = myOutput (tc_pid s)" "myInput (tc_pid (tc_retune s)) = myInput (tc_pid s)"
  "mySetpoint (tc_pid (tc_retune s)) = mySetpoint (tc_pid s)"
  "outMin (tc_pid (tc_retune s)) = outMin (tc_pid s)" "outMax (tc_pid (tc_retune s)) = outMax (tc_pid s)"
  by (simp_all add: tc_retune_def pid_simps)

lemma tc_loop_ok:
  assumes "tc_ok s" "tc_loop e s = (t, q)"
    and "between (Fin 0) (Fin 75) (tc_mem s V_Output) \<or> SampleTime (tc_pid s) \<le> fst e - lastTime (tc_pid s)"
  shows "tc_ok t \<and> list_all tc_safe q \<and> between (Fin 0) (Fin 75) (tc_mem t V_Output)"
proof -
  obtain b p m where c: "Compute (fst e) (tc_pid s) (tc_mem s) = (b, p, m)" by (cases "Compute (fst e) (tc_pid s) (tc_mem s)") auto
  have ok: "inAuto (tc_pid s)" "outMin (tc_pid s) = Fin 0" "outMax (tc_pid s) = Fin 75"
    using assms(1) by (auto simp: tc_ok_def)
  have "b \<or> between (Fin 0) (Fin 75) (tc_mem s V_Output)"
    using assms(3) c ok(1) by (auto simp: Compute_def Let_def)
  then have v: "between (Fin 0) (Fin 75) (m V_Output)"
    using Compute_output [OF ok(2,3) c] assms(1) by (simp add: tc_ok_def)
  then have v': "between (Fin 0) (Fin 75) \<bar>m V_Output\<bar>" by (rule abs_between)
  show ?thesis
    using assms(1,2) Compute_fields [OF c] v v'
    by (auto simp: tc_loop_def c TC_UpdateMysql_def tc_ok_def tc_safe_def tc_retune_fields)
qed

lemma tc_start_ok: "tc_ok (tc_start raw m now) \<and> lastTime (tc_pid (tc_start raw m now)) = now - 1
    \<and> SampleTime (tc_pid (tc_start raw m now)) = 1"
proof -
  obtain p m' where p: "PID_new8 raw V_Input V_Output V_Setpoint (Fin 2) (Fin 5) (Fin 1) P_ON_M DIRECT now m = (p, m')"
    by (cases "PID_new8 raw V_Input V_Output V_Setpoint (Fin 2) (Fin 5) (Fin 1) P_ON_M DIRECT now m") auto
  show ?thesis by (simp add: tc_start_def tc_ok_def Let_def p pid_simps PID_new8_fields [OF p])
qed

lemma tc_run_safe:
  assumes "tc_ok s" "between (Fin 0) (Fin 75) (tc_mem s V_Output)"
  shows "list_all tc_safe (snd (tc_run es s))"
  using assms
proof (induction es arbitrary: s)
  case (Cons e es)
  obtain t q where l: "tc_loop e s = (t, q)" by (cases "tc_loop e s") auto
  show ?case using tc_loop_ok [OF Cons.prems(1) l] Cons.prems(2) Cons.IH [of t] l by (simp add: split_beta)
qed simp

subsection \<open>Properties\<close>

text \<open>
  The stand-alone controller sends safe powers. Whatever the uninitialised memory held and
  whatever the database says, every heater power it stores is a number from 0 to 75, or NaN.
\<close>

theorem controller_powers_safe:
  assumes "fst e = now"
  shows "list_all tc_safe (snd (tc_run (e # es) (tc_start raw m now)))"
proof -
  obtain t q where l: "tc_loop e (tc_start raw m now) = (t, q)" by (cases "tc_loop e (tc_start raw m now)") auto
  have "SampleTime (tc_pid (tc_start raw m now)) \<le> fst e - lastTime (tc_pid (tc_start raw m now))"
    using tc_start_ok [of raw m now] assms by simp
  then have "tc_ok t \<and> list_all tc_safe q \<and> between (Fin 0) (Fin 75) (tc_mem t V_Output)"
    using tc_start_ok l by (intro tc_loop_ok [where e = e and s = "tc_start raw m now"]) auto
  then show ?thesis using tc_run_safe [of t es] l by (simp add: split_beta)
qed

definition tc_raw :: "tc_var PID" where
  "tc_raw = \<lparr>dispKp = Fin 0, dispKi = Fin 0, dispKd = Fin 0, kp = Fin 0, ki = Fin 0, kd = Fin 0,
     controllerDirection = 0, pOn = 0, myInput = V_Input, myOutput = V_Input, mySetpoint = V_Input,
     lastTime = 0, outputSum = Inf True, lastInput = Fin 0, SampleTime = 0, outMin = Fin 0, outMax = Fin 0,
     inAuto = True, pOnE = True\<rparr>"

definition tc_row :: tc_rows where
  "tc_row = \<lparr>tr_TTemperature = Fin 150, tr_Kp = Fin 3, tr_Ki = Fin 1, tr_Kd = Fin 0, tr_TC = Fin 120\<rparr>"

theorem controller_powers_safe_witness:
  "list_all tc_safe (snd (tc_run ((1000, tc_row) # [(1001, tc_row)]) (tc_start tc_raw (\<lambda>_. Inf False) 1000)))"
  by (rule controller_powers_safe) simp

text \<open>
  The tunings follow the database. After a turn in which the database gave three gains that are
  not negative and not NaN, they are the gains in use, on the time scale of the controller.
\<close>

lemma tunings_follow_database:
  assumes "tc_loop (now, r) s = (t, q)" "tr_Kp r = Fin a" "tr_Ki r = Fin b" "tr_Kd r = Fin c"
    and "0 \<le> a" "0 \<le> b" "0 \<le> c"
  shows "GetKp (tc_pid t) = Fin a \<and> GetKi (tc_pid t) = Fin b \<and> GetKd (tc_pid t) = Fin c"
  using assms
  by (auto simp: tc_loop_def TC_UpdateMysql_def tc_retune_def SetTunings_def SetTunings4_def Let_def GetKp_def
      GetKi_def GetKd_def split: if_splits prod.splits)

text \<open>
  The cursor. Starting from the position 0, every call finds a position inside its array, and
  the \<open>i\<close>-th call prints the character at \<open>i mod 4\<close>.
\<close>

lemma cursor_cycles:
  "fst (cursor_run n 0) = map (\<lambda>i. [CHR ''/'', CHR ''-'', CHR 0x5C, CHR 0x7C] ! (i mod 4)) [0..<n]
    \<and> snd (cursor_run n 0) = n mod 4"
proof -
  have "fst (cursor_run n (k mod 4)) = map (\<lambda>i. [CHR ''/'', CHR ''-'', CHR 0x5C, CHR 0x7C] ! (i mod 4)) [k..<k + n]
    \<and> snd (cursor_run n (k mod 4)) = (k + n) mod 4" for k
  proof (induction n arbitrary: k)
    case (Suc n)
    have "[k..<k + Suc n] = k # [Suc k..<Suc k + n]" by (simp add: upt_conv_Cons)
    moreover have "(k mod 4 + 1) mod 4 = Suc k mod 4" by (simp add: mod_Suc_eq)
    ultimately show ?case using Suc.IH [of "Suc k"] by (simp add: advance_cursor_def split_beta)
  qed simp
  from this [of 0] show ?thesis by simp
qed

end
