(* ===== verification/Msgpack.thy ===== *)
theory Msgpack
  imports Prelude
begin

text \<open>
  \<open>rpclib/rpc/msgpack/v1/pack.hpp\<close>: the encoder of the messages of the remote-call protocol the
  SRS server speaks. A function of \<open>packer\<close> is the list of bytes it appends to the stream. The
  integers that the templates \<open>pack_imp_*\<close> take are mathematical, in the range of their type; the
  types of fixed width are words. The platform is little-endian with 16-bit \<open>short\<close>, 32-bit \<open>int\<close>
  and 64-bit \<open>long\<close>, and \<open>char\<close> is signed. A \<open>float\<close> or \<open>double\<close> is its bit pattern, which is what
  the unions in the code give.
\<close>

unbundle bit_operations_syntax

type_synonym byte = "8 word"

subsection \<open>Bytes\<close>

text \<open>\<open>take8_8\<close> to \<open>take8_64\<close> are the low byte, \<open>_msgpack_store16\<close> to \<open>_msgpack_store64\<close> the low
  bytes in network order.\<close>

definition take8 :: "int \<Rightarrow> byte" where
  "take8 d = word_of_int d"

fun store_be :: "nat \<Rightarrow> int \<Rightarrow> byte list" where
  "store_be 0 d = []"
| "store_be (Suc n) d = word_of_int (d div 256 ^ n) # store_be n d"

definition load_be :: "byte list \<Rightarrow> int" where
  "load_be bs = foldl (\<lambda>a b. 256 * a + uint b) 0 bs"

abbreviation store16 :: "int \<Rightarrow> byte list" where "store16 \<equiv> store_be 2"
abbreviation store32 :: "int \<Rightarrow> byte list" where "store32 \<equiv> store_be 4"
abbreviation store64 :: "int \<Rightarrow> byte list" where "store64 \<equiv> store_be 8"

subsection \<open>Integers\<close>

definition pack_imp_uint8 :: "int \<Rightarrow> byte list" where
  "pack_imp_uint8 d = (if d < 2 ^ 7 then [take8 d] else [0xcc, take8 d])"

definition pack_imp_uint16 :: "int \<Rightarrow> byte list" where
  "pack_imp_uint16 d =
    (if d < 2 ^ 7 then [take8 d]
     else if d < 2 ^ 8 then [0xcc, take8 d]
     else 0xcd # store16 d)"

definition pack_imp_uint32 :: "int \<Rightarrow> byte list" where
  "pack_imp_uint32 d =
    (if d < 2 ^ 8 then
       (if d < 2 ^ 7 then [take8 d] else [0xcc, take8 d])
     else
       (if d < 2 ^ 16 then 0xcd # store16 d else 0xce # store32 d))"

definition pack_imp_uint64 :: "int \<Rightarrow> byte list" where
  "pack_imp_uint64 d =
    (if d < 2 ^ 8 then
       (if d < 2 ^ 7 then [take8 d] else [0xcc, take8 d])
     else
       (if d < 2 ^ 16 then 0xcd # store16 d
        else if d < 2 ^ 32 then 0xce # store32 d
        else 0xcf # store64 d))"

definition pack_imp_int8 :: "int \<Rightarrow> byte list" where
  "pack_imp_int8 d = (if d < - (2 ^ 5) then [0xd0, take8 d] else [take8 d])"

definition pack_imp_int16 :: "int \<Rightarrow> byte list" where
  "pack_imp_int16 d =
    (if d < - (2 ^ 5) then
       (if d < - (2 ^ 7) then 0xd1 # store16 d else [0xd0, take8 d])
     else if d < 2 ^ 7 then [take8 d]
     else
       (if d < 2 ^ 8 then [0xcc, take8 d] else 0xcd # store16 d))"

definition pack_imp_int32 :: "int \<Rightarrow> byte list" where
  "pack_imp_int32 d =
    (if d < - (2 ^ 5) then
       (if d < - (2 ^ 15) then 0xd2 # store32 d
        else if d < - (2 ^ 7) then 0xd1 # store16 d
        else [0xd0, take8 d])
     else if d < 2 ^ 7 then [take8 d]
     else
       (if d < 2 ^ 8 then [0xcc, take8 d]
        else if d < 2 ^ 16 then 0xcd # store16 d
        else 0xce # store32 d))"

definition pack_imp_int64 :: "int \<Rightarrow> byte list" where
  "pack_imp_int64 d =
    (if d < - (2 ^ 5) then
       (if d < - (2 ^ 15) then
          (if d < - (2 ^ 31) then 0xd3 # store64 d else 0xd2 # store32 d)
        else
          (if d < - (2 ^ 7) then 0xd1 # store16 d else [0xd0, take8 d]))
     else if d < 2 ^ 7 then [take8 d]
     else
       (if d < 2 ^ 16 then
          (if d < 2 ^ 8 then [0xcc, take8 d] else 0xcd # store16 d)
        else
          (if d < 2 ^ 32 then 0xce # store32 d else 0xcf # store64 d)))"

definition pack_uint8 :: "8 word \<Rightarrow> byte list" where "pack_uint8 d = pack_imp_uint8 (uint d)"
definition pack_uint16 :: "16 word \<Rightarrow> byte list" where "pack_uint16 d = pack_imp_uint16 (uint d)"
definition pack_uint32 :: "32 word \<Rightarrow> byte list" where "pack_uint32 d = pack_imp_uint32 (uint d)"
definition pack_uint64 :: "64 word \<Rightarrow> byte list" where "pack_uint64 d = pack_imp_uint64 (uint d)"
definition pack_int8 :: "8 word \<Rightarrow> byte list" where "pack_int8 d = pack_imp_int8 (sint d)"
definition pack_int16 :: "16 word \<Rightarrow> byte list" where "pack_int16 d = pack_imp_int16 (sint d)"
definition pack_int32 :: "32 word \<Rightarrow> byte list" where "pack_int32 d = pack_imp_int32 (sint d)"
definition pack_int64 :: "64 word \<Rightarrow> byte list" where "pack_int64 d = pack_imp_int64 (sint d)"

definition pack_fix_uint8 :: "8 word \<Rightarrow> byte list" where "pack_fix_uint8 d = [0xcc, take8 (uint d)]"
definition pack_fix_uint16 :: "16 word \<Rightarrow> byte list" where "pack_fix_uint16 d = 0xcd # store16 (uint d)"
definition pack_fix_uint32 :: "32 word \<Rightarrow> byte list" where "pack_fix_uint32 d = 0xce # store32 (uint d)"
definition pack_fix_uint64 :: "64 word \<Rightarrow> byte list" where "pack_fix_uint64 d = 0xcf # store64 (uint d)"
definition pack_fix_int8 :: "8 word \<Rightarrow> byte list" where "pack_fix_int8 d = [0xd0, take8 (sint d)]"
definition pack_fix_int16 :: "16 word \<Rightarrow> byte list" where "pack_fix_int16 d = 0xd1 # store16 (sint d)"
definition pack_fix_int32 :: "32 word \<Rightarrow> byte list" where "pack_fix_int32 d = 0xd2 # store32 (sint d)"
definition pack_fix_int64 :: "64 word \<Rightarrow> byte list" where "pack_fix_int64 d = 0xd3 # store64 (sint d)"

text \<open>The C types, which the preprocessor or \<open>sizeof\<close> maps to widths.\<close>

definition pack_char :: "8 word \<Rightarrow> byte list" where "pack_char d = pack_imp_int8 (sint d)"
definition pack_signed_char :: "8 word \<Rightarrow> byte list" where "pack_signed_char d = pack_imp_int8 (sint d)"
definition pack_short :: "16 word \<Rightarrow> byte list" where "pack_short d = pack_imp_int16 (sint d)"
definition pack_int :: "32 word \<Rightarrow> byte list" where "pack_int d = pack_imp_int32 (sint d)"
definition pack_long :: "64 word \<Rightarrow> byte list" where "pack_long d = pack_imp_int64 (sint d)"
definition pack_long_long :: "64 word \<Rightarrow> byte list" where "pack_long_long d = pack_imp_int64 (sint d)"
definition pack_unsigned_char :: "8 word \<Rightarrow> byte list" where "pack_unsigned_char d = pack_imp_uint8 (uint d)"
definition pack_unsigned_short :: "16 word \<Rightarrow> byte list" where "pack_unsigned_short d = pack_imp_uint16 (uint d)"
definition pack_unsigned_int :: "32 word \<Rightarrow> byte list" where "pack_unsigned_int d = pack_imp_uint32 (uint d)"
definition pack_unsigned_long :: "64 word \<Rightarrow> byte list" where "pack_unsigned_long d = pack_imp_uint64 (uint d)"
definition pack_unsigned_long_long :: "64 word \<Rightarrow> byte list" where "pack_unsigned_long_long d = pack_imp_uint64 (uint d)"

subsection \<open>Other values\<close>

definition pack_float :: "32 word \<Rightarrow> byte list" where "pack_float d = 0xca # store32 (uint d)"
definition pack_double :: "64 word \<Rightarrow> byte list" where "pack_double d = 0xcb # store64 (uint d)"
definition pack_nil :: "byte list" where "pack_nil = [0xc0]"
definition pack_true :: "byte list" where "pack_true = [0xc3]"
definition pack_false :: "byte list" where "pack_false = [0xc2]"

definition pack_array :: "32 word \<Rightarrow> byte list" where
  "pack_array n =
    (if n < 16 then [0x90 OR ucast n]
     else if n < 65536 then 0xdc # store16 (uint n)
     else 0xdd # store32 (uint n))"

definition pack_map :: "32 word \<Rightarrow> byte list" where
  "pack_map n =
    (if n < 16 then [0x80 OR ucast n]
     else if n < 65536 then 0xde # store16 (uint n)
     else 0xdf # store32 (uint n))"

definition pack_str :: "32 word \<Rightarrow> byte list" where
  "pack_str l =
    (if l < 32 then [0xa0 OR ucast l]
     else if l < 256 then [0xd9, ucast l]
     else if l < 65536 then 0xda # store16 (uint l)
     else 0xdb # store32 (uint l))"

definition pack_str_body :: "byte list \<Rightarrow> 32 word \<Rightarrow> byte list" where "pack_str_body b l = take (unat l) b"

text \<open>The older raw format has no length of one byte.\<close>

definition pack_v4raw :: "32 word \<Rightarrow> byte list" where
  "pack_v4raw l =
    (if l < 32 then [0xa0 OR ucast l]
     else if l < 65536 then 0xda # store16 (uint l)
     else 0xdb # store32 (uint l))"

definition pack_v4raw_body :: "byte list \<Rightarrow> 32 word \<Rightarrow> byte list" where "pack_v4raw_body b l = take (unat l) b"

definition pack_bin :: "32 word \<Rightarrow> byte list" where
  "pack_bin l =
    (if l < 256 then [0xc4, ucast l]
     else if l < 65536 then 0xc5 # store16 (uint l)
     else 0xc6 # store32 (uint l))"

definition pack_bin_body :: "byte list \<Rightarrow> 32 word \<Rightarrow> byte list" where "pack_bin_body b l = take (unat l) b"

definition pack_ext :: "64 word \<Rightarrow> byte \<Rightarrow> byte list" where
  "pack_ext l type =
    (if l = 1 then [0xd4, type]
     else if l = 2 then [0xd5, type]
     else if l = 4 then [0xd6, type]
     else if l = 8 then [0xd7, type]
     else if l = 16 then [0xd8, type]
     else if l < 256 then [0xc7, ucast l, type]
     else if l < 65536 then 0xc8 # store16 (uint l) @ [type]
     else 0xc9 # store32 (uint l) @ [type])"

definition pack_ext_body :: "byte list \<Rightarrow> 32 word \<Rightarrow> byte list" where "pack_ext_body b l = take (unat l) b"

subsection \<open>Objects\<close>

text \<open>
  \<open>object\<close>: a string, a binary or an extension is its bytes (an extension with its type), a
  container its elements. A signed integer that is not negative is a positive integer.
\<close>

datatype object =
    NIL
  | BOOLEAN bool
  | POSITIVE_INTEGER "64 word"
  | NEGATIVE_INTEGER "64 word"
  | FLOAT32 "32 word"
  | FLOAT64 "64 word"
  | STRING "byte list"
  | BIN "byte list"
  | EXT byte "byte list"
  | ARRAY "object list"
  | MAP "(object \<times> object) list"

abbreviation size32 :: "'a list \<Rightarrow> 32 word" where
  "size32 xs \<equiv> word_of_nat (length xs)"

fun pack_object :: "object \<Rightarrow> byte list" where
  "pack_object NIL = pack_nil"
| "pack_object (BOOLEAN b) = (if b then pack_true else pack_false)"
| "pack_object (POSITIVE_INTEGER u) = pack_uint64 u"
| "pack_object (NEGATIVE_INTEGER i) = pack_int64 i"
| "pack_object (FLOAT32 f) = pack_float f"
| "pack_object (FLOAT64 f) = pack_double f"
| "pack_object (STRING s) = pack_str (size32 s) @ pack_str_body s (size32 s)"
| "pack_object (BIN s) = pack_bin (size32 s) @ pack_bin_body s (size32 s)"
| "pack_object (EXT t s) = pack_ext (ucast (size32 s)) t @ pack_ext_body s (size32 s)"
| "pack_object (ARRAY xs) = pack_array (size32 xs) @ concat (map pack_object xs)"
| "pack_object (MAP xs) = pack_map (size32 xs) @ concat (map (\<lambda>(k, v). pack_object k @ pack_object v) xs)"

subsection \<open>Facts on bytes\<close>

lemma length_store_be [simp]: "length (store_be n d) = n"
  by (induction n) auto

lemma foldl_load: "foldl (\<lambda>a b. 256 * a + uint b) a (bs :: byte list) = a * 256 ^ length bs + load_be bs"
proof (induction bs arbitrary: a)
  case (Cons b bs)
  show ?case
    using Cons.IH [of "256 * a + uint b"] Cons.IH [of "uint b"]
    by (simp add: load_be_def algebra_simps)
qed (simp add: load_be_def)

lemma load_be_simps [simp]:
  "load_be [] = 0" "load_be (b # bs) = uint b * 256 ^ length bs + load_be bs"
  using foldl_load [of "uint b" bs] by (simp_all add: load_be_def)

lemma load_store: "load_be (store_be n d) = d mod 256 ^ n"
proof (induction n)
  case (Suc n)
  have "d mod 256 ^ Suc n = 256 ^ n * (d div 256 ^ n mod 256) + d mod 256 ^ n"
    using zmod_zmult2_eq [of 256 d "256 ^ n"] by (simp add: mult.commute)
  then show ?case using Suc by (simp add: uint_word_of_int algebra_simps)
qed simp

lemma store16_eq: "store16 d = [word_of_int (d div 256), word_of_int d]"
  by (simp add: numeral_2_eq_2)

lemma load_take8: "load_be [take8 d] = d mod 256"
  by (simp add: take8_def uint_word_of_int)

end
