(* ===== verification/Unpack.thy ===== *)
theory Unpack
  imports Msgpack
begin

text \<open>
  \<open>rpclib/rpc/msgpack/v2/parse.hpp\<close> and \<open>v2/create_object_visitor.hpp\<close>: the decoder. The visitor
  fills objects through pointers into a zone; here it keeps the object at the cursor and, for each
  open container, the elements already finished, last first. All its functions return \<open>true\<close> or
  throw, so the parser never stops on its behalf. \<open>execute\<close> works on the bytes from the position
  that the next step reads, and \<open>fixed_trail_again\<close>, which only delays an increment of that
  position, has no counterpart.
\<close>

datatype unpack_exn = Parse_error | Str_overflow | Bin_overflow | Ext_overflow | Array_overflow
  | Map_overflow | Depth_overflow | Insufficient_bytes

record unpack_limit =
  lim_array :: nat
  lim_map :: nat
  lim_str :: nat
  lim_bin :: nat
  lim_ext :: nat
  lim_depth :: nat

definition default_limit :: unpack_limit where
  "default_limit = \<lparr>lim_array = 0xffffffff, lim_map = 0xffffffff, lim_str = 0xffffffff,
     lim_bin = 0xffffffff, lim_ext = 0xffffffff, lim_depth = 0xffffffff\<rparr>"

subsection \<open>The visitor\<close>

record visitor =
  cur :: object
  frames :: "object list list"

definition visitor_init :: visitor where
  "visitor_init = \<lparr>cur = NIL, frames = []\<rparr>"

definition put :: "object \<Rightarrow> visitor \<Rightarrow> visitor" where
  "put o' v = v\<lparr>cur := o'\<rparr>"

definition visit_nil :: "visitor \<Rightarrow> visitor" where "visit_nil = put NIL"
definition visit_boolean :: "bool \<Rightarrow> visitor \<Rightarrow> visitor" where "visit_boolean b = put (BOOLEAN b)"

definition visit_positive_integer :: "int \<Rightarrow> visitor \<Rightarrow> visitor" where
  "visit_positive_integer n = put (POSITIVE_INTEGER (word_of_int n))"

definition visit_negative_integer :: "int \<Rightarrow> visitor \<Rightarrow> visitor" where
  "visit_negative_integer n =
     put (if n \<ge> 0 then POSITIVE_INTEGER (word_of_int n) else NEGATIVE_INTEGER (word_of_int n))"

text \<open>A float is widened to \<open>via.f64\<close>, which loses nothing; the object keeps the bits that stand for the number
  (\<open>FloatBits\<close> reads them), so that its 32 bits can be packed again.\<close>

definition visit_float32 :: "int \<Rightarrow> visitor \<Rightarrow> visitor" where
  "visit_float32 n = put (FLOAT32 (word_of_int n))"

definition visit_float64 :: "int \<Rightarrow> visitor \<Rightarrow> visitor" where
  "visit_float64 n = put (FLOAT64 (word_of_int n))"

definition visit_str :: "unpack_limit \<Rightarrow> byte list \<Rightarrow> visitor \<Rightarrow> unpack_exn + visitor" where
  "visit_str lm s v = (if length s > lim_str lm then Inl Str_overflow else Inr (put (STRING s) v))"

definition visit_bin :: "unpack_limit \<Rightarrow> byte list \<Rightarrow> visitor \<Rightarrow> unpack_exn + visitor" where
  "visit_bin lm s v = (if length s > lim_bin lm then Inl Bin_overflow else Inr (put (BIN s) v))"

text \<open>
  The bytes of an extension are its type and its data. The size arrives in 32 bits, so that of the longest
  extension, 4294967296 with its type, arrives as 0 and passes every limit; the size in the
  object is one less in 32 bits, which is 4294967295 again. An object that refers to the data (as every
  unpacker of the repository makes it) then has all its bytes; a visitor that copies takes a block of size 0 and copies
  nothing, and what its object shows is memory behind that block, which is not modelled.
\<close>

definition visit_ext :: "unpack_limit \<Rightarrow> byte list \<Rightarrow> visitor \<Rightarrow> unpack_exn + visitor" where
  "visit_ext lm s v = (let size = length s mod 2 ^ 32 in
     if size > lim_ext lm then Inl Ext_overflow else Inr (put (EXT (hd s) (List.tl s)) v))"

definition start_array :: "unpack_limit \<Rightarrow> nat \<Rightarrow> visitor \<Rightarrow> unpack_exn + visitor" where
  "start_array lm n v = (if n > lim_array lm then Inl Array_overflow
     else if 1 + length (frames v) > lim_depth lm then Inl Depth_overflow
     else Inr (v\<lparr>frames := [] # frames v\<rparr>))"

definition end_item :: "visitor \<Rightarrow> visitor" where
  "end_item v = (case frames v of f # fs \<Rightarrow> v\<lparr>frames := (cur v # f) # fs\<rparr> | [] \<Rightarrow> v)"

definition end_array :: "visitor \<Rightarrow> visitor" where
  "end_array v = (case frames v of f # fs \<Rightarrow> \<lparr>cur = ARRAY (rev f), frames = fs\<rparr> | [] \<Rightarrow> v)"

definition start_map :: "unpack_limit \<Rightarrow> nat \<Rightarrow> visitor \<Rightarrow> unpack_exn + visitor" where
  "start_map lm n v = (if n > lim_map lm then Inl Map_overflow
     else if 1 + length (frames v) > lim_depth lm then Inl Depth_overflow
     else Inr (v\<lparr>frames := [] # frames v\<rparr>))"

fun pairs :: "'a list \<Rightarrow> ('a \<times> 'a) list" where
  "pairs (k # v # xs) = (k, v) # pairs xs"
| "pairs _ = []"

definition end_map :: "visitor \<Rightarrow> visitor" where
  "end_map v = (case frames v of f # fs \<Rightarrow> \<lparr>cur = MAP (pairs (rev f)), frames = fs\<rparr> | [] \<Rightarrow> v)"

subsection \<open>The parser\<close>

datatype container_type = CT_ARRAY_ITEM | CT_MAP_KEY | CT_MAP_VALUE
datatype parse_return = PARSE_SUCCESS | PARSE_CONTINUE | PARSE_EXTRA_BYTES

record parse_context =
  m_cs :: nat
  m_trail :: nat
  m_stack :: "(container_type \<times> nat) list"
  vis :: visitor

abbreviation CS_HEADER :: nat where "CS_HEADER \<equiv> 0"
abbreviation ACS_STR_VALUE :: nat where "ACS_STR_VALUE \<equiv> 0x20"
abbreviation ACS_BIN_VALUE :: nat where "ACS_BIN_VALUE \<equiv> 0x21"
abbreviation ACS_EXT_VALUE :: nat where "ACS_EXT_VALUE \<equiv> 0x22"

definition context_init :: parse_context where
  "context_init = \<lparr>m_cs = CS_HEADER, m_trail = 0, m_stack = [], vis = visitor_init\<rparr>"

text \<open>\<open>unpack_stack::consume\<close>; the result says whether the outermost object is complete. The counts
  on the stack are never 0.\<close>

fun consume :: "(container_type \<times> nat) list \<Rightarrow> visitor \<Rightarrow> bool \<times> (container_type \<times> nat) list \<times> visitor" where
  "consume [] v = (True, [], v)"
| "consume ((CT_ARRAY_ITEM, r) # st) v = (let v = end_item v in
     if r - 1 = 0 then consume st (end_array v) else (False, (CT_ARRAY_ITEM, r - 1) # st, v))"
| "consume ((CT_MAP_KEY, r) # st) v = (False, (CT_MAP_VALUE, r) # st, end_item v)"
| "consume ((CT_MAP_VALUE, r) # st) v = (let v = end_item v in
     if r - 1 = 0 then consume st (end_map v) else (False, (CT_MAP_KEY, r - 1) # st, v))"

definition after_visit_proc :: "parse_context \<Rightarrow> visitor \<Rightarrow> bool \<times> parse_context" where
  "after_visit_proc c v = (case consume (m_stack c) v of
     (fin, st, v) \<Rightarrow> (fin, c\<lparr>m_cs := CS_HEADER, m_stack := st, vis := v\<rparr>))"

text \<open>One outcome of a step: an exception, or whether an object is complete and the new context.\<close>

type_synonym step_result = "unpack_exn + bool \<times> parse_context"

definition visited :: "parse_context \<Rightarrow> unpack_exn + visitor \<Rightarrow> step_result" where
  "visited c r = bind_result r (\<lambda>v. Inr (after_visit_proc c v))"

definition start_aggregate :: "unpack_limit \<Rightarrow> bool \<Rightarrow> nat \<Rightarrow> parse_context \<Rightarrow> step_result" where
  "start_aggregate lm is_map n c =
     bind_result (if is_map then start_map lm n (vis c) else start_array lm n (vis c)) (\<lambda>v.
       if n = 0 then Inr (after_visit_proc c (if is_map then end_map v else end_array v))
       else Inr (False, c\<lparr>m_cs := CS_HEADER,
         m_stack := (if is_map then CT_MAP_KEY else CT_ARRAY_ITEM, n) # m_stack c, vis := v\<rparr>))"

definition trail_table :: "nat list" where
  "trail_table = [1, 2, 4, 1, 2, 4, 4, 8, 1, 2, 4, 8, 1, 2, 4, 8, 2, 3, 5, 9, 17, 1, 2, 4, 2, 4, 2, 4]"

text \<open>The byte that begins a value.\<close>

definition header_step :: "unpack_limit \<Rightarrow> parse_context \<Rightarrow> byte \<Rightarrow> step_result" where
  "header_step lm c b = (let selector = uint b in
     if selector \<le> 0x7f then visited c (Inr (visit_positive_integer (uint b) (vis c)))
     else if 0xe0 \<le> selector then visited c (Inr (visit_negative_integer (sint b) (vis c)))
     else if 0xc4 \<le> selector then
       Inr (False, c\<lparr>m_trail := trail_table ! nat (selector - 0xc4), m_cs := nat (selector mod 0x20)\<rparr>)
     else if 0xa0 \<le> selector \<and> selector \<le> 0xbf then
       (let trail = nat (selector mod 0x20) in
        if trail = 0 then visited (c\<lparr>m_trail := trail\<rparr>) (visit_str lm [] (vis c))
        else Inr (False, c\<lparr>m_trail := trail, m_cs := ACS_STR_VALUE\<rparr>))
     else if 0x90 \<le> selector \<and> selector \<le> 0x9f then start_aggregate lm False (nat (selector mod 0x10)) c
     else if 0x80 \<le> selector \<and> selector \<le> 0x8f then start_aggregate lm True (nat (selector mod 0x10)) c
     else if selector = 0xc2 then visited c (Inr (visit_boolean False (vis c)))
     else if selector = 0xc3 then visited c (Inr (visit_boolean True (vis c)))
     else if selector = 0xc0 then visited c (Inr (visit_nil (vis c)))
     else Inl Parse_error)"

text \<open>The bytes that follow it: a number;\<close>

definition load_signed :: "byte list \<Rightarrow> int" where
  "load_signed n = (let u = load_be n in if u < 2 ^ (8 * length n - 1) then u else u - 2 ^ (8 * length n))"

definition trail_number :: "nat \<Rightarrow> byte list \<Rightarrow> visitor \<Rightarrow> visitor" where
  "trail_number cs n =
    (if cs = 0x0a then visit_float32 (load_be n)
     else if cs = 0x0b then visit_float64 (load_be n)
     else if cs \<le> 0x0f then visit_positive_integer (load_be n)
     else visit_negative_integer (load_signed n))"

text \<open>the length of a string, a binary or an extension;\<close>

definition trail_size :: "unpack_limit \<Rightarrow> parse_context \<Rightarrow> byte list \<Rightarrow> step_result" where
  "trail_size lm c n = (let cs = m_cs c; size = nat (load_be n) in
     if cs \<in> {0x19, 0x1a, 0x1b} then
       (if size = 0 then visited (c\<lparr>m_trail := size\<rparr>) (visit_str lm [] (vis c))
        else Inr (False, c\<lparr>m_trail := size, m_cs := ACS_STR_VALUE\<rparr>))
     else if cs \<in> {0x04, 0x05, 0x06} then
       (if size = 0 then visited (c\<lparr>m_trail := size\<rparr>) (visit_bin lm [] (vis c))
        else Inr (False, c\<lparr>m_trail := size, m_cs := ACS_BIN_VALUE\<rparr>))
     else Inr (False, c\<lparr>m_trail := size + 1, m_cs := ACS_EXT_VALUE\<rparr>))"

text \<open>its bytes;\<close>

definition trail_value :: "unpack_limit \<Rightarrow> parse_context \<Rightarrow> byte list \<Rightarrow> step_result" where
  "trail_value lm c n =
    (if m_cs c = ACS_STR_VALUE then visited c (visit_str lm n (vis c))
     else if m_cs c = ACS_BIN_VALUE then visited c (visit_bin lm n (vis c))
     else visited c (visit_ext lm n (vis c)))"

text \<open>the size of a container.\<close>

definition trail_step :: "unpack_limit \<Rightarrow> parse_context \<Rightarrow> byte list \<Rightarrow> step_result" where
  "trail_step lm c n = (let cs = m_cs c in
     if 0x0a \<le> cs \<and> cs \<le> 0x13 then visited c (Inr (trail_number cs n (vis c)))
     else if 0x14 \<le> cs \<and> cs \<le> 0x18 then visited c (visit_ext lm n (vis c))
     else if (0x04 \<le> cs \<and> cs \<le> 0x09) \<or> (0x19 \<le> cs \<and> cs \<le> 0x1b) then trail_size lm c n
     else if 0x20 \<le> cs \<and> cs \<le> 0x22 then trail_value lm c n
     else if cs = 0x1c \<or> cs = 0x1d then start_aggregate lm False (nat (load_be n)) c
     else if cs = 0x1e \<or> cs = 0x1f then start_aggregate lm True (nat (load_be n)) c
     else Inl Parse_error)"

text \<open>
  \<open>execute\<close>: it stops when an object is complete, when the bytes are used up, or when fewer are left
  than a value needs; the context and the bytes left are where it resumes. A value never waits for
  no bytes, so the test of 0 only serves the termination proof.
\<close>

function execute :: "unpack_limit \<Rightarrow> parse_context \<Rightarrow> byte list
    \<Rightarrow> unpack_exn + parse_return \<times> parse_context \<times> byte list" where
  "execute lm c bs =
    (if m_cs c = CS_HEADER then
       (case bs of [] \<Rightarrow> Inr (PARSE_CONTINUE, c, [])
        | b # bs \<Rightarrow> bind_result (header_step lm c b) (\<lambda>(fin, c).
            if fin then Inr (PARSE_SUCCESS, c, bs) else execute lm c bs))
     else if length bs < m_trail c \<or> m_trail c = 0 then Inr (PARSE_CONTINUE, c, bs)
     else bind_result (trail_step lm c (take (m_trail c) bs)) (\<lambda>(fin, c').
       if fin then Inr (PARSE_SUCCESS, c', drop (m_trail c) bs) else execute lm c' (drop (m_trail c) bs)))"
  by pat_completeness auto

termination
  by (relation "measure (\<lambda>(_, _, bs). length bs)") (auto simp: bind_result_def)

text \<open>\<open>parse_imp\<close> and \<open>unpack\<close>: one object from the front of the data, with the number of bytes used.\<close>

definition parse_imp :: "unpack_limit \<Rightarrow> byte list \<Rightarrow> unpack_exn + parse_return \<times> object \<times> nat" where
  "parse_imp lm data =
    (if data = [] then Inl Insufficient_bytes
     else bind_result (execute lm context_init data) (\<lambda>(ret, c, rest).
       case ret of
         PARSE_SUCCESS \<Rightarrow> Inr (if rest \<noteq> [] then PARSE_EXTRA_BYTES else PARSE_SUCCESS, cur (vis c),
           length data - length rest)
       | _ \<Rightarrow> Inl Insufficient_bytes))"

declare execute.simps [simp del]

subsection \<open>Reading what was packed\<close>

text \<open>What a context does when an object has been read: \<open>consume\<close> passes it to the open containers.\<close>

definition resume :: "unpack_limit \<Rightarrow> parse_context \<Rightarrow> byte list
    \<Rightarrow> unpack_exn + parse_return \<times> parse_context \<times> byte list" where
  "resume lm c bs = (let (fin, st, v) = consume (m_stack c) (vis c);
       c' = c\<lparr>m_cs := CS_HEADER, m_stack := st, vis := v\<rparr>
     in if fin then Inr (PARSE_SUCCESS, c', bs) else execute lm c' bs)"

text \<open>\<open>c\<close> reads \<open>o'\<close> from the front of \<open>bs\<close> and has \<open>rest\<close> left.\<close>

definition reads :: "unpack_limit \<Rightarrow> parse_context \<Rightarrow> byte list \<Rightarrow> object \<Rightarrow> byte list \<Rightarrow> bool" where
  "reads lm c bs o' rest \<longleftrightarrow> (\<exists>t. execute lm c bs = resume lm (c\<lparr>m_trail := t, vis := put o' (vis c)\<rparr>) rest)"

lemma resume_visited:
  "(case after_visit_proc c v of (fin, c) \<Rightarrow> if fin then Inr (PARSE_SUCCESS, c, bs) else execute lm c bs)
    = resume lm (c\<lparr>vis := v\<rparr>) bs"
  by (simp add: after_visit_proc_def resume_def split: prod.splits)

lemma execute_header:
  assumes "m_cs c = CS_HEADER"
  shows "execute lm c (b # bs) = bind_result (header_step lm c b) (\<lambda>(fin, c).
    if fin then Inr (PARSE_SUCCESS, c, bs) else execute lm c bs)"
  using assms by (subst execute.simps) simp

lemma execute_trail:
  assumes "m_cs c \<noteq> CS_HEADER" "length n = m_trail c" "n \<noteq> []"
  shows "execute lm c (n @ bs) = bind_result (trail_step lm c n) (\<lambda>(fin, c').
    if fin then Inr (PARSE_SUCCESS, c', bs) else execute lm c' bs)"
proof -
  have m: "m_trail c = length n" using assms(2) by simp
  have "0 < length n" using assms(3) by simp
  moreover have "drop (m_trail c) (n @ bs) = bs" "take (m_trail c) (n @ bs) = n"
    "\<not> length (n @ bs) < m_trail c" using m by simp_all
  ultimately show ?thesis using assms(1) m by (subst execute.simps) (simp only: if_False, simp)
qed

text \<open>A value of one byte, and a value of one byte and a fixed number of others.\<close>

lemma reads_header:
  assumes "m_cs c = CS_HEADER" "header_step lm c b = visited c (Inr (put o' (vis c)))"
  shows "reads lm c (b # rest) o' rest"
proof -
  have "execute lm c (b # rest) = resume lm (c\<lparr>m_trail := m_trail c, vis := put o' (vis c)\<rparr>) rest"
    by (simp add: execute_header [OF assms(1)] assms(2) visited_def resume_visited)
  then show ?thesis unfolding reads_def by blast
qed

lemma tag_step:
  assumes "uint b = int cs + 0xc0" "4 \<le> cs" "cs \<le> 0x1f"
  shows "header_step lm c b = Inr (False, c\<lparr>m_trail := trail_table ! (cs - 4), m_cs := cs\<rparr>)"
proof -
  have "nat (int cs + 0xc0 - 0xc4) = cs - 4" using assms(2,3) by simp
  moreover have "(int cs + 6 * 0x20) mod 0x20 = int cs"
    using assms(3) by (simp only: mod_mult_self1) (rule mod_pos_pos_trivial, simp_all)
  then have "nat ((int cs + 0xc0) mod 0x20) = cs" by simp
  ultimately show ?thesis using assms by (simp add: header_step_def Let_def)
qed

lemma reads_tag:
  assumes c: "m_cs c = CS_HEADER" and b: "uint b = int cs + 0xc0" "4 \<le> cs" "cs \<le> 0x1f"
    and n: "length n = trail_table ! (cs - 4)" "n \<noteq> []"
    and st: "\<And>c'. m_cs c' = cs \<Longrightarrow> trail_step lm c' n = visited c' (Inr (put o' (vis c')))"
  shows "reads lm c (b # n @ rest) o' rest"
proof -
  let ?c = "c\<lparr>m_trail := length n, m_cs := cs\<rparr>"
  have cs: "m_cs ?c \<noteq> CS_HEADER" using b(2) by simp
  have "execute lm c (b # n @ rest) = execute lm ?c (n @ rest)"
    by (simp add: execute_header [OF c] tag_step [OF b] n)
  also have "\<dots> = resume lm (?c\<lparr>vis := put o' (vis c)\<rparr>) rest"
    using n(2) by (simp add: execute_trail [OF cs] st visited_def resume_visited)
  also have "\<dots> = resume lm (c\<lparr>m_trail := length n, vis := put o' (vis c)\<rparr>) rest"
    by (simp add: resume_def)
  finally show ?thesis unfolding reads_def by blast
qed

text \<open>A value whose length comes first.\<close>

lemma reads_value:
  assumes cs: "m_cs c = cs" "cs \<in> {ACS_STR_VALUE, ACS_BIN_VALUE, ACS_EXT_VALUE}"
    and n: "length n = m_trail c" "n \<noteq> []"
    and st: "trail_value lm c n = visited c (Inr (put o' (vis c)))"
  shows "execute lm c (n @ rest) = resume lm (c\<lparr>vis := put o' (vis c)\<rparr>) rest"
proof -
  have "cs = 0x20 \<or> cs = 0x21 \<or> cs = 0x22" using cs(2) by simp
  then have "trail_step lm c n = trail_value lm c n"
    by (elim disjE) (simp_all add: trail_step_def cs(1))
  moreover have "m_cs c \<noteq> CS_HEADER" using cs by auto
  ultimately show ?thesis using n by (simp add: execute_trail st visited_def resume_visited)
qed

lemma load_signed_store:
  assumes "- (2 ^ (8 * n - 1)) \<le> d" "d < 2 ^ (8 * n - 1)" "0 < n"
  shows "load_signed (store_be n d) = d"
proof -
  have p: "(2 :: int) ^ (8 * n) = 2 * 2 ^ (8 * n - 1)" using assms(3)
    by (metis Suc_pred' nat_0_less_mult_iff power_Suc zero_less_numeral)
  have l: "load_be (store_be n d) = d mod 2 ^ (8 * n)" by (simp add: load_store power_mult)
  show ?thesis
  proof (cases "d < 0")
    case True
    then have "d mod 2 ^ (8 * n) = d + 2 ^ (8 * n)"
      using assms p by (intro mod_pos_pos_trivial [of "d + 2 ^ (8 * n)" "2 ^ (8 * n)", simplified]) auto
    then show ?thesis using True assms p by (simp add: load_signed_def Let_def l)
  next
    case False
    then have "d mod 2 ^ (8 * n) = d" using assms p by (intro mod_pos_pos_trivial) auto
    then show ?thesis using False assms p by (simp add: load_signed_def Let_def l)
  qed
qed

lemma load_unsigned_store:
  assumes "0 \<le> d" "d < 2 ^ (8 * n)"
  shows "load_be (store_be n d) = d"
  using assms by (simp add: load_store power_mult)

subsubsection \<open>Numbers\<close>

lemma reads_positive:
  assumes "m_cs c = CS_HEADER" "uint b = int cs + 0xc0" "0x0c \<le> cs" "cs \<le> 0x0f"
    and "length n = trail_table ! (cs - 4)" "n \<noteq> []" "load_be n = d"
  shows "reads lm c (b # n @ rest) (POSITIVE_INTEGER (word_of_int d)) rest"
proof (rule reads_tag [OF assms(1,2) _ _ assms(5,6)])
  fix c' :: parse_context
  assume "m_cs c' = cs"
  then show "trail_step lm c' n = visited c' (Inr (put (POSITIVE_INTEGER (word_of_int d)) (vis c')))"
    using assms(3,4,7) by (simp add: trail_step_def trail_number_def visit_positive_integer_def)
qed (use assms in auto)

lemma reads_negative:
  assumes "m_cs c = CS_HEADER" "uint b = int cs + 0xc0" "0x10 \<le> cs" "cs \<le> 0x13"
    and "length n = trail_table ! (cs - 4)" "n \<noteq> []" "load_signed n = d" "d < 0"
  shows "reads lm c (b # n @ rest) (NEGATIVE_INTEGER (word_of_int d)) rest"
proof (rule reads_tag [OF assms(1,2) _ _ assms(5,6)])
  fix c' :: parse_context
  assume "m_cs c' = cs"
  then show "trail_step lm c' n = visited c' (Inr (put (NEGATIVE_INTEGER (word_of_int d)) (vis c')))"
    using assms(3,4,7,8) by (simp add: trail_step_def trail_number_def visit_negative_integer_def)
qed (use assms in auto)

lemma store_neq_Nil [simp]: "0 < n \<Longrightarrow> store_be n d \<noteq> []"
  by (cases n) auto

lemma reads_uint64:
  assumes c: "m_cs c = CS_HEADER" and d: "0 \<le> d" "d < 2 ^ 64"
  shows "reads lm c (pack_imp_uint64 d @ rest) (POSITIVE_INTEGER (word_of_int d)) rest"
proof -
  consider "d < 128" | "128 \<le> d" "d < 256" | "256 \<le> d" "d < 65536" | "65536 \<le> d" "d < 4294967296"
    | "4294967296 \<le> d" by linarith
  then show ?thesis
  proof cases
    case 1
    have "uint (take8 d) = d" using d 1 by (simp add: take8_def uint_word_of_int)
    then have "header_step lm c (take8 d) = visited c (Inr (put (POSITIVE_INTEGER (word_of_int d)) (vis c)))"
      using 1 by (simp add: header_step_def visit_positive_integer_def)
    then show ?thesis using 1 reads_header [OF c] by (simp add: pack_imp_uint64_def)
  next
    case 2
    have "load_be [take8 d] = d" using d 2 by (simp add: load_take8 del: load_be_simps)
    then show ?thesis using 2 reads_positive [OF c, of "0xcc" "0x0c" "[take8 d]"]
      by (simp add: pack_imp_uint64_def trail_table_def)
  next
    case 3
    have "load_be (store16 d) = d" using d 3 by (intro load_unsigned_store) simp_all
    then show ?thesis using 3 reads_positive [OF c, of "0xcd" "0x0d" "store16 d"]
      by (simp add: pack_imp_uint64_def trail_table_def)
  next
    case 4
    have "load_be (store32 d) = d" using d 4 by (intro load_unsigned_store) simp_all
    then show ?thesis using 4 reads_positive [OF c, of "0xce" "0x0e" "store32 d"]
      by (simp add: pack_imp_uint64_def trail_table_def)
  next
    case 5
    have "load_be (store64 d) = d" using d 5 by (intro load_unsigned_store) simp_all
    then show ?thesis using 5 reads_positive [OF c, of "0xcf" "0x0f" "store64 d"]
      by (simp add: pack_imp_uint64_def trail_table_def)
  qed
qed

lemma reads_int64:
  assumes c: "m_cs c = CS_HEADER" and d: "- (2 ^ 63) \<le> d" "d < 0"
  shows "reads lm c (pack_imp_int64 d @ rest) (NEGATIVE_INTEGER (word_of_int d)) rest"
proof -
  consider "- 32 \<le> d" | "d < - 32" "- 128 \<le> d" | "d < - 128" "- 32768 \<le> d"
    | "d < - 32768" "- 2147483648 \<le> d" | "d < - 2147483648" by linarith
  then show ?thesis
  proof cases
    case 1
    have "sint (take8 d) = d" using d 1 by (simp add: take8_def sint_sbintrunc' signed_take_bit_int_eq_self)
    moreover have "uint (take8 d) = d + 256"
      using d 1 mod_pos_pos_trivial [of "d + 256" 256] by (simp add: take8_def uint_word_of_int)
    ultimately have "header_step lm c (take8 d) = visited c (Inr (put (NEGATIVE_INTEGER (word_of_int d)) (vis c)))"
      using 1 d by (simp add: header_step_def visit_negative_integer_def)
    then show ?thesis using 1 d reads_header [OF c] by (simp add: pack_imp_int64_def)
  next
    case 2
    have "load_signed (store_be 1 d) = d" using d 2 by (intro load_signed_store) simp_all
    then have "load_signed [take8 d] = d" by (simp add: take8_def)
    then show ?thesis using 2 d reads_negative [OF c, of "0xd0" "0x10" "[take8 d]"]
      by (simp add: pack_imp_int64_def trail_table_def)
  next
    case 3
    have "load_signed (store16 d) = d" using d 3 by (intro load_signed_store) simp_all
    then show ?thesis using 3 d reads_negative [OF c, of "0xd1" "0x11" "store16 d"]
      by (simp add: pack_imp_int64_def trail_table_def)
  next
    case 4
    have "load_signed (store32 d) = d" using d 4 by (intro load_signed_store) simp_all
    then show ?thesis using 4 d reads_negative [OF c, of "0xd2" "0x12" "store32 d"]
      by (simp add: pack_imp_int64_def trail_table_def)
  next
    case 5
    have "load_signed (store64 d) = d" using d 5 by (intro load_signed_store) simp_all
    then show ?thesis using 5 d reads_negative [OF c, of "0xd3" "0x13" "store64 d"]
      by (simp add: pack_imp_int64_def trail_table_def)
  qed
qed

lemma reads_float:
  assumes "m_cs c = CS_HEADER"
  shows "reads lm c (pack_float f @ rest) (FLOAT32 f) rest" "reads lm c (pack_double g @ rest) (FLOAT64 g) rest"
proof -
  have "load_be (store32 (uint f)) = uint f" "load_be (store64 (uint g)) = uint g"
    using uint_lt2p [of f] uint_lt2p [of g] by (simp_all add: load_unsigned_store)
  then show "reads lm c (pack_float f @ rest) (FLOAT32 f) rest" "reads lm c (pack_double g @ rest) (FLOAT64 g) rest"
    using reads_tag [OF assms, of "0xca" "0x0a" "store32 (uint f)" lm "FLOAT32 f" rest]
      reads_tag [OF assms, of "0xcb" "0x0b" "store64 (uint g)" lm "FLOAT64 g" rest]
    by (simp_all add: pack_float_def pack_double_def trail_table_def trail_step_def trail_number_def
        visit_float32_def visit_float64_def)
qed

subsubsection \<open>Strings, binaries and extensions\<close>

lemma size32_simps:
  assumes "length s < 2 ^ 32"
  shows "unat (size32 s) = length s" "uint (size32 s) = int (length s)"
    "(ucast (size32 s) :: byte) = word_of_nat (length s)"
    "(ucast (size32 s) :: 64 word) = word_of_nat (length s)"
    "unat (word_of_nat (length s) :: 64 word) = length s"
    "size32 s < k \<longleftrightarrow> length s < unat k"
  using assms by (simp_all add: unat_of_nat uint_nat unsigned_of_nat take_bit_nat_eq_self word_less_nat_alt)

lemma tag_or:
  "n < 32 \<Longrightarrow> uint (0xa0 OR (word_of_nat n :: byte)) = 160 + int n"
  "n < 16 \<Longrightarrow> uint (0x90 OR (word_of_nat n :: byte)) = 144 + int n"
  "n < 16 \<Longrightarrow> uint (0x80 OR (word_of_nat n :: byte)) = 128 + int n"
proof -
  have "list_all (\<lambda>n. uint (0xa0 OR (word_of_nat n :: byte)) = 160 + int n) [0..<32]"
    "list_all (\<lambda>n. uint (0x90 OR (word_of_nat n :: byte)) = 144 + int n) [0..<16]"
    "list_all (\<lambda>n. uint (0x80 OR (word_of_nat n :: byte)) = 128 + int n) [0..<16]"
    by code_simp+
  then show "n < 32 \<Longrightarrow> uint (0xa0 OR (word_of_nat n :: byte)) = 160 + int n"
    "n < 16 \<Longrightarrow> uint (0x90 OR (word_of_nat n :: byte)) = 144 + int n"
    "n < 16 \<Longrightarrow> uint (0x80 OR (word_of_nat n :: byte)) = 128 + int n"
    by (auto simp: list_all_iff)
qed

lemma low_nibble: "n < 16 \<Longrightarrow> nat ((128 + int n) mod 16) = n" "n < 16 \<Longrightarrow> nat ((144 + int n) mod 16) = n"
  using mod_add_eq [of 128 16 "int n"] mod_add_eq [of 144 16 "int n"] by simp_all

lemma load_len: "n < 256 ^ k \<Longrightarrow> load_be (store_be k (int n)) = int n"
  by (simp add: load_store)

lemma load_len8: "n < 256 \<Longrightarrow> load_be [word_of_nat n] = int n"
  by (simp add: unsigned_of_nat take_bit_nat_eq_self flip: of_nat_take_bit)

text \<open>After a tag and a length the context waits for the bytes.\<close>

lemma sized_tag:
  assumes c: "m_cs c = CS_HEADER" and b: "uint b = int cs + 0xc0" "4 \<le> cs" "cs \<le> 0x1f"
    and n: "length n = trail_table ! (cs - 4)" "n \<noteq> []"
    and st: "\<And>c'. m_cs c' = cs \<Longrightarrow> trail_step lm c' n = Inr (False, c'\<lparr>m_trail := k, m_cs := acs\<rparr>)"
  shows "execute lm c (b # n @ bs) = execute lm (c\<lparr>m_trail := k, m_cs := acs\<rparr>) bs"
proof -
  let ?c = "c\<lparr>m_trail := length n, m_cs := cs\<rparr>"
  have cs: "m_cs ?c \<noteq> CS_HEADER" using b(2) by simp
  have "execute lm c (b # n @ bs) = execute lm ?c (n @ bs)"
    by (simp add: execute_header [OF c] tag_step [OF b] n)
  also have "\<dots> = execute lm (c\<lparr>m_trail := k, m_cs := acs\<rparr>) bs"
    using n(2) by (simp add: execute_trail [OF cs] st)
  finally show ?thesis .
qed

lemma reads_waiting:
  assumes "execute lm c bs = execute lm (c\<lparr>m_trail := length n, m_cs := acs\<rparr>) (n @ rest)"
    and "acs \<in> {ACS_STR_VALUE, ACS_BIN_VALUE, ACS_EXT_VALUE}" "n \<noteq> []"
    and "\<And>c'. m_cs c' = acs \<Longrightarrow> trail_value lm c' n = visited c' (Inr (put o' (vis c')))"
  shows "reads lm c bs o' rest"
proof -
  let ?c = "c\<lparr>m_trail := length n, m_cs := acs\<rparr>"
  have "execute lm ?c (n @ rest) = resume lm (?c\<lparr>vis := put o' (vis ?c)\<rparr>) rest"
    by (rule reads_value [where cs = acs]) (use assms in auto)
  also have "\<dots> = resume lm (c\<lparr>m_trail := length n, vis := put o' (vis c)\<rparr>) rest"
    by (simp add: resume_def)
  finally show ?thesis using assms(1) unfolding reads_def by metis
qed

lemma trail_values:
  "m_cs c = ACS_STR_VALUE \<Longrightarrow> length s \<le> lim_str lm \<Longrightarrow> trail_value lm c s = visited c (Inr (put (STRING s) (vis c)))"
  "m_cs c = ACS_BIN_VALUE \<Longrightarrow> length s \<le> lim_bin lm \<Longrightarrow> trail_value lm c s = visited c (Inr (put (BIN s) (vis c)))"
  "m_cs c = ACS_EXT_VALUE \<Longrightarrow> length s + 1 \<le> lim_ext lm \<Longrightarrow> length s + 1 < 2 ^ 32 \<Longrightarrow>
     trail_value lm c (t # s) = visited c (Inr (put (EXT t s) (vis c)))"
  by (simp_all add: trail_value_def visit_str_def visit_bin_def visit_ext_def)

lemma reads_string:
  assumes c: "m_cs c = CS_HEADER" and s: "length s < 2 ^ 32" "length s \<le> lim_str lm"
  shows "reads lm c (pack_object (STRING s) @ rest) (STRING s) rest"
proof -
  let ?n = "length s"
  note w = size32_simps [OF s(1)]
  have p: "pack_object (STRING s) = pack_str (size32 s) @ s" by (simp add: pack_str_body_def w)
  consider "?n = 0" | "0 < ?n" "?n < 32" | "32 \<le> ?n" "?n < 256" | "256 \<le> ?n" "?n < 65536" | "65536 \<le> ?n" by linarith
  then show ?thesis
  proof cases
    case 1
    have "execute lm c (0xa0 # rest) = resume lm (c\<lparr>m_trail := 0, vis := put (STRING []) (vis c)\<rparr>) rest"
      by (simp add: execute_header [OF c] header_step_def visit_str_def visited_def resume_visited)
    then show ?thesis using 1 p unfolding reads_def by (auto simp: pack_str_def)
  next
    case 2
    have "execute lm c ((0xa0 OR word_of_nat ?n) # s @ rest) = execute lm (c\<lparr>m_trail := ?n, m_cs := ACS_STR_VALUE\<rparr>) (s @ rest)"
      using 2 by (simp add: execute_header [OF c] header_step_def tag_or nat_add_distrib mod_add_left_eq [symmetric])
    then show ?thesis unfolding p using 2 trail_values(1) s(2)
      by (intro reads_waiting [where n = s and acs = ACS_STR_VALUE]) (auto simp: pack_str_def w)
  next
    case 3
    then have "execute lm c (0xd9 # [word_of_nat ?n] @ s @ rest) = execute lm (c\<lparr>m_trail := ?n, m_cs := ACS_STR_VALUE\<rparr>) (s @ rest)"
      by (intro sized_tag [OF c, where cs = "0x19"])
        (auto simp: trail_table_def trail_step_def trail_size_def Let_def load_len8 simp del: load_be_simps)
    then show ?thesis unfolding p using 3 trail_values(1) s(2)
      by (intro reads_waiting [where n = s and acs = ACS_STR_VALUE]) (auto simp: pack_str_def w)
  next
    case 4
    then have "execute lm c (0xda # store16 (int ?n) @ s @ rest) = execute lm (c\<lparr>m_trail := ?n, m_cs := ACS_STR_VALUE\<rparr>) (s @ rest)"
      by (intro sized_tag [OF c, where cs = "0x1a"])
        (auto simp: trail_table_def trail_step_def trail_size_def Let_def load_len)
    then show ?thesis unfolding p using 4 trail_values(1) s(2)
      by (intro reads_waiting [where n = s and acs = ACS_STR_VALUE]) (auto simp: pack_str_def w)
  next
    case 5
    then have "execute lm c (0xdb # store32 (int ?n) @ s @ rest) = execute lm (c\<lparr>m_trail := ?n, m_cs := ACS_STR_VALUE\<rparr>) (s @ rest)"
      using s(1) by (intro sized_tag [OF c, where cs = "0x1b"])
        (auto simp: trail_table_def trail_step_def trail_size_def Let_def load_len)
    then show ?thesis unfolding p using 5 trail_values(1) s(2)
      by (intro reads_waiting [where n = s and acs = ACS_STR_VALUE]) (auto simp: pack_str_def w)
  qed
qed

lemma reads_binary:
  assumes c: "m_cs c = CS_HEADER" and s: "length s < 2 ^ 32" "length s \<le> lim_bin lm"
  shows "reads lm c (pack_object (BIN s) @ rest) (BIN s) rest"
proof -
  let ?n = "length s"
  note w = size32_simps [OF s(1)]
  have p: "pack_object (BIN s) = pack_bin (size32 s) @ s" by (simp add: pack_bin_body_def w)
  consider "?n = 0" | "0 < ?n" "?n < 256" | "256 \<le> ?n" "?n < 65536" | "65536 \<le> ?n" by linarith
  then show ?thesis
  proof cases
    case 1
    have "reads lm c (0xc4 # [0] @ rest) (BIN []) rest"
    proof -
      have t: "trail_step lm c' [0] = visited (c'\<lparr>m_trail := 0\<rparr>) (Inr (put (BIN []) (vis c')))" if "m_cs c' = 4" for c'
        using that by (simp add: trail_step_def trail_size_def visit_bin_def)
      let ?c = "c\<lparr>m_trail := 1, m_cs := 4\<rparr>"
      have "execute lm c (0xc4 # [0] @ rest) = execute lm ?c ([0] @ rest)"
        by (simp add: execute_header [OF c] tag_step [of _ 4] trail_table_def)
      also have "\<dots> = resume lm (?c\<lparr>m_trail := 0, vis := put (BIN []) (vis c)\<rparr>) rest"
        by (subst execute_trail) (simp_all add: t visited_def resume_visited)
      also have "\<dots> = resume lm (c\<lparr>m_trail := 0, vis := put (BIN []) (vis c)\<rparr>) rest"
        by (simp add: resume_def)
      finally show ?thesis unfolding reads_def by blast
    qed
    then show ?thesis using 1 p by (simp add: pack_bin_def)
  next
    case 2
    then have "execute lm c (0xc4 # [word_of_nat ?n] @ s @ rest) = execute lm (c\<lparr>m_trail := ?n, m_cs := ACS_BIN_VALUE\<rparr>) (s @ rest)"
      by (intro sized_tag [OF c, where cs = 4])
        (auto simp: trail_table_def trail_step_def trail_size_def Let_def load_len8 simp del: load_be_simps)
    then show ?thesis unfolding p using 2 trail_values(2) s(2)
      by (intro reads_waiting [where n = s and acs = ACS_BIN_VALUE]) (auto simp: pack_bin_def w)
  next
    case 3
    then have "execute lm c (0xc5 # store16 (int ?n) @ s @ rest) = execute lm (c\<lparr>m_trail := ?n, m_cs := ACS_BIN_VALUE\<rparr>) (s @ rest)"
      by (intro sized_tag [OF c, where cs = 5])
        (auto simp: trail_table_def trail_step_def trail_size_def Let_def load_len)
    then show ?thesis unfolding p using 3 trail_values(2) s(2)
      by (intro reads_waiting [where n = s and acs = ACS_BIN_VALUE]) (auto simp: pack_bin_def w)
  next
    case 4
    then have "execute lm c (0xc6 # store32 (int ?n) @ s @ rest) = execute lm (c\<lparr>m_trail := ?n, m_cs := ACS_BIN_VALUE\<rparr>) (s @ rest)"
      using s(1) by (intro sized_tag [OF c, where cs = 6])
        (auto simp: trail_table_def trail_step_def trail_size_def Let_def load_len)
    then show ?thesis unfolding p using 4 trail_values(2) s(2)
      by (intro reads_waiting [where n = s and acs = ACS_BIN_VALUE]) (auto simp: pack_bin_def w)
  qed
qed

lemma reads_ext:
  assumes c: "m_cs c = CS_HEADER" and s: "length s + 1 < 2 ^ 32" "length s + 1 \<le> lim_ext lm"
  shows "reads lm c (pack_object (EXT t s) @ rest) (EXT t s) rest"
proof -
  let ?n = "length s"
  have l32: "?n < 2 ^ 32" using s(1) by simp
  note w = size32_simps [OF l32]
  have p: "pack_object (EXT t s) = pack_ext (word_of_nat ?n) t @ s" by (simp add: pack_ext_body_def w)
  have eq: "(word_of_nat ?n :: 64 word) = k \<longleftrightarrow> ?n = unat k" for k :: "64 word"
    using w(5) by (auto simp: word_unat_eq_iff)
  have less: "(word_of_nat ?n :: 64 word) < k \<longleftrightarrow> ?n < unat k" for k :: "64 word"
    using w(5) by (simp add: word_less_nat_alt)
  have u: "uint (word_of_nat ?n :: 64 word) = int ?n" using w(5) by (simp add: uint_nat)
  have b: "(ucast (word_of_nat ?n :: 64 word) :: byte) = word_of_nat ?n"
    using l32 by (simp add: unsigned_of_nat take_bit_nat_eq_self)
  note simps = pack_ext_def eq less u b
  have fixed: "reads lm c (tag # (t # s) @ rest) (EXT t s) rest"
    if "uint tag = int cs + 0xc0" "0x14 \<le> cs" "cs \<le> 0x18" "?n + 1 = trail_table ! (cs - 4)" for tag cs
  proof (rule reads_tag [OF c that(1)])
    fix c' :: parse_context
    assume "m_cs c' = cs"
    then show "trail_step lm c' (t # s) = visited c' (Inr (put (EXT t s) (vis c')))"
      using that s by (simp add: trail_step_def visit_ext_def)
  qed (use that in simp_all)
  have sized: "reads lm c (tag # sz @ (t # s) @ rest) (EXT t s) rest"
    if "uint tag = int cs + 0xc0" "7 \<le> cs" "cs \<le> 9" "length sz = trail_table ! (cs - 4)" "sz \<noteq> []" "load_be sz = int ?n" for tag cs sz
  proof (rule reads_waiting [where n = "t # s" and acs = ACS_EXT_VALUE])
    have st: "m_cs c' = cs \<Longrightarrow> trail_step lm c' sz = Inr (False, c'\<lparr>m_trail := length (t # s), m_cs := ACS_EXT_VALUE\<rparr>)"
      for c' :: parse_context
      using that(2,3,6) by (simp add: trail_step_def trail_size_def Let_def)
    show "execute lm c (tag # sz @ (t # s) @ rest) = execute lm (c\<lparr>m_trail := length (t # s), m_cs := ACS_EXT_VALUE\<rparr>) ((t # s) @ rest)"
      by (rule sized_tag [OF c that(1) _ _ that(4,5) st]) (use that in simp_all)
  qed (use s trail_values(3) in auto)
  consider "?n = 1" | "?n = 2" | "?n = 4" | "?n = 8" | "?n = 16" | "?n \<notin> {1, 2, 4, 8, 16}" "?n < 256"
    | "?n \<notin> {1, 2, 4, 8, 16}" "256 \<le> ?n" "?n < 65536" | "?n \<notin> {1, 2, 4, 8, 16}" "65536 \<le> ?n" by fastforce
  then show ?thesis
  proof cases
    case 6
    then show ?thesis unfolding p using sized [of "0xc7" 7 "[word_of_nat ?n]"] load_len8 [of ?n]
      by (simp add: simps trail_table_def del: load_be_simps)
  next
    case 7
    then show ?thesis unfolding p using sized [of "0xc8" 8 "store16 (int ?n)"] load_len [of ?n 2]
      by (simp add: simps trail_table_def)
  next
    case 8
    then show ?thesis unfolding p using sized [of "0xc9" 9 "store32 (int ?n)"] load_len [of ?n 4] l32
      by (simp add: simps trail_table_def)
  qed (use fixed [of "0xd4" "0x14"] fixed [of "0xd5" "0x15"] fixed [of "0xd6" "0x16"] fixed [of "0xd7" "0x17"]
      fixed [of "0xd8" "0x18"] in \<open>simp_all add: p simps trail_table_def del: pack_object.simps\<close>)
qed

subsubsection \<open>Containers\<close>

text \<open>What fits the limits, inside \<open>d\<close> open containers.\<close>

fun fits :: "unpack_limit \<Rightarrow> nat \<Rightarrow> object \<Rightarrow> bool" where
  "fits lm d (NEGATIVE_INTEGER i) = (sint i < 0)"
| "fits lm d (STRING s) = (length s < 2 ^ 32 \<and> length s \<le> lim_str lm)"
| "fits lm d (BIN s) = (length s < 2 ^ 32 \<and> length s \<le> lim_bin lm)"
| "fits lm d (EXT t s) = (length s + 1 < 2 ^ 32 \<and> length s + 1 \<le> lim_ext lm)"
| "fits lm d (ARRAY xs) = (length xs < 2 ^ 32 \<and> length xs \<le> lim_array lm \<and> d < lim_depth lm
     \<and> list_all (fits lm (Suc d)) xs)"
| "fits lm d (MAP xs) = (length xs < 2 ^ 32 \<and> length xs \<le> lim_map lm \<and> d < lim_depth lm
     \<and> list_all (\<lambda>(k, v). fits lm (Suc d) k \<and> fits lm (Suc d) v) xs)"
| "fits lm d _ = True"

text \<open>The header of a container leads to the context that waits for its elements.\<close>

definition opened :: "bool \<Rightarrow> nat \<Rightarrow> parse_context \<Rightarrow> parse_context" where
  "opened is_map n c = c\<lparr>m_cs := CS_HEADER, m_stack := (if is_map then CT_MAP_KEY else CT_ARRAY_ITEM, n) # m_stack c,
     vis := (vis c)\<lparr>frames := [] # frames (vis c)\<rparr>\<rparr>"

definition pack_header :: "bool \<Rightarrow> nat \<Rightarrow> byte list" where
  "pack_header is_map n = (if is_map then pack_map (word_of_nat n) else pack_array (word_of_nat n))"

lemma start_aggregate_opened:
  assumes "0 < n" "n \<le> (if m then lim_map lm else lim_array lm)" "length (frames (vis c)) < lim_depth lm"
  shows "start_aggregate lm m n c = Inr (False, opened m n c)"
  using assms by (cases m) (simp_all add: start_aggregate_def start_map_def start_array_def opened_def)

lemma start_aggregate_empty:
  assumes "length (frames (vis c)) < lim_depth lm"
  shows "start_aggregate lm m 0 c = visited c (Inr (put (if m then MAP [] else ARRAY []) (vis c)))"
  using assms
  by (cases m; cases "vis c")
    (simp_all add: start_aggregate_def start_map_def start_array_def visited_def put_def end_map_def end_array_def)

lemma execute_container:
  assumes c: "m_cs c = CS_HEADER" and n: "n < 2 ^ 32"
  shows "\<exists>t. execute lm c (pack_header m n @ rest) = bind_result (start_aggregate lm m n (c\<lparr>m_trail := t\<rparr>))
    (\<lambda>(fin, c). if fin then Inr (PARSE_SUCCESS, c, rest) else execute lm c rest)"
proof -
  have w: "(word_of_nat n :: 32 word) < k \<longleftrightarrow> n < unat k" for k :: "32 word"
    using n by (simp add: word_less_nat_alt unat_of_nat)
  have u: "uint (word_of_nat n :: 32 word) = int n" "(ucast (word_of_nat n :: 32 word) :: byte) = word_of_nat n"
    using n by (simp_all add: uint_nat unat_of_nat unsigned_of_nat take_bit_nat_eq_self)
  have agg: "start_aggregate lm m n (c\<lparr>m_trail := k, m_cs := cs\<rparr>) = start_aggregate lm m n (c\<lparr>m_trail := k\<rparr>)" for k cs
    by (cases m; cases "start_map lm n (vis c)"; cases "start_array lm n (vis c)"; cases "n = 0")
      (simp_all add: start_aggregate_def after_visit_proc_def split: prod.splits)
  have tag: "\<exists>t. execute lm c (b # sz @ rest) = bind_result (start_aggregate lm m n (c\<lparr>m_trail := t\<rparr>))
    (\<lambda>(fin, c). if fin then Inr (PARSE_SUCCESS, c, rest) else execute lm c rest)"
    if "uint b = int cs + 0xc0" "cs = (if m then 0x1e else 0x1c) \<or> cs = (if m then 0x1f else 0x1d)"
      "length sz = trail_table ! (cs - 4)" "sz \<noteq> []" "load_be sz = int n" for b cs sz
  proof -
    let ?c = "c\<lparr>m_trail := length sz, m_cs := cs\<rparr>"
    have cs: "4 \<le> cs" "cs \<le> 0x1f" "m_cs ?c \<noteq> CS_HEADER" using that(2) by (auto split: if_splits)
    have "trail_step lm ?c sz = start_aggregate lm m n ?c"
      using that(2,5) by (auto simp: trail_step_def split: if_splits)
    moreover have "execute lm ?c (sz @ rest) = bind_result (trail_step lm ?c sz)
        (\<lambda>(fin, c). if fin then Inr (PARSE_SUCCESS, c, rest) else execute lm c rest)"
      by (rule execute_trail [OF cs(3)]) (simp_all add: that(4))
    moreover have "execute lm c (b # sz @ rest) = execute lm ?c (sz @ rest)"
      by (simp add: execute_header [OF c] tag_step [OF that(1) cs(1,2)] that(3))
    ultimately show ?thesis by (intro exI [of _ "length sz"]) (simp add: agg)
  qed
  have one: "\<exists>t. execute lm c ([b] @ rest) = bind_result (start_aggregate lm m n (c\<lparr>m_trail := t\<rparr>))
    (\<lambda>(fin, c). if fin then Inr (PARSE_SUCCESS, c, rest) else execute lm c rest)"
    if "header_step lm c b = start_aggregate lm m n c" for b
    using that by (intro exI [of _ "m_trail c"]) (simp add: execute_header [OF c])
  consider "n < 16" | "16 \<le> n" "n < 65536" | "65536 \<le> n" by linarith
  then show ?thesis
  proof cases
    case 1
    show ?thesis
    proof (cases m)
      case True
      then have "header_step lm c (0x80 OR word_of_nat n) = start_aggregate lm m n c"
        using 1 by (simp add: header_step_def tag_or Let_def low_nibble)
      from one [OF this] show ?thesis using 1 True by (simp add: pack_header_def pack_map_def w u)
    next
      case False
      then have "header_step lm c (0x90 OR word_of_nat n) = start_aggregate lm m n c"
        using 1 by (simp add: header_step_def tag_or Let_def low_nibble)
      from one [OF this] show ?thesis using 1 False by (simp add: pack_header_def pack_array_def w u)
    qed
  next
    case 2
    then show ?thesis using tag [of "if m then 0xde else 0xdc" "if m then 0x1e else 0x1c" "store16 (int n)"] load_len [of n 2]
      by (cases m) (simp_all add: pack_header_def pack_map_def pack_array_def w u trail_table_def)
  next
    case 3
    then show ?thesis using tag [of "if m then 0xdf else 0xdd" "if m then 0x1f else 0x1d" "store32 (int n)"] load_len [of n 4] n
      by (cases m) (simp_all add: pack_header_def pack_map_def pack_array_def w u trail_table_def)
  qed
qed

text \<open>The elements of a container, one after the other.\<close>

lemma readsE:
  assumes "reads lm c bs o' rest"
  obtains t where "execute lm c bs = resume lm (c\<lparr>m_trail := t, vis := put o' (vis c)\<rparr>) rest"
  using assms unfolding reads_def by blast

lemma reads_items:
  assumes "\<And>x c rest. x \<in> set xs \<Longrightarrow> m_cs c = CS_HEADER \<Longrightarrow> length (frames (vis c)) = d \<Longrightarrow>
      reads lm c (pack_object x @ rest) x rest"
    and "m_cs c = CS_HEADER" "length (frames (vis c)) = d" "xs \<noteq> []"
    and "m_stack c = (CT_ARRAY_ITEM, length xs) # st" "frames (vis c) = acc # fs"
  shows "\<exists>t. execute lm c (concat (map pack_object xs) @ rest)
    = resume lm (c\<lparr>m_trail := t, m_stack := st, vis := \<lparr>cur = ARRAY (rev acc @ xs), frames = fs\<rparr>\<rparr>) rest"
  using assms
proof (induction xs arbitrary: c acc)
  case (Cons x xs)
  let ?tail = "concat (map pack_object xs) @ rest"
  obtain t where t: "execute lm c (pack_object x @ ?tail) = resume lm (c\<lparr>m_trail := t, vis := put x (vis c)\<rparr>) ?tail"
    using readsE [OF Cons.prems(1) [of x c ?tail]] Cons.prems(2,3) by auto
  show ?case
  proof (cases xs)
    case Nil
    then show ?thesis using t Cons.prems
      by (intro exI [of _ t]) (simp add: resume_def put_def end_item_def end_array_def Let_def split: prod.splits)
  next
    case (Cons y ys)
    let ?c = "c\<lparr>m_trail := t, m_stack := (CT_ARRAY_ITEM, length xs) # st, vis := \<lparr>cur = x, frames = (x # acc) # fs\<rparr>\<rparr>"
    have "resume lm (c\<lparr>m_trail := t, vis := put x (vis c)\<rparr>) ?tail = execute lm (c\<lparr>m_trail := t, m_cs := CS_HEADER,
        m_stack := (CT_ARRAY_ITEM, length xs) # st, vis := \<lparr>cur = x, frames = (x # acc) # fs\<rparr>\<rparr>) ?tail"
      using Cons.prems Cons by (cases "vis c") (simp add: resume_def put_def end_item_def Let_def)
    moreover have "c\<lparr>m_trail := t, m_cs := CS_HEADER, m_stack := (CT_ARRAY_ITEM, length xs) # st,
        vis := \<lparr>cur = x, frames = (x # acc) # fs\<rparr>\<rparr> = ?c" using Cons.prems(2) by (cases c) simp
    ultimately have e: "execute lm c (pack_object x @ ?tail) = execute lm ?c ?tail" using t by simp
    obtain t' where "execute lm ?c ?tail = resume lm (?c\<lparr>m_trail := t', m_stack := st, vis := \<lparr>cur = ARRAY (rev (x # acc) @ xs), frames = fs\<rparr>\<rparr>) rest"
      using Cons.IH [of ?c "x # acc"] Cons.prems Cons by auto
    with e show ?thesis by (intro exI [of _ t']) simp
  qed
qed simp

lemma pairs_snoc2: "even (length acc) \<Longrightarrow> pairs (acc @ k # v # xs) = pairs acc @ (k, v) # pairs xs"
  by (induction acc rule: pairs.induct) auto

lemma reads_entries:
  assumes "\<And>x c rest. x \<in> fst ` set xs \<union> snd ` set xs \<Longrightarrow> m_cs c = CS_HEADER \<Longrightarrow>
      length (frames (vis c)) = d \<Longrightarrow> reads lm c (pack_object x @ rest) x rest"
    and "m_cs c = CS_HEADER" "length (frames (vis c)) = d" "xs \<noteq> []"
    and "m_stack c = (CT_MAP_KEY, length xs) # st" "frames (vis c) = acc # fs" "even (length acc)"
  shows "\<exists>t. execute lm c (concat (map (\<lambda>(k, v). pack_object k @ pack_object v) xs) @ rest)
    = resume lm (c\<lparr>m_trail := t, m_stack := st, vis := \<lparr>cur = MAP (pairs (rev acc) @ xs), frames = fs\<rparr>\<rparr>) rest"
  using assms
proof (induction xs arbitrary: c acc)
  case (Cons x xs)
  obtain k v where x: "x = (k, v)" by (cases x) auto
  let ?tail = "concat (map (\<lambda>(k, v). pack_object k @ pack_object v) xs) @ rest"
  obtain t where t: "execute lm c (pack_object k @ pack_object v @ ?tail)
      = resume lm (c\<lparr>m_trail := t, vis := put k (vis c)\<rparr>) (pack_object v @ ?tail)"
    using readsE [OF Cons.prems(1) [of k c "pack_object v @ ?tail"]] Cons.prems(2,3) x by auto
  let ?c = "c\<lparr>m_trail := t, m_stack := (CT_MAP_VALUE, Suc (length xs)) # st, vis := \<lparr>cur = k, frames = (k # acc) # fs\<rparr>\<rparr>"
  have "resume lm (c\<lparr>m_trail := t, vis := put k (vis c)\<rparr>) (pack_object v @ ?tail) = execute lm (c\<lparr>m_trail := t, m_cs := CS_HEADER,
      m_stack := (CT_MAP_VALUE, Suc (length xs)) # st, vis := \<lparr>cur = k, frames = (k # acc) # fs\<rparr>\<rparr>) (pack_object v @ ?tail)"
    using Cons.prems by (cases "vis c") (simp add: resume_def put_def end_item_def)
  moreover have "c\<lparr>m_trail := t, m_cs := CS_HEADER, m_stack := (CT_MAP_VALUE, Suc (length xs)) # st,
      vis := \<lparr>cur = k, frames = (k # acc) # fs\<rparr>\<rparr> = ?c" using Cons.prems(2) by (cases c) simp
  ultimately have e: "execute lm c (pack_object k @ pack_object v @ ?tail) = execute lm ?c (pack_object v @ ?tail)"
    using t by simp
  obtain t2 where t2: "execute lm ?c (pack_object v @ ?tail) = resume lm (?c\<lparr>m_trail := t2, vis := put v (vis ?c)\<rparr>) ?tail"
    using readsE [OF Cons.prems(1) [of v ?c ?tail]] Cons.prems(2,3,6) x by auto
  have p: "pairs (rev acc @ [k, v]) = pairs (rev acc) @ [(k, v)]"
    using pairs_snoc2 [of "rev acc" k v "[]"] Cons.prems(7) by simp
  have sub: "reads lm c (pack_object z @ rest) z rest" if "z \<in> fst ` set xs \<union> snd ` set xs" "m_cs c = CS_HEADER"
    "length (frames (vis c)) = d" for z c rest
    by (rule Cons.prems(1)) (use that in auto)
  show ?case
  proof (cases xs)
    case Nil
    then show ?thesis using e t2 Cons.prems x p
      by (intro exI [of _ t2]) (simp add: resume_def put_def end_item_def end_map_def Let_def split: prod.splits)
  next
    case (Cons y ys)
    let ?c2 = "c\<lparr>m_trail := t2, m_stack := (CT_MAP_KEY, length xs) # st, vis := \<lparr>cur = v, frames = (v # k # acc) # fs\<rparr>\<rparr>"
    have "resume lm (?c\<lparr>m_trail := t2, vis := put v (vis ?c)\<rparr>) ?tail = execute lm ?c2 ?tail"
      using Cons Cons.prems(2) by (cases c) (simp add: resume_def put_def end_item_def Let_def)
    then have e2: "execute lm c (pack_object k @ pack_object v @ ?tail) = execute lm ?c2 ?tail"
      using e t2 by simp
    have "\<exists>t'. execute lm ?c2 ?tail = resume lm (?c2\<lparr>m_trail := t', m_stack := st,
        vis := \<lparr>cur = MAP (pairs (rev (v # k # acc)) @ xs), frames = fs\<rparr>\<rparr>) rest"
    proof (rule Cons.IH [OF sub])
      show "length (frames (vis ?c2)) = d" using Cons.prems(3,6) by simp
      show "even (length (v # k # acc))" using Cons.prems(7) by simp
    qed (use Cons.prems(2) Cons in simp_all)
    then obtain t' where "execute lm ?c2 ?tail = resume lm (?c2\<lparr>m_trail := t', m_stack := st,
        vis := \<lparr>cur = MAP (pairs (rev (v # k # acc)) @ xs), frames = fs\<rparr>\<rparr>) rest" ..
    with e2 x p show ?thesis by (intro exI [of _ t']) simp
  qed
qed simp

text \<open>Every object that fits is read back, in any context that expects a value.\<close>

lemma reads_container:
  assumes c: "m_cs c = CS_HEADER" "length (frames (vis c)) = d"
    and n: "n < 2 ^ 32" "n \<le> (if m then lim_map lm else lim_array lm)" "d < lim_depth lm"
    and empty: "n = 0 \<Longrightarrow> body = [] \<and> o' = (if m then MAP [] else ARRAY [])"
    and items: "\<And>c. n \<noteq> 0 \<Longrightarrow> m_cs c = CS_HEADER \<Longrightarrow> length (frames (vis c)) = Suc d \<Longrightarrow>
      (\<And>st fs. m_stack c = (if m then CT_MAP_KEY else CT_ARRAY_ITEM, n) # st \<Longrightarrow> frames (vis c) = [] # fs \<Longrightarrow>
        \<exists>t. execute lm c (body @ rest) = resume lm (c\<lparr>m_trail := t, m_stack := st, vis := \<lparr>cur = o', frames = fs\<rparr>\<rparr>) rest)"
  shows "reads lm c ((pack_header m n @ body) @ rest) o' rest"
proof -
  obtain t where t: "execute lm c (pack_header m n @ body @ rest) = bind_result (start_aggregate lm m n (c\<lparr>m_trail := t\<rparr>))
    (\<lambda>(fin, c). if fin then Inr (PARSE_SUCCESS, c, body @ rest) else execute lm c (body @ rest))"
    using execute_container [OF c(1) n(1)] by blast
  show ?thesis
  proof (cases "n = 0")
    case True
    then have "execute lm c (pack_header m n @ body @ rest) = resume lm (c\<lparr>m_trail := t, vis := put o' (vis c)\<rparr>) rest"
      using t empty c n by (simp add: start_aggregate_empty visited_def resume_visited)
    then show ?thesis unfolding reads_def by auto
  next
    case False
    let ?c = "opened m n (c\<lparr>m_trail := t\<rparr>)"
    have "execute lm c (pack_header m n @ body @ rest) = execute lm ?c (body @ rest)"
      using t c n False by (simp add: start_aggregate_opened)
    moreover obtain t' where "execute lm ?c (body @ rest)
        = resume lm (?c\<lparr>m_trail := t', m_stack := m_stack c, vis := \<lparr>cur = o', frames = frames (vis c)\<rparr>\<rparr>) rest"
      using items [of ?c "m_stack c" "frames (vis c)"] False c by (auto simp: opened_def)
    moreover have "?c\<lparr>m_trail := t', m_stack := m_stack c, vis := \<lparr>cur = o', frames = frames (vis c)\<rparr>\<rparr>
        = c\<lparr>m_trail := t', vis := put o' (vis c)\<rparr>"
      using c by (cases c; cases "vis c") (simp add: opened_def put_def)
    ultimately show ?thesis unfolding reads_def by auto
  qed
qed

lemma reads_object:
  "fits lm d o' \<Longrightarrow> m_cs c = CS_HEADER \<Longrightarrow> length (frames (vis c)) = d \<Longrightarrow>
   reads lm c (pack_object o' @ rest) o' rest"
proof (induction o' arbitrary: d c rest)
  case (POSITIVE_INTEGER u)
  then show ?case using reads_uint64 [of c "uint u" lm rest] uint_lt2p [of u] by (simp add: pack_uint64_def)
next
  case (NEGATIVE_INTEGER i)
  then show ?case using reads_int64 [of c "sint i" lm rest] sint_ge [of i] by (simp add: pack_int64_def)
next
  case (FLOAT32 f)
  then show ?case using reads_float(1) by simp
next
  case (FLOAT64 f)
  then show ?case using reads_float(2) by simp
next
  case (STRING s)
  then show ?case using reads_string [of c s lm rest] by simp
next
  case (BIN s)
  then show ?case using reads_binary [of c s lm rest] by simp
next
  case (EXT t s)
  then show ?case using reads_ext [of c s lm t rest] by simp
next
  case (ARRAY xs)
  have "reads lm c ((pack_header False (length xs) @ concat (map pack_object xs)) @ rest) (ARRAY xs) rest"
  proof (rule reads_container [OF ARRAY.prems(2,3)])
    fix c' :: parse_context and st fs
    assume "length xs \<noteq> 0" "m_cs c' = CS_HEADER" "length (frames (vis c')) = Suc d"
      "m_stack c' = (if False then CT_MAP_KEY else CT_ARRAY_ITEM, length xs) # st" "frames (vis c') = [] # fs"
    moreover have "reads lm c (pack_object x @ rest) x rest"
      if "x \<in> set xs" "m_cs c = CS_HEADER" "length (frames (vis c)) = Suc d" for x c rest
      using ARRAY.IH [OF that(1) _ that(2,3)] ARRAY.prems(1) that(1) by (simp add: list_all_iff)
    ultimately show "\<exists>t. execute lm c' (concat (map pack_object xs) @ rest)
        = resume lm (c'\<lparr>m_trail := t, m_stack := st, vis := \<lparr>cur = ARRAY xs, frames = fs\<rparr>\<rparr>) rest"
      using reads_items [of xs "Suc d" lm c' st "[]" fs rest] by simp
  qed (use ARRAY.prems(1) in auto)
  then show ?case by (simp add: pack_header_def)
next
  case (MAP xs)
  have kv: "fits lm (Suc d) x" if "x \<in> fst ` set xs \<union> snd ` set xs" for x
    using MAP.prems(1) that by (auto simp: list_all_iff)
  have "reads lm c ((pack_header True (length xs) @ concat (map (\<lambda>(k, v). pack_object k @ pack_object v) xs)) @ rest) (MAP xs) rest"
  proof (rule reads_container [OF MAP.prems(2,3)])
    fix c' :: parse_context and st fs
    assume "length xs \<noteq> 0" "m_cs c' = CS_HEADER" "length (frames (vis c')) = Suc d"
      "m_stack c' = (if True then CT_MAP_KEY else CT_ARRAY_ITEM, length xs) # st" "frames (vis c') = [] # fs"
    moreover have "reads lm c (pack_object x @ rest) x rest"
      if "x \<in> fst ` set xs \<union> snd ` set xs" "m_cs c = CS_HEADER" "length (frames (vis c)) = Suc d" for x c rest
      using that(1) MAP.IH(1) [OF _ _ kv [OF that(1)] that(2,3)] MAP.IH(2) [OF _ _ kv [OF that(1)] that(2,3)]
      by (auto simp: fsts.simps snds.simps)
    ultimately show "\<exists>t. execute lm c' (concat (map (\<lambda>(k, v). pack_object k @ pack_object v) xs) @ rest)
        = resume lm (c'\<lparr>m_trail := t, m_stack := st, vis := \<lparr>cur = MAP xs, frames = fs\<rparr>\<rparr>) rest"
      using reads_entries [of xs "Suc d" lm c' st "[]" fs rest] by simp
  qed (use MAP.prems(1) in auto)
  then show ?case by (simp add: pack_header_def)
next
  case NIL
  then show ?case using reads_header [of c lm "0xc0" NIL rest] by (simp add: pack_nil_def header_step_def visit_nil_def)
next
  case (BOOLEAN b)
  then show ?case using reads_header [of c lm "0xc3" "BOOLEAN True" rest] reads_header [of c lm "0xc2" "BOOLEAN False" rest]
    by (simp add: pack_true_def pack_false_def header_step_def visit_boolean_def)
qed

subsection \<open>Properties\<close>

lemma parse_packed:
  assumes "fits lm 0 o'"
  shows "parse_imp lm (pack_object o' @ rest)
    = Inr (if rest = [] then PARSE_SUCCESS else PARSE_EXTRA_BYTES, o', length (pack_object o'))"
proof -
  obtain t where t: "execute lm context_init (pack_object o' @ rest)
      = resume lm (context_init\<lparr>m_trail := t, vis := put o' (vis context_init)\<rparr>) rest"
    using readsE [OF reads_object [OF assms, of context_init rest]] by (auto simp: context_init_def visitor_init_def)
  have "pack_object o' @ rest \<noteq> []"
  proof
    assume "pack_object o' @ rest = []"
    then show False using t by (subst (asm) execute.simps) (simp add: context_init_def resume_def)
  qed
  then show ?thesis using t by (simp add: parse_imp_def resume_def context_init_def put_def)
qed

text \<open>
  C25: what is packed is unpacked. The decoder reads from the bytes of any object that fits its
  limits exactly this object, uses exactly its bytes, and says whether more follow.
\<close>

theorem unpack_pack:
  assumes "fits lm 0 o'"
  shows "parse_imp lm (pack_object o' @ rest)
    = Inr (if rest = [] then PARSE_SUCCESS else PARSE_EXTRA_BYTES, o', length (pack_object o'))"
  by (rule parse_packed [OF assms])

definition sample_object :: object where
  "sample_object = ARRAY [POSITIVE_INTEGER 300, NEGATIVE_INTEGER (- 5), STRING [104, 105], MAP [(NIL, BOOLEAN True)], EXT 7 [1, 2, 3]]"

theorem unpack_pack_witness:
  "parse_imp default_limit (pack_object sample_object @ [0xc0])
    = Inr (if [0xc0 :: byte] = [] then PARSE_SUCCESS else PARSE_EXTRA_BYTES, sample_object, length (pack_object sample_object))"
  by (rule unpack_pack) (simp add: sample_object_def default_limit_def)

text \<open>
  Decoding in pieces. Feeding the decoder the bytes in two pieces, the second after what the
  first left, gives the same as feeding them at once: the same exception, or the same context, the
  same verdict and the same bytes left.
\<close>

lemma execute_in_pieces:
  "execute lm c (a @ b) = bind_result (execute lm c a) (\<lambda>(ret, c', r).
     if ret = PARSE_CONTINUE then execute lm c' (r @ b) else Inr (ret, c', r @ b))"
proof (induction lm c a rule: execute.induct)
  case (1 lm c bs)
  show ?case
  proof (cases "m_cs c = CS_HEADER")
    case True
    show ?thesis
    proof (cases bs)
      case Nil
      have "execute lm c [] = Inr (PARSE_CONTINUE, c, [])" using True by (subst execute.simps) simp
      then show ?thesis using Nil by simp
    next
      case (Cons x xs)
      show ?thesis
      proof (cases "header_step lm c x")
        case (Inl e)
        then show ?thesis using Cons by (simp add: execute_header [OF True])
      next
        case (Inr y)
        then show ?thesis using "1.IH"(1) [OF True Cons] Cons
          by (cases y) (simp add: execute_header [OF True])
      qed
    qed
  next
    case False
    show ?thesis
    proof (cases "length bs < m_trail c \<or> m_trail c = 0")
      case True
      then have "execute lm c bs = Inr (PARSE_CONTINUE, c, bs)" using False by (subst execute.simps) simp
      then show ?thesis by simp
    next
      case enough: False
      have split: "execute lm c (bs @ b') = bind_result (trail_step lm c (take (m_trail c) bs)) (\<lambda>(fin, c').
          if fin then Inr (PARSE_SUCCESS, c', drop (m_trail c) bs @ b') else execute lm c' (drop (m_trail c) bs @ b'))" for b'
        using execute_trail [OF False, of "take (m_trail c) bs" lm "drop (m_trail c) bs @ b'"] enough
        by (cases "take (m_trail c) bs = []") (auto simp flip: append_assoc)
      show ?thesis
      proof (cases "trail_step lm c (take (m_trail c) bs)")
        case (Inl e)
        then show ?thesis using split [of b] split [of "[]"] by simp
      next
        case (Inr y)
        then show ?thesis using split [of b] split [of "[]"] "1.IH"(2) [OF False enough]
          by (cases y) simp
      qed
    qed
  qed
qed

text \<open>
  The width of an integer does not matter: a value is packed to the same bytes by the function of
  every type that can hold it, signed or unsigned.
\<close>

lemma integer_packers_agree:
  "(- (2 ^ 7) \<le> d \<and> d < 2 ^ 7 \<longrightarrow> pack_imp_int8 d = pack_imp_int16 d)
    \<and> (- (2 ^ 15) \<le> d \<and> d < 2 ^ 15 \<longrightarrow> pack_imp_int16 d = pack_imp_int32 d)
    \<and> (- (2 ^ 31) \<le> d \<and> d < 2 ^ 31 \<longrightarrow> pack_imp_int32 d = pack_imp_int64 d)
    \<and> (0 \<le> d \<and> d < 2 ^ 8 \<longrightarrow> pack_imp_uint8 d = pack_imp_uint16 d)
    \<and> (0 \<le> d \<and> d < 2 ^ 16 \<longrightarrow> pack_imp_uint16 d = pack_imp_uint32 d)
    \<and> (0 \<le> d \<and> d < 2 ^ 32 \<longrightarrow> pack_imp_uint32 d = pack_imp_uint64 d)
    \<and> (0 \<le> d \<and> d < 2 ^ 63 \<longrightarrow> pack_imp_uint64 d = pack_imp_int64 d)"
  by (intro conjI impI)
    (auto simp: pack_imp_int8_def pack_imp_int16_def pack_imp_int32_def pack_imp_int64_def pack_imp_uint8_def
      pack_imp_uint16_def pack_imp_uint32_def pack_imp_uint64_def)

end
