(* ===== verification/DecoderLimits.thy ===== *)
theory DecoderLimits
  imports Unpack
begin

text \<open>
  What the decoder of \<open>Unpack\<close> delivers for arbitrary bytes: the open containers and the elements
  already finished stay within the limits after every byte, so that an object that is delivered is
  well formed and within them, and can be packed again.
\<close>

subsection \<open>The invariant of the context\<close>

definition room_ok :: "nat \<Rightarrow> nat \<Rightarrow> bool" where
  "room_ok n limit \<longleftrightarrow> n < 2 ^ 32 \<and> n \<le> limit"

fun stack_ok :: "unpack_limit \<Rightarrow> (container_type \<times> nat) list \<Rightarrow> object list list \<Rightarrow> bool" where
  "stack_ok lm [] [] = True"
| "stack_ok lm ((ct, r) # st) (f # fs) = (0 < r \<and> length fs < lim_depth lm \<and> list_all (fits lm (Suc (length fs))) f
     \<and> (case ct of
          CT_ARRAY_ITEM \<Rightarrow> room_ok (length f + r) (lim_array lm)
        | CT_MAP_KEY \<Rightarrow> even (length f) \<and> room_ok (length f div 2 + r) (lim_map lm)
        | CT_MAP_VALUE \<Rightarrow> odd (length f) \<and> room_ok (length f div 2 + r) (lim_map lm))
     \<and> stack_ok lm st fs)"
| "stack_ok lm _ _ = False"

definition trail_ok :: "parse_context \<Rightarrow> bool" where
  "trail_ok c \<longleftrightarrow> m_cs c = CS_HEADER \<or> (4 \<le> m_cs c \<and> m_cs c \<le> 0x1f \<and> m_trail c = trail_table ! (m_cs c - 4))
     \<or> (m_cs c \<in> {ACS_STR_VALUE, ACS_BIN_VALUE} \<and> m_trail c < 2 ^ 32)
     \<or> (m_cs c = ACS_EXT_VALUE \<and> m_trail c \<le> 2 ^ 32)"

definition context_ok :: "unpack_limit \<Rightarrow> parse_context \<Rightarrow> bool" where
  "context_ok lm c \<longleftrightarrow> stack_ok lm (m_stack c) (frames (vis c)) \<and> trail_ok c"

lemma length_pairs: "length (pairs xs) = length xs div 2"
  by (induction xs rule: pairs.induct) auto

lemma list_all_pairs: "list_all P xs \<Longrightarrow> list_all (\<lambda>(k, v). P k \<and> P v) (pairs xs)"
  by (induction xs rule: pairs.induct) auto

text \<open>A finished value goes to the container that is open.\<close>

definition step_ok :: "unpack_limit \<Rightarrow> bool \<Rightarrow> (container_type \<times> nat) list \<Rightarrow> visitor \<Rightarrow> bool" where
  "step_ok lm fin st v \<longleftrightarrow> stack_ok lm st (frames v) \<and> (fin \<longrightarrow> frames v = [] \<and> fits lm 0 (cur v))"

lemma consume_ok:
  "stack_ok lm st (frames v) \<Longrightarrow> fits lm (length (frames v)) (cur v) \<Longrightarrow> consume st v = (fin, st', v') \<Longrightarrow> step_ok lm fin st' v'"
proof (induction st v arbitrary: fin st' v' rule: consume.induct)
  case (1 v)
  then show ?case by (cases "frames v") (auto simp: step_ok_def)
next
  case (2 r st v)
  then obtain f fs where f: "frames v = f # fs" by (cases "frames v") auto
  show ?case
  proof (cases "r = 1")
    case True
    then have "step_ok lm fin st' v'" if "fits lm (length fs) (ARRAY (rev (cur v # f)))"
      using "2.IH" [of "end_item v" fin st' v'] "2.prems" f that
      by (simp add: end_item_def end_array_def)
    then show ?thesis using "2.prems" f True by (simp add: room_ok_def)
  next
    case False
    then show ?thesis using "2.prems" f by (auto simp: step_ok_def end_item_def room_ok_def)
  qed
next
  case (3 r st v)
  then obtain f fs where "frames v = f # fs" by (cases "frames v") auto
  then show ?case using "3.prems" by (auto simp: step_ok_def end_item_def)
next
  case (4 r st v)
  then obtain f fs where f: "frames v = f # fs" by (cases "frames v") auto
  define xs where "xs = rev (cur v # f)"
  have xs: "list_all (fits lm (Suc (length fs))) xs" "length xs = Suc (length f)" using "4.prems" f by (simp_all add: xs_def)
  have half: "length xs div 2 = Suc (length f div 2)" using "4.prems" f xs(2) by (simp add: odd_Suc_div_two)
  show ?case
  proof (cases "r = 1")
    case True
    have "fits lm (length fs) (MAP (pairs xs))"
      using "4.prems"(1) f True half list_all_pairs [OF xs(1)] by (simp add: length_pairs room_ok_def)
    then show ?thesis using "4.IH" [of "end_item v" fin st' v'] "4.prems" f True
      by (simp add: end_item_def end_map_def xs_def)
  next
    case False
    then show ?thesis using "4.prems" f half xs(2)
      by (auto simp: step_ok_def end_item_def room_ok_def)
  qed
qed

text \<open>The outcome of a step.\<close>

definition result_ok :: "unpack_limit \<Rightarrow> step_result \<Rightarrow> bool" where
  "result_ok lm r \<longleftrightarrow> (case r of Inl e \<Rightarrow> True
     | Inr (fin, c) \<Rightarrow> context_ok lm c \<and> (fin \<longrightarrow> fits lm 0 (cur (vis c))))"

lemma visited_ok:
  assumes "stack_ok lm (m_stack c) (frames (vis c))"
    and "\<And>v. r = Inr v \<Longrightarrow> frames v = frames (vis c) \<and> fits lm (length (frames v)) (cur v)"
  shows "result_ok lm (visited c r)"
proof (cases r)
  case (Inl e)
  then show ?thesis by (simp add: visited_def result_ok_def)
next
  case (Inr v)
  obtain fin st v' where "consume (m_stack c) v = (fin, st, v')" by (cases "consume (m_stack c) v")
  moreover have "frames v = frames (vis c)" "fits lm (length (frames v)) (cur v)" using assms(2) [OF Inr] by blast+
  ultimately have "consume (m_stack c) v = (fin, st, v')" "step_ok lm fin st v'"
    using consume_ok [of lm "m_stack c" v fin st v'] assms(1) by auto
  then show ?thesis
    by (simp add: Inr visited_def result_ok_def after_visit_proc_def context_ok_def trail_ok_def step_ok_def)
qed

lemma start_aggregate_ok:
  assumes "stack_ok lm (m_stack c) (frames (vis c))" "n < 2 ^ 32"
  shows "result_ok lm (start_aggregate lm is_map n c)"
proof (cases "if is_map then start_map lm n (vis c) else start_array lm n (vis c)")
  case (Inl e)
  then show ?thesis by (simp add: start_aggregate_def result_ok_def)
next
  case (Inr v)
  have v: "v = (vis c)\<lparr>frames := [] # frames (vis c)\<rparr>" "length (frames (vis c)) < lim_depth lm"
    "room_ok n (if is_map then lim_map lm else lim_array lm)"
    using Inr assms(2) by (auto simp: start_map_def start_array_def room_ok_def split: if_splits)
  show ?thesis
  proof (cases "n = 0")
    case True
    have "start_aggregate lm is_map n c = visited c (Inr (if is_map then end_map v else end_array v))"
      unfolding start_aggregate_def visited_def Inr bind_result_simps by (simp add: True)
    moreover have "result_ok lm \<dots>"
      using assms(1) v by (intro visited_ok) (auto simp: end_map_def end_array_def)
    ultimately show ?thesis by simp
  next
    case False
    then show ?thesis
      unfolding start_aggregate_def Inr bind_result_simps
      using assms(1) v by (cases is_map) (simp_all add: result_ok_def context_ok_def trail_ok_def)
  qed
qed

lemma load_be_bounds: "0 \<le> load_be bs \<and> load_be bs < 256 ^ length bs"
proof (induction bs)
  case (Cons b bs)
  have "uint b * 256 ^ length bs \<le> 255 * 256 ^ length bs" using uint_lt2p [of b] by (intro mult_right_mono) simp_all
  moreover have "0 \<le> uint b * 256 ^ length bs" by simp
  moreover have "load_be (b # bs) = uint b * 256 ^ length bs + load_be bs" "(256 :: int) ^ length (b # bs) = 256 * 256 ^ length bs"
    by simp_all
  ultimately show ?case using Cons.IH by linarith
qed simp

lemma size_less:
  assumes "length n \<le> 4"
  shows "nat (load_be n) < 2 ^ 32"
proof -
  have "(256 :: int) ^ length n \<le> 256 ^ 4" using assms by (intro power_increasing) simp_all
  then have "load_be n < 256 ^ 4" using load_be_bounds [of n] by linarith
  then show ?thesis using load_be_bounds [of n] by (simp add: nat_less_iff)
qed

lemma visit_str_ok: "length s < 2 ^ 32 \<Longrightarrow> visit_str lm s v = Inr w \<Longrightarrow> frames w = frames v \<and> fits lm (length (frames w)) (cur w)"
  by (auto simp: visit_str_def put_def split: if_splits)

lemma visit_bin_ok: "length s < 2 ^ 32 \<Longrightarrow> visit_bin lm s v = Inr w \<Longrightarrow> frames w = frames v \<and> fits lm (length (frames w)) (cur w)"
  by (auto simp: visit_bin_def put_def split: if_splits)

lemma visit_ext_ok:
  assumes "length s < 2 ^ 32" "s \<noteq> []" "visit_ext lm s v = Inr w"
  shows "frames w = frames v \<and> fits lm (length (frames w)) (cur w)"
  using assms by (cases s) (auto simp: visit_ext_def Let_def put_def split: if_splits)

lemma visit_negative_ok:
  assumes "- (2 ^ 63) \<le> n" "n < 2 ^ 63"
  shows "frames (visit_negative_integer n v) = frames v
    \<and> fits lm (length (frames (visit_negative_integer n v))) (cur (visit_negative_integer n v))"
proof -
  have "sint (word_of_int n :: 64 word) = n"
    using assms by (simp add: sint_sbintrunc' signed_take_bit_int_eq_self)
  then show ?thesis by (simp add: visit_negative_integer_def put_def)
qed

lemma load_signed_bounds:
  assumes "n \<noteq> []" "length n \<le> 8"
  shows "- (2 ^ 63) \<le> load_signed n \<and> load_signed n < 2 ^ 63"
proof -
  define k where "k = 8 * length n - 1"
  have k: "8 * length n = Suc k" "k \<le> 63" using assms by (cases n; simp add: k_def)+
  have "(256 :: int) ^ length n = 2 ^ Suc k" using power_mult [of "2 :: int" 8 "length n"] k(1) by simp
  moreover have "(2 :: int) ^ k \<le> 2 ^ 63" using k(2) by (intro power_increasing) simp_all
  ultimately show ?thesis
    using load_be_bounds [of n] unfolding load_signed_def Let_def k_def [symmetric] k(1) by auto
qed

lemma visit_other_ok:
  "fits lm (length (frames (visit_positive_integer n v))) (cur (visit_positive_integer n v))"
  "fits lm (length (frames (visit_float32 n v))) (cur (visit_float32 n v))"
  "fits lm (length (frames (visit_float64 n v))) (cur (visit_float64 n v))"
  "fits lm (length (frames (visit_boolean b v))) (cur (visit_boolean b v))"
  "fits lm (length (frames (visit_nil v))) (cur (visit_nil v))"
  by (simp_all add: visit_positive_integer_def visit_float32_def visit_float64_def visit_boolean_def visit_nil_def put_def)

lemma visit_frames [simp]:
  "frames (visit_positive_integer n v) = frames v" "frames (visit_float32 n v) = frames v"
  "frames (visit_float64 n v) = frames v" "frames (visit_boolean b v) = frames v" "frames (visit_nil v) = frames v"
  "frames (visit_negative_integer n v) = frames v"
  by (simp_all add: visit_positive_integer_def visit_float32_def visit_float64_def visit_boolean_def visit_nil_def
      visit_negative_integer_def put_def)

subsection \<open>Every step keeps it\<close>

lemma header_step_ok:
  assumes "context_ok lm c"
  shows "result_ok lm (header_step lm c b)"
proof -
  have st: "stack_ok lm (m_stack c) (frames (vis c))" using assms by (simp add: context_ok_def)
  have s: "0 \<le> uint b" "uint b < 256" using uint_lt2p [of b] by simp_all
  have sb: "- (2 ^ 63) \<le> sint b" "sint b < 2 ^ 63" using sint_ge [of b] sint_lt [of b] by simp_all
  have small: "nat (uint b mod 0x20) < 2 ^ 32" "nat (uint b mod 0x10) < 2 ^ 32"
    by (simp_all add: nat_less_iff)
  have tag: "result_ok lm (Inr (False, c\<lparr>m_trail := trail_table ! nat (uint b - 0xc4), m_cs := nat (uint b mod 0x20)\<rparr>))"
    if "0xc4 \<le> uint b" "uint b < 0xe0"
  proof -
    have "uint b mod 0x20 = uint b - 0xc0" using that by presburger
    then have "nat (uint b mod 0x20) - 4 = nat (uint b - 0xc4)" "4 \<le> nat (uint b mod 0x20)" "nat (uint b mod 0x20) \<le> 0x1f"
      using that by simp_all
    then show ?thesis using st by (simp add: result_ok_def context_ok_def trail_ok_def)
  qed
  have str: "result_ok lm (let trail = nat (uint b mod 0x20) in
        if trail = 0 then visited (c\<lparr>m_trail := trail\<rparr>) (visit_str lm [] (vis c))
        else Inr (False, c\<lparr>m_trail := trail, m_cs := ACS_STR_VALUE\<rparr>))"
    using st small(1) visit_str_ok [of "[]" lm "vis c"]
    by (auto simp: Let_def result_ok_def context_ok_def trail_ok_def intro!: visited_ok [unfolded result_ok_def])
  have num: "result_ok lm (visited c (Inr v))" if "frames v = frames (vis c)" "fits lm (length (frames v)) (cur v)" for v
    using st that by (intro visited_ok) auto
  note agg = start_aggregate_ok [OF st small(2)]
  note nums = num [OF visit_frames(1) visit_other_ok(1)] num [OF visit_frames(4) visit_other_ok(4)]
    num [OF visit_frames(5) visit_other_ok(5)] num [OF visit_frames(6) visit_negative_ok [OF sb, THEN conjunct2]]
  show ?thesis
    unfolding header_step_def Let_def [of "uint b"]
    using tag str agg nums by (simp add: result_ok_def [of lm "Inl _"])
qed

text \<open>How many bytes belong to a tag.\<close>

lemma trail_table_sizes:
  assumes "4 \<le> cs" "cs \<le> 0x1f"
  shows "trail_table ! (cs - 4) \<le> 17" "cs \<notin> {0x14..0x18} \<Longrightarrow> trail_table ! (cs - 4) \<le> 8"
    "cs \<notin> {0x0a..0x18} \<Longrightarrow> trail_table ! (cs - 4) \<le> 4"
proof -
  have "\<forall>k\<in>set [4..<32]. trail_table ! (k - 4) \<le> 17 \<and> (k \<notin> {0x14..0x18} \<longrightarrow> trail_table ! (k - 4) \<le> 8)
    \<and> (k \<notin> {0x0a..0x18} \<longrightarrow> trail_table ! (k - 4) \<le> 4)"
    by code_simp
  then have "trail_table ! (cs - 4) \<le> 17 \<and> (cs \<notin> {0x14..0x18} \<longrightarrow> trail_table ! (cs - 4) \<le> 8)
    \<and> (cs \<notin> {0x0a..0x18} \<longrightarrow> trail_table ! (cs - 4) \<le> 4)"
    using assms by (elim bspec) (unfold set_upt atLeastLessThan_iff, linarith)
  then show "trail_table ! (cs - 4) \<le> 17" "cs \<notin> {0x14..0x18} \<Longrightarrow> trail_table ! (cs - 4) \<le> 8"
    "cs \<notin> {0x0a..0x18} \<Longrightarrow> trail_table ! (cs - 4) \<le> 4"
    by blast+
qed

lemma trail_number_ok:
  assumes "n \<noteq> []" "length n \<le> 8"
  shows "frames (trail_number cs n v) = frames v \<and> fits lm (length (frames (trail_number cs n v))) (cur (trail_number cs n v))"
  using visit_other_ok visit_negative_ok [of "load_signed n"] load_signed_bounds [OF assms]
  by (simp add: trail_number_def)

lemma trail_size_ok:
  assumes "stack_ok lm (m_stack c) (frames (vis c))" "length n \<le> 4"
  shows "result_ok lm (trail_size lm c n)"
proof -
  have n: "nat (load_be n) < 2 ^ 32" by (rule size_less [OF assms(2)])
  have empty: "result_ok lm (visited (c\<lparr>m_trail := k\<rparr>) (visit_str lm [] (vis c)))"
    "result_ok lm (visited (c\<lparr>m_trail := k\<rparr>) (visit_bin lm [] (vis c)))" for k
    using assms(1) visit_str_ok [of "[]" lm "vis c"] visit_bin_ok [of "[]" lm "vis c"] by (intro visited_ok; simp)+
  have more: "result_ok lm (Inr (False, c\<lparr>m_trail := nat (load_be n), m_cs := ACS_STR_VALUE\<rparr>))"
    "result_ok lm (Inr (False, c\<lparr>m_trail := nat (load_be n), m_cs := ACS_BIN_VALUE\<rparr>))"
    "result_ok lm (Inr (False, c\<lparr>m_trail := nat (load_be n) + 1, m_cs := ACS_EXT_VALUE\<rparr>))"
    using assms(1) n by (simp_all add: result_ok_def context_ok_def trail_ok_def)
  show ?thesis unfolding trail_size_def Let_def using empty more by simp
qed

lemma trail_step_ok:
  assumes "context_ok lm c" "m_cs c \<noteq> CS_HEADER" "length n = m_trail c" "n \<noteq> []" "length n < 2 ^ 32"
  shows "result_ok lm (trail_step lm c n)"
proof -
  have st: "stack_ok lm (m_stack c) (frames (vis c))" using assms(1) by (simp add: context_ok_def)
  consider (tag) "4 \<le> m_cs c" "m_cs c \<le> 0x1f" "length n = trail_table ! (m_cs c - 4)"
    | (raw) "m_cs c \<in> {ACS_STR_VALUE, ACS_BIN_VALUE}" "length n < 2 ^ 32"
    | (ext) "m_cs c = ACS_EXT_VALUE"
    using assms(1-3) by (auto simp: context_ok_def trail_ok_def)
  then show ?thesis
  proof cases
    case tag
    note len = trail_table_sizes [OF tag(1,2), folded tag(3)]
    consider "m_cs c \<in> {0x0a..0x13}" | "m_cs c \<in> {0x14..0x18}" | "m_cs c \<in> {0x04..0x09} \<union> {0x19..0x1b}" | "m_cs c \<in> {0x1c..0x1f}"
      using tag(1,2) by fastforce
    then show ?thesis
    proof cases
      case 1
      then have "result_ok lm (visited c (Inr (trail_number (m_cs c) n (vis c))))"
        using len trail_number_ok [OF assms(4), of "m_cs c" "vis c" lm] by (intro visited_ok [OF st]) auto
      then show ?thesis using 1 by (simp add: trail_step_def Let_def)
    next
      case 2
      then have "result_ok lm (visited c (visit_ext lm n (vis c)))"
        using visit_ext_ok [OF assms(5,4), of lm "vis c"] by (intro visited_ok [OF st]) auto
      then show ?thesis using 2 by (simp add: trail_step_def Let_def)
    next
      case 3
      then have "length n \<le> 4" using len(3) by auto
      from trail_size_ok [OF st this] show ?thesis using 3 by (auto simp: trail_step_def Let_def)
    next
      case 4
      then have "length n \<le> 4" using len(3) by auto
      from start_aggregate_ok [OF st size_less [OF this]] show ?thesis using 4 by (auto simp: trail_step_def Let_def)
    qed
  next
    case raw
    then have "result_ok lm (trail_value lm c n)"
      using visit_str_ok [OF raw(2), of lm "vis c"] visit_bin_ok [OF raw(2), of lm "vis c"]
      by (auto simp: trail_value_def intro!: visited_ok [OF st])
    then show ?thesis using raw(1) by (auto simp: trail_step_def Let_def)
  next
    case ext
    then have "result_ok lm (trail_value lm c n)"
      using visit_ext_ok [OF assms(5,4), of lm "vis c"] by (auto simp: trail_value_def intro!: visited_ok [OF st])
    then show ?thesis using ext by (auto simp: trail_step_def Let_def)
  qed
qed

lemma execute_ok:
  "context_ok lm c \<Longrightarrow> length bs < 2 ^ 32 \<Longrightarrow> execute lm c bs = Inr (ret, c', r) \<Longrightarrow>
   context_ok lm c' \<and> (ret = PARSE_SUCCESS \<longrightarrow> fits lm 0 (cur (vis c')))"
proof (induction lm c bs rule: execute.induct)
  case (1 lm c bs)
  show ?case
  proof (cases "m_cs c = CS_HEADER")
    case True
    show ?thesis
    proof (cases bs)
      case Nil
      have "execute lm c [] = Inr (PARSE_CONTINUE, c, [])" using True by (subst execute.simps) simp
      then show ?thesis using "1.prems" Nil by auto
    next
      case (Cons x xs)
      obtain fin d where y: "header_step lm c x = Inr (fin, d)"
        using "1.prems" Cons by (cases "header_step lm c x") (auto simp: execute_header [OF True])
      then have "context_ok lm d \<and> (fin \<longrightarrow> fits lm 0 (cur (vis d)))"
        using header_step_ok [OF "1.prems"(1), of x] by (simp add: result_ok_def)
      then show ?thesis
        using "1.prems" Cons "1.IH"(1) [OF True Cons, of fin d] y by (cases fin) (auto simp: execute_header [OF True])
    qed
  next
    case False
    show ?thesis
    proof (cases "length bs < m_trail c \<or> m_trail c = 0")
      case True
      then have "execute lm c bs = Inr (PARSE_CONTINUE, c, bs)" using False by (subst execute.simps) simp
      then show ?thesis using "1.prems" by auto
    next
      case enough: False
      define n r' where "n = take (m_trail c) bs" and "r' = drop (m_trail c) bs"
      have bs: "bs = n @ r'" "length n = m_trail c" "n \<noteq> []" using enough by (auto simp: n_def r'_def)
      obtain fin d where y: "trail_step lm c n = Inr (fin, d)"
        using "1.prems" execute_trail [OF False bs(2,3), of lm r'] bs(1) by (cases "trail_step lm c n") auto
      then have d: "context_ok lm d \<and> (fin \<longrightarrow> fits lm 0 (cur (vis d)))"
        using trail_step_ok [OF "1.prems"(1) False bs(2,3)] "1.prems"(2) enough by (simp add: result_ok_def bs(2))
      have e: "execute lm c bs = (if fin then Inr (PARSE_SUCCESS, d, r') else execute lm d r')"
        using execute_trail [OF False bs(2,3), of lm r'] y by (simp add: bs(1) [symmetric])
      show ?thesis
        using "1.IH"(2) [OF False enough, of fin d] "1.prems" y d e by (cases fin) (simp_all add: n_def r'_def)
    qed
  qed
qed

subsection \<open>Properties\<close>

text \<open>
  C29: whatever the bytes, if there are less than four gigabytes of them: an object that the decoder
  delivers is well formed: every array, map, string, binary and extension of it is within the limits, the
  containers are not nested deeper than allowed, and negative integers are negative. It can be packed, and
  decoding the packed bytes gives the same object. (An extension of four gigabytes passes every limit.)
\<close>

theorem delivered_objects_fit:
  assumes "length bs < 2 ^ 32" "parse_imp lm bs = Inr (ret, o', n)"
  shows "fits lm 0 o' \<and> parse_imp lm (pack_object o') = Inr (PARSE_SUCCESS, o', length (pack_object o'))"
proof -
  obtain ret' c r where e: "execute lm context_init bs = Inr (ret', c, r)" "ret' = PARSE_SUCCESS" "o' = cur (vis c)"
    using assms(2) by (auto simp: parse_imp_def bind_result_Inr_iff split: if_splits parse_return.splits)
  have "context_ok lm context_init" by (simp add: context_ok_def context_init_def visitor_init_def trail_ok_def)
  then have "fits lm 0 o'" using execute_ok assms(1) e by blast
  then show ?thesis using parse_packed [of lm o' "[]"] by simp
qed

theorem delivered_objects_fit_witness:
  "fits (default_limit\<lparr>lim_array := 2\<rparr>) 0 (ARRAY [POSITIVE_INTEGER 1, POSITIVE_INTEGER 2])
    \<and> parse_imp (default_limit\<lparr>lim_array := 2\<rparr>) (pack_object (ARRAY [POSITIVE_INTEGER 1, POSITIVE_INTEGER 2]))
      = Inr (PARSE_SUCCESS, ARRAY [POSITIVE_INTEGER 1, POSITIVE_INTEGER 2],
          length (pack_object (ARRAY [POSITIVE_INTEGER 1, POSITIVE_INTEGER 2])))"
proof -
  let ?o = "ARRAY [POSITIVE_INTEGER 1, POSITIVE_INTEGER 2]"
  have "fits (default_limit\<lparr>lim_array := 2\<rparr>) 0 ?o" by (simp add: default_limit_def)
  from parse_packed [OF this, of "[0xc0]"]
  have "parse_imp (default_limit\<lparr>lim_array := 2\<rparr>) (pack_object ?o @ [0xc0])
    = Inr (PARSE_EXTRA_BYTES, ?o, length (pack_object ?o))" by simp
  moreover have "length (pack_object ?o @ [0xc0]) < 2 ^ 32" by (simp add: pack_uint64_def pack_imp_uint64_def pack_array_def)
  ultimately show ?thesis using delivered_objects_fit by blast
qed

end
