(* ===== verification/Growth.thy ===== *)
theory Growth
  imports Prelude
begin

text \<open>
  The loop by which the buffers of \<open>rpclib/rpc/msgpack\<close> grow, which \<open>parser::expand_buffer\<close>,
  \<open>sbuffer::expand_buffer\<close> and \<open>zone::allocate_expand\<close> share. A size is a number below \<open>2^64\<close>; the
  computations that may pass it wrap around.
\<close>

definition wrap :: "nat \<Rightarrow> nat" where "wrap n = n mod 2 ^ 64"

lemma wrap_less [simp]: "n < 2 ^ 64 \<Longrightarrow> wrap n = n"
  by (simp add: wrap_def)

text \<open>The size doubles until it is enough, or until the doubling wraps around.\<close>

function grow :: "nat \<Rightarrow> nat \<Rightarrow> nat" where
  "grow next_size need =
    (if next_size < need then
       (let tmp_next_size = wrap (next_size * 2) in
        if tmp_next_size \<le> next_size then need else grow tmp_next_size need)
     else next_size)"
  by pat_completeness auto

termination
  by (relation "measure (\<lambda>(n, need). need - n)") auto

declare grow.simps [simp del]

lemma grow_enough: "need \<le> grow n need"
  by (induction n need rule: grow.induct) (subst grow.simps, auto simp: Let_def)

lemma grow_less: "need < 2 ^ 64 \<Longrightarrow> n < 2 ^ 64 \<Longrightarrow> grow n need < 2 ^ 64"
  by (induction n need rule: grow.induct) (subst grow.simps, auto simp: Let_def wrap_def)

end
