(* ===== verification/StreamParser.thy ===== *)
theory StreamParser
  imports Unpack Growth
begin

text \<open>
  \<open>rpclib/rpc/msgpack/v2/parse.hpp\<close> (class \<open>parser\<close>) and \<open>v2/unpack.hpp\<close> (class \<open>unpacker\<close>): the decoder
  of a stream. It owns a buffer that the user fills and takes one object after the other out of it.
  \<open>buf\<close> is the part of the memory between \<open>COUNTER_SIZE\<close> and \<open>m_used\<close>; sizes are below \<open>2^64\<close>, and
  the computations that may pass it wrap around. Whether an allocation succeeds, whether the
  parser is the only owner of its buffer and holds no reference into it, and whether the hook that hands an
  old buffer over throws, is a \<open>heap\<close>, given for every reservation.
\<close>

datatype stream_exn = Bad_alloc | Unpack_error unpack_exn

record heap =
  malloc :: "nat \<Rightarrow> bool"
  sole_owner :: bool
  hook_throws :: bool

record unpacker =
  ctx :: parse_context
  buf :: "byte list"
  m_used :: nat
  m_free :: nat
  m_off :: nat
  m_parsed :: nat
  m_initial_buffer_size :: nat

definition COUNTER_SIZE :: nat where "COUNTER_SIZE = 4"

subsection \<open>The buffer\<close>

definition unpacker_new :: "(nat \<Rightarrow> bool) \<Rightarrow> nat \<Rightarrow> stream_exn + unpacker" where
  "unpacker_new alloc initial_buffer_size = (let sz = (if initial_buffer_size < COUNTER_SIZE then COUNTER_SIZE else initial_buffer_size) in
     if \<not> alloc sz then Inl Bad_alloc
     else Inr \<lparr>ctx = context_init, buf = [], m_used = COUNTER_SIZE, m_free = sz - COUNTER_SIZE,
       m_off = COUNTER_SIZE, m_parsed = 0, m_initial_buffer_size = sz\<rparr>)"

definition rewind_buffer :: "unpacker \<Rightarrow> unpacker" where
  "rewind_buffer p = p\<lparr>buf := [], m_free := m_free p + (m_used p - COUNTER_SIZE), m_used := COUNTER_SIZE,
     m_off := COUNTER_SIZE\<rparr>"

definition enlarge_buffer :: "heap \<Rightarrow> nat \<Rightarrow> unpacker \<Rightarrow> stream_exn + unpacker" where
  "enlarge_buffer h sz p =
    (if m_off p = COUNTER_SIZE then
       (let next_size = grow (wrap ((m_used p + m_free p) * 2)) (wrap (sz + m_used p)) in
        if \<not> malloc h next_size then Inl Bad_alloc
        else Inr (p\<lparr>m_free := next_size - m_used p\<rparr>))
     else
       (let not_parsed = m_used p - m_off p;
          next_size = grow (m_initial_buffer_size p) (wrap (sz + not_parsed + COUNTER_SIZE))
        in if \<not> malloc h next_size \<or> hook_throws h then Inl Bad_alloc
        else Inr (p\<lparr>buf := drop (m_off p - COUNTER_SIZE) (buf p), m_used := not_parsed + COUNTER_SIZE,
          m_free := next_size - (not_parsed + COUNTER_SIZE), m_off := COUNTER_SIZE\<rparr>)))"

definition expand_buffer :: "heap \<Rightarrow> nat \<Rightarrow> unpacker \<Rightarrow> stream_exn + unpacker" where
  "expand_buffer h sz p =
    (if m_used p = m_off p \<and> sole_owner h then
       (let p = rewind_buffer p in if m_free p \<ge> sz then Inr p else enlarge_buffer h sz p)
     else enlarge_buffer h sz p)"

definition reserve_buffer :: "heap \<Rightarrow> nat \<Rightarrow> unpacker \<Rightarrow> stream_exn + unpacker" where
  "reserve_buffer h sz p = (if m_free p \<ge> sz then Inr p else expand_buffer h sz p)"

definition buffer_capacity :: "unpacker \<Rightarrow> nat" where "buffer_capacity p = m_free p"

text \<open>The user copies bytes to \<open>buffer()\<close> and reports them with \<open>buffer_consumed\<close>.\<close>

definition buffer_consumed :: "byte list \<Rightarrow> unpacker \<Rightarrow> unpacker" where
  "buffer_consumed bs p = p\<lparr>buf := buf p @ bs, m_used := m_used p + length bs, m_free := m_free p - length bs\<rparr>"

definition nonparsed_buffer :: "unpacker \<Rightarrow> byte list" where
  "nonparsed_buffer p = drop (m_off p - COUNTER_SIZE) (buf p)"

definition nonparsed_size :: "unpacker \<Rightarrow> nat" where "nonparsed_size p = m_used p - m_off p"
definition parsed_size :: "unpacker \<Rightarrow> nat" where "parsed_size p = m_parsed p"
definition message_size :: "unpacker \<Rightarrow> nat" where "message_size p = m_parsed p + m_used p - m_off p"

definition skip_nonparsed_buffer :: "nat \<Rightarrow> unpacker \<Rightarrow> unpacker" where
  "skip_nonparsed_buffer sz p = p\<lparr>m_off := m_off p + sz\<rparr>"

text \<open>What stays in memory beyond \<open>m_used\<close> is never read again.\<close>

definition remove_nonparsed_buffer :: "unpacker \<Rightarrow> unpacker" where
  "remove_nonparsed_buffer p = p\<lparr>buf := take (m_off p - COUNTER_SIZE) (buf p), m_used := m_off p\<rparr>"

subsection \<open>Objects\<close>

definition reset :: "unpacker \<Rightarrow> unpacker" where
  "reset p = p\<lparr>ctx := context_init, m_parsed := 0\<rparr>"

definition execute_imp :: "unpack_limit \<Rightarrow> unpacker \<Rightarrow> stream_exn + parse_return \<times> unpacker" where
  "execute_imp lm p = (let off = m_off p in
     case execute lm (ctx p) (nonparsed_buffer p) of
       Inl e \<Rightarrow> Inl (Unpack_error e)
     | Inr (ret, c, rest) \<Rightarrow> (let new_off = m_used p - length rest in
         Inr (ret, p\<lparr>ctx := c, m_off := new_off, m_parsed := m_parsed p + (if new_off > off then new_off - off else 0)\<rparr>)))"

definition parser_next :: "unpack_limit \<Rightarrow> unpacker \<Rightarrow> stream_exn + bool \<times> unpacker" where
  "parser_next lm p = bind_result (execute_imp lm p) (\<lambda>(ret, p). Inr (ret = PARSE_SUCCESS, p))"

text \<open>\<open>unpacker::next\<close>; without a complete object the result is an empty one.\<close>

definition unpacker_next :: "unpack_limit \<Rightarrow> unpacker \<Rightarrow> stream_exn + object option \<times> unpacker" where
  "unpacker_next lm p = bind_result (parser_next lm p) (\<lambda>(ret, p).
     if ret then Inr (Some (cur (vis (ctx p))), reset p) else Inr (None, p))"

subsection \<open>The invariant of the buffer\<close>

definition buffer_ok :: "unpacker \<Rightarrow> bool" where
  "buffer_ok p \<longleftrightarrow> COUNTER_SIZE \<le> m_off p \<and> m_off p \<le> m_used p \<and> m_used p = COUNTER_SIZE + length (buf p)
     \<and> COUNTER_SIZE \<le> m_initial_buffer_size p"

lemma buffer_ok_new: "unpacker_new alloc sz = Inr p \<Longrightarrow> buffer_ok p"
  by (auto simp: unpacker_new_def buffer_ok_def COUNTER_SIZE_def Let_def split: if_splits)

lemma length_nonparsed: "buffer_ok p \<Longrightarrow> length (nonparsed_buffer p) = nonparsed_size p"
  by (auto simp: buffer_ok_def nonparsed_buffer_def nonparsed_size_def)

text \<open>A reservation keeps the context and the bytes that are not parsed, and gives the room asked for.\<close>

definition same_stream :: "unpacker \<Rightarrow> unpacker \<Rightarrow> bool" where
  "same_stream p q \<longleftrightarrow> buffer_ok q \<and> ctx q = ctx p \<and> nonparsed_buffer q = nonparsed_buffer p \<and> m_parsed q = m_parsed p
     \<and> m_used q \<le> m_used p"

lemma rewind_same: "buffer_ok p \<Longrightarrow> m_used p = m_off p \<Longrightarrow> same_stream p (rewind_buffer p)"
  by (simp add: same_stream_def rewind_buffer_def buffer_ok_def nonparsed_buffer_def)

lemma enlarge_same:
  assumes "enlarge_buffer h sz p = Inr q" "buffer_ok p" "sz + m_used p < 2 ^ 64"
  shows "same_stream p q \<and> sz \<le> m_free q"
proof (cases "m_off p = COUNTER_SIZE")
  case True
  have "wrap (sz + m_used p) = sz + m_used p" using assms(3) by (simp add: wrap_def)
  then obtain n where "q = p\<lparr>m_free := grow n (sz + m_used p) - m_used p\<rparr>"
    using assms(1) True by (auto simp: enlarge_buffer_def Let_def split: if_splits)
  moreover have "sz \<le> grow n (sz + m_used p) - m_used p" using grow_enough [of "sz + m_used p" n] by linarith
  ultimately show ?thesis using assms(2) by (simp add: same_stream_def buffer_ok_def nonparsed_buffer_def)
next
  case False
  define k where "k = m_used p - m_off p"
  have "sz + k + COUNTER_SIZE \<le> sz + m_used p" using assms(2) by (auto simp: buffer_ok_def k_def)
  then have w: "wrap (sz + k + COUNTER_SIZE) = sz + k + COUNTER_SIZE"
    unfolding wrap_def by (intro mod_less) (use assms(3) in linarith)
  define d where "d = drop (m_off p - COUNTER_SIZE) (buf p)"
  have d: "k = length d" using assms(2) by (auto simp: buffer_ok_def k_def d_def)
  obtain n where q: "q = p\<lparr>buf := d, m_used := k + COUNTER_SIZE,
      m_free := grow n (sz + k + COUNTER_SIZE) - (k + COUNTER_SIZE), m_off := COUNTER_SIZE\<rparr>"
    using assms(1) False unfolding enlarge_buffer_def k_def [symmetric] d_def [symmetric] Let_def w by (auto split: if_splits)
  have "sz \<le> m_free q" using grow_enough [of "sz + k + COUNTER_SIZE" n] by (simp add: q)
  moreover have m: "k + COUNTER_SIZE \<le> m_used p" using assms(2) by (auto simp: buffer_ok_def k_def)
  ultimately show ?thesis
    using assms(2) d by (simp add: q same_stream_def buffer_ok_def nonparsed_buffer_def d_def [symmetric])
qed

lemma reserve_buffer_same:
  assumes "reserve_buffer h sz p = Inr q" "buffer_ok p" "sz + m_used p < 2 ^ 64"
  shows "same_stream p q \<and> sz \<le> m_free q"
proof -
  have refl: "same_stream p p" using assms(2) by (simp add: same_stream_def)
  have "sz \<le> m_free p \<and> q = p \<or> enlarge_buffer h sz p = Inr q
    \<or> m_used p = m_off p \<and> sz \<le> m_free (rewind_buffer p) \<and> q = rewind_buffer p
    \<or> m_used p = m_off p \<and> enlarge_buffer h sz (rewind_buffer p) = Inr q"
  proof (cases "sz \<le> m_free p \<or> \<not> (m_used p = m_off p \<and> sole_owner h)")
    case True
    then show ?thesis using assms(1) by (cases "sz \<le> m_free p") (auto simp: reserve_buffer_def expand_buffer_def)
  next
    case False
    then show ?thesis using assms(1)
      by (cases "sz \<le> m_free (rewind_buffer p)") (simp_all add: reserve_buffer_def expand_buffer_def Let_def)
  qed
  then consider "sz \<le> m_free p" "q = p" | "enlarge_buffer h sz p = Inr q"
    | "m_used p = m_off p" "sz \<le> m_free (rewind_buffer p)" "q = rewind_buffer p"
    | "m_used p = m_off p" "enlarge_buffer h sz (rewind_buffer p) = Inr q" by blast
  then show ?thesis
  proof cases
    case 4
    note r = rewind_same [OF assms(2) 4(1)]
    then have "same_stream (rewind_buffer p) q \<and> sz \<le> m_free q"
      using 4(2) assms(2,3) by (intro enlarge_same) (auto simp: same_stream_def rewind_buffer_def buffer_ok_def)
    then show ?thesis using r by (simp add: same_stream_def)
  qed (use refl assms enlarge_same rewind_same in blast)+
qed

lemma buffer_consumed_keeps:
  assumes "buffer_ok p"
  shows "buffer_ok (buffer_consumed bs p) \<and> ctx (buffer_consumed bs p) = ctx p
    \<and> nonparsed_buffer (buffer_consumed bs p) = nonparsed_buffer p @ bs"
  using assms by (auto simp: buffer_consumed_def buffer_ok_def nonparsed_buffer_def)

text \<open>The decoder leaves an end of the bytes it is given.\<close>

lemma execute_suffix: "execute lm c bs = Inr (ret, c', r) \<Longrightarrow> \<exists>used. bs = used @ r \<and> (ret = PARSE_SUCCESS \<longrightarrow> used \<noteq> []) \<and> ret \<noteq> PARSE_EXTRA_BYTES"
proof (induction lm c bs rule: execute.induct)
  case (1 lm c bs)
  show ?case
  proof (cases "m_cs c = CS_HEADER")
    case True
    show ?thesis
    proof (cases bs)
      case Nil
      have "execute lm c [] = Inr (PARSE_CONTINUE, c, [])" using True by (subst execute.simps) simp
      then show ?thesis using "1.prems" Nil by simp
    next
      case (Cons x xs)
      obtain fin d where y: "header_step lm c x = Inr (fin, d)"
        using "1.prems" Cons by (cases "header_step lm c x") (auto simp: execute_header [OF True])
      then show ?thesis
        using "1.prems" Cons "1.IH"(1) [OF True Cons, of fin d] y by (cases fin) (auto simp: execute_header [OF True])
    qed
  next
    case False
    show ?thesis
    proof (cases "length bs < m_trail c \<or> m_trail c = 0")
      case True
      then have "execute lm c bs = Inr (PARSE_CONTINUE, c, bs)" using False by (subst execute.simps) simp
      then show ?thesis using "1.prems" by simp
    next
      case enough: False
      define n r' where "n = take (m_trail c) bs" and "r' = drop (m_trail c) bs"
      have bs: "bs = n @ r'" "length n = m_trail c" "n \<noteq> []" using enough by (auto simp: n_def r'_def)
      obtain fin d where y: "trail_step lm c n = Inr (fin, d)"
        using "1.prems" execute_trail [OF False bs(2,3), of lm r'] bs(1) by (cases "trail_step lm c n") auto
      have e: "execute lm c bs = execute lm d r'" if "\<not> fin"
        using execute_trail [OF False bs(2,3), of lm r'] y that by (simp add: bs(1) [symmetric])
      have "\<exists>used. r' = used @ r \<and> (ret = PARSE_SUCCESS \<longrightarrow> used \<noteq> []) \<and> ret \<noteq> PARSE_EXTRA_BYTES" if "\<not> fin"
        using "1.IH"(2) [OF False enough, of fin d] "1.prems" that y e [OF that] by (simp add: n_def r'_def)
      then show ?thesis
        using "1.prems" execute_trail [OF False bs(2,3), of lm r'] y bs by (cases fin) auto
    qed
  qed
qed

subsection \<open>What a resumable decoder promises\<close>

text \<open>
  The interface between the stream and the decoder under it: \<open>run\<close> reads at most one object, and the
  context and the bytes it leaves are all it needs to go on. \<open>yields\<close> is the stream that such a
  decoder stands for: the objects in the bytes, and where it waits for more.
\<close>

inductive yields :: "('c \<Rightarrow> 'b list \<Rightarrow> 'e + bool \<times> 'c \<times> 'b list) \<Rightarrow> ('c \<Rightarrow> 'o) \<Rightarrow> 'c \<Rightarrow> 'c \<Rightarrow> 'b list \<Rightarrow> 'o list \<Rightarrow> 'c \<Rightarrow> 'b list \<Rightarrow> bool"
  for run out fresh where
  waits: "run c bs = Inr (False, c', r) \<Longrightarrow> yields run out fresh c bs [] c' r"
| gives: "run c bs = Inr (True, c', r) \<Longrightarrow> yields run out fresh fresh r os d t \<Longrightarrow> yields run out fresh c bs (out c' # os) d t"

locale resumable =
  fixes run :: "'c \<Rightarrow> 'b list \<Rightarrow> 'e + bool \<times> 'c \<times> 'b list"
    and out :: "'c \<Rightarrow> 'o"
    and fresh :: 'c
  assumes in_pieces: "run c (a @ b) = bind_result (run c a) (\<lambda>(fin, c', r). if fin then Inr (True, c', r @ b) else run c' (r @ b))"
    and fresh_waits: "run fresh [] = Inr (False, fresh, [])"
begin

lemma waits_on: "run c a = Inr (False, c', r) \<Longrightarrow> run c (a @ b) = run c' (r @ b)"
  using in_pieces [of c a b] by simp

lemma gives_on: "run c a = Inr (True, c', r) \<Longrightarrow> run c (a @ b) = Inr (True, c', r @ b)"
  using in_pieces [of c a b] by simp

lemma yields_run: "run c a = run c' a' \<Longrightarrow> yields run out fresh c a os d t \<longleftrightarrow> yields run out fresh c' a' os d t"
  by (subst (1 2) yields.simps) simp

lemma idle: "yields run out fresh c bs os d t \<Longrightarrow> run d t = Inr (False, d, t)"
  by (induction rule: yields.induct) (use waits_on [where b = "[]"] in auto)

lemma yields_append:
  assumes "yields run out fresh c (a @ b) os d t"
  shows "\<exists>os1 c1 r1 os2. yields run out fresh c a os1 c1 r1 \<and> yields run out fresh c1 (r1 @ b) os2 d t \<and> os = os1 @ os2"
  using assms
proof (induction c "a @ b" os d t arbitrary: a rule: yields.induct)
  case (waits c c' r)
  show ?case
  proof (cases "run c a")
    case (Inl e)
    then show ?thesis using waits in_pieces [of c a b] by simp
  next
    case (Inr y)
    obtain fin c1 r1 where y: "y = (fin, c1, r1)" by (cases y)
    have "\<not> fin" using waits gives_on [of c a c1 r1 b] Inr y by auto
    then have w: "run c a = Inr (False, c1, r1)" using Inr y by simp
    then have "yields run out fresh c1 (r1 @ b) [] c' r"
      using waits waits_on [OF w, of b] by (intro yields.waits) simp
    then show ?thesis using yields.waits [where run = run, OF w] by fastforce
  qed
next
  case (gives c c' r os d t)
  show ?case
  proof (cases "run c a")
    case (Inl e)
    then show ?thesis using gives in_pieces [of c a b] by simp
  next
    case (Inr y)
    obtain fin c1 r1 where y: "y = (fin, c1, r1)" by (cases y)
    show ?thesis
    proof (cases fin)
      case True
      then have g: "run c a = Inr (True, c1, r1)" using Inr y by simp
      then have "c' = c1" "r = r1 @ b" using gives(1) gives_on [OF g, of b] by simp_all
      then obtain os1 c2 r2 os2 where "yields run out fresh fresh r1 os1 c2 r2" "yields run out fresh c2 (r2 @ b) os2 d t"
        "os = os1 @ os2" using gives(3) by blast
      moreover have "yields run out fresh c a (out c1 # os1) c2 r2" by (rule yields.gives [OF g calculation(1)])
      ultimately show ?thesis using \<open>c' = c1\<close> by (metis append_Cons)
    next
      case False
      then have w: "run c a = Inr (False, c1, r1)" using Inr y by simp
      have "yields run out fresh c (a @ b) (out c' # os) d t" by (rule yields.gives [OF gives(1,2)])
      then have "yields run out fresh c1 (r1 @ b) (out c' # os) d t" using yields_run [OF waits_on [OF w, of b]] by blast
      then show ?thesis using yields.waits [where run = run, OF w] by fastforce
    qed
  qed
qed

text \<open>An encoder whose words the decoder reads one by one.\<close>

lemma yields_encoded:
  assumes "\<And>o' rest. o' \<in> set os \<Longrightarrow> \<exists>c. run fresh (enc o' @ rest) = Inr (True, c, rest) \<and> out c = o'"
  shows "yields run out fresh fresh (concat (map enc os)) os fresh []"
  using assms
proof (induction os)
  case Nil
  show ?case using yields.waits [of run fresh "[]" fresh "[]" out fresh, OF fresh_waits] by simp
next
  case (Cons o' os)
  obtain c where "run fresh (enc o' @ concat (map enc os)) = Inr (True, c, concat (map enc os))" "out c = o'"
    using Cons.prems [of o'] by force
  then show ?case using yields.gives [where run = run and out = out and fresh = fresh and os = os] Cons by fastforce
qed

end

subsection \<open>The model keeps it\<close>

definition decode_one :: "unpack_limit \<Rightarrow> parse_context \<Rightarrow> byte list \<Rightarrow> unpack_exn + bool \<times> parse_context \<times> byte list" where
  "decode_one lm c bs = bind_result (execute lm c bs) (\<lambda>(ret, c, r). Inr (ret = PARSE_SUCCESS, c, r))"

definition decoded :: "parse_context \<Rightarrow> object" where
  "decoded c = cur (vis c)"

lemma execute_returns: "execute lm c bs = Inr (ret, c', r) \<Longrightarrow> ret = PARSE_SUCCESS \<or> ret = PARSE_CONTINUE"
  using execute_suffix [of lm c bs ret c' r] by (cases ret) auto

interpretation stream: resumable "decode_one lm" decoded context_init for lm
proof
  show "decode_one lm c (a @ b) = bind_result (decode_one lm c a) (\<lambda>(fin, c', r). if fin then Inr (True, c', r @ b) else decode_one lm c' (r @ b))" for c a b
    using execute_in_pieces [of lm c a b] execute_returns [of lm c a]
    by (cases "execute lm c a") (auto simp: decode_one_def split: prod.splits)
  show "decode_one lm context_init [] = Inr (False, context_init, [])"
    by (subst decode_one_def, subst execute.simps) (simp add: context_init_def)
qed

lemma decode_one_object:
  assumes "fits lm 0 o'"
  shows "\<exists>c. decode_one lm context_init (pack_object o' @ rest) = Inr (True, c, rest) \<and> decoded c = o'"
proof -
  obtain t where "execute lm context_init (pack_object o' @ rest)
      = resume lm (context_init\<lparr>m_trail := t, vis := put o' (vis context_init)\<rparr>) rest"
    using readsE [OF reads_object [OF assms, of context_init rest]] by (auto simp: context_init_def visitor_init_def)
  then show ?thesis by (simp add: decode_one_def decoded_def resume_def context_init_def put_def)
qed

lemma yields_packed:
  "list_all (fits lm 0) os \<Longrightarrow> yields (decode_one lm) decoded context_init context_init (concat (map pack_object os)) os context_init []"
  by (rule stream.yields_encoded [OF decode_one_object]) (simp add: list_all_iff)

subsection \<open>Taking objects out of the stream\<close>

text \<open>The use the header documents: reserve room, copy what has arrived, report it, then take
  objects until there is none. The loop ends when \<open>next\<close> returns false.\<close>

partial_function (option) drain :: "unpack_limit \<Rightarrow> unpacker \<Rightarrow> (stream_exn + object list \<times> unpacker) option" where
  "drain lm p = (case unpacker_next lm p of
      Inl e \<Rightarrow> Some (Inl e)
    | Inr (r, q) \<Rightarrow> (case r of
        None \<Rightarrow> Some (Inr ([], q))
      | Some o' \<Rightarrow> Option.bind (drain lm q) (\<lambda>r. Some (bind_result r (\<lambda>(os, q). Inr (o' # os, q))))))"

fun receive :: "unpack_limit \<Rightarrow> (heap \<times> byte list) list \<Rightarrow> unpacker \<Rightarrow> (stream_exn + object list \<times> unpacker) option" where
  "receive lm [] p = Some (Inr ([], p))"
| "receive lm ((h, bs) # cs) p = (case reserve_buffer h (length bs) p of
      Inl e \<Rightarrow> Some (Inl e)
    | Inr p \<Rightarrow> Option.bind (drain lm (buffer_consumed bs p)) (\<lambda>r. case r of
        Inl e \<Rightarrow> Some (Inl e)
      | Inr (os, p) \<Rightarrow> map_option (\<lambda>r. bind_result r (\<lambda>(os', p). Inr (os @ os', p))) (receive lm cs p)))"

text \<open>\<open>next\<close> is a step of the decoder on the context and the bytes not parsed.\<close>

lemma unpacker_next_run:
  assumes "buffer_ok p" "decode_one lm (ctx p) (nonparsed_buffer p) = Inr (fin, c, r)"
  shows "\<exists>q. unpacker_next lm p = Inr (if fin then Some (decoded c) else None, q) \<and> buffer_ok q
    \<and> ctx q = (if fin then context_init else c) \<and> nonparsed_buffer q = r \<and> m_used q = m_used p"
proof -
  obtain ret where e: "execute lm (ctx p) (nonparsed_buffer p) = Inr (ret, c, r)" "fin = (ret = PARSE_SUCCESS)"
    using assms(2) by (cases "execute lm (ctx p) (nonparsed_buffer p)") (auto simp: decode_one_def)
  obtain used where u: "nonparsed_buffer p = used @ r" using execute_suffix [OF e(1)] by blast
  have len: "length used + length r = m_used p - m_off p"
    using length_nonparsed [OF assms(1)] unfolding u nonparsed_size_def by simp
  define q where "q = p\<lparr>ctx := c, m_off := m_used p - length r,
     m_parsed := m_parsed p + (if m_used p - length r > m_off p then m_used p - length r - m_off p else 0)\<rparr>"
  have off: "m_off q = m_off p + length used" using len assms(1) by (auto simp: q_def buffer_ok_def)
  have "nonparsed_buffer q = drop (length used) (nonparsed_buffer p)"
    using assms(1) off by (simp add: nonparsed_buffer_def q_def buffer_ok_def add.commute)
  then have n: "nonparsed_buffer q = r" by (simp add: u)
  have ok: "buffer_ok q" using assms(1) off len by (auto simp: q_def buffer_ok_def)
  have "unpacker_next lm p = Inr (if fin then Some (decoded c) else None, if fin then reset q else q)"
    by (simp add: unpacker_next_def parser_next_def execute_imp_def e Let_def q_def decoded_def)
  moreover have "buffer_ok (reset q)" "nonparsed_buffer (reset q) = r" "ctx (reset q) = context_init"
    using ok n by (simp_all add: reset_def buffer_ok_def nonparsed_buffer_def)
  ultimately show ?thesis using ok n by (auto simp: q_def reset_def)
qed

lemma drain_yields:
  assumes "yields (decode_one lm) decoded context_init c bs os d t" "buffer_ok p" "ctx p = c" "nonparsed_buffer p = bs"
  shows "\<exists>q. drain lm p = Some (Inr (os, q)) \<and> buffer_ok q \<and> ctx q = d \<and> nonparsed_buffer q = t \<and> m_used q = m_used p"
  using assms
proof (induction arbitrary: p rule: yields.induct)
  case (waits c bs c' r)
  then show ?case using unpacker_next_run [of p lm False c' r] by (subst drain.simps) auto
next
  case (gives c bs c' r os d t)
  then obtain q where q: "unpacker_next lm p = Inr (Some (decoded c'), q)" "buffer_ok q" "ctx q = context_init"
    "nonparsed_buffer q = r" "m_used q = m_used p"
    using unpacker_next_run [of p lm True c' r] by auto
  obtain q2 where "drain lm q = Some (Inr (os, q2))" "buffer_ok q2 \<and> ctx q2 = d \<and> nonparsed_buffer q2 = t \<and> m_used q2 = m_used q"
    using gives.IH [OF q(2-4)] by blast
  then show ?case using q by (subst drain.simps) simp
qed

lemma reserve_buffer_succeeds:
  assumes "\<And>n. malloc h n" "\<not> hook_throws h"
  obtains q where "reserve_buffer h sz p = Inr q"
proof -
  have "\<exists>q. enlarge_buffer h sz p = Inr q" for p using assms by (simp add: enlarge_buffer_def Let_def)
  then have "\<exists>q. expand_buffer h sz p = Inr q" by (simp add: expand_buffer_def Let_def)
  then show thesis using that by (cases "sz \<le> m_free p") (auto simp: reserve_buffer_def)
qed

definition heap_ok :: "heap \<Rightarrow> bool" where
  "heap_ok h \<longleftrightarrow> (\<forall>n. malloc h n) \<and> \<not> hook_throws h"

lemma receive_yields:
  assumes "buffer_ok p" "decode_one lm (ctx p) (nonparsed_buffer p) = Inr (False, ctx p, nonparsed_buffer p)"
    and "yields (decode_one lm) decoded context_init (ctx p) (nonparsed_buffer p @ concat (map snd cs)) os d t"
    and "list_all (heap_ok \<circ> fst) cs" "m_used p + length (concat (map snd cs)) < 2 ^ 64"
  shows "\<exists>q. receive lm cs p = Some (Inr (os, q)) \<and> ctx q = d \<and> nonparsed_buffer q = t \<and> buffer_ok q"
  using assms
proof (induction cs arbitrary: p os)
  case Nil
  then have "os = [] \<and> d = ctx p \<and> t = nonparsed_buffer p" by (auto elim: yields.cases)
  then show ?case using Nil by simp
next
  case (Cons c cs)
  obtain h bs where c: "c = (h, bs)" by (cases c)
  have "heap_ok h" using Cons.prems(4) c by simp
  then obtain p1 where p1: "reserve_buffer h (length bs) p = Inr p1"
    using reserve_buffer_succeeds [of h "length bs" p] by (auto simp: heap_ok_def)
  then have same: "same_stream p p1" using reserve_buffer_same [OF p1 Cons.prems(1)] Cons.prems(5) c by simp
  define p2 where "p2 = buffer_consumed bs p1"
  have p2: "buffer_ok p2" "ctx p2 = ctx p" "nonparsed_buffer p2 = nonparsed_buffer p @ bs" "m_used p2 \<le> m_used p + length bs"
    using same buffer_consumed_keeps [of p1 bs] by (auto simp: same_stream_def p2_def) (simp add: buffer_consumed_def)
  have "yields (decode_one lm) decoded context_init (ctx p) ((nonparsed_buffer p @ bs) @ concat (map snd cs)) os d t"
    using Cons.prems(3) c by simp
  then obtain os1 c1 r1 os2 where y: "yields (decode_one lm) decoded context_init (ctx p) (nonparsed_buffer p @ bs) os1 c1 r1"
    "yields (decode_one lm) decoded context_init c1 (r1 @ concat (map snd cs)) os2 d t" "os = os1 @ os2"
    using stream.yields_append by blast
  obtain q where q: "drain lm p2 = Some (Inr (os1, q))" "buffer_ok q" "ctx q = c1" "nonparsed_buffer q = r1" "m_used q = m_used p2"
    using drain_yields [OF y(1) p2(1-3)] by blast
  have "m_used q + length (concat (map snd cs)) < 2 ^ 64" using Cons.prems(5) c p2(4) q(5) by simp
  then obtain q2 where "receive lm cs q = Some (Inr (os2, q2))" "ctx q2 = d \<and> nonparsed_buffer q2 = t \<and> buffer_ok q2"
    using Cons.IH [of q os2] q y(2) stream.idle [OF y(1)] Cons.prems(4) by auto
  then show ?case using p1 q(1) y(3) by (simp add: c p2_def)
qed

lemma stream_delivers:
  assumes "unpacker_new alloc n = Inr p" "list_all (fits lm 0) os" "list_all (heap_ok \<circ> fst) chunks"
    and "concat (map snd chunks) = concat (map pack_object os)" "length (concat (map pack_object os)) + 4 < 2 ^ 64"
  shows "\<exists>q. receive lm chunks p = Some (Inr (os, q)) \<and> nonparsed_buffer q = [] \<and> ctx q = context_init"
proof -
  have p: "buffer_ok p" "ctx p = context_init" "nonparsed_buffer p = []" "m_used p = 4"
    using assms(1) buffer_ok_new [OF assms(1)]
    by (auto simp: unpacker_new_def nonparsed_buffer_def COUNTER_SIZE_def Let_def split: if_splits)
  have "yields (decode_one lm) decoded context_init (ctx p) (nonparsed_buffer p @ concat (map snd chunks)) os context_init []"
    using yields_packed [OF assms(2)] by (simp add: p assms(4))
  then show ?thesis using receive_yields [of p lm chunks os context_init "[]"] assms(3-5) p stream.fresh_waits [of lm] by auto
qed

subsection \<open>Properties\<close>

text \<open>
  Messages survive the stream. However the bytes of a sequence of messages are cut into chunks,
  with empty chunks and cuts inside a number or a string included, the loop that reserves, copies
  and takes objects returns, and has taken exactly the objects that were packed, in their order;
  no byte is left and the decoder is as it was at first. Memory is not exhausted.
\<close>

theorem stream_messages:
  assumes "unpacker_new alloc n = Inr p" "list_all (fits lm 0) os" "list_all (heap_ok \<circ> fst) chunks"
    and "concat (map snd chunks) = concat (map pack_object os)" "length (concat (map pack_object os)) + 4 < 2 ^ 64"
  shows "\<exists>q. receive lm chunks p = Some (Inr (os, q)) \<and> nonparsed_buffer q = [] \<and> ctx q = context_init"
  by (rule stream_delivers [OF assms])

definition sample_heap :: heap where
  "sample_heap = \<lparr>malloc = (\<lambda>_. True), sole_owner = False, hook_throws = False\<rparr>"

definition sample_unpacker :: unpacker where
  "sample_unpacker = \<lparr>ctx = context_init, buf = [], m_used = 4, m_free = 4, m_off = 4, m_parsed = 0, m_initial_buffer_size = 8\<rparr>"

theorem stream_messages_witness:
  "\<exists>q. receive default_limit [(sample_heap, [0xcd, 1]), (sample_heap, []), (sample_heap, [0x2c, 0xa2, 0x68]), (sample_heap, [0x69])]
       sample_unpacker = Some (Inr ([POSITIVE_INTEGER 300, STRING [0x68, 0x69]], q))
     \<and> nonparsed_buffer q = [] \<and> ctx q = context_init"
  by (rule stream_messages [of "\<lambda>_. True" 8])
    (simp_all add: sample_heap_def heap_ok_def sample_unpacker_def unpacker_new_def COUNTER_SIZE_def default_limit_def
      pack_uint64_def pack_imp_uint64_def pack_str_def pack_str_body_def store16_eq)

text \<open>
  A reservation that returns gives the room it was asked for, whatever the layout of the buffer,
  the owners of it and the memory, as the header promises; the buffer stays well formed, and the
  context, the bytes not parsed and the counters \<open>parsed_size\<close> and \<open>message_size\<close> are as before.
\<close>

lemma reserve_buffer_spec:
  assumes "reserve_buffer h sz p = Inr q" "buffer_ok p" "sz + m_used p < 2 ^ 64"
  shows "buffer_ok q \<and> sz \<le> buffer_capacity q \<and> ctx q = ctx p \<and> nonparsed_buffer q = nonparsed_buffer p
    \<and> nonparsed_size q = nonparsed_size p \<and> parsed_size q = parsed_size p \<and> message_size q = message_size p"
proof -
  note r = reserve_buffer_same [OF assms]
  have "nonparsed_size q = nonparsed_size p"
    using r length_nonparsed [of q] length_nonparsed [OF assms(2)] by (simp add: same_stream_def)
  moreover have "message_size u = parsed_size u + nonparsed_size u" if "buffer_ok u" for u
    using that by (simp add: message_size_def parsed_size_def nonparsed_size_def buffer_ok_def)
  ultimately show ?thesis using r assms(2) by (simp add: same_stream_def buffer_capacity_def parsed_size_def)
qed

end
