(* ===== verification/V1Agree.thy ===== *)
theory V1Agree
  imports V1Unpack StreamParser
begin

text \<open>
  The two decoders of the library agree. A simulation relates the stack of half-built objects of
  \<open>V1Unpack\<close> to the parser stack and the visitor of \<open>Unpack\<close>; every step of the newer decoder is matched by
  one of the older, except where it throws what the older one does not check.
\<close>

subsection \<open>The simulation relation\<close>

fun entries_rel :: "unpack_stack list \<Rightarrow> (container_type \<times> nat) list \<Rightarrow> object list list \<Rightarrow> bool" where
  "entries_rel [] [] [] = True"
| "entries_rel (e # es) ((ct, r) # st) (f # fs) = (st_type e = ct \<and> st_count e = r \<and> 0 < r
     \<and> (case ct of
          CT_ARRAY_ITEM \<Rightarrow> st_obj e = ARRAY (rev f)
        | CT_MAP_KEY \<Rightarrow> even (length f) \<and> st_obj e = MAP (pairs (rev f))
        | CT_MAP_VALUE \<Rightarrow> odd (length f) \<and> st_obj e = MAP (pairs (rev (List.tl f))) \<and> st_key e = hd f)
     \<and> entries_rel es st fs)"
| "entries_rel _ _ _ = False"

lemma entries_rel_length: "entries_rel es st fs \<Longrightarrow> length es = length fs"
  by (induction es st fs rule: entries_rel.induct) auto

lemma pairs_rev_two: "even (length f) \<Longrightarrow> pairs (rev (v # k # f)) = pairs (rev f) @ [(k, v)]"
  using pairs_snoc2 [of "rev f" k v "[]"] by simp

lemma decr_count_pos: "0 < n \<Longrightarrow> decr_count n = n - 1"
  by (simp add: decr_count_def)

text \<open>Where a finished object goes. The entry that was at the top is kept while containers stay open.\<close>

lemma push_item_consume:
  assumes "entries_rel es st fs"
  shows "case consume st \<lparr>cur = o', frames = fs\<rparr> of (fin, st', v) \<Rightarrow>
    if fin then \<exists>t. push_item (s # es) o' = (1, [t], cur v) \<and> frames v = [] \<and> st' = []
    else \<exists>t es' obj. push_item (s # es) o' = (0, t # es', obj) \<and> entries_rel es' st' (frames v)"
  using assms
proof (induction es st fs arbitrary: s o' rule: entries_rel.induct)
  case 1
  then show ?case by simp
next
  case (2 e es ct r st f fs)
  show ?case
  proof (cases ct)
    case CT_ARRAY_ITEM
    then have e: "st_obj e = ARRAY (rev f)" "st_type e = CT_ARRAY_ITEM" "st_count e = r" "0 < r" "entries_rel es st fs"
      using "2.prems" by auto
    show ?thesis
    proof (cases "r = 1")
      case True
      have "decr_count r = 0" using True by (simp add: decr_count_def)
      then show ?thesis
        using "2.IH" [OF e(5), where o' = "ARRAY (rev f @ [o'])" and s = "e\<lparr>st_obj := ARRAY (rev f @ [o']), st_count := 0\<rparr>"] e True CT_ARRAY_ITEM
        by (auto simp: end_item_def end_array_def unpack_array_item_def split: prod.splits)
    next
      case False
      then show ?thesis using e CT_ARRAY_ITEM
        by (simp add: end_item_def unpack_array_item_def decr_count_pos)
    qed
  next
    case CT_MAP_KEY
    then show ?thesis using "2.prems" by (auto simp: end_item_def)
  next
    case CT_MAP_VALUE
    then have e: "st_obj e = MAP (pairs (rev (List.tl f)))" "st_key e = hd f" "odd (length f)" "st_type e = CT_MAP_VALUE"
      "st_count e = r" "0 < r" "entries_rel es st fs"
      using "2.prems" by auto
    obtain k g where f: "f = k # g" using e(3) by (cases f) auto
    have m: "unpack_map_item (st_obj e) (st_key e) o' = MAP (pairs (rev (o' # f)))"
      using e(1-3) by (simp add: f unpack_map_item_def pairs_rev_two [of g, simplified])
    show ?thesis
    proof (cases "r = 1")
      case True
      have "decr_count r = 0" using True by (simp add: decr_count_def)
      then show ?thesis
        using "2.IH" [OF e(7), where o' = "MAP (pairs (rev f @ [o']))" and s = "e\<lparr>st_obj := MAP (pairs (rev f @ [o'])), st_count := 0\<rparr>"] e(4-6) m True CT_MAP_VALUE
        by (auto simp: end_item_def end_map_def split: prod.splits)
    next
      case False
      then show ?thesis using e(3-7) m CT_MAP_VALUE
        by (simp add: end_item_def decr_count_pos)
    qed
  qed
qed auto

lemma put_eq: "put o' v = \<lparr>cur = o', frames = frames v\<rparr>"
  by (simp add: put_def)

definition sim :: "v1_context \<Rightarrow> parse_context \<Rightarrow> bool" where
  "sim d c \<longleftrightarrow> v1_cs d = m_cs c \<and> v1_trail d = m_trail c
     \<and> (\<exists>s es. v1_stack d = s # es \<and> entries_rel es (m_stack c) (frames (vis c)))"

lemma sim_init: "sim v1_context_init context_init"
  by (simp add: sim_def v1_context_init_def context_init_def visitor_init_def)

text \<open>What the newer decoder throws and the older one does not: the depth of an empty container, and the
  limits of bytes that are only referred to. (The older one keeps the size of an extension in 64 bits, the
  newer one in 32: the lemmas are on data shorter than four gigabytes.)\<close>

definition unmatched :: "unpack_user \<Rightarrow> unpack_exn \<Rightarrow> bool" where
  "unmatched u e \<longleftrightarrow> e = Depth_overflow
     \<or> reference_func u \<noteq> None \<and> e \<in> {Str_overflow, Bin_overflow, Ext_overflow}"

definition steps_sim :: "unpack_user \<Rightarrow> v1_result \<Rightarrow> step_result \<Rightarrow> bool" where
  "steps_sim u r1 r2 \<longleftrightarrow> (case r2 of
      Inl e \<Rightarrow> unmatched u e \<or> r1 = Inl e \<or> (e = Parse_error \<and> (\<exists>d. r1 = Inr (-1, d)))
    | Inr (fin, c) \<Rightarrow> (\<exists>d. r1 = Inr (if fin then 1 else 0, d) \<and> (if fin then v1_data d = cur (vis c) else sim d c)))"

lemma push_proc_sim:
  assumes "sim d c" "v1_stack d' = v1_stack d" "v1_trail d' = v1_trail d"
  shows "steps_sim u (Inr (push_proc d' o')) (visited c (Inr (put o' (vis c))))"
proof -
  obtain s es where s: "v1_stack d = s # es" "entries_rel es (m_stack c) (frames (vis c))" using assms(1) by (auto simp: sim_def)
  obtain fin st v where v: "consume (m_stack c) \<lparr>cur = o', frames = frames (vis c)\<rparr> = (fin, st, v)"
    by (cases "consume (m_stack c) \<lparr>cur = o', frames = frames (vis c)\<rparr>")
  show ?thesis
    using push_item_consume [OF s(2), where o' = o' and s = s] v assms s(1)
    by (cases fin) (auto simp: steps_sim_def visited_def after_visit_proc_def put_eq push_proc_def v1_data_def sim_def)
qed

lemma push_raw_sim:
  assumes "sim d c"
    and "case r2 of Inl e \<Rightarrow> unmatched u e \<or> r1 = Inl e | Inr v \<Rightarrow> \<exists>o' b. r1 = Inr (o', b) \<and> v = put o' (vis c)"
  shows "steps_sim u (push_raw d r1) (visited c r2)"
proof (cases r2)
  case (Inl e)
  then show ?thesis using assms(2) by (auto simp: visited_def steps_sim_def push_raw_def)
next
  case (Inr v)
  then obtain o' b where o': "r1 = Inr (o', b)" "v = put o' (vis c)" using assms(2) by auto
  then show ?thesis using push_proc_sim [OF assms(1), of "d\<lparr>v1_referenced := b\<rparr>" u o']
    by (simp add: Inr push_raw_def)
qed

lemma raw_sims:
  assumes "user_limit u = lm"
  shows "case visit_str lm s v of Inl e \<Rightarrow> unmatched u e \<or> unpack_str u s b = Inl e
      | Inr w \<Rightarrow> \<exists>o' b'. unpack_str u s b = Inr (o', b') \<and> w = put o' v"
    "case visit_bin lm s v of Inl e \<Rightarrow> unmatched u e \<or> unpack_bin u s b = Inl e
      | Inr w \<Rightarrow> \<exists>o' b'. unpack_bin u s b = Inr (o', b') \<and> w = put o' v"
    "length s < 2 ^ 32 \<Longrightarrow> case visit_ext lm s v of Inl e \<Rightarrow> unmatched u e \<or> unpack_ext u s b = Inl e
      | Inr w \<Rightarrow> \<exists>o' b'. unpack_ext u s b = Inr (o', b') \<and> w = put o' v"
  using assms
  by (auto simp: Let_def visit_str_def unpack_str_def visit_bin_def unpack_bin_def visit_ext_def unpack_ext_def unmatched_def refers_def
      split: option.splits)

text \<open>The head of a container.\<close>

lemma push_aggregate_sim:
  assumes "sim d c" "user_limit u = lm"
  shows "steps_sim u (push_aggregate u is_map n d) (start_aggregate lm is_map n c)"
proof -
  obtain s es where s: "v1_stack d = s # es" "entries_rel es (m_stack c) (frames (vis c))" using assms(1) by (auto simp: sim_def)
  have len: "length es = length (frames (vis c))" using entries_rel_length [OF s(2)] .
  have trail: "v1_trail d = m_trail c" using assms(1) by (simp add: sim_def)
  define lim where "lim = (if is_map then lim_map lm else lim_array lm)"
  consider "lim < n" | "n \<le> lim" "\<not> length es < lim_depth lm" | "n \<le> lim" "length es < lim_depth lm" "n = 0"
    | "n \<le> lim" "length es < lim_depth lm" "0 < n" by linarith
  then show ?thesis
  proof cases
    case 1
    then show ?thesis using assms(2)
      by (cases is_map) (simp_all add: steps_sim_def push_aggregate_def start_aggregate_def start_map_def start_array_def
          unpack_map_def unpack_array_def lim_def)
  next
    case 2
    then show ?thesis using len
      by (cases is_map) (simp_all add: steps_sim_def start_aggregate_def start_map_def start_array_def lim_def unmatched_def)
  next
    case 3
    define a where "a = (if is_map then MAP [] else ARRAY [])"
    have "start_aggregate lm is_map n c = visited c (Inr (put a (vis c)))"
      using 3 len by (cases is_map) (simp_all add: start_aggregate_def start_map_def start_array_def lim_def visited_def
          end_map_def end_array_def put_eq a_def)
    moreover have "push_aggregate u is_map n d = Inr (push_proc (d\<lparr>v1_stack := s\<lparr>st_obj := a\<rparr> # es\<rparr>) a)"
      using 3 assms(2) s(1) by (cases is_map) (simp_all add: push_aggregate_def unpack_map_def unpack_array_def lim_def a_def)
    moreover have "sim (d\<lparr>v1_stack := s\<lparr>st_obj := a\<rparr> # es\<rparr>) c" using assms(1) s(2) by (simp add: sim_def)
    ultimately show ?thesis using push_proc_sim by metis
  next
    case 4
    then show ?thesis using assms(2) s trail len
      by (cases is_map) (simp_all add: steps_sim_def push_aggregate_def unpack_map_def unpack_array_def lim_def
          start_aggregate_def start_map_def start_array_def sim_def)
  qed
qed

subsection \<open>Steps\<close>

lemma sim_trail: "sim d c \<Longrightarrow> sim (d\<lparr>v1_trail := t\<rparr>) (c\<lparr>m_trail := t\<rparr>)"
  by (simp add: sim_def)

lemma sim_wait: "sim d c \<Longrightarrow> steps_sim u (Inr (0, d\<lparr>v1_trail := t, v1_cs := k\<rparr>)) (Inr (False, c\<lparr>m_trail := t, m_cs := k\<rparr>))"
  by (simp add: sim_def steps_sim_def)

lemma push_put_sim: "sim d c \<Longrightarrow> v = put o' (vis c) \<Longrightarrow> steps_sim u (Inr (push_proc d o')) (visited c (Inr v))"
  using push_proc_sim [of d c d] by simp

lemmas objects_sim = unpack_uint_def unpack_int_def unpack_float_def unpack_double_def unpack_nil_def unpack_true_def
  unpack_false_def visit_positive_integer_def visit_negative_integer_def visit_float32_def visit_float64_def
  visit_nil_def visit_boolean_def

lemma v1_header_sim:
  assumes "sim d c" "user_limit u = lm"
  shows "steps_sim u (v1_header u d b) (header_step lm c b)"
proof -
  define k where "k = uint b"
  have range: "0 \<le> k" "k < 256" using uint_lt2p [of b] by (simp_all add: k_def)
  consider "k \<le> 0x7f" | "0xe0 \<le> k" | "0xc4 \<le> k" "k < 0xe0" | "0xa0 \<le> k" "k \<le> 0xbf" | "0x90 \<le> k" "k \<le> 0x9f"
    | "0x80 \<le> k" "k \<le> 0x8f" | "k = 0xc0" | "k = 0xc1" | "k = 0xc2" | "k = 0xc3" using range by linarith
  then show ?thesis
  proof cases
    case 4
    then show ?thesis
      using push_raw_sim [OF sim_trail [OF assms(1)] raw_sims(1) [OF assms(2)]] sim_wait [OF assms(1)]
      by (auto simp: v1_header_def header_step_def k_def [symmetric] Let_def)
  next
    case 8
    then show ?thesis using assms by (simp add: v1_header_def header_step_def k_def [symmetric] steps_sim_def)
  qed (use range assms push_aggregate_sim sim_wait push_put_sim in
      \<open>simp_all add: v1_header_def header_step_def k_def [symmetric] objects_sim\<close>)
qed

lemma v1_trail_step_sim:
  assumes "sim d c" "user_limit u = lm" "length n < 2 ^ 32"
  shows "steps_sim u (v1_trail_step u d n) (trail_step lm c n)"
proof -
  define k where "k = m_cs c"
  have k: "v1_cs d = k" using assms(1) by (simp add: sim_def k_def)
  note raw = push_raw_sim [OF assms(1) raw_sims(1) [OF assms(2)]] push_raw_sim [OF assms(1) raw_sims(2) [OF assms(2)]]
    push_raw_sim [OF assms(1) raw_sims(3) [OF assms(2,3)]]
  note defs = v1_trail_step_def trail_step_def k_def [symmetric] k Let_def
  consider "0x0a \<le> k" "k \<le> 0x13" | "0x14 \<le> k" "k \<le> 0x18" | "0x19 \<le> k" "k \<le> 0x1b" | "0x04 \<le> k" "k \<le> 0x06"
    | "0x07 \<le> k" "k \<le> 0x09" | "0x20 \<le> k" "k \<le> 0x20" | "0x21 \<le> k" "k \<le> 0x21" | "0x22 \<le> k" "k \<le> 0x22"
    | "0x1c \<le> k" "k \<le> 0x1d" | "0x1e \<le> k" "k \<le> 0x1f" | "k < 4" | "0x22 < k" by linarith
  then show ?thesis
  proof cases
    case 1
    then have "trail_number k n (vis c) = put (v1_number k n) (vis c)"
      by (auto simp: v1_number_def trail_number_def objects_sim)
    then show ?thesis using 1 push_put_sim [OF assms(1)] by (simp add: defs)
  next
    case 2
    then show ?thesis using raw(3) by (simp add: defs)
  next
    case 3
    then have "k = 0x19 \<or> k = 0x1a \<or> k = 0x1b" by presburger
    then show ?thesis
      using push_raw_sim [OF sim_trail [OF assms(1)] raw_sims(1) [OF assms(2)]] sim_wait [OF assms(1)]
      by (elim disjE) (simp_all add: defs v1_length_def trail_size_def)
  next
    case 4
    then have "k = 0x04 \<or> k = 0x05 \<or> k = 0x06" by presburger
    then show ?thesis
      using push_raw_sim [OF sim_trail [OF assms(1)] raw_sims(2) [OF assms(2)]] sim_wait [OF assms(1)]
      by (elim disjE) (simp_all add: defs v1_length_def trail_size_def)
  next
    case 5
    then have "k = 0x07 \<or> k = 0x08 \<or> k = 0x09" by presburger
    then show ?thesis
      using sim_wait [OF assms(1)] by (elim disjE) (simp_all add: defs v1_length_def trail_size_def)
  next
    case 6
    then have "k = 0x20" by simp
    then show ?thesis using raw(1) by (simp add: defs trail_value_def)
  next
    case 7
    then have "k = 0x21" by simp
    then show ?thesis using raw(2) by (simp add: defs trail_value_def)
  next
    case 8
    then have "k = 0x22" by simp
    then show ?thesis using raw(3) by (simp add: defs trail_value_def)
  next
    case 9
    then have "k = 0x1c \<or> k = 0x1d" by presburger
    then show ?thesis using push_aggregate_sim [OF assms(1,2)] by (elim disjE) (simp_all add: defs)
  next
    case 10
    then have "k = 0x1e \<or> k = 0x1f" by presburger
    then show ?thesis using push_aggregate_sim [OF assms(1,2)] by (elim disjE) (simp_all add: defs)
  next
    case 11
    then show ?thesis by (simp add: defs steps_sim_def)
  next
    case 12
    then show ?thesis by (simp add: defs steps_sim_def)
  qed
qed

subsection \<open>Runs\<close>

definition runs_sim :: "unpack_user \<Rightarrow> unpack_exn + int \<times> v1_context \<times> byte list \<Rightarrow> unpack_exn + parse_return \<times> parse_context \<times> byte list \<Rightarrow> bool" where
  "runs_sim u r1 r2 \<longleftrightarrow> (case r2 of
      Inl e \<Rightarrow> unmatched u e \<or> r1 = Inl e \<or> (e = Parse_error \<and> (\<exists>d r. r1 = Inr (-1, d, r)))
    | Inr (ret, c, r) \<Rightarrow> (\<exists>d. r1 = Inr (if ret = PARSE_SUCCESS then 1 else 0, d, r)
        \<and> (if ret = PARSE_SUCCESS then v1_data d = cur (vis c) else sim d c)))"

lemma runs_sim_step:
  assumes "steps_sim u r1 r2"
    and "\<And>d c. r2 = Inr (False, c) \<Longrightarrow> sim d c \<Longrightarrow> runs_sim u (g1 d) (g2 c)"
  shows "runs_sim u (bind_result r1 (\<lambda>(ret, d). if ret < 0 then Inr (ret, d, a) else if ret > 0 then Inr (ret, d, r) else g1 d))
    (bind_result r2 (\<lambda>(fin, c). if fin then Inr (PARSE_SUCCESS, c, r) else g2 c))"
proof (cases r2)
  case (Inl e)
  then show ?thesis using assms(1) by (auto simp: steps_sim_def runs_sim_def)
next
  case (Inr y)
  then obtain fin c where y: "r2 = Inr (fin, c)" by (cases y) auto
  then obtain d where "r1 = Inr (if fin then 1 else 0, d)" "if fin then v1_data d = cur (vis c) else sim d c"
    using assms(1) by (auto simp: steps_sim_def)
  then show ?thesis using assms(2) y by (cases fin) (simp_all add: runs_sim_def [of u "Inr _"])
qed

lemma v1_execute_sim:
  assumes "sim d c" "user_limit u = lm" "length bs < 2 ^ 32"
  shows "runs_sim u (v1_execute u d bs) (execute lm c bs)"
  using assms
proof (induction lm c bs arbitrary: d rule: execute.induct)
  case (1 lm c bs)
  have cs: "v1_cs d = m_cs c" "v1_trail d = m_trail c" using "1.prems"(1) by (simp_all add: sim_def)
  show ?case
  proof (cases "m_cs c = CS_HEADER")
    case header: True
    show ?thesis
    proof (cases bs)
      case Nil
      then show ?thesis using header cs "1.prems"(1)
        by (subst v1_execute.simps, subst execute.simps) (simp add: runs_sim_def)
    next
      case (Cons b r)
      show ?thesis unfolding Cons execute_header [OF header] using header cs
        by (subst v1_execute.simps, simp)
          (rule runs_sim_step [OF v1_header_sim [OF "1.prems"(1,2)]], use "1.IH"(1) [OF header Cons] "1.prems"(2,3) Cons in auto)
    qed
  next
    case tail: False
    show ?thesis
    proof (cases "length bs < m_trail c \<or> m_trail c = 0")
      case True
      then show ?thesis using tail cs "1.prems"(1)
        by (subst v1_execute.simps, subst execute.simps) (auto simp: runs_sim_def)
    next
      case False
      have short: "length (take (m_trail c) bs) < 2 ^ 32" "length (drop (m_trail c) bs) < 2 ^ 32"
        using "1.prems"(3) by (simp_all only: length_take length_drop)
      have "runs_sim u (bind_result (v1_trail_step u d (take (m_trail c) bs)) (\<lambda>(ret, d).
            if ret < 0 then Inr (ret, d, drop (m_trail c - 1) bs)
            else if ret > 0 then Inr (ret, d, drop (m_trail c) bs) else v1_execute u d (drop (m_trail c) bs)))
        (bind_result (trail_step lm c (take (m_trail c) bs)) (\<lambda>(fin, c').
            if fin then Inr (PARSE_SUCCESS, c', drop (m_trail c) bs) else execute lm c' (drop (m_trail c) bs)))"
        by (rule runs_sim_step [OF v1_trail_step_sim [OF "1.prems"(1,2) short(1)]]) (use "1.IH"(2) [OF tail False _ _ "1.prems"(2) short(2)] in auto)
      then show ?thesis unfolding v1_execute.simps [of u d bs] execute.simps [of lm c bs] cs using tail False by simp
    qed
  qed
qed

subsection \<open>What the older decoder does not check cannot happen to short data\<close>

lemma end_frames [simp]:
  "length (frames (end_item v)) = length (frames v)"
  "length (frames (end_array v)) \<le> length (frames v)" "length (frames (end_map v)) \<le> length (frames v)"
  by (simp_all add: end_item_def end_array_def end_map_def split: list.splits)

lemma consume_frames: "consume st v = (fin, st', v') \<Longrightarrow> length (frames v') \<le> length (frames v)"
proof (induction st v arbitrary: fin st' v' rule: consume.induct)
  case (2 r st v)
  then have "length (frames v') \<le> length (frames (end_array (end_item v)))" if "r - 1 = 0" using that by simp
  then show ?case using "2.prems" end_frames(2) [of "end_item v"] by (cases "r - 1 = 0") auto
next
  case (4 r st v)
  then have "length (frames v') \<le> length (frames (end_map (end_item v)))" if "r - 1 = 0" using that by simp
  then show ?case using "4.prems" end_frames(3) [of "end_item v"] by (cases "r - 1 = 0") auto
qed auto

definition unmatched_exns :: "unpack_exn set" where
  "unmatched_exns = {Depth_overflow, Str_overflow, Bin_overflow, Ext_overflow}"

lemma unmatched_in: "unmatched u e \<Longrightarrow> e \<in> unmatched_exns"
  by (auto simp: unmatched_def unmatched_exns_def)

text \<open>Limits that no length of 32 bits passes.\<close>

definition roomy :: "unpack_limit \<Rightarrow> bool" where
  "roomy lm \<longleftrightarrow> 2 ^ 32 - 1 \<le> lim_str lm \<and> 2 ^ 32 - 1 \<le> lim_bin lm \<and> 2 ^ 32 - 1 \<le> lim_ext lm"

definition shallow :: "parse_context \<Rightarrow> step_result \<Rightarrow> bool" where
  "shallow c r \<longleftrightarrow> (case r of Inl e \<Rightarrow> e \<notin> unmatched_exns
     | Inr (fin, c') \<Rightarrow> length (frames (vis c')) \<le> Suc (length (frames (vis c))))"

lemma visited_shallow:
  assumes "case r of Inl e \<Rightarrow> e \<notin> unmatched_exns | Inr v \<Rightarrow> length (frames v) \<le> Suc (length (frames (vis c)))"
  shows "shallow c (visited c' r)"
proof (cases r)
  case (Inr v)
  obtain fin st w where "consume (m_stack c') v = (fin, st, w)" by (cases "consume (m_stack c') v")
  then show ?thesis using consume_frames [of "m_stack c'" v fin st w] assms
    by (simp add: Inr visited_def shallow_def after_visit_proc_def)
qed (use assms in \<open>simp add: visited_def shallow_def\<close>)

lemma raw_shallow:
  assumes "roomy lm" "length s < 2 ^ 32"
  shows "shallow c (visited c' (visit_str lm s (vis c)))" "shallow c (visited c' (visit_bin lm s (vis c)))"
    "s \<noteq> [] \<Longrightarrow> shallow c (visited c' (visit_ext lm s (vis c)))"
  using assms by (auto simp: roomy_def visit_str_def visit_bin_def visit_ext_def Let_def put_def intro!: visited_shallow)

lemma aggregate_shallow:
  assumes "length (frames (vis c)) < lim_depth lm"
  shows "shallow c (start_aggregate lm m n c)"
proof -
  have "shallow c (visited c (Inr (if m then end_map v else end_array v)))" if "v = vis c\<lparr>frames := [] # frames (vis c)\<rparr>" for v
    by (rule visited_shallow) (simp add: that end_map_def end_array_def)
  then show ?thesis using assms
    by (cases m) (auto simp: start_aggregate_def start_map_def start_array_def shallow_def visited_def unmatched_exns_def)
qed

lemma header_step_shallow:
  assumes "roomy lm" "length (frames (vis c)) < lim_depth lm"
  shows "shallow c (header_step lm c b)"
  using aggregate_shallow [OF assms(2)] raw_shallow(1) [OF assms(1), of "[]"]
  by (auto simp: header_step_def Let_def visit_positive_integer_def visit_negative_integer_def visit_nil_def visit_boolean_def
      put_def shallow_def [of c "Inr (False, _)"] shallow_def [of c "Inl _"] unmatched_exns_def intro!: visited_shallow)

lemma trail_step_shallow:
  assumes "roomy lm" "length (frames (vis c)) < lim_depth lm" "n \<noteq> []" "length n < 2 ^ 32"
  shows "shallow c (trail_step lm c n)"
proof -
  have "shallow c (trail_size lm c n)"
    using raw_shallow(1,2) [OF assms(1), of "[]"] by (auto simp: trail_size_def Let_def shallow_def [of c "Inr (False, _)"])
  moreover have "shallow c (trail_value lm c n)" using raw_shallow [OF assms(1,4)] assms(3) by (simp add: trail_value_def)
  moreover have "shallow c (visited c (Inr (trail_number k n (vis c))))" for k
    by (rule visited_shallow) (simp add: trail_number_def visit_float32_def visit_float64_def visit_positive_integer_def
        visit_negative_integer_def put_def)
  ultimately show ?thesis
    using aggregate_shallow [OF assms(2)] raw_shallow(3) [OF assms(1,4,3)]
    by (simp add: trail_step_def Let_def shallow_def [of c "Inl _"] unmatched_exns_def)
qed

lemma execute_shallow:
  assumes "execute lm c bs = Inl e" "length bs < 2 ^ 32" "length (frames (vis c)) + length bs \<le> lim_depth lm"
    and "roomy lm"
  shows "e \<notin> unmatched_exns"
  using assms
proof (induction lm c bs rule: execute.induct)
  case (1 lm c bs)
  show ?case
  proof (cases "m_cs c = CS_HEADER")
    case header: True
    then obtain b r where bs: "bs = b # r" using "1.prems"(1) by (cases bs) (simp_all add: execute.simps)
    have sh: "shallow c (header_step lm c b)" using "1.prems"(3) by (intro header_step_shallow [OF "1.prems"(4)]) (simp add: bs)
    show ?thesis
    proof (cases "header_step lm c b")
      case (Inl e')
      then show ?thesis using sh "1.prems"(1) by (simp add: bs execute_header [OF header] shallow_def)
    next
      case (Inr y)
      obtain fin c' where y: "y = (fin, c')" by (cases y)
      then have "\<not> fin" "execute lm c' r = Inl e" using "1.prems"(1) Inr
        by (cases fin; simp add: bs execute_header [OF header])+
      then show ?thesis using "1.IH"(1) [OF header bs, of fin c'] sh "1.prems"(2-4) Inr y by (simp add: bs shallow_def)
    qed
  next
    case tail: False
    have enough: "\<not> (length bs < m_trail c \<or> m_trail c = 0)"
    proof
      assume "length bs < m_trail c \<or> m_trail c = 0"
      then have "execute lm c bs = Inr (PARSE_CONTINUE, c, bs)" using tail by (subst execute.simps) simp
      then show False using "1.prems"(1) by simp
    qed
    define n r where n: "n = take (m_trail c) bs" and r: "r = drop (m_trail c) bs"
    have bs: "bs = n @ r" "length n = m_trail c" "n \<noteq> []" using enough by (auto simp: n r)
    have ex: "bind_result (trail_step lm c n) (\<lambda>(fin, c'). if fin then Inr (PARSE_SUCCESS, c', r) else execute lm c' r) = Inl e"
      using "1.prems"(1) execute_trail [OF tail bs(2,3), of lm r] bs(1) by simp
    have len: "length n + length r = length bs" using arg_cong [OF bs(1), of length] by simp
    have "0 < length n" using bs(3) by simp
    then have small: "length n < 2 ^ 32" "length (frames (vis c)) < lim_depth lm" "length r < 2 ^ 32"
      "Suc (length (frames (vis c))) + length r \<le> lim_depth lm"
      using "1.prems"(2,3) len by linarith+
    have sh: "shallow c (trail_step lm c n)" by (rule trail_step_shallow [OF "1.prems"(4) small(2) bs(3) small(1)])
    show ?thesis
    proof (cases "trail_step lm c n")
      case (Inl e')
      then show ?thesis using sh ex by (simp add: shallow_def)
    next
      case (Inr y)
      obtain fin c' where y: "y = (fin, c')" by (cases y)
      then have e: "\<not> fin" "execute lm c' r = Inl e" using ex Inr by (cases fin; simp)+
      have "length (frames (vis c')) + length r \<le> lim_depth lm" using sh small(4) by (simp add: Inr y shallow_def)
      then show ?thesis using "1.IH"(2) [OF tail enough, of fin c'] e small(3) "1.prems"(4) Inr y by (simp add: n r)
    qed
  qed
qed

subsection \<open>Properties\<close>

text \<open>The older decoder, whatever its user asks to refer to, accepts what the newer one accepts.\<close>

lemma v1_unpack_sim:
  assumes "user_limit u = lm" "length data < 2 ^ 32"
  shows "case parse_imp lm (drop off data) of
      Inl e \<Rightarrow> unmatched u e \<or> v1_unpack u data off = Inl e
    | Inr (ret, o', n) \<Rightarrow> \<exists>b. v1_unpack u data off = Inr (o', off + n, b)"
proof (cases "length data \<le> off")
  case True
  then show ?thesis by (simp add: v1_unpack_def v1_unpack_imp_def parse_imp_def)
next
  case False
  define bs where "bs = drop off data"
  have bs: "bs \<noteq> []" "length bs + off = length data" using False by (simp_all add: bs_def)
  have r: "runs_sim u (v1_execute u v1_context_init bs) (execute lm context_init bs)"
    using assms(2) by (intro v1_execute_sim [OF sim_init assms(1)]) (simp add: bs_def)
  have v1: "v1_unpack u data off = bind_result (v1_execute u v1_context_init bs) (\<lambda>(e, c, rest).
       if e < 0 then Inl Parse_error else if e = 0 then Inl Insufficient_bytes
       else Inr (v1_data c, length data - length rest, v1_referenced c))"
    using False by (cases "v1_execute u v1_context_init bs")
      (auto simp: v1_unpack_def v1_unpack_imp_def bs_def [symmetric] Let_def split: prod.splits)
  show ?thesis
  proof (cases "execute lm context_init bs")
    case (Inl e)
    then show ?thesis using r bs(1) by (auto simp: runs_sim_def parse_imp_def v1 bs_def [symmetric])
  next
    case (Inr y)
    obtain ret c rest where y: "y = (ret, c, rest)" by (cases y)
    have "length rest \<le> length bs" using execute_suffix [of lm context_init bs ret c rest] Inr y by auto
    then have "length data - length rest = off + (length bs - length rest)" using bs(2) by linarith
    then show ?thesis using r bs(1) Inr y execute_returns [of lm context_init bs ret c rest]
      by (auto simp: runs_sim_def parse_imp_def v1 bs_def [symmetric])
  qed
qed

text \<open>
  C38: the library's two decoders agree. On any data shorter than four gigabytes, from any offset and
  whatever \<open>reference_func\<close> decides, the function \<open>unpack\<close> of version 1 with the default limits gives the
  object and the offset, or throws the exception, that the parser of version 2 gives.
\<close>

theorem decoders_agree:
  assumes "length data < 2 ^ 32"
  shows "bind_result (v1_unpack \<lparr>reference_func = f, user_limit = default_limit\<rparr> data off) (\<lambda>(o', n, _). Inr (o', n))
    = bind_result (parse_imp default_limit (drop off data)) (\<lambda>(_, o', n). Inr (o', off + n))"
proof -
  define u where "u = \<lparr>reference_func = f, user_limit = default_limit\<rparr>"
  have s: "case parse_imp default_limit (drop off data) of
      Inl e \<Rightarrow> unmatched u e \<or> v1_unpack u data off = Inl e
    | Inr (ret, o', n) \<Rightarrow> \<exists>b. v1_unpack u data off = Inr (o', off + n, b)"
    using assms by (intro v1_unpack_sim) (simp_all add: u_def)
  have "e \<notin> unmatched_exns" if "parse_imp default_limit (drop off data) = Inl e" for e
  proof (cases "execute default_limit context_init (drop off data)")
    case (Inl e')
    then have "e = Insufficient_bytes \<or> e = e'" using that by (auto simp: parse_imp_def split: if_splits)
    moreover have "e' \<notin> unmatched_exns"
      using execute_shallow [OF Inl] assms by (simp add: context_init_def visitor_init_def default_limit_def roomy_def)
    ultimately show ?thesis by (auto simp: unmatched_exns_def)
  next
    case (Inr y)
    then have "e = Insufficient_bytes" using that
      by (auto simp: parse_imp_def split: if_splits prod.splits parse_return.splits)
    then show ?thesis by (simp add: unmatched_exns_def)
  qed
  then show ?thesis
    using s unmatched_in by (cases "parse_imp default_limit (drop off data)") (auto simp: u_def)
qed

theorem decoders_agree_witness:
  "bind_result (v1_unpack \<lparr>reference_func = None, user_limit = default_limit\<rparr> [0xc0, 0x92, 0xa1, 0x68, 0xc3] 1) (\<lambda>(o', n, _). Inr (o', n))
    = Inr (ARRAY [STRING [0x68], BOOLEAN True], 5)"
proof -
  have "parse_imp default_limit [0x92, 0xa1, 0x68, 0xc3] = Inr (PARSE_SUCCESS, ARRAY [STRING [0x68], BOOLEAN True], 4)"
    by (simp add: parse_imp_def context_init_def execute.simps header_step_def start_aggregate_def start_array_def
        default_limit_def visitor_init_def Let_def trail_step_def trail_value_def visit_str_def put_def visited_def
        after_visit_proc_def end_item_def visit_boolean_def end_array_def)
  then show ?thesis by (subst decoders_agree) simp_all
qed

text \<open>They do not at the limit of depth, which version 2 applies to empty containers too.\<close>

lemma empty_container_depth:
  defines "lm \<equiv> default_limit\<lparr>lim_depth := 1\<rparr>"
  shows "v1_unpack \<lparr>reference_func = None, user_limit = lm\<rparr> [0x91, 0x90] 0 = Inr (ARRAY [ARRAY []], 2, False)"
    "parse_imp lm [0x91, 0x90] = Inl Depth_overflow"
  by (simp_all add: lm_def default_limit_def v1_unpack_def v1_unpack_imp_def v1_execute.simps v1_header_def push_aggregate_def
      v1_context_init_def unpack_array_def unpack_stack_new_def push_proc_def unpack_array_item_def decr_count_def v1_data_def Let_def
      parse_imp_def context_init_def execute.simps header_step_def start_aggregate_def start_array_def visitor_init_def)

text \<open>And not where bytes are referred to, which version 1 takes whatever their length.\<close>

lemma referred_limit:
  defines "lm \<equiv> default_limit\<lparr>lim_str := 1\<rparr>"
  shows "v1_unpack \<lparr>reference_func = Some (\<lambda>_ _. True), user_limit = lm\<rparr> [0xa2, 0x68, 0x69] 0 = Inr (STRING [0x68, 0x69], 3, True)"
    "parse_imp lm [0xa2, 0x68, 0x69] = Inl Str_overflow"
  by (simp_all add: lm_def default_limit_def v1_unpack_def v1_unpack_imp_def v1_execute.simps v1_header_def push_raw_def unpack_str_def refers_def
      v1_trail_step_def v1_context_init_def unpack_stack_new_def push_proc_def v1_data_def Let_def
      parse_imp_def context_init_def execute.simps header_step_def trail_step_def trail_value_def visit_str_def visited_def visitor_init_def)

end
