(* ===== verification/SharedBuffer.thy ===== *)
theory SharedBuffer
  imports V1Agree "HOL-Library.Multiset"
begin

text \<open>
  The buffers that an unpacker shares with the objects it delivers: the class \<open>unpacker\<close> of
  \<open>rpclib/rpc/msgpack/v1/unpack.hpp\<close>, and \<open>parser\<close> (\<open>v2/parse.hpp\<close>) with \<open>unpacker\<close> (\<open>v2/unpack.hpp\<close>), which a session of
  the server uses and which hold the same code over another decoder. So the operations take the decoder as a record; both
  versions are instances of it at the end. \<open>StreamParser\<close> has the order of the bytes, this theory who owns them.
  The strings of a decoded object may point into the buffer. The
  first bytes of a buffer count its owners: the unpacker, and every finalizer that was pushed to the zone of an object
  with such pointers. Memory is a map from the addresses of the allocated buffers to their counter
  and the bytes between \<open>COUNTER_SIZE\<close> and \<open>m_used\<close>; of a zone only the finalizers matter here, the last
  one pushed first, and the pointers into buffers are listed as the buffer and the number of bytes up to the last one that may be
  pointed to. What \<open>malloc\<close>, \<open>realloc\<close> and the zone answer is given for every operation.
\<close>

type_synonym buffers = "nat \<Rightarrow> (32 word \<times> byte list) option"
type_synonym refs = "(nat \<times> nat) list"

datatype shared_exn = Thrown stream_exn | Use_after_free

record resources =
  r_malloc :: "nat \<Rightarrow> nat option"
  r_realloc :: "nat \<Rightarrow> nat option"
  r_push :: bool
  r_zone :: bool

subsection \<open>The counter of a buffer\<close>

definition init_count :: "nat \<Rightarrow> byte list \<Rightarrow> buffers \<Rightarrow> buffers" where
  "init_count b bs m = m(b \<mapsto> (1, bs))"

definition get_count :: "nat \<Rightarrow> buffers \<Rightarrow> shared_exn + 32 word" where
  "get_count b m = (case m b of None \<Rightarrow> Inl Use_after_free | Some (n, bs) \<Rightarrow> Inr n)"

definition incr_count :: "nat \<Rightarrow> buffers \<Rightarrow> shared_exn + buffers" where
  "incr_count b m = (case m b of None \<Rightarrow> Inl Use_after_free | Some (n, bs) \<Rightarrow> Inr (m(b \<mapsto> (n + 1, bs))))"

definition decr_buffer :: "nat \<Rightarrow> buffers \<Rightarrow> shared_exn + buffers" where
  "decr_buffer b m = (case m b of None \<Rightarrow> Inl Use_after_free
    | Some (n, bs) \<Rightarrow> Inr (if n - 1 = 0 then m(b := None) else m(b \<mapsto> (n - 1, bs))))"

text \<open>A zone that is cleared or destroyed calls its finalizers from the last to the first.\<close>

fun call_finalizers :: "nat list \<Rightarrow> buffers \<Rightarrow> shared_exn + buffers" where
  "call_finalizers [] m = Inr m"
| "call_finalizers (b # bs) m = bind_result (decr_buffer b m) (call_finalizers bs)"

subsection \<open>The decoder\<close>

text \<open>\<open>d_run\<close> reads at most one object and says whether it is complete; \<open>d_init\<close> prepares for the next one and
  leaves the flag \<open>referenced\<close>, which says that something points into the buffer.\<close>

record 'c decoder =
  d_run :: "'c \<Rightarrow> byte list \<Rightarrow> unpack_exn + bool \<times> 'c \<times> byte list"
  d_fresh :: 'c
  d_init :: "'c \<Rightarrow> 'c"
  d_data :: "'c \<Rightarrow> object"
  d_referenced :: "'c \<Rightarrow> bool"
  d_set_referenced :: "bool \<Rightarrow> 'c \<Rightarrow> 'c"

subsection \<open>The unpacker\<close>

record 'c shared_unpacker =
  u_ctx :: 'c
  u_refs :: refs
  u_zone :: "nat list"
  u_buffer :: nat
  u_used :: nat
  u_free :: nat
  u_off :: nat
  u_parsed :: nat
  u_initial :: nat

definition shared_new :: "'c decoder \<Rightarrow> resources \<Rightarrow> nat \<Rightarrow> buffers \<Rightarrow> shared_exn + 'c shared_unpacker \<times> buffers" where
  "shared_new D r initial_buffer_size m =
    (let sz = (if initial_buffer_size < COUNTER_SIZE then COUNTER_SIZE else initial_buffer_size) in
     case r_malloc r sz of None \<Rightarrow> Inl (Thrown Bad_alloc)
     | Some b \<Rightarrow> if \<not> r_zone r then Inl (Thrown Bad_alloc)
       else Inr (\<lparr>u_ctx = d_fresh D, u_refs = [], u_zone = [], u_buffer = b, u_used = COUNTER_SIZE,
         u_free = sz - COUNTER_SIZE, u_off = COUNTER_SIZE, u_parsed = 0, u_initial = sz\<rparr>, init_count b [] m))"

definition set_referenced :: "'c decoder \<Rightarrow> bool \<Rightarrow> 'c shared_unpacker \<Rightarrow> 'c shared_unpacker" where
  "set_referenced D x p = p\<lparr>u_ctx := d_set_referenced D x (u_ctx p)\<rparr>"

text \<open>A buffer of which nothing is parsed is enlarged in place or moved; otherwise what is not parsed is copied to a new one, and
  the old one is left to the zone of the object that points into it, or given up.\<close>

definition shared_enlarge :: "'c decoder \<Rightarrow> resources \<Rightarrow> nat \<Rightarrow> 'c shared_unpacker \<Rightarrow> buffers \<Rightarrow> shared_exn + 'c shared_unpacker \<times> buffers" where
  "shared_enlarge D r sz p m = (case m (u_buffer p) of None \<Rightarrow> Inl Use_after_free | Some (n, bs) \<Rightarrow>
     if u_off p = COUNTER_SIZE then
       (let next_size = grow (wrap ((u_used p + u_free p) * 2)) (wrap (sz + u_used p)) in
        case r_realloc r next_size of None \<Rightarrow> Inl (Thrown Bad_alloc)
        | Some tmp \<Rightarrow> Inr (p\<lparr>u_buffer := tmp, u_free := next_size - u_used p\<rparr>, (m(u_buffer p := None))(tmp \<mapsto> (n, bs))))
     else
       (let not_parsed = u_used p - u_off p;
          next_size = grow (u_initial p) (wrap (sz + not_parsed + COUNTER_SIZE))
        in case r_malloc r next_size of None \<Rightarrow> Inl (Thrown Bad_alloc)
        | Some tmp \<Rightarrow>
          (let m = init_count tmp (drop (u_off p - COUNTER_SIZE) bs) m in
           bind_result
             (if d_referenced D (u_ctx p) then
                if r_push r then Inr (set_referenced D False (p\<lparr>u_zone := u_buffer p # u_zone p\<rparr>), m)
                else Inl (Thrown Bad_alloc)
              else bind_result (decr_buffer (u_buffer p) m) (\<lambda>m. Inr (p, m)))
             (\<lambda>(p, m). Inr (p\<lparr>u_buffer := tmp, u_used := not_parsed + COUNTER_SIZE,
                u_free := next_size - (not_parsed + COUNTER_SIZE), u_off := COUNTER_SIZE\<rparr>, m)))))"

definition shared_rewind :: "'c shared_unpacker \<Rightarrow> buffers \<Rightarrow> 'c shared_unpacker \<times> buffers" where
  "shared_rewind p m = (p\<lparr>u_free := u_free p + (u_used p - COUNTER_SIZE), u_used := COUNTER_SIZE, u_off := COUNTER_SIZE\<rparr>,
     m(u_buffer p := map_option (\<lambda>(n, bs). (n, [])) (m (u_buffer p))))"

definition shared_expand_buffer :: "'c decoder \<Rightarrow> resources \<Rightarrow> nat \<Rightarrow> 'c shared_unpacker \<Rightarrow> buffers \<Rightarrow> shared_exn + 'c shared_unpacker \<times> buffers" where
  "shared_expand_buffer D r sz p m =
    (if u_used p = u_off p then
       bind_result (get_count (u_buffer p) m) (\<lambda>n.
         if n = 1 \<and> \<not> d_referenced D (u_ctx p) then
           (let (p, m) = shared_rewind p m in if u_free p \<ge> sz then Inr (p, m) else shared_enlarge D r sz p m)
         else shared_enlarge D r sz p m)
     else shared_enlarge D r sz p m)"

definition shared_reserve_buffer :: "'c decoder \<Rightarrow> resources \<Rightarrow> nat \<Rightarrow> 'c shared_unpacker \<Rightarrow> buffers \<Rightarrow> shared_exn + 'c shared_unpacker \<times> buffers" where
  "shared_reserve_buffer D r sz p m = (if u_free p \<ge> sz then Inr (p, m) else shared_expand_buffer D r sz p m)"

text \<open>The user copies bytes to \<open>buffer()\<close> and reports them.\<close>

definition shared_buffer_consumed :: "byte list \<Rightarrow> 'c shared_unpacker \<Rightarrow> buffers \<Rightarrow> shared_exn + 'c shared_unpacker \<times> buffers" where
  "shared_buffer_consumed new p m = (case m (u_buffer p) of None \<Rightarrow> Inl Use_after_free
    | Some (n, bs) \<Rightarrow> Inr (p\<lparr>u_used := u_used p + length new, u_free := u_free p - length new\<rparr>,
        m(u_buffer p \<mapsto> (n, bs @ new))))"

definition shared_execute_imp :: "'c decoder \<Rightarrow> 'c shared_unpacker \<Rightarrow> buffers \<Rightarrow> shared_exn + bool \<times> 'c shared_unpacker" where
  "shared_execute_imp D p m = (case m (u_buffer p) of None \<Rightarrow> Inl Use_after_free | Some (n, bs) \<Rightarrow>
     (case d_run D (u_ctx p) (drop (u_off p - COUNTER_SIZE) bs) of
        Inl e \<Rightarrow> Inl (Thrown (Unpack_error e))
      | Inr (fin, c, rest) \<Rightarrow> (let off = u_used p - length rest in
          Inr (fin, p\<lparr>u_ctx := c, u_refs := (if d_referenced D c then [(u_buffer p, off - COUNTER_SIZE)] else []) @ u_refs p,
            u_off := off, u_parsed := u_parsed p + (if off > u_off p then off - u_off p else 0)\<rparr>))))"

text \<open>The zone of the finished object becomes an owner of the buffer. If the finalizer cannot be pushed the zone stays
  with the unpacker.\<close>

definition flush_zone :: "'c decoder \<Rightarrow> resources \<Rightarrow> 'c shared_unpacker \<Rightarrow> buffers \<Rightarrow> shared_exn + bool \<times> 'c shared_unpacker \<times> buffers" where
  "flush_zone D r p m =
    (if d_referenced D (u_ctx p) then
       if r_push r then bind_result (incr_count (u_buffer p) m) (\<lambda>m.
         Inr (True, set_referenced D False (p\<lparr>u_zone := u_buffer p # u_zone p\<rparr>), m))
       else Inr (False, p, m)
     else Inr (True, p, m))"

definition release_zone :: "'c decoder \<Rightarrow> resources \<Rightarrow> 'c shared_unpacker \<Rightarrow> buffers \<Rightarrow> shared_exn + nat list option \<times> 'c shared_unpacker \<times> buffers" where
  "release_zone D r p m = bind_result (flush_zone D r p m) (\<lambda>(ok, p, m).
     if \<not> ok then Inr (None, p, m)
     else if \<not> r_zone r then Inl (Thrown Bad_alloc)
     else Inr (Some (u_zone p), p\<lparr>u_zone := []\<rparr>, m))"

definition shared_reset :: "'c decoder \<Rightarrow> 'c shared_unpacker \<Rightarrow> 'c shared_unpacker" where
  "shared_reset D p = p\<lparr>u_ctx := d_init D (u_ctx p), u_refs := [], u_parsed := 0\<rparr>"

definition reset_zone :: "'c shared_unpacker \<Rightarrow> buffers \<Rightarrow> shared_exn + 'c shared_unpacker \<times> buffers" where
  "reset_zone p m = bind_result (call_finalizers (u_zone p) m) (\<lambda>m. Inr (p\<lparr>u_zone := []\<rparr>, m))"

definition shared_skip_nonparsed_buffer :: "nat \<Rightarrow> 'c shared_unpacker \<Rightarrow> 'c shared_unpacker" where
  "shared_skip_nonparsed_buffer n p = p\<lparr>u_off := u_off p + n\<rparr>"

definition shared_remove_nonparsed_buffer :: "'c shared_unpacker \<Rightarrow> buffers \<Rightarrow> 'c shared_unpacker \<times> buffers" where
  "shared_remove_nonparsed_buffer p m = (p\<lparr>u_used := u_off p\<rparr>,
     m(u_buffer p := map_option (\<lambda>(n, bs). (n, take (u_off p - COUNTER_SIZE) bs)) (m (u_buffer p))))"

definition shared_nonparsed_size :: "'c shared_unpacker \<Rightarrow> nat" where "shared_nonparsed_size p = u_used p - u_off p"
definition shared_parsed_size :: "'c shared_unpacker \<Rightarrow> nat" where "shared_parsed_size p = u_parsed p"
definition shared_message_size :: "'c shared_unpacker \<Rightarrow> nat" where "shared_message_size p = u_parsed p + u_used p - u_off p"

text \<open>The destructor of version 1 gives up the buffer and then the zone with its finalizers; in version 2 the zone,
  which is the member of the unpacker itself, goes first, which frees the same buffers.\<close>

definition shared_destroy :: "'c shared_unpacker \<Rightarrow> buffers \<Rightarrow> shared_exn + buffers" where
  "shared_destroy p m = bind_result (decr_buffer (u_buffer p) m) (call_finalizers (u_zone p))"

subsection \<open>Handles\<close>

text \<open>\<open>object_handle\<close>: an object, and the zone that its memory belongs to.\<close>

record object_handle =
  h_obj :: object
  h_zone :: "nat list option"
  h_refs :: refs

definition object_handle_new :: object_handle where
  "object_handle_new = \<lparr>h_obj = NIL, h_zone = None, h_refs = []\<rparr>"

definition zone_finalizers :: "object_handle \<Rightarrow> nat list" where
  "zone_finalizers h = (case h_zone h of None \<Rightarrow> [] | Some z \<Rightarrow> z)"

text \<open>\<open>next\<close>: the zone that the handle held before is destroyed after the new one is released.\<close>

definition shared_next :: "'c decoder \<Rightarrow> resources \<Rightarrow> object_handle \<Rightarrow> 'c shared_unpacker \<Rightarrow> buffers
    \<Rightarrow> shared_exn + bool \<times> bool \<times> object_handle \<times> 'c shared_unpacker \<times> buffers" where
  "shared_next D r h p m = bind_result (shared_execute_imp D p m) (\<lambda>(fin, p).
     if \<not> fin then
       bind_result (call_finalizers (zone_finalizers h) m) (\<lambda>m. Inr (False, False, object_handle_new, p, m))
     else
       (let referenced = d_referenced D (u_ctx p) in
        bind_result (release_zone D r p m) (\<lambda>(z, p, m).
        bind_result (call_finalizers (zone_finalizers h) m) (\<lambda>m.
          Inr (True, referenced, \<lparr>h_obj = d_data D (u_ctx p), h_zone = z, h_refs = u_refs p\<rparr>, shared_reset D p, m)))))"

subsection \<open>Use\<close>

record 'c shared_world =
  w_unpacker :: "'c shared_unpacker"
  w_buffers :: buffers
  w_handles :: "object_handle list"

datatype shared_op =
    Reserve resources nat
  | Consumed "byte list"
  | New_handle
  | Next resources nat
  | Destroy_handle nat
  | Reset
  | Reset_zone
  | Skip_nonparsed nat
  | Remove_nonparsed

fun shared_act :: "'c decoder \<Rightarrow> shared_op \<Rightarrow> 'c shared_world \<Rightarrow> shared_exn + 'c shared_world" where
  "shared_act D (Reserve r sz) w = bind_result (shared_reserve_buffer D r sz (w_unpacker w) (w_buffers w)) (\<lambda>(p, m).
     Inr (w\<lparr>w_unpacker := p, w_buffers := m\<rparr>))"
| "shared_act D (Consumed bs) w = bind_result (shared_buffer_consumed bs (w_unpacker w) (w_buffers w)) (\<lambda>(p, m).
     Inr (w\<lparr>w_unpacker := p, w_buffers := m\<rparr>))"
| "shared_act D New_handle w = Inr (w\<lparr>w_handles := w_handles w @ [object_handle_new]\<rparr>)"
| "shared_act D (Next r i) w = bind_result (shared_next D r (w_handles w ! i) (w_unpacker w) (w_buffers w)) (\<lambda>(_, _, h, p, m).
     Inr \<lparr>w_unpacker = p, w_buffers = m, w_handles = (w_handles w)[i := h]\<rparr>)"
| "shared_act D (Destroy_handle i) w = bind_result (call_finalizers (zone_finalizers (w_handles w ! i)) (w_buffers w)) (\<lambda>m.
     Inr (w\<lparr>w_buffers := m, w_handles := (w_handles w)[i := object_handle_new]\<rparr>))"
| "shared_act D Reset w = Inr (w\<lparr>w_unpacker := shared_reset D (w_unpacker w)\<rparr>)"
| "shared_act D Reset_zone w = bind_result (reset_zone (w_unpacker w) (w_buffers w)) (\<lambda>(p, m).
     Inr (w\<lparr>w_unpacker := p, w_buffers := m\<rparr>))"
| "shared_act D (Skip_nonparsed n) w = Inr (w\<lparr>w_unpacker := shared_skip_nonparsed_buffer n (w_unpacker w)\<rparr>)"
| "shared_act D Remove_nonparsed w = (let (p, m) = shared_remove_nonparsed_buffer (w_unpacker w) (w_buffers w) in
     Inr (w\<lparr>w_unpacker := p, w_buffers := m\<rparr>))"

text \<open>What the header asks of the user: not to report more bytes than there is room for, not to skip more than is left, and to
  empty the zone only when no object is begun. \<open>malloc\<close> gives memory that is not in use; a finalizer can be
  pushed when an object is finished.\<close>

fun shared_valid :: "shared_op \<Rightarrow> 'c shared_world \<Rightarrow> bool" where
  "shared_valid (Reserve r sz) w \<longleftrightarrow> (\<forall>n b. r_malloc r n = Some b \<longrightarrow> w_buffers w b = None)
     \<and> (\<forall>n b. r_realloc r n = Some b \<longrightarrow> w_buffers w b = None \<or> b = u_buffer (w_unpacker w))"
| "shared_valid (Consumed bs) w \<longleftrightarrow> length bs \<le> u_free (w_unpacker w)"
| "shared_valid (Next r i) w \<longleftrightarrow> i < length (w_handles w) \<and> r_push r"
| "shared_valid (Destroy_handle i) w \<longleftrightarrow> i < length (w_handles w)"
| "shared_valid Reset_zone w \<longleftrightarrow> u_refs (w_unpacker w) = []"
| "shared_valid (Skip_nonparsed n) w \<longleftrightarrow> n \<le> shared_nonparsed_size (w_unpacker w)"
| "shared_valid _ w \<longleftrightarrow> True"

text \<open>The worlds after \<open>n\<close> operations; an exception ends the run.\<close>

inductive shared_steps :: "'c decoder \<Rightarrow> nat \<Rightarrow> 'c shared_world \<Rightarrow> bool" for D where
  made: "shared_new D r sz Map.empty = Inr (p, m) \<Longrightarrow> shared_steps D 0 \<lparr>w_unpacker = p, w_buffers = m, w_handles = []\<rparr>"
| acts: "shared_steps D n w \<Longrightarrow> shared_valid op w \<Longrightarrow> shared_act D op w = Inr w' \<Longrightarrow> shared_steps D (Suc n) w'"

subsection \<open>Owners\<close>

text \<open>Every allocated buffer counts exactly its owners.\<close>

definition owned :: "buffers \<Rightarrow> nat multiset \<Rightarrow> bool" where
  "owned m M \<longleftrightarrow> (\<forall>b. map_option fst (m b) = (if count M b = 0 then None else Some (of_nat (count M b))))"

definition contents :: "buffers \<Rightarrow> nat \<Rightarrow> byte list option" where
  "contents m b = map_option snd (m b)"

definition keeps :: "buffers \<Rightarrow> buffers \<Rightarrow> bool" where
  "keeps m m' \<longleftrightarrow> (\<forall>b bs. contents m' b = Some bs \<longrightarrow> contents m b = Some bs)"

lemma keeps_refl [simp]: "keeps m m"
  by (simp add: keeps_def)

lemma keeps_trans: "keeps m m' \<Longrightarrow> keeps m' m'' \<Longrightarrow> keeps m m''"
  by (simp add: keeps_def)

lemma owned_alive: "owned m M \<Longrightarrow> b \<in># M \<Longrightarrow> \<exists>bs. m b = Some (of_nat (count M b), bs)"
  unfolding owned_def by (cases "m b") (auto dest!: spec [of _ b] split: if_splits)

lemma owned_fresh: "owned m M \<Longrightarrow> m b = None \<longleftrightarrow> b \<notin># M"
  unfolding owned_def by (cases "m b") (auto dest!: spec [of _ b] simp: not_in_iff split: if_splits)

lemma of_nat_zero: "n < 2 ^ 32 \<Longrightarrow> of_nat n = (0 :: 32 word) \<longleftrightarrow> n = 0"
  using nat_dvd_not_less [of n "2 ^ 32"] by (auto simp: word_of_nat_eq_0_iff)

lemma decr_owned:
  assumes "owned m (add_mset b M)" "size M < 2 ^ 32 - 1"
  shows "\<exists>m'. decr_buffer b m = Inr m' \<and> owned m' M \<and> keeps m m'"
proof -
  define n where "n = count M b"
  obtain bs where b: "m b = Some (of_nat (Suc n), bs)" using owned_alive [OF assms(1), of b] by (auto simp: n_def)
  have "n \<le> size M" by (simp add: n_def count_le_size)
  then have n: "Suc n < 2 ^ 32" using assms(2) by simp
  have z: "(of_nat (Suc n) - 1 = (0 :: 32 word)) \<longleftrightarrow> n = 0" using of_nat_zero [of n] n by simp
  have "map_option fst ((if n = 0 then m(b := None) else m(b \<mapsto> (of_nat n, bs))) a)
      = (if count M a = 0 then None else Some (of_nat (count M a)))" for a
    using assms(1) [unfolded owned_def, THEN spec, of a] by (cases "a = b") (auto simp: n_def count_eq_zero_iff split: if_splits)
  then have "owned (if n = 0 then m(b := None) else m(b \<mapsto> (of_nat n, bs))) M" unfolding owned_def by blast
  moreover have "decr_buffer b m = Inr (if n = 0 then m(b := None) else m(b \<mapsto> (of_nat n, bs)))"
    using z by (simp add: decr_buffer_def b)
  ultimately show ?thesis using b by (auto simp: keeps_def contents_def split: if_splits)
qed

lemma finalizers_owned:
  assumes "owned m (mset zs + M)" "size M + length zs < 2 ^ 32"
  shows "\<exists>m'. call_finalizers zs m = Inr m' \<and> owned m' M \<and> keeps m m'"
  using assms
proof (induction zs arbitrary: m)
  case (Cons b zs)
  obtain m1 where "decr_buffer b m = Inr m1" "owned m1 (mset zs + M)" "keeps m m1"
    using decr_owned [of m b "mset zs + M"] Cons.prems by auto
  then show ?case using Cons.IH [of m1] Cons.prems(2) by (auto intro: keeps_trans)
qed simp

subsection \<open>The invariant\<close>

abbreviation finalizers :: "'c shared_unpacker \<Rightarrow> object_handle list \<Rightarrow> nat list" where
  "finalizers p hs \<equiv> u_zone p @ concat (map zone_finalizers hs)"

abbreviation owners :: "'c shared_unpacker \<Rightarrow> object_handle list \<Rightarrow> nat multiset" where
  "owners p hs \<equiv> add_mset (u_buffer p) (mset (finalizers p hs))"

text \<open>The buffer holds the bytes up to \<open>m_used\<close>. One of which nothing is parsed has no other owner.\<close>

definition buffer_inv :: "'c decoder \<Rightarrow> 'c shared_unpacker \<Rightarrow> buffers \<Rightarrow> nat list \<Rightarrow> bool" where
  "buffer_inv D p m fs \<longleftrightarrow> COUNTER_SIZE \<le> u_off p \<and> u_off p \<le> u_used p
     \<and> map_option length (contents m (u_buffer p)) = Some (u_used p - COUNTER_SIZE)
     \<and> (u_off p = COUNTER_SIZE \<longrightarrow> u_buffer p \<notin> set fs \<and> \<not> d_referenced D (u_ctx p))"

text \<open>A pointer stays below what is parsed of its buffer.\<close>

definition ref_inv :: "'c shared_unpacker \<Rightarrow> buffers \<Rightarrow> nat \<times> nat \<Rightarrow> bool" where
  "ref_inv p m r \<longleftrightarrow> (\<exists>bs. contents m (fst r) = Some bs \<and> snd r \<le> length bs)
     \<and> (fst r = u_buffer p \<longrightarrow> snd r \<le> u_off p - COUNTER_SIZE)"

text \<open>The buffers that the object under construction points into belong to the zone, or are the current one and
  the flag is set; those of a finished object belong to its zone.\<close>

definition building_inv :: "'c decoder \<Rightarrow> 'c shared_unpacker \<Rightarrow> buffers \<Rightarrow> bool" where
  "building_inv D p m \<longleftrightarrow> (\<forall>r \<in> set (u_refs p). ref_inv p m r
     \<and> (fst r \<in> set (u_zone p) \<or> fst r = u_buffer p \<and> d_referenced D (u_ctx p)))"

definition handle_inv :: "'c shared_unpacker \<Rightarrow> buffers \<Rightarrow> object_handle \<Rightarrow> bool" where
  "handle_inv p m h \<longleftrightarrow> (\<forall>r \<in> set (h_refs h). ref_inv p m r \<and> fst r \<in> set (zone_finalizers h))"

definition stream_inv :: "'c decoder \<Rightarrow> nat \<Rightarrow> 'c shared_unpacker \<Rightarrow> buffers \<Rightarrow> object_handle list \<Rightarrow> bool" where
  "stream_inv D n p m hs \<longleftrightarrow> owned m (owners p hs) \<and> length (finalizers p hs) \<le> n
     \<and> buffer_inv D p m (finalizers p hs) \<and> building_inv D p m \<and> list_all (handle_inv p m) hs"

lemma stream_inv_buffer:
  assumes "stream_inv D n p m hs"
  shows "\<exists>bs. m (u_buffer p) = Some (of_nat (count (owners p hs) (u_buffer p)), bs)
    \<and> length bs = u_used p - COUNTER_SIZE \<and> contents m (u_buffer p) = Some bs"
proof -
  have "owned m (owners p hs)" using assms by (simp add: stream_inv_def)
  from owned_alive [OF this, of "u_buffer p"] show ?thesis
    using assms by (auto simp: stream_inv_def buffer_inv_def contents_def)
qed

lemma stream_inv_sole:
  assumes "stream_inv D n p m hs" "u_buffer p \<notin> set (finalizers p hs)"
  shows "\<exists>bs. m (u_buffer p) = Some (1, bs) \<and> length bs = u_used p - COUNTER_SIZE"
proof -
  have "count (mset (finalizers p hs)) (u_buffer p) = 0"
    using assms(2) by (simp only: count_eq_zero_iff set_mset_mset simp_thms)
  then have c: "count (owners p hs) (u_buffer p) = 1" unfolding count_add_mset by (simp only: refl if_True One_nat_def)
  show ?thesis using stream_inv_buffer [OF assms(1)] unfolding c by auto
qed

text \<open>Memory with the same contents where there are owners.\<close>

lemma ref_inv_keeps:
  assumes "ref_inv p m r" "keeps m m'" "owned m' M" "fst r \<in># M"
  shows "ref_inv p m' r"
proof -
  obtain bs where "contents m' (fst r) = Some bs" using owned_alive [OF assms(3,4)] by (auto simp: contents_def)
  then show ?thesis using assms(1,2) by (auto simp: ref_inv_def keeps_def)
qed

text \<open>Memory is given back: the zone \<open>zs\<close> of a handle, or of nobody.\<close>

lemma stream_inv_free:
  assumes "owned m (mset zs + owners p hs)" "size (owners p hs) + length zs < 2 ^ 32" "length (finalizers p hs) \<le> n"
    "buffer_inv D p m (finalizers p hs)" "building_inv D p m" "list_all (handle_inv p m) hs"
  shows "\<exists>m'. call_finalizers zs m = Inr m' \<and> keeps m m' \<and> stream_inv D n p m' hs"
proof -
  obtain m' where m': "call_finalizers zs m = Inr m'" "owned m' (owners p hs)" "keeps m m'"
    using finalizers_owned [OF assms(1,2)] by blast
  have k: "ref_inv p m' r" if "ref_inv p m r" "fst r \<in># owners p hs" for r
    using ref_inv_keeps [OF that(1) m'(3,2) that(2)] .
  obtain bs where "contents m' (u_buffer p) = Some bs" using owned_alive [OF m'(2), of "u_buffer p"] by (auto simp: contents_def)
  then have "contents m' (u_buffer p) = contents m (u_buffer p)" using m'(3) by (simp add: keeps_def)
  then have "buffer_inv D p m' (finalizers p hs)" using assms(4) by (simp add: buffer_inv_def)
  moreover have "building_inv D p m'" using assms(5) by (auto simp: building_inv_def intro!: k)
  moreover have "list_all (handle_inv p m') hs"
    using assms(6) by (fastforce simp: list_all_iff handle_inv_def intro!: k)
  ultimately show ?thesis using m' assms(3) by (auto simp: stream_inv_def)
qed

text \<open>The bytes that live objects point to stay what they are.\<close>

definition settled :: "object_handle list \<Rightarrow> buffers \<Rightarrow> buffers \<Rightarrow> bool" where
  "settled hs m m' \<longleftrightarrow> (\<forall>h \<in> set hs. \<forall>r \<in> set (h_refs h). \<forall>bs bs'. contents m (fst r) = Some bs \<longrightarrow>
     contents m' (fst r) = Some bs' \<longrightarrow> take (snd r) bs' = take (snd r) bs)"

definition good :: "'c decoder \<Rightarrow> nat \<Rightarrow> buffers \<Rightarrow> object_handle list \<Rightarrow> shared_exn + 'c shared_unpacker \<times> buffers \<Rightarrow> bool" where
  "good D n m hs res \<longleftrightarrow> (case res of Inl e \<Rightarrow> e \<noteq> Use_after_free
     | Inr (p', m') \<Rightarrow> stream_inv D (Suc n) p' m' hs \<and> settled hs m m')"

lemma settled_keeps: "keeps m m' \<Longrightarrow> settled hs m m'"
  by (auto simp: keeps_def settled_def)

lemma settled_refl [simp]: "settled hs m m"
  by (simp add: settled_keeps)

lemma handle_ref:
  assumes "stream_inv D n p m hs" "h \<in> set hs" "r \<in> set (h_refs h)"
  shows "ref_inv p m r \<and> fst r \<in> set (finalizers p hs) \<and> (\<exists>bs. contents m (fst r) = Some bs)"
  using assms by (force simp: stream_inv_def list_all_iff handle_inv_def ref_inv_def)

lemma settled_trans:
  assumes "settled hs m m'" "settled hs m' m''" "stream_inv D n p m' hs"
  shows "settled hs m m''"
  using assms(1,2) handle_ref [OF assms(3)] unfolding settled_def by metis

lemma good_step:
  assumes "settled hs m m'" "stream_inv D k p m' hs" "good D n m' hs res"
  shows "good D n m hs res"
  using assms settled_trans [OF assms(1) _ assms(2)] by (auto simp: good_def split: sum.splits prod.splits)

lemma stream_inv_mono: "stream_inv D n p m hs \<Longrightarrow> n \<le> k \<Longrightarrow> stream_inv D k p m hs"
  by (auto simp: stream_inv_def)

lemma stream_inv_size: "stream_inv D n p m hs \<Longrightarrow> size (owners p hs) \<le> Suc n"
  by (simp add: stream_inv_def)

lemma owned_incr:
  assumes "owned m M" "m b = Some (of_nat (count M b), bs)"
  shows "owned (m(b \<mapsto> (of_nat (count M b) + 1, bs))) (add_mset b M)"
proof -
  have "b \<in># M" using owned_fresh [OF assms(1), of b] assms(2) by auto
  then have "map_option fst ((m(b \<mapsto> (of_nat (count M b) + 1, bs))) c)
      = (if count (add_mset b M) c = 0 then None else Some (of_nat (count (add_mset b M) c)))" for c
    using assms(1) [unfolded owned_def, THEN spec, of c] by (cases "c = b") (auto simp: add.commute, metis count_eq_zero_iff)
  then show ?thesis unfolding owned_def by blast
qed

text \<open>A buffer that nobody else owns is pointed to by nobody, unless the flag is set.\<close>

lemma no_ref_to_buffer:
  assumes "stream_inv D n p m hs" "u_buffer p \<notin> set (finalizers p hs)" "\<not> d_referenced D (u_ctx p)"
  shows "r \<in> set (u_refs p) \<Longrightarrow> fst r \<noteq> u_buffer p \<and> fst r \<in> set (u_zone p) \<and> ref_inv p m r"
    and "h \<in> set hs \<Longrightarrow> r \<in> set (h_refs h) \<Longrightarrow> fst r \<noteq> u_buffer p \<and> fst r \<in> set (zone_finalizers h) \<and> ref_inv p m r"
  using assms by (force simp: stream_inv_def building_inv_def list_all_iff handle_inv_def)+

lemma owned_replace:
  assumes "owned m (add_mset a F)" "a \<notin># F" "b \<notin># F"
  shows "owned ((m(a := None))(b \<mapsto> (1, bs))) (add_mset b F)"
proof -
  have "count F a = 0" "count F b = 0" using assms(2,3) by (simp_all add: count_eq_zero_iff)
  then have "map_option fst (((m(a := None))(b \<mapsto> (1, bs))) c)
      = (if count (add_mset b F) c = 0 then None else Some (of_nat (count (add_mset b F) c)))" for c
    using assms(1) [unfolded owned_def, THEN spec, of c] by (auto split: if_splits) (metis count_eq_zero_iff)+
  then show ?thesis unfolding owned_def by blast
qed

lemma owned_new:
  assumes "owned m M" "m b = None"
  shows "owned (m(b \<mapsto> (1, bs))) (add_mset b M)"
proof -
  have "count M b = 0" using owned_fresh [OF assms(1), of b] assms(2) by (simp add: count_eq_zero_iff)
  then have "map_option fst ((m(b \<mapsto> (1, bs))) c)
      = (if count (add_mset b M) c = 0 then None else Some (of_nat (count (add_mset b M) c)))" for c
    using assms(1) [unfolded owned_def, THEN spec, of c] by (auto split: if_splits) (metis count_eq_zero_iff)+
  then show ?thesis unfolding owned_def by blast
qed

text \<open>The buffer may be replaced by another one as long as the others are kept.\<close>

lemma stream_inv_replace:
  assumes inv: "stream_inv D n p m hs" and sole: "u_buffer p \<notin> set (finalizers p hs)" "\<not> d_referenced D (u_ctx p)"
    and b: "m b = None \<or> b = u_buffer p"
    and q: "u_ctx q = u_ctx p" "u_refs q = u_refs p" "u_zone q = u_zone p" "u_buffer q = b"
      "u_off q = COUNTER_SIZE" "COUNTER_SIZE \<le> u_used q" "length bs = u_used q - COUNTER_SIZE"
    and m': "m' = (m(u_buffer p := None))(b \<mapsto> (1, bs))"
  shows "stream_inv D n q m' hs \<and> settled hs m m'"
proof -
  have o: "owned m (owners p hs)" using inv by (simp add: stream_inv_def)
  have fresh: "b \<notin> set (finalizers p hs)" using b sole(1) owned_fresh [OF o, of b] by auto
  have same: "contents m' a = contents m a" if "a \<in> set (finalizers p hs)" for a
    using that fresh sole(1) by (auto simp: m' contents_def)
  have r: "ref_inv q m' r" if "ref_inv p m r" "fst r \<in> set (finalizers p hs)" for r
    using that fresh same [OF that(2)] by (auto simp: ref_inv_def q)
  have "owned m' (owners q hs)" using owned_replace [OF o, of b bs] fresh sole(1) by (simp add: m' q)
  moreover have "buffer_inv D q m' (finalizers q hs)" using fresh sole(2) q by (simp add: buffer_inv_def m' contents_def)
  moreover have "building_inv D q m'"
    using no_ref_to_buffer(1) [OF inv sole] r by (auto simp: building_inv_def q)
  moreover have "list_all (handle_inv q m') hs"
    using no_ref_to_buffer(2) [OF inv sole] r by (fastforce simp: list_all_iff handle_inv_def)
  moreover have "settled hs m m'" using handle_ref [OF inv] same by (fastforce simp: settled_def)
  ultimately show ?thesis using inv by (simp add: stream_inv_def q)
qed

text \<open>Only the counter 1 means a sole owner.\<close>

lemma of_nat_one: "n < 2 ^ 32 \<Longrightarrow> of_nat n = (1 :: 32 word) \<Longrightarrow> n = 1"
  using of_nat_zero [of "n - 1"] by (cases n) auto

lemma sole_owner_count:
  assumes "stream_inv D n p m hs" "Suc n < 2 ^ 32" "get_count (u_buffer p) m = Inr 1"
  shows "u_buffer p \<notin> set (finalizers p hs)"
proof -
  define c where "c = count (owners p hs) (u_buffer p)"
  have "c \<le> Suc n" unfolding c_def by (rule order_trans [OF count_le_size stream_inv_size [OF assms(1)]])
  moreover obtain bs where "m (u_buffer p) = Some (of_nat c, bs)"
    using stream_inv_buffer [OF assms(1)] unfolding c_def [symmetric] by blast
  then have "of_nat c = (1 :: 32 word)" using assms(3) by (simp add: get_count_def)
  ultimately have "c = 1" using of_nat_one assms(2) by (meson le_less_trans)
  then have "count (mset (finalizers p hs)) (u_buffer p) = 0" unfolding c_def count_add_mset by (simp only: refl if_True One_nat_def nat.inject)
  then show ?thesis by (simp only: count_eq_zero_iff set_mset_mset simp_thms)
qed

lemma rewind_inv:
  assumes inv: "stream_inv D n p m hs" and sole: "u_buffer p \<notin> set (finalizers p hs)" "\<not> d_referenced D (u_ctx p)"
    and rw: "shared_rewind p m = (q, m')"
  shows "stream_inv D n q m' hs \<and> settled hs m m' \<and> u_buffer q = u_buffer p \<and> u_off q = COUNTER_SIZE
    \<and> u_ctx q = u_ctx p \<and> m' = m(u_buffer p \<mapsto> (1, []))"
proof -
  obtain bs where "m (u_buffer p) = Some (1, bs)" using stream_inv_sole [OF inv sole(1)] by blast
  then have m': "m' = (m(u_buffer p := None))(u_buffer p \<mapsto> (1, []))" using rw by (auto simp: shared_rewind_def)
  show ?thesis
    using stream_inv_replace [OF inv sole _ _ _ _ _ _ _ _ m', of q] rw m' by (auto simp: shared_rewind_def)
qed

text \<open>What is not parsed moves to a new buffer.\<close>

lemma stream_inv_copy:
  assumes inv: "stream_inv D n p m hs" and tmp: "m b = None" and kp: "keeps (m(b \<mapsto> (1, new))) m'"
    and o: "owned m' (owners q hs)"
    and q: "u_refs q = u_refs p" "u_zone q = (if d_referenced D (u_ctx p) then [u_buffer p] else []) @ u_zone p"
      "u_buffer q = b" "u_off q = COUNTER_SIZE" "u_used q = COUNTER_SIZE + length new" "\<not> d_referenced D (u_ctx q)"
  shows "stream_inv D (Suc n) q m' hs \<and> settled hs m m'"
proof -
  have po: "owned m (owners p hs)" using inv by (simp add: stream_inv_def)
  have fresh: "b \<notin># owners p hs" using tmp owned_fresh [OF po] by blast
  have same: "contents m' a = contents m a" if "a \<in># owners q hs" "a \<noteq> b" for a
    using kp owned_alive [OF o that(1)] that(2) by (force simp: keeps_def contents_def)
  have fins: "a \<in># owners q hs" "a \<noteq> b" if "a \<in> set (finalizers q hs)" for a
    using that fresh by (auto simp: q split: if_splits)
  have r: "ref_inv q m' r" if "ref_inv p m r" "fst r \<in> set (finalizers q hs)" for r
    using that fins [OF that(2)] same [of "fst r"] by (auto simp: ref_inv_def q)
  have "contents m' b = Some new" using kp owned_alive [OF o, of b] by (fastforce simp: keeps_def contents_def q)
  then have "buffer_inv D q m' (finalizers q hs)" using q fins(2) by (auto simp: buffer_inv_def)
  moreover have "building_inv D q m'" unfolding building_inv_def
  proof
    fix x
    assume "x \<in> set (u_refs q)"
    then have "ref_inv p m x" "fst x \<in> set (u_zone q)" using inv by (auto simp: stream_inv_def building_inv_def q)
    then show "ref_inv q m' x \<and> (fst x \<in> set (u_zone q) \<or> fst x = u_buffer q \<and> d_referenced D (u_ctx q))"
      using r [of x] by simp
  qed
  moreover have hr: "ref_inv p m x \<and> fst x \<in> set (zone_finalizers h)" if "h \<in> set hs" "x \<in> set (h_refs h)" for h x
    using inv that by (auto simp: stream_inv_def list_all_iff handle_inv_def)
  have in_fins: "a \<in> set (finalizers q hs)" if "h \<in> set hs" "a \<in> set (zone_finalizers h)" for a h
    using that by auto
  have "list_all (handle_inv q m') hs"
    unfolding list_all_iff handle_inv_def by (intro ballI conjI r in_fins) (use hr in blast)+
  moreover have "settled hs m m'" unfolding settled_def
  proof (intro ballI allI impI)
    fix h x bs bs'
    assume x: "h \<in> set hs" "x \<in> set (h_refs h)" "contents m (fst x) = Some bs" "contents m' (fst x) = Some bs'"
    have "fst x \<in> set (finalizers q hs)" using hr [OF x(1,2)] in_fins [OF x(1)] by blast
    from same [OF fins [OF this]] show "take (snd x) bs' = take (snd x) bs" using x(3,4) by simp
  qed
  moreover have "length (finalizers q hs) \<le> Suc n" using inv by (simp add: stream_inv_def q)
  ultimately show ?thesis using o by (simp add: stream_inv_def)
qed

text \<open>The end: the unpacker is destroyed, and the handles after it.\<close>

definition teardown :: "'c shared_unpacker \<Rightarrow> object_handle list \<Rightarrow> buffers \<Rightarrow> shared_exn + buffers" where
  "teardown p hs m = bind_result (shared_destroy p m) (call_finalizers (concat (map zone_finalizers hs)))"

lemma call_finalizers_append: "call_finalizers (xs @ ys) m = bind_result (call_finalizers xs m) (call_finalizers ys)"
  by (induction xs arbitrary: m) (auto simp: bind_result_def split: sum.splits)

lemma owned_none: "owned m {#} \<Longrightarrow> m = Map.empty"
  by (auto simp: owned_def fun_eq_iff)

subsection \<open>What a decoder promises\<close>

text \<open>A run leaves an end of its bytes; it only sets the flag, and only when it has used some of them.\<close>

locale referencing_decoder =
  fixes D :: "'c decoder"
  assumes run_used: "d_run D c bs = Inr (fin, c', r) \<Longrightarrow> \<exists>used. bs = used @ r \<and> (d_referenced D c \<longrightarrow> d_referenced D c')
      \<and> (used = [] \<longrightarrow> \<not> fin \<and> d_referenced D c' = d_referenced D c)"
    and set_flag [simp]: "d_referenced D (d_set_referenced D x c) = x"
    and init_flag [simp]: "d_referenced D (d_init D c) = d_referenced D c"
    and fresh_flag [simp]: "\<not> d_referenced D (d_fresh D)"
begin

lemma enlarge_good:
  assumes inv: "stream_inv D n p m hs" and n: "Suc n < 2 ^ 32 - 1"
    and malloc: "\<And>k b. r_malloc r k = Some b \<Longrightarrow> m b = None"
    and realloc: "\<And>k b. r_realloc r k = Some b \<Longrightarrow> m b = None \<or> b = u_buffer p"
  shows "good D n m hs (shared_enlarge D r sz p m)"
proof -
  obtain bs where b: "m (u_buffer p) = Some (of_nat (count (owners p hs) (u_buffer p)), bs)"
      "length bs = u_used p - COUNTER_SIZE" "contents m (u_buffer p) = Some bs"
    using stream_inv_buffer [OF inv] by blast
  have o: "owned m (owners p hs)" and bi: "buffer_inv D p m (finalizers p hs)" using inv by (simp_all add: stream_inv_def)
  show ?thesis
  proof (cases "u_off p = COUNTER_SIZE")
    case True
    have sole: "u_buffer p \<notin> set (finalizers p hs)" "\<not> d_referenced D (u_ctx p)"
      using bi True by (auto simp: buffer_inv_def)
    define next_size where "next_size = grow (wrap ((u_used p + u_free p) * 2)) (wrap (sz + u_used p))"
    obtain bs where b1: "m (u_buffer p) = Some (1, bs)" "length bs = u_used p - COUNTER_SIZE"
      using stream_inv_sole [OF inv sole(1)] by blast
    have e: "shared_enlarge D r sz p m = (case r_realloc r next_size of None \<Rightarrow> Inl (Thrown Bad_alloc)
        | Some tmp \<Rightarrow> Inr (p\<lparr>u_buffer := tmp, u_free := next_size - u_used p\<rparr>, (m(u_buffer p := None))(tmp \<mapsto> (1, bs))))"
      by (simp add: shared_enlarge_def b1 True next_size_def Let_def split: option.split)
    show ?thesis
    proof (cases "r_realloc r next_size")
      case None
      then show ?thesis by (simp add: e good_def)
    next
      case (Some tmp)
      define q where "q = p\<lparr>u_buffer := tmp, u_free := next_size - u_used p\<rparr>"
      define m' where "m' = (m(u_buffer p := None))(tmp \<mapsto> (1, bs))"
      have "shared_enlarge D r sz p m = Inr (q, m')" by (simp add: e Some q_def m'_def)
      moreover have "stream_inv D n q m' hs \<and> settled hs m m'"
        using bi b1(2) True by (intro stream_inv_replace [OF inv sole realloc [OF Some] _ _ _ _ _ _ _ m'_def])
          (auto simp: q_def buffer_inv_def)
      ultimately show ?thesis using stream_inv_mono [of D n q m' hs "Suc n"] by (simp add: good_def)
    qed
  next
    case False
    define not_parsed where "not_parsed = u_used p - u_off p"
    define next_size where "next_size = grow (u_initial p) (wrap (sz + not_parsed + COUNTER_SIZE))"
    define new where "new = drop (u_off p - COUNTER_SIZE) bs"
    have len: "length new = not_parsed"
      using bi b(2) by (auto simp: new_def not_parsed_def buffer_inv_def)
    define p' where "p' = (if d_referenced D (u_ctx p) then set_referenced D False (p\<lparr>u_zone := u_buffer p # u_zone p\<rparr>) else p)"
    define q where "q = (\<lambda>tmp. p'\<lparr>u_buffer := tmp, u_used := not_parsed + COUNTER_SIZE,
        u_free := next_size - (not_parsed + COUNTER_SIZE), u_off := COUNTER_SIZE\<rparr>)"
    have e: "shared_enlarge D r sz p m = (case r_malloc r next_size of None \<Rightarrow> Inl (Thrown Bad_alloc)
        | Some tmp \<Rightarrow> if d_referenced D (u_ctx p) then if r_push r then Inr (q tmp, m(tmp \<mapsto> (1, new))) else Inl (Thrown Bad_alloc)
          else bind_result (decr_buffer (u_buffer p) (m(tmp \<mapsto> (1, new)))) (\<lambda>m. Inr (q tmp, m)))"
      by (auto simp: shared_enlarge_def b False next_size_def not_parsed_def new_def q_def p'_def init_count_def Let_def bind_result_def
          split: option.split sum.split)
    have qs: "u_refs (q t) = u_refs p" "u_zone (q t) = (if d_referenced D (u_ctx p) then [u_buffer p] else []) @ u_zone p"
      "u_buffer (q t) = t" "u_off (q t) = COUNTER_SIZE" "u_used (q t) = COUNTER_SIZE + length new"
      "\<not> d_referenced D (u_ctx (q t))" for t
      by (simp_all add: q_def p'_def set_referenced_def len)
    show ?thesis
    proof (cases "r_malloc r next_size")
      case None
      then show ?thesis by (simp add: e good_def)
    next
      case (Some tmp)
      note fresh = malloc [OF Some]
      define m1 where "m1 = m(tmp \<mapsto> (1, new))"
      have o1: "owned m1 (add_mset tmp (owners p hs))"
        using owned_new [OF o fresh] by (simp add: m1_def)
      show ?thesis
      proof (cases "d_referenced D (u_ctx p)")
        case True
        then have "owned m1 (owners (q tmp) hs)" using o1 by (simp add: qs add_mset_commute)
        from stream_inv_copy [OF inv fresh _ this qs] have "stream_inv D (Suc n) (q tmp) m1 hs \<and> settled hs m m1"
          by (simp add: m1_def)
        then show ?thesis using True by (simp add: e Some good_def m1_def)
      next
        case nf: False
        then have "owned m1 (add_mset (u_buffer p) (owners (q tmp) hs))" using o1 by (simp add: qs add_mset_commute)
        moreover have "size (owners (q tmp) hs) < 2 ^ 32 - 1"
          using stream_inv_size [OF inv] n nf by (simp add: qs)
        ultimately obtain m' where m': "decr_buffer (u_buffer p) m1 = Inr m'" "owned m' (owners (q tmp) hs)" "keeps m1 m'"
          using decr_owned by blast
        from stream_inv_copy [OF inv fresh _ m'(2) qs] have "stream_inv D (Suc n) (q tmp) m' hs \<and> settled hs m m'"
          using m'(3) by (simp add: m1_def)
        then show ?thesis using nf m'(1) by (simp add: e Some good_def m1_def)
      qed
    qed
  qed
qed

lemma good_keep: "stream_inv D n p m hs \<Longrightarrow> good D n m hs (Inr (p, m))"
  using stream_inv_mono [of D n p m hs "Suc n"] by (simp add: good_def)

lemma reserve_good:
  assumes inv: "stream_inv D n p m hs" and n: "Suc n < 2 ^ 32 - 1"
    and malloc: "\<And>k b. r_malloc r k = Some b \<Longrightarrow> m b = None"
    and realloc: "\<And>k b. r_realloc r k = Some b \<Longrightarrow> m b = None \<or> b = u_buffer p"
  shows "good D n m hs (shared_reserve_buffer D r sz p m)"
proof -
  have enlarge: "good D n m hs (shared_enlarge D r sz p m)" by (rule enlarge_good [OF inv n malloc realloc])
  obtain bs where b: "m (u_buffer p) = Some (of_nat (count (owners p hs) (u_buffer p)), bs)"
    using stream_inv_buffer [OF inv] by blast
  show ?thesis
  proof (cases "sz \<le> u_free p \<or> u_used p \<noteq> u_off p \<or> get_count (u_buffer p) m \<noteq> Inr 1 \<or> d_referenced D (u_ctx p)")
    case True
    then have "shared_reserve_buffer D r sz p m = Inr (p, m) \<or> shared_reserve_buffer D r sz p m = shared_enlarge D r sz p m"
      by (auto simp: shared_reserve_buffer_def shared_expand_buffer_def get_count_def b)
    then show ?thesis using enlarge good_keep [OF inv] by metis
  next
    case False
    have "Suc n < 2 ^ 32" using n by simp
    from sole_owner_count [OF inv this] False have sole: "u_buffer p \<notin> set (finalizers p hs)" by blast
    obtain q m1 where q: "shared_rewind p m = (q, m1)" by fastforce
    from rewind_inv [OF inv sole _ q] False
    have w: "stream_inv D n q m1 hs" "settled hs m m1" "u_buffer q = u_buffer p" "m1 = m(u_buffer p \<mapsto> (1, []))" by auto
    have "shared_reserve_buffer D r sz p m = (if sz \<le> u_free q then Inr (q, m1) else shared_enlarge D r sz q m1)"
      using False by (simp add: shared_reserve_buffer_def shared_expand_buffer_def q)
    moreover have "good D n m1 hs (shared_enlarge D r sz q m1)"
    proof (rule enlarge_good [OF w(1) n])
      show "m1 k = None" if "r_malloc r i = Some k" for i k using malloc [OF that] b by (auto simp: w(4))
      show "m1 k = None \<or> k = u_buffer q" if "r_realloc r i = Some k" for i k using realloc [OF that] by (auto simp: w(3,4))
    qed
    ultimately show ?thesis using good_step [OF w(2,1)] good_keep [OF w(1)] by presburger
  qed
qed

lemma owned_bytes: "owned m M \<Longrightarrow> m b = Some (c, bs) \<Longrightarrow> owned (m(b \<mapsto> (c, bs'))) M"
  unfolding owned_def by (metis fst_conv fun_upd_apply option.map(2))

text \<open>More or fewer bytes in the buffer, behind what is parsed.\<close>

lemma stream_inv_bytes:
  assumes inv: "stream_inv D n p m hs" and b: "m (u_buffer p) = Some (c, bs)"
    and q: "u_ctx q = u_ctx p" "u_refs q = u_refs p" "u_zone q = u_zone p" "u_buffer q = u_buffer p"
      "u_off q = u_off p" "u_off q \<le> u_used q" "length bs' = u_used q - COUNTER_SIZE"
    and take: "take (u_off p - COUNTER_SIZE) bs' = take (u_off p - COUNTER_SIZE) bs"
  shows "stream_inv D n q (m(u_buffer p \<mapsto> (c, bs'))) hs \<and> settled hs m (m(u_buffer p \<mapsto> (c, bs')))"
proof -
  let ?m = "m(u_buffer p \<mapsto> (c, bs'))"
  have bi: "buffer_inv D p m (finalizers p hs)" using inv by (simp add: stream_inv_def)
  have "owned ?m (owners q hs)" using inv owned_bytes [where m = m, OF _ b] by (simp add: stream_inv_def q)
  moreover have "buffer_inv D q ?m (finalizers q hs)" using bi q(5,6) by (auto simp: buffer_inv_def contents_def q(1-4,7))
  moreover have r: "ref_inv q ?m r" if "ref_inv p m r" for r
  proof (cases "fst r = u_buffer p")
    case True
    have "u_off p - COUNTER_SIZE \<le> length bs'" using q(5-7) by simp
    then show ?thesis using that True by (auto simp: ref_inv_def contents_def q)
  qed (use that in \<open>auto simp: ref_inv_def contents_def q\<close>)
  have "building_inv D q ?m" using inv r by (auto simp: stream_inv_def building_inv_def q)
  moreover have "list_all (handle_inv q ?m) hs" using inv r by (auto simp: stream_inv_def list_all_iff handle_inv_def)
  moreover have "settled hs m ?m" unfolding settled_def
  proof (intro ballI allI impI)
    fix h x ys zs
    assume x: "h \<in> set hs" "x \<in> set (h_refs h)" "contents m (fst x) = Some ys" "contents ?m (fst x) = Some zs"
    show "take (snd x) zs = take (snd x) ys"
    proof (cases "fst x = u_buffer p")
      case True
      then have "snd x \<le> u_off p - COUNTER_SIZE" using handle_ref [OF inv x(1,2)] by (simp add: ref_inv_def)
      then have "take (snd x) bs' = take (snd x) bs" using take by (metis min_absorb1 take_take)
      then show ?thesis using x(3,4) b True by (simp add: contents_def)
    qed (use x(3,4) in \<open>auto simp: contents_def\<close>)
  qed
  ultimately show ?thesis using inv by (simp add: stream_inv_def q)
qed

text \<open>Parsing.\<close>

lemma execute_good:
  assumes inv: "stream_inv D n p m hs"
  shows "case shared_execute_imp D p m of Inl e \<Rightarrow> e \<noteq> Use_after_free
    | Inr (fin, q) \<Rightarrow> stream_inv D n q m hs \<and> u_buffer q = u_buffer p \<and> u_zone q = u_zone p"
proof -
  obtain c bs where b: "m (u_buffer p) = Some (c, bs)" "length bs = u_used p - COUNTER_SIZE" "contents m (u_buffer p) = Some bs"
    using stream_inv_buffer [OF inv] by blast
  have bi: "buffer_inv D p m (finalizers p hs)" using inv by (simp add: stream_inv_def)
  show ?thesis
  proof (cases "d_run D (u_ctx p) (drop (u_off p - COUNTER_SIZE) bs)")
    case (Inl e)
    then show ?thesis by (simp add: shared_execute_imp_def b)
  next
    case (Inr y)
    obtain fin d rest where y: "y = (fin, d, rest)" by (cases y)
    obtain used where used: "drop (u_off p - COUNTER_SIZE) bs = used @ rest" "d_referenced D (u_ctx p) \<longrightarrow> d_referenced D d"
        "used = [] \<longrightarrow> d_referenced D d = d_referenced D (u_ctx p)"
      using run_used Inr y by blast
    define off where "off = u_used p - length rest"
    have off: "off = u_off p + length used" "off \<le> u_used p"
      using arg_cong [OF used(1), of length] b(2) bi by (auto simp: off_def buffer_inv_def)
    define q where "q = p\<lparr>u_ctx := d, u_refs := (if d_referenced D d then [(u_buffer p, off - COUNTER_SIZE)] else []) @ u_refs p,
      u_off := off, u_parsed := u_parsed p + (if off > u_off p then off - u_off p else 0)\<rparr>"
    have e: "shared_execute_imp D p m = Inr (fin, q)"
      using Inr y by (simp add: shared_execute_imp_def b q_def off_def Let_def)
    have "used = [] \<and> u_off p = COUNTER_SIZE" if "off = COUNTER_SIZE"
      using off(1) bi that by (cases used) (auto simp: buffer_inv_def)
    then have "buffer_inv D q m (finalizers p hs)" using bi off used(3) by (auto simp: buffer_inv_def q_def)
    moreover have r: "ref_inv q m r" if "ref_inv p m r" for r using that off by (auto simp: ref_inv_def q_def)
    have "ref_inv q m (u_buffer p, off - COUNTER_SIZE)" using b off by (auto simp: ref_inv_def q_def)
    then have "building_inv D q m" using inv r used(2) by (fastforce simp: stream_inv_def building_inv_def q_def)
    moreover have "list_all (handle_inv q m) hs" using inv r by (auto simp: stream_inv_def list_all_iff handle_inv_def)
    ultimately have "stream_inv D n q m hs" using inv by (simp add: stream_inv_def q_def)
    then show ?thesis by (simp add: e) (simp add: q_def)
  qed
qed

text \<open>The zone of a finished object goes to its handle.\<close>

lemma zones_update:
  assumes "i < length hs"
  shows "mset (zone_finalizers (hs ! i)) + mset (concat (map zone_finalizers (hs[i := h])))
    = mset (zone_finalizers h) + mset (concat (map zone_finalizers hs))"
  using assms
proof (induction hs arbitrary: i)
  case (Cons x xs)
  show ?case
  proof (cases i)
    case (Suc j)
    then show ?thesis using Cons.IH [of j] Cons.prems by simp
  qed simp
qed simp

lemma zones_update_set:
  "i < length hs \<Longrightarrow> set (concat (map zone_finalizers (hs[i := h]))) \<subseteq> set (zone_finalizers h) \<union> set (concat (map zone_finalizers hs))"
  using set_update_subset_insert [of hs i h] by fastforce

text \<open>A handle lets go of its zone and takes the new one.\<close>

lemma handle_replaced:
  assumes inv: "stream_inv D n p m hs" and i: "i < length hs" and n: "n + 2 < 2 ^ 32"
    and h: "handle_inv q m1 h" and q: "u_buffer q = u_buffer p" "u_used q = u_used p" "u_off q = u_off p"
    and refs: "building_inv D q m1" "u_off q = COUNTER_SIZE \<Longrightarrow> \<not> d_referenced D (u_ctx q) \<and> u_buffer p \<notin> set (u_zone q @ zone_finalizers h)"
    and zones: "mset (u_zone q) + mset (zone_finalizers h) = mset (u_zone p) + E" "size E \<le> 1"
    and m1: "owned m1 (E + owners p hs)" "\<And>a. contents m1 a = contents m a"
  shows "\<exists>m'. call_finalizers (zone_finalizers (hs ! i)) m1 = Inr m' \<and> keeps m m' \<and> stream_inv D (Suc n) q m' (hs[i := h])"
proof -
  let ?zs = "zone_finalizers (hs ! i)"
  have z: "mset ?zs + owners q (hs[i := h]) = E + owners p hs"
    using zones_update [OF i, of h] zones(1) by (simp add: q) (metis add.assoc add.commute)
  from arg_cong [OF z, of size] zones(2) have sz: "length (finalizers q (hs[i := h])) + length ?zs \<le> Suc (length (finalizers p hs))"
    by simp
  have bi: "buffer_inv D p m (finalizers p hs)" using inv by (simp add: stream_inv_def)
  have keep: "ref_inv q m1 r" if "ref_inv p m r" for r using that by (simp add: ref_inv_def m1(2) q)
  have "\<exists>m'. call_finalizers ?zs m1 = Inr m' \<and> keeps m1 m' \<and> stream_inv D (Suc n) q m' (hs[i := h])"
  proof (rule stream_inv_free)
    show "owned m1 (mset ?zs + owners q (hs[i := h]))" using m1(1) z by simp
    have "length (finalizers p hs) \<le> n" using inv by (simp add: stream_inv_def)
    then show "length (finalizers q (hs[i := h])) \<le> Suc n" using sz by linarith
    show "size (owners q (hs[i := h])) + length ?zs < 2 ^ 32" using sz \<open>length (finalizers p hs) \<le> n\<close> n by simp
    show "building_inv D q m1" by (rule refs(1))
    show "list_all (handle_inv q m1) (hs[i := h])"
    proof -
      have "handle_inv q m1 x" if "x \<in> set hs" for x
        using inv that keep by (auto simp: stream_inv_def list_all_iff handle_inv_def)
      then show ?thesis using h set_update_subset_insert [of hs i h] by (auto simp: list_all_iff)
    qed
    show "buffer_inv D q m1 (finalizers q (hs[i := h]))"
    proof -
      have "u_buffer p \<notin> set (finalizers q (hs[i := h]))" if c: "u_off q = COUNTER_SIZE"
        using refs(2) [OF c] bi c zones_update_set [OF i, of h] by (auto simp: buffer_inv_def q(3) simp del: set_concat)
      then show ?thesis using bi refs(2) unfolding buffer_inv_def m1(2) q by auto
    qed
  qed
  then show ?thesis using m1(2) by (auto simp: keeps_def)
qed

lemma next_good:
  assumes inv: "stream_inv D n p m hs" and i: "i < length hs" and n: "n + 2 < 2 ^ 32" and push: "r_push r"
  shows "case shared_next D r (hs ! i) p m of Inl e \<Rightarrow> e \<noteq> Use_after_free
    | Inr (_, _, h, q, m') \<Rightarrow> stream_inv D (Suc n) q m' (hs[i := h]) \<and> keeps m m'"
proof (cases "shared_execute_imp D p m")
  case (Inl e)
  then show ?thesis using execute_good [OF inv] by (simp add: shared_next_def)
next
  case (Inr y)
  obtain fin p1 where y: "shared_execute_imp D p m = Inr (fin, p1)" using Inr by (cases y) simp
  have inv1: "stream_inv D n p1 m hs" using execute_good [OF inv] by (simp add: y)
  show ?thesis
  proof (cases fin)
    case False
    have o: "owned m ({#} + owners p1 hs)" and bd: "building_inv D p1 m" and bi: "buffer_inv D p1 m (finalizers p1 hs)"
      using inv1 by (simp_all add: stream_inv_def)
    have "\<exists>m'. call_finalizers (zone_finalizers (hs ! i)) m = Inr m' \<and> keeps m m' \<and> stream_inv D (Suc n) p1 m' (hs[i := object_handle_new])"
      using bi by (intro handle_replaced [OF inv1 i n _ _ _ _ bd _ _ _ o])
        (auto simp: handle_inv_def object_handle_new_def zone_finalizers_def buffer_inv_def)
    then show ?thesis using False by (auto simp: shared_next_def y)
  next
    case True
    obtain c bs where b: "m (u_buffer p1) = Some (c, bs)" and c: "c = of_nat (count (owners p1 hs) (u_buffer p1))"
      using stream_inv_buffer [OF inv1] by blast
    define E where "E = (if d_referenced D (u_ctx p1) then {#u_buffer p1#} else {#})"
    define Z where "Z = (if d_referenced D (u_ctx p1) then u_buffer p1 # u_zone p1 else u_zone p1)"
    define m1 where "m1 = (if d_referenced D (u_ctx p1) then m(u_buffer p1 \<mapsto> (c + 1, bs)) else m)"
    define p2 where "p2 = (if d_referenced D (u_ctx p1) then set_referenced D False p1 else p1)\<lparr>u_zone := []\<rparr>"
    define h where "h = \<lparr>h_obj = d_data D (u_ctx p2), h_zone = Some Z, h_refs = u_refs p1\<rparr>"
    have rel: "release_zone D r p1 m = (if r_zone r then Inr (Some Z, p2, m1) else Inl (Thrown Bad_alloc))"
      using push by (simp add: release_zone_def flush_zone_def incr_count_def b Z_def p2_def m1_def set_referenced_def)
    have o1: "owned m1 (E + owners p1 hs)"
    proof (cases "d_referenced D (u_ctx p1)")
      case True
      then show ?thesis using owned_incr [of m "owners p1 hs" "u_buffer p1" bs] inv1 b c
        by (simp add: m1_def E_def stream_inv_def)
    qed (use inv1 in \<open>simp add: m1_def E_def stream_inv_def\<close>)
    have refs: "ref_inv p1 m x \<and> fst x \<in> set Z" if "x \<in> set (u_refs p1)" for x
      using inv1 that by (auto simp: stream_inv_def building_inv_def Z_def)
    have cont: "contents m1 a = contents m a" for a by (simp add: m1_def contents_def b)
    have "\<exists>m'. call_finalizers (zone_finalizers (hs ! i)) m1 = Inr m' \<and> keeps m m' \<and> stream_inv D (Suc n) (shared_reset D p2) m' (hs[i := h])"
    proof (rule handle_replaced [OF inv1 i n])
      show "handle_inv (shared_reset D p2) m1 h" using refs
        by (auto simp: handle_inv_def h_def zone_finalizers_def ref_inv_def cont shared_reset_def p2_def set_referenced_def)
      show "owned m1 (E + owners p1 hs)" by (rule o1)
      have "u_buffer p1 \<notin> set (finalizers p1 hs) \<and> \<not> d_referenced D (u_ctx p1)" if "u_off p1 = COUNTER_SIZE"
        using inv1 that by (simp add: stream_inv_def buffer_inv_def)
      then show "u_off (shared_reset D p2) = COUNTER_SIZE \<Longrightarrow> \<not> d_referenced D (u_ctx (shared_reset D p2))
          \<and> u_buffer p1 \<notin> set (u_zone (shared_reset D p2) @ zone_finalizers h)"
        by (auto simp: shared_reset_def p2_def set_referenced_def h_def zone_finalizers_def Z_def)
    qed (simp_all add: cont shared_reset_def p2_def set_referenced_def building_inv_def h_def zone_finalizers_def Z_def E_def)
    then show ?thesis using True by (auto simp: shared_next_def y rel h_def p2_def Let_def set_referenced_def)
  qed
qed

lemma destroy_handle_good:
  assumes inv: "stream_inv D n p m hs" and i: "i < length hs" and n: "n + 2 < 2 ^ 32"
  shows "\<exists>m'. call_finalizers (zone_finalizers (hs ! i)) m = Inr m' \<and> keeps m m' \<and> stream_inv D (Suc n) p m' (hs[i := object_handle_new])"
proof -
  have o: "owned m ({#} + owners p hs)" and bd: "building_inv D p m" and bi: "buffer_inv D p m (finalizers p hs)"
    using inv by (simp_all add: stream_inv_def)
  show ?thesis
    using bi by (intro handle_replaced [OF inv i n _ _ _ _ bd _ _ _ o])
      (auto simp: handle_inv_def object_handle_new_def zone_finalizers_def buffer_inv_def)
qed

lemma reset_zone_good:
  assumes inv: "stream_inv D n p m hs" and n: "n + 2 < 2 ^ 32" and refs: "u_refs p = []"
  shows "\<exists>m'. reset_zone p m = Inr (p\<lparr>u_zone := []\<rparr>, m') \<and> keeps m m' \<and> stream_inv D (Suc n) (p\<lparr>u_zone := []\<rparr>) m' hs"
proof -
  let ?p = "p\<lparr>u_zone := []\<rparr>"
  have "length (finalizers p hs) \<le> n" using inv by (simp add: stream_inv_def)
  moreover have "handle_inv ?p m h" if "h \<in> set hs" for h
    using inv that by (auto simp: stream_inv_def list_all_iff handle_inv_def ref_inv_def)
  ultimately have "\<exists>m'. call_finalizers (u_zone p) m = Inr m' \<and> keeps m m' \<and> stream_inv D (Suc n) ?p m' hs"
    using inv refs n by (intro stream_inv_free)
      (auto simp: stream_inv_def buffer_inv_def building_inv_def list_all_iff)
  then show ?thesis by (auto simp: reset_zone_def)
qed

lemma stream_inv_skip:
  assumes "stream_inv D n p m hs" "k \<le> shared_nonparsed_size p"
  shows "stream_inv D n (shared_skip_nonparsed_buffer k p) m hs"
  using assms by (fastforce simp: stream_inv_def buffer_inv_def building_inv_def handle_inv_def ref_inv_def list_all_iff
      shared_skip_nonparsed_buffer_def shared_nonparsed_size_def)

lemma stream_inv_reset: "stream_inv D n p m hs \<Longrightarrow> stream_inv D n (shared_reset D p) m hs"
  by (auto simp: stream_inv_def buffer_inv_def building_inv_def handle_inv_def ref_inv_def list_all_iff shared_reset_def)

lemma act_good:
  assumes inv: "stream_inv D n (w_unpacker w) (w_buffers w) (w_handles w)" and n: "n + 2 < 2 ^ 32 - 1" and op: "shared_valid op w"
  shows "case shared_act D op w of Inl e \<Rightarrow> e \<noteq> Use_after_free
    | Inr w' \<Rightarrow> stream_inv D (Suc n) (w_unpacker w') (w_buffers w') (w_handles w') \<and> settled (w_handles w) (w_buffers w) (w_buffers w')"
proof -
  obtain c bs where b: "w_buffers w (u_buffer (w_unpacker w)) = Some (c, bs)" "length bs = u_used (w_unpacker w) - COUNTER_SIZE"
    using stream_inv_buffer [OF inv] by blast
  have bi: "buffer_inv D (w_unpacker w) (w_buffers w) (finalizers (w_unpacker w) (w_handles w))" using inv by (simp add: stream_inv_def)
  note grows = stream_inv_mono [of D n _ _ _ "Suc n"]
  have n': "n + 2 < 2 ^ 32" using n by simp
  show ?thesis
  proof (cases op)
    case (Reserve r sz)
    have "good D n (w_buffers w) (w_handles w) (shared_reserve_buffer D r sz (w_unpacker w) (w_buffers w))"
      using op n by (intro reserve_good [OF inv]) (auto simp: Reserve)
    then show ?thesis by (auto simp: Reserve good_def bind_result_def split: sum.splits)
  next
    case (Consumed new)
    define q where "q = (w_unpacker w)\<lparr>u_used := u_used (w_unpacker w) + length new, u_free := u_free (w_unpacker w) - length new\<rparr>"
    have "stream_inv D n q ((w_buffers w)(u_buffer (w_unpacker w) \<mapsto> (c, bs @ new))) (w_handles w)
      \<and> settled (w_handles w) (w_buffers w) ((w_buffers w)(u_buffer (w_unpacker w) \<mapsto> (c, bs @ new)))"
      using bi b(2) by (intro stream_inv_bytes [OF inv b(1)]) (auto simp: q_def buffer_inv_def)
    then show ?thesis using grows by (simp add: Consumed shared_buffer_consumed_def b(1) q_def)
  next
    case New_handle
    then show ?thesis using grows [OF inv]
      by (auto simp: stream_inv_def object_handle_new_def zone_finalizers_def handle_inv_def)
  next
    case (Next r i)
    then show ?thesis using next_good [OF inv _ n', of i r] op settled_keeps
      by (auto simp: bind_result_def split: sum.splits)
  next
    case (Destroy_handle i)
    then show ?thesis using destroy_handle_good [OF inv _ n', of i] op settled_keeps by auto
  next
    case Reset_zone
    then show ?thesis using reset_zone_good [OF inv n'] op settled_keeps by auto
  next
    case Remove_nonparsed
    define q where "q = (w_unpacker w)\<lparr>u_used := u_off (w_unpacker w)\<rparr>"
    define bs' where "bs' = take (u_off (w_unpacker w) - COUNTER_SIZE) bs"
    have "stream_inv D n q ((w_buffers w)(u_buffer (w_unpacker w) \<mapsto> (c, bs'))) (w_handles w)
      \<and> settled (w_handles w) (w_buffers w) ((w_buffers w)(u_buffer (w_unpacker w) \<mapsto> (c, bs')))"
      using bi b(2) by (intro stream_inv_bytes [OF inv b(1)]) (auto simp: q_def bs'_def buffer_inv_def)
    then show ?thesis using grows by (simp add: Remove_nonparsed shared_remove_nonparsed_buffer_def b(1) q_def bs'_def)
  qed (use op in \<open>auto intro!: grows stream_inv_skip stream_inv_reset inv\<close>)
qed

lemma steps_inv:
  assumes "shared_steps D n w" "n + 2 < 2 ^ 32"
  shows "stream_inv D n (w_unpacker w) (w_buffers w) (w_handles w)"
  using assms
proof (induction rule: shared_steps.induct)
  case (made r sz p m)
  then show ?case
    by (auto simp: shared_new_def init_count_def Let_def stream_inv_def owned_def buffer_inv_def contents_def building_inv_def
        split: option.splits if_splits)
next
  case (acts n w op w')
  then show ?case using act_good [of n w op] by simp
qed

lemma pointers_valid:
  assumes "shared_steps D n w" "n < 2 ^ 32 - 3" "shared_valid op w"
  shows "case shared_act D op w of Inl e \<Rightarrow> e \<noteq> Use_after_free
    | Inr w' \<Rightarrow> \<forall>h b k. h \<in> set (w_handles w) \<longrightarrow> h \<in> set (w_handles w') \<longrightarrow> (b, k) \<in> set (h_refs h) \<longrightarrow>
       (\<exists>c bs c' bs'. w_buffers w b = Some (c, bs) \<and> k \<le> length bs
          \<and> w_buffers w' b = Some (c', bs') \<and> take k bs' = take k bs)"
proof -
  have inv: "stream_inv D n (w_unpacker w) (w_buffers w) (w_handles w)" using steps_inv [OF assms(1)] assms(2) by simp
  have g: "n + 2 < 2 ^ 32 - 1" using assms(2) by simp
  show ?thesis
  proof (cases "shared_act D op w")
    case (Inl e)
    then show ?thesis using act_good [OF inv g assms(3)] by simp
  next
    case (Inr w')
    then have w': "stream_inv D (Suc n) (w_unpacker w') (w_buffers w') (w_handles w')"
      "settled (w_handles w) (w_buffers w) (w_buffers w')" using act_good [OF inv g assms(3)] by simp_all
    have "\<exists>c bs c' bs'. w_buffers w b = Some (c, bs) \<and> k \<le> length bs \<and> w_buffers w' b = Some (c', bs') \<and> take k bs' = take k bs"
      if h: "h \<in> set (w_handles w)" "h \<in> set (w_handles w')" "(b, k) \<in> set (h_refs h)" for h b k
    proof -
      obtain bs bs' where b: "contents (w_buffers w) b = Some bs" "k \<le> length bs" "contents (w_buffers w') b = Some bs'"
        using handle_ref [OF inv h(1,3)] handle_ref [OF w'(1) h(2,3)] by (auto simp: ref_inv_def)
      moreover have "take k bs' = take k bs" using w'(2) h(1,3) b unfolding settled_def by fastforce
      ultimately show ?thesis by (auto simp: contents_def)
    qed
    then show ?thesis by (simp add: Inr)
  qed
qed

end

subsection \<open>Version 1\<close>

text \<open>What the machine does with its flag.\<close>

definition flag_up :: "v1_context \<Rightarrow> v1_result \<Rightarrow> bool" where
  "flag_up c res \<longleftrightarrow> (\<forall>ret c'. res = Inr (ret, c') \<longrightarrow> v1_referenced c \<longrightarrow> v1_referenced c')"

lemma flag_up_wait [simp]: "v1_referenced d = v1_referenced c \<Longrightarrow> flag_up c (Inr (ret, d))"
  by (simp add: flag_up_def)

lemma push_proc_up [simp]: "v1_referenced d = v1_referenced c \<Longrightarrow> flag_up c (Inr (push_proc d o'))"
  by (auto simp: flag_up_def push_proc_def split: prod.splits if_splits)

lemma push_aggregate_up [simp]: "flag_up c (push_aggregate u b n c)"
  by (auto simp: push_aggregate_def flag_up_def bind_result_def Let_def push_proc_def
      split: sum.splits prod.splits if_splits)

lemma push_raw_up:
  assumes "v1_referenced d = v1_referenced c" "\<And>x f. r = Inr (x, f) \<Longrightarrow> v1_referenced c \<Longrightarrow> f"
  shows "flag_up c (push_raw d r)"
  using assms by (auto simp: push_raw_def flag_up_def bind_result_def push_proc_def split: sum.splits prod.splits if_splits)

lemma unpack_raw_up:
  "unpack_str u p f = Inr (x, g) \<Longrightarrow> f \<Longrightarrow> g"
  "unpack_bin u p f = Inr (x, g) \<Longrightarrow> f \<Longrightarrow> g"
  "unpack_ext u p f = Inr (x, g) \<Longrightarrow> f \<Longrightarrow> g"
  by (auto simp: unpack_str_def unpack_bin_def unpack_ext_def split: if_splits)

lemma v1_header_up: "flag_up c (v1_header u c b)"
  unfolding v1_header_def Let_def by (auto intro!: push_raw_up dest: unpack_raw_up)

lemma v1_length_up: "flag_up c (v1_length u c n)"
  unfolding v1_length_def Let_def by (auto intro!: push_raw_up dest: unpack_raw_up)

lemma v1_trail_step_up: "flag_up c (v1_trail_step u c n)"
  unfolding v1_trail_step_def Let_def by (auto intro!: push_raw_up v1_length_up dest: unpack_raw_up)

lemma v1_execute_used:
  "v1_execute u c bs = Inr (ret, c', r) \<Longrightarrow> \<exists>used. bs = used @ r \<and> (v1_referenced c \<longrightarrow> v1_referenced c')
    \<and> (used = [] \<longrightarrow> 0 \<le> ret \<longrightarrow> ret = 0 \<and> v1_referenced c' = v1_referenced c)"
proof (induction u c bs rule: v1_execute.induct)
  case (1 u c bs)
  note run = "1.prems" [unfolded v1_execute.simps [of u c bs]]
  show ?case
  proof (cases "v1_cs c = CS_HEADER")
    case True
    show ?thesis
    proof (cases bs)
      case (Cons b xs)
      obtain e d where h: "v1_header u c b = Inr (e, d)"
        using run True Cons by (cases "v1_header u c b") auto
      have f: "v1_referenced c \<Longrightarrow> v1_referenced d" using v1_header_up [of c u b] h by (simp add: flag_up_def)
      consider "e < 0" | "e > 0" | "e = 0" by linarith
      then show ?thesis
      proof cases
        case 3
        then show ?thesis using "1.IH"(1) [OF True Cons, of e d] run True Cons h f by fastforce
      qed (use run True Cons h f in auto)
    qed (use run True in simp)
  next
    case False
    show ?thesis
    proof (cases "length bs < v1_trail c \<or> v1_trail c = 0")
      case wait: False
      obtain e d where h: "v1_trail_step u c (take (v1_trail c) bs) = Inr (e, d)"
        using run False wait by (cases "v1_trail_step u c (take (v1_trail c) bs)") auto
      have f: "v1_referenced c \<Longrightarrow> v1_referenced d" using v1_trail_step_up [of c u] h by (simp add: flag_up_def)
      have ne: "take (v1_trail c) bs \<noteq> []" using wait by auto
      consider "e < 0" | "e > 0" | "e = 0" by linarith
      then show ?thesis
      proof cases
        case 1
        then show ?thesis using run False wait h f
          by (auto intro!: exI [of _ "take (v1_trail c - 1) bs"])
      next
        case 2
        then show ?thesis using run False wait h f ne
          by (auto intro!: exI [of _ "take (v1_trail c) bs"])
      next
        case 3
        then obtain used where "drop (v1_trail c) bs = used @ r" "v1_referenced d \<longrightarrow> v1_referenced c'"
          using "1.IH"(2) [OF False wait, of e d] run False wait h by fastforce
        moreover from this(1) have "bs = take (v1_trail c) bs @ used @ r" by (metis append_take_drop_id)
        ultimately show ?thesis using f ne by (intro exI [of _ "take (v1_trail c) bs @ used"]) simp
      qed
    qed (use run False in auto)
  qed
qed

definition v1_decoder :: "unpack_user \<Rightarrow> v1_context decoder" where
  "v1_decoder u = \<lparr>d_run = (\<lambda>c bs. bind_result (v1_execute u c bs) (\<lambda>(ret, c, r). if ret < 0 then Inl Parse_error else Inr (0 < ret, c, r))),
     d_fresh = v1_context_init, d_init = (\<lambda>c. v1_context_init\<lparr>v1_referenced := v1_referenced c\<rparr>), d_data = v1_data,
     d_referenced = v1_referenced, d_set_referenced = (\<lambda>x c. c\<lparr>v1_referenced := x\<rparr>)\<rparr>"

interpretation v1: referencing_decoder "v1_decoder u" for u
proof
  fix c bs fin c' r
  assume "d_run (v1_decoder u) c bs = Inr (fin, c', r)"
  then obtain ret where "v1_execute u c bs = Inr (ret, c', r)" "0 \<le> ret" "fin = (0 < ret)"
    by (auto simp: v1_decoder_def bind_result_def split: sum.splits if_splits)
  then show "\<exists>used. bs = used @ r \<and> (d_referenced (v1_decoder u) c \<longrightarrow> d_referenced (v1_decoder u) c')
      \<and> (used = [] \<longrightarrow> \<not> fin \<and> d_referenced (v1_decoder u) c' = d_referenced (v1_decoder u) c)"
    using v1_execute_used [of u c bs ret c' r] by (force simp: v1_decoder_def)
qed (simp_all add: v1_decoder_def v1_context_init_def)

subsection \<open>Version 2\<close>

text \<open>The visitor of \<open>v2/create_object_visitor.hpp\<close> with the flag that \<open>Unpack\<close> leaves out: whether a run refers to its bytes
  while it builds the object.\<close>

definition header_refers :: "(raw_type \<Rightarrow> nat \<Rightarrow> bool) \<Rightarrow> byte \<Rightarrow> bool" where
  "header_refers f b \<longleftrightarrow> uint b = 0xa0 \<and> f RAW_STR 0"

definition trail_refers :: "(raw_type \<Rightarrow> nat \<Rightarrow> bool) \<Rightarrow> nat \<Rightarrow> byte list \<Rightarrow> bool" where
  "trail_refers f cs n \<longleftrightarrow>
    (if 0x14 \<le> cs \<and> cs \<le> 0x18 \<or> cs = ACS_EXT_VALUE then f RAW_EXT (length n mod 2 ^ 32)
     else if cs = ACS_STR_VALUE then f RAW_STR (length n)
     else if cs = ACS_BIN_VALUE then f RAW_BIN (length n)
     else if 0x19 \<le> cs \<and> cs \<le> 0x1b then load_be n = 0 \<and> f RAW_STR 0
     else if 0x04 \<le> cs \<and> cs \<le> 0x06 then load_be n = 0 \<and> f RAW_BIN 0
     else False)"

function execute_refers :: "(raw_type \<Rightarrow> nat \<Rightarrow> bool) \<Rightarrow> unpack_limit \<Rightarrow> parse_context \<Rightarrow> byte list \<Rightarrow> bool" where
  "execute_refers f lm c bs =
    (if m_cs c = CS_HEADER then
       (case bs of [] \<Rightarrow> False
        | b # bs \<Rightarrow> header_refers f b \<or> (case header_step lm c b of Inr (False, c) \<Rightarrow> execute_refers f lm c bs | _ \<Rightarrow> False))
     else if length bs < m_trail c \<or> m_trail c = 0 then False
     else trail_refers f (m_cs c) (take (m_trail c) bs)
       \<or> (case trail_step lm c (take (m_trail c) bs) of Inr (False, c') \<Rightarrow> execute_refers f lm c' (drop (m_trail c) bs) | _ \<Rightarrow> False))"
  by pat_completeness auto

termination
  by (relation "measure (\<lambda>(_, _, _, bs). length bs)") auto

declare execute_refers.simps [simp del]

record v2_context =
  v2_parser :: parse_context
  v2_referenced :: bool

definition v2_decoder :: "(raw_type \<Rightarrow> nat \<Rightarrow> bool) \<Rightarrow> unpack_limit \<Rightarrow> v2_context decoder" where
  "v2_decoder f lm = \<lparr>d_run = (\<lambda>c bs. bind_result (execute lm (v2_parser c) bs) (\<lambda>(ret, c', r).
       Inr (ret = PARSE_SUCCESS, \<lparr>v2_parser = c', v2_referenced = v2_referenced c \<or> execute_refers f lm (v2_parser c) bs\<rparr>, r))),
     d_fresh = \<lparr>v2_parser = context_init, v2_referenced = False\<rparr>, d_init = (\<lambda>c. c\<lparr>v2_parser := context_init\<rparr>),
     d_data = (\<lambda>c. cur (vis (v2_parser c))), d_referenced = v2_referenced, d_set_referenced = (\<lambda>x c. c\<lparr>v2_referenced := x\<rparr>)\<rparr>"

lemma execute_refers_used:
  assumes "execute lm c bs = Inr (ret, c', bs)"
  shows "ret \<noteq> PARSE_SUCCESS \<and> \<not> execute_refers f lm c bs"
proof -
  have shorter: False if "execute lm d xs = Inr (ret, c', bs)" "length xs < length bs" for d xs
    using execute_suffix [OF that(1)] that(2) by auto
  have "ret \<noteq> PARSE_SUCCESS" using execute_suffix [OF assms] by auto
  moreover have "\<not> execute_refers f lm c bs"
  proof (cases "m_cs c = CS_HEADER")
    case header: True
    show ?thesis
    proof (cases bs)
      case Nil
      then show ?thesis using header by (subst execute_refers.simps) simp
    next
      case (Cons b r)
      obtain fin d where "header_step lm c b = Inr (fin, d)"
        using assms Cons by (cases "header_step lm c b") (auto simp: execute_header [OF header])
      then have False using assms Cons shorter [of d r] by (cases fin) (auto simp: execute_header [OF header])
      then show ?thesis ..
    qed
  next
    case tail: False
    show ?thesis
    proof (cases "length bs < m_trail c \<or> m_trail c = 0")
      case True
      then show ?thesis using tail by (subst execute_refers.simps) simp
    next
      case False
      define n r' where "n = take (m_trail c) bs" and "r' = drop (m_trail c) bs"
      have bs: "bs = n @ r'" "length n = m_trail c" "n \<noteq> []" using False by (auto simp: n_def r'_def)
      note e = execute_trail [OF tail bs(2,3), of lm r', folded bs(1)]
      obtain fin d where "trail_step lm c n = Inr (fin, d)" using assms e by (cases "trail_step lm c n") auto
      moreover have "length r' < length bs" using bs(3) by (simp add: bs(1))
      ultimately have False using assms e shorter [of d r'] by (cases fin) auto
      then show ?thesis ..
    qed
  qed
  ultimately show ?thesis by blast
qed

interpretation v2: referencing_decoder "v2_decoder f lm" for f lm
proof
  fix c bs fin c' r
  assume "d_run (v2_decoder f lm) c bs = Inr (fin, c', r)"
  then obtain ret d where e: "execute lm (v2_parser c) bs = Inr (ret, d, r)" "fin = (ret = PARSE_SUCCESS)"
      "c' = \<lparr>v2_parser = d, v2_referenced = v2_referenced c \<or> execute_refers f lm (v2_parser c) bs\<rparr>"
    by (auto simp: v2_decoder_def bind_result_def split: sum.splits)
  obtain used where "bs = used @ r" using execute_suffix [OF e(1)] by blast
  then show "\<exists>used. bs = used @ r \<and> (d_referenced (v2_decoder f lm) c \<longrightarrow> d_referenced (v2_decoder f lm) c')
      \<and> (used = [] \<longrightarrow> \<not> fin \<and> d_referenced (v2_decoder f lm) c' = d_referenced (v2_decoder f lm) c)"
    using e execute_refers_used [of lm "v2_parser c" bs ret d f] by (auto simp: v2_decoder_def)
qed (simp_all add: v2_decoder_def)

end
