(* ===== verification/SharedOwners.thy ===== *)
theory SharedOwners
  imports SharedBuffer
begin

text \<open>
  The owners of the buffers in every run, exceptions included. An operation of the unpacker that throws leaves
  the object at the place of the throw, and the program may go on with it: so a run goes on
  after an exception too. What counts then is only who owns which buffer; a decoder that was left in the middle
  of an object may hold anything.
\<close>

subsection \<open>What an exception leaves\<close>

text \<open>
  \<open>reserve_buffer\<close> throws when the memory or the finalizer is refused: nothing is changed yet, unless
  \<open>expand_buffer\<close> has rewound a buffer that nobody else owns. \<open>next\<close> throws in the decoder, which has then read some of the
  bytes and set the offset or not, and after it in \<open>release_zone\<close>, when the new zone is refused: the
  finalizer is pushed already, and the handle still has its old zone. The other operations throw nothing.
\<close>

inductive thrown :: "'c decoder \<Rightarrow> shared_op \<Rightarrow> 'c shared_world \<Rightarrow> 'c shared_world \<Rightarrow> bool" for D where
  refused: "thrown D (Reserve r sz) w w"
| rewound: "u_used (w_unpacker w) = u_off (w_unpacker w) \<Longrightarrow> get_count (u_buffer (w_unpacker w)) (w_buffers w) = Inr 1
    \<Longrightarrow> shared_rewind (w_unpacker w) (w_buffers w) = (p, m)
    \<Longrightarrow> thrown D (Reserve r sz) w (w\<lparr>w_unpacker := p, w_buffers := m\<rparr>)"
| decoding: "u_off (w_unpacker w) \<le> off \<Longrightarrow> off \<le> u_used (w_unpacker w)
    \<Longrightarrow> thrown D (Next r i) w (w\<lparr>w_unpacker := (w_unpacker w)\<lparr>u_ctx := c, u_off := off\<rparr>\<rparr>)"
| releasing: "shared_execute_imp D (w_unpacker w) (w_buffers w) = Inr (True, q) \<Longrightarrow> flush_zone D r q (w_buffers w) = Inr (ok, p, m)
    \<Longrightarrow> thrown D (Next r i) w (w\<lparr>w_unpacker := p, w_buffers := m\<rparr>)"

text \<open>What is asked of the user: as before, but a finalizer may be refused and the zone emptied at any time.\<close>

fun shared_allowed :: "shared_op \<Rightarrow> 'c shared_world \<Rightarrow> bool" where
  "shared_allowed (Reserve r sz) w \<longleftrightarrow> (\<forall>n b. r_malloc r n = Some b \<longrightarrow> w_buffers w b = None)
     \<and> (\<forall>n b. r_realloc r n = Some b \<longrightarrow> w_buffers w b = None \<or> b = u_buffer (w_unpacker w))"
| "shared_allowed (Consumed bs) w \<longleftrightarrow> length bs \<le> u_free (w_unpacker w)"
| "shared_allowed (Next r i) w \<longleftrightarrow> i < length (w_handles w)"
| "shared_allowed (Destroy_handle i) w \<longleftrightarrow> i < length (w_handles w)"
| "shared_allowed (Skip_nonparsed n) w \<longleftrightarrow> n \<le> shared_nonparsed_size (w_unpacker w)"
| "shared_allowed _ w \<longleftrightarrow> True"

inductive shared_runs :: "'c decoder \<Rightarrow> nat \<Rightarrow> 'c shared_world \<Rightarrow> bool" for D where
  made: "shared_new D r sz Map.empty = Inr (p, m) \<Longrightarrow> shared_runs D 0 \<lparr>w_unpacker = p, w_buffers = m, w_handles = []\<rparr>"
| acts: "shared_runs D n w \<Longrightarrow> shared_allowed op w \<Longrightarrow> shared_act D op w = Inr w' \<Longrightarrow> shared_runs D (Suc n) w'"
| throws: "shared_runs D n w \<Longrightarrow> shared_allowed op w \<Longrightarrow> shared_act D op w = Inl (Thrown e) \<Longrightarrow> thrown D op w w'
    \<Longrightarrow> shared_runs D (Suc n) w'"

lemma valid_allowed: "shared_valid op w \<Longrightarrow> shared_allowed op w"
  by (cases op) auto

lemma steps_are_runs: "shared_steps D n w \<Longrightarrow> shared_runs D n w"
  by (induction rule: shared_steps.induct) (blast intro: shared_runs.intros valid_allowed)+

subsection \<open>The owners\<close>

text \<open>Every buffer counts its owners, the unpacker's is as long as its members say, and one of which nothing is
  parsed has no other owner.\<close>

definition own_inv :: "nat \<Rightarrow> 'c shared_unpacker \<Rightarrow> buffers \<Rightarrow> object_handle list \<Rightarrow> bool" where
  "own_inv n p m hs \<longleftrightarrow> owned m (owners p hs) \<and> length (finalizers p hs) \<le> n
     \<and> COUNTER_SIZE \<le> u_off p \<and> u_off p \<le> u_used p
     \<and> map_option length (contents m (u_buffer p)) = Some (u_used p - COUNTER_SIZE)
     \<and> (u_off p = COUNTER_SIZE \<longrightarrow> u_buffer p \<notin> set (finalizers p hs))"

lemma own_inv_buffer:
  assumes "own_inv n p m hs"
  obtains bs where "m (u_buffer p) = Some (of_nat (count (owners p hs) (u_buffer p)), bs)"
    "length bs = u_used p - COUNTER_SIZE"
proof -
  have "owned m (owners p hs)" using assms by (simp add: own_inv_def)
  from owned_alive [OF this, of "u_buffer p"] show thesis
    using that assms by (auto simp: own_inv_def contents_def)
qed

lemma own_inv_mono: "own_inv n p m hs \<Longrightarrow> n \<le> k \<Longrightarrow> own_inv k p m hs"
  by (auto simp: own_inv_def)

lemma own_inv_sole:
  assumes "own_inv n p m hs" "u_buffer p \<notin> set (finalizers p hs)"
  obtains bs where "m (u_buffer p) = Some (1, bs)" "length bs = u_used p - COUNTER_SIZE"
proof -
  have "count (mset (finalizers p hs)) (u_buffer p) = 0"
    using assms(2) by (simp only: count_eq_zero_iff set_mset_mset simp_thms)
  then have "count (owners p hs) (u_buffer p) = 1" unfolding count_add_mset by (simp only: refl if_True One_nat_def)
  then show thesis using own_inv_buffer [OF assms(1)] that by (metis of_nat_1)
qed

lemma own_sole_count:
  assumes "own_inv n p m hs" "Suc n < 2 ^ 32" "get_count (u_buffer p) m = Inr 1"
  shows "u_buffer p \<notin> set (finalizers p hs)"
proof -
  define c where "c = count (owners p hs) (u_buffer p)"
  have "size (owners p hs) \<le> Suc n" using assms(1) by (simp add: own_inv_def)
  then have "c \<le> Suc n" unfolding c_def by (rule order_trans [OF count_le_size])
  moreover obtain bs where "m (u_buffer p) = Some (of_nat c, bs)"
    using own_inv_buffer [OF assms(1)] unfolding c_def .
  then have "of_nat c = (1 :: 32 word)" using assms(3) by (simp add: get_count_def)
  ultimately have "c = 1" using of_nat_one assms(2) by (meson le_less_trans)
  then have "count (mset (finalizers p hs)) (u_buffer p) = 0" unfolding c_def count_add_mset by (simp only: refl if_True One_nat_def nat.inject)
  then show ?thesis by (simp only: count_eq_zero_iff set_mset_mset simp_thms)
qed

text \<open>Another length or offset of the same buffer.\<close>

lemma own_inv_bytes:
  assumes "own_inv n p m hs" "m (u_buffer p) = Some (c, bs)"
    and "u_zone q = u_zone p" "u_buffer q = u_buffer p" "COUNTER_SIZE \<le> u_off q" "u_off q \<le> u_used q"
      "length bs' = u_used q - COUNTER_SIZE" "u_off q = COUNTER_SIZE \<Longrightarrow> u_buffer p \<notin> set (finalizers p hs)"
  shows "own_inv n q (m(u_buffer p \<mapsto> (c, bs'))) hs"
proof -
  have "owned m (owners q hs)" using assms(1) by (simp add: own_inv_def assms(3,4))
  then have "owned (m(u_buffer p \<mapsto> (c, bs'))) (owners q hs)" using v2.owned_bytes assms(2) by blast
  moreover have "length (finalizers q hs) \<le> n" using assms(1) by (simp add: own_inv_def assms(3))
  moreover have "u_off q = COUNTER_SIZE \<longrightarrow> u_buffer q \<notin> set (finalizers q hs)" using assms(8) by (simp add: assms(3,4))
  ultimately show ?thesis using assms(5-7) unfolding own_inv_def by (simp add: contents_def assms(4))
qed

lemma own_inv_members:
  assumes "own_inv n p m hs" "u_zone q = u_zone p" "u_buffer q = u_buffer p" "u_used q = u_used p"
    and "u_off p \<le> u_off q" "u_off q \<le> u_used q"
  shows "own_inv n q m hs"
  using assms by (auto simp: own_inv_def)

text \<open>Memory is given back.\<close>

lemma own_inv_free:
  assumes "owned m (mset zs + owners p hs)" "size (owners p hs) + length zs < 2 ^ 32" "length (finalizers p hs) \<le> n"
    and "COUNTER_SIZE \<le> u_off p" "u_off p \<le> u_used p"
      "map_option length (contents m (u_buffer p)) = Some (u_used p - COUNTER_SIZE)"
      "u_off p = COUNTER_SIZE \<Longrightarrow> u_buffer p \<notin> set (finalizers p hs)"
  shows "\<exists>m'. call_finalizers zs m = Inr m' \<and> own_inv n p m' hs"
proof -
  obtain m' where m': "call_finalizers zs m = Inr m'" "owned m' (owners p hs)" "keeps m m'"
    using finalizers_owned [OF assms(1,2)] by blast
  obtain bs where "contents m' (u_buffer p) = Some bs" using owned_alive [OF m'(2), of "u_buffer p"] by (auto simp: contents_def)
  then have "contents m' (u_buffer p) = contents m (u_buffer p)" using m'(3) by (simp add: keeps_def)
  then show ?thesis using m' assms by (auto simp: own_inv_def simp del: set_append set_concat)
qed

text \<open>A handle lets go of its zone.\<close>

lemma own_handle_replaced:
  assumes inv: "own_inv n p m hs" and i: "i < length hs" and n: "n + 2 < 2 ^ 32"
    and q: "u_buffer q = u_buffer p" "u_used q = u_used p" "u_off q = u_off p"
    and zones: "mset (u_zone q) + mset (zone_finalizers h) = mset (u_zone p) + E" "size E \<le> 1"
    and c: "u_off q = COUNTER_SIZE \<Longrightarrow> E = {#}"
    and m1: "owned m1 (E + owners p hs)" "contents m1 (u_buffer p) = contents m (u_buffer p)"
  shows "\<exists>m'. call_finalizers (zone_finalizers (hs ! i)) m1 = Inr m' \<and> own_inv (Suc n) q m' (hs[i := h])"
proof -
  let ?zs = "zone_finalizers (hs ! i)"
  have z: "mset ?zs + owners q (hs[i := h]) = E + owners p hs"
    using v2.zones_update [OF i, of h] zones(1) by (simp add: q) (metis add.assoc add.commute)
  from arg_cong [OF z, of size] zones(2) have sz: "length (finalizers q (hs[i := h])) + length ?zs \<le> Suc (length (finalizers p hs))"
    by simp
  have l: "length (finalizers p hs) \<le> n" using inv by (simp add: own_inv_def)
  show ?thesis
  proof (rule own_inv_free)
    show "owned m1 (mset ?zs + owners q (hs[i := h]))" using m1(1) z by simp
    show "length (finalizers q (hs[i := h])) \<le> Suc n" using sz l by linarith
    show "size (owners q (hs[i := h])) + length ?zs < 2 ^ 32" using sz l n by simp
    show "u_buffer q \<notin> set (finalizers q (hs[i := h]))" if "u_off q = COUNTER_SIZE"
    proof -
      have "mset (finalizers q (hs[i := h])) \<subseteq># mset (finalizers p hs)"
        using z c [OF that] by (simp add: q) (metis mset_subset_eq_add_right add.commute)
      then have "set (finalizers q (hs[i := h])) \<subseteq> set (finalizers p hs)" by (metis set_mset_mono set_mset_mset)
      then show ?thesis using inv that by (auto simp: own_inv_def q)
    qed
  qed (use inv in \<open>simp_all add: own_inv_def q m1(2)\<close>)
qed

subsection \<open>Every operation, and every exception, keeps the owners\<close>

context referencing_decoder
begin

lemma enlarge_owns:
  assumes inv: "own_inv n p m hs" and n: "Suc n < 2 ^ 32 - 1"
    and malloc: "\<And>k b. r_malloc r k = Some b \<Longrightarrow> m b = None"
    and realloc: "\<And>k b. r_realloc r k = Some b \<Longrightarrow> m b = None \<or> b = u_buffer p"
  shows "case shared_enlarge D r sz p m of Inl e \<Rightarrow> e \<noteq> Use_after_free | Inr (q, m') \<Rightarrow> own_inv (Suc n) q m' hs"
proof -
  have o: "owned m (owners p hs)" and l: "length (finalizers p hs) \<le> n"
    and off: "COUNTER_SIZE \<le> u_off p" "u_off p \<le> u_used p" using inv by (simp_all add: own_inv_def)
  show ?thesis
  proof (cases "u_off p = COUNTER_SIZE")
    case True
    then have sole: "u_buffer p \<notin> set (finalizers p hs)" using inv by (simp add: own_inv_def)
    obtain bs where b: "m (u_buffer p) = Some (1, bs)" "length bs = u_used p - COUNTER_SIZE"
      using own_inv_sole [OF inv sole] .
    define next_size where "next_size = grow (wrap ((u_used p + u_free p) * 2)) (wrap (sz + u_used p))"
    have e: "shared_enlarge D r sz p m = (case r_realloc r next_size of None \<Rightarrow> Inl (Thrown Bad_alloc)
        | Some tmp \<Rightarrow> Inr (p\<lparr>u_buffer := tmp, u_free := next_size - u_used p\<rparr>, (m(u_buffer p := None))(tmp \<mapsto> (1, bs))))"
      by (simp add: shared_enlarge_def b True next_size_def Let_def split: option.split)
    show ?thesis
    proof (cases "r_realloc r next_size")
      case (Some tmp)
      have fresh: "tmp \<notin> set (finalizers p hs)" using realloc [OF Some] sole owned_fresh [OF o, of tmp] by auto
      then have "owned ((m(u_buffer p := None))(tmp \<mapsto> (1, bs))) (add_mset tmp (mset (finalizers p hs)))"
        using owned_replace [OF o] sole by simp
      then have "own_inv (Suc n) (p\<lparr>u_buffer := tmp, u_free := next_size - u_used p\<rparr>) ((m(u_buffer p := None))(tmp \<mapsto> (1, bs))) hs"
        using fresh l off b(2) by (simp add: own_inv_def contents_def)
      then show ?thesis by (simp add: e Some)
    qed (simp add: e)
  next
    case False
    obtain c bs where b: "m (u_buffer p) = Some (c, bs)" "length bs = u_used p - COUNTER_SIZE"
      using own_inv_buffer [OF inv] by metis
    define not_parsed where "not_parsed = u_used p - u_off p"
    define next_size where "next_size = grow (u_initial p) (wrap (sz + not_parsed + COUNTER_SIZE))"
    define new where "new = drop (u_off p - COUNTER_SIZE) bs"
    have len: "length new = not_parsed" using off b(2) by (simp add: new_def not_parsed_def)
    define p' where "p' = (if d_referenced D (u_ctx p) then set_referenced D False (p\<lparr>u_zone := u_buffer p # u_zone p\<rparr>) else p)"
    define q where "q = (\<lambda>tmp. p'\<lparr>u_buffer := tmp, u_used := not_parsed + COUNTER_SIZE,
        u_free := next_size - (not_parsed + COUNTER_SIZE), u_off := COUNTER_SIZE\<rparr>)"
    have e: "shared_enlarge D r sz p m = (case r_malloc r next_size of None \<Rightarrow> Inl (Thrown Bad_alloc)
        | Some tmp \<Rightarrow> if d_referenced D (u_ctx p) then if r_push r then Inr (q tmp, m(tmp \<mapsto> (1, new))) else Inl (Thrown Bad_alloc)
          else bind_result (decr_buffer (u_buffer p) (m(tmp \<mapsto> (1, new)))) (\<lambda>m. Inr (q tmp, m)))"
      by (auto simp: shared_enlarge_def b False next_size_def not_parsed_def new_def q_def p'_def init_count_def Let_def bind_result_def
          split: option.split sum.split)
    have qs: "u_zone (q t) = (if d_referenced D (u_ctx p) then [u_buffer p] else []) @ u_zone p"
      "u_buffer (q t) = t" "u_off (q t) = COUNTER_SIZE" "u_used (q t) = COUNTER_SIZE + length new" for t
      by (simp_all add: q_def p'_def set_referenced_def len)
    show ?thesis
    proof (cases "r_malloc r next_size")
      case (Some tmp)
      have fresh: "tmp \<notin># owners p hs" using malloc [OF Some] owned_fresh [OF o, of tmp] by blast
      let ?m = "m(tmp \<mapsto> (1, new))"
      have o1: "owned ?m (add_mset tmp (owners p hs))" using owned_new [OF o malloc [OF Some]] .
      have fin: "own_inv (Suc n) (q tmp) m' hs" if "owned m' (owners (q tmp) hs)" "keeps ?m m'" for m'
      proof -
        have "contents m' tmp = Some new"
          using that owned_alive [OF that(1), of tmp] by (fastforce simp: keeps_def contents_def qs)
        then show ?thesis using that(1) fresh l by (auto simp: own_inv_def qs)
      qed
      show ?thesis
      proof (cases "d_referenced D (u_ctx p)")
        case True
        then have "owned ?m (owners (q tmp) hs)" using o1 by (simp add: qs add_mset_commute)
        then show ?thesis using fin True by (simp add: e Some)
      next
        case nf: False
        then have "owned ?m (add_mset (u_buffer p) (owners (q tmp) hs))" using o1 by (simp add: qs add_mset_commute)
        moreover have "size (owners (q tmp) hs) < 2 ^ 32 - 1" using l n nf by (simp add: qs)
        ultimately obtain m' where "decr_buffer (u_buffer p) ?m = Inr m'" "owned m' (owners (q tmp) hs)" "keeps ?m m'"
          using decr_owned by blast
        then show ?thesis using fin nf by (simp add: e Some)
      qed
    qed (simp add: e)
  qed
qed

lemma rewind_owns:
  assumes inv: "own_inv n p m hs" and n: "Suc n < 2 ^ 32" and c: "get_count (u_buffer p) m = Inr 1"
    and rw: "shared_rewind p m = (q, m')"
  shows "own_inv n q m' hs \<and> u_buffer q = u_buffer p \<and> (\<forall>b. m' b = None \<longleftrightarrow> m b = None)"
proof -
  have sole: "u_buffer p \<notin> set (finalizers p hs)" using own_sole_count [OF inv n c] .
  obtain bs where b: "m (u_buffer p) = Some (1, bs)" using own_inv_sole [OF inv sole] by metis
  then have m': "m' = m(u_buffer p \<mapsto> (1, []))" and q: "u_zone q = u_zone p" "u_buffer q = u_buffer p"
      "u_off q = COUNTER_SIZE" "u_used q = COUNTER_SIZE"
    using rw by (auto simp: shared_rewind_def)
  have "own_inv n q m' hs" unfolding m' using sole by (intro own_inv_bytes [OF inv b]) (simp_all add: q)
  then show ?thesis using b by (simp add: q m')
qed

lemma reserve_owns:
  assumes inv: "own_inv n p m hs" and n: "Suc n < 2 ^ 32 - 1"
    and malloc: "\<And>k b. r_malloc r k = Some b \<Longrightarrow> m b = None"
    and realloc: "\<And>k b. r_realloc r k = Some b \<Longrightarrow> m b = None \<or> b = u_buffer p"
  shows "case shared_reserve_buffer D r sz p m of Inl e \<Rightarrow> e \<noteq> Use_after_free | Inr (q, m') \<Rightarrow> own_inv (Suc n) q m' hs"
proof (cases "sz \<le> u_free p \<or> u_used p \<noteq> u_off p \<or> get_count (u_buffer p) m \<noteq> Inr 1 \<or> d_referenced D (u_ctx p)")
  case True
  obtain c bs where "m (u_buffer p) = Some (c, bs)" using own_inv_buffer [OF inv] by metis
  then have "shared_reserve_buffer D r sz p m = Inr (p, m) \<or> shared_reserve_buffer D r sz p m = shared_enlarge D r sz p m"
    using True by (auto simp: shared_reserve_buffer_def shared_expand_buffer_def get_count_def)
  then show ?thesis using enlarge_owns [OF inv n malloc realloc, where sz = sz] own_inv_mono [OF inv, of "Suc n"] by force
next
  case False
  obtain q m1 where q: "shared_rewind p m = (q, m1)" by fastforce
  have "Suc n < 2 ^ 32" using n by simp
  then have w: "own_inv n q m1 hs" "u_buffer q = u_buffer p" "m1 b = None \<longleftrightarrow> m b = None" for b
    using rewind_owns [OF inv _ _ q] False by blast+
  have "shared_reserve_buffer D r sz p m = (if sz \<le> u_free q then Inr (q, m1) else shared_enlarge D r sz q m1)"
    using False by (simp add: shared_reserve_buffer_def shared_expand_buffer_def q)
  moreover have "case shared_enlarge D r sz q m1 of Inl e \<Rightarrow> e \<noteq> Use_after_free | Inr (q, m') \<Rightarrow> own_inv (Suc n) q m' hs"
    by (rule enlarge_owns [OF w(1) n]) (use malloc realloc in \<open>auto simp: w(2,3)\<close>)
  ultimately show ?thesis using own_inv_mono [OF w(1), of "Suc n"] by simp
qed

lemma execute_owns:
  assumes inv: "own_inv n p m hs" and e: "shared_execute_imp D p m = res"
  shows "case res of Inl e \<Rightarrow> e \<noteq> Use_after_free
    | Inr (fin, q) \<Rightarrow> own_inv n q m hs \<and> (fin \<longrightarrow> u_off q \<noteq> COUNTER_SIZE)"
proof -
  obtain c bs where b: "m (u_buffer p) = Some (c, bs)" "length bs = u_used p - COUNTER_SIZE"
    using own_inv_buffer [OF inv] by metis
  have off: "COUNTER_SIZE \<le> u_off p" "u_off p \<le> u_used p" using inv by (simp_all add: own_inv_def)
  show ?thesis
  proof (cases "d_run D (u_ctx p) (drop (u_off p - COUNTER_SIZE) bs)")
    case (Inl x)
    then show ?thesis using e by (auto simp: shared_execute_imp_def b)
  next
    case (Inr y)
    obtain fin d rest where y: "y = (fin, d, rest)" by (cases y)
    obtain used where used: "drop (u_off p - COUNTER_SIZE) bs = used @ rest" "used = [] \<longrightarrow> \<not> fin"
      using run_used Inr y by blast
    have o': "u_used p - length rest = u_off p + length used" "u_used p - length rest \<le> u_used p"
      using arg_cong [OF used(1), of length] b(2) off by auto
    obtain q where q: "res = Inr (fin, q)" "u_off q = u_used p - length rest" "u_zone q = u_zone p" "u_buffer q = u_buffer p"
        "u_used q = u_used p"
      using e Inr y by (auto simp: shared_execute_imp_def b Let_def)
    have "own_inv n q m hs" using o' by (intro own_inv_members [OF inv]) (simp_all add: q)
    moreover have "u_off q \<noteq> COUNTER_SIZE" if fin using used(2) that off o' by (cases used) (auto simp: q)
    ultimately show ?thesis by (simp add: q(1))
  qed
qed

text \<open>The finalizer of a finished object: the owners with the one that is pushed.\<close>

lemma flush_owns:
  assumes inv: "own_inv n p m hs" and off: "u_off p \<noteq> COUNTER_SIZE" and f: "flush_zone D r p m = res"
  shows "\<exists>ok q m1 E. res = Inr (ok, q, m1) \<and> mset (u_zone q) = mset (u_zone p) + E \<and> size E \<le> 1
    \<and> owned m1 (E + owners p hs) \<and> contents m1 = contents m
    \<and> u_buffer q = u_buffer p \<and> u_used q = u_used p \<and> u_off q = u_off p"
proof -
  obtain bs where b: "m (u_buffer p) = Some (of_nat (count (owners p hs) (u_buffer p)), bs)"
    using own_inv_buffer [OF inv] by metis
  have o: "owned m (owners p hs)" using inv by (simp add: own_inv_def)
  show ?thesis
  proof (cases "d_referenced D (u_ctx p) \<and> r_push r")
    case True
    let ?m = "m(u_buffer p \<mapsto> (of_nat (count (owners p hs) (u_buffer p)) + 1, bs))"
    let ?q = "set_referenced D False (p\<lparr>u_zone := u_buffer p # u_zone p\<rparr>)"
    have r: "res = Inr (True, ?q, ?m)" using f True by (simp add: flush_zone_def incr_count_def b)
    have "contents ?m = contents m" using b by (auto simp: contents_def fun_eq_iff)
    then show ?thesis using owned_incr [OF o b] r
      by (intro exI [of _ True] exI [of _ ?q] exI [of _ ?m] exI [of _ "{#u_buffer p#}"]) (simp add: set_referenced_def)
  next
    case False
    then have "\<exists>ok. res = Inr (ok, p, m)" using f by (auto simp: flush_zone_def)
    then show ?thesis using o by (auto intro!: exI [of _ "{#}"])
  qed
qed

lemma next_owns:
  assumes inv: "own_inv n p m hs" and i: "i < length hs" and n: "n + 2 < 2 ^ 32"
  shows "case shared_next D r (hs ! i) p m of Inl e \<Rightarrow> e \<noteq> Use_after_free
    | Inr (_, _, h, q, m') \<Rightarrow> own_inv (Suc n) q m' (hs[i := h])"
proof (cases "shared_execute_imp D p m")
  case (Inl e)
  then show ?thesis using execute_owns [OF inv Inl] by (simp add: shared_next_def)
next
  case (Inr y)
  obtain fin p1 where y: "y = (fin, p1)" by (cases y)
  have e: "shared_execute_imp D p m = Inr (fin, p1)" using Inr y by simp
  have inv1: "own_inv n p1 m hs" and fin: "fin \<Longrightarrow> u_off p1 \<noteq> COUNTER_SIZE"
    using execute_owns [OF inv e] by simp_all
  have o1: "owned m (owners p1 hs)" using inv1 by (simp add: own_inv_def)
  show ?thesis
  proof (cases fin)
    case False
    have "\<exists>m'. call_finalizers (zone_finalizers (hs ! i)) m = Inr m' \<and> own_inv (Suc n) p1 m' (hs[i := object_handle_new])"
      by (rule own_handle_replaced [OF inv1 i n, of _ _ "{#}"]) (use o1 in \<open>simp_all add: object_handle_new_def zone_finalizers_def\<close>)
    then show ?thesis using False by (auto simp: shared_next_def e)
  next
    case True
    obtain ok q m1 E where fl: "flush_zone D r p1 m = Inr (ok, q, m1)"
      and q: "mset (u_zone q) = mset (u_zone p1) + E" "size E \<le> 1" "owned m1 (E + owners p1 hs)" "contents m1 = contents m"
        "u_buffer q = u_buffer p1" "u_used q = u_used p1" "u_off q = u_off p1"
      using flush_owns [OF inv1 fin [OF True] refl] by blast
    define q' where "q' = (if ok then q\<lparr>u_zone := []\<rparr> else q)"
    define h where "h = \<lparr>h_obj = d_data D (u_ctx q'), h_zone = (if ok then Some (u_zone q) else None), h_refs = u_refs q'\<rparr>"
    have "\<exists>m'. call_finalizers (zone_finalizers (hs ! i)) m1 = Inr m' \<and> own_inv (Suc n) (shared_reset D q') m' (hs[i := h])"
    proof (rule own_handle_replaced [OF inv1 i n, of _ _ E])
      show "mset (u_zone (shared_reset D q')) + mset (zone_finalizers h) = mset (u_zone p1) + E"
        using q(1) by (simp add: shared_reset_def q'_def h_def zone_finalizers_def)
      show "u_off (shared_reset D q') = COUNTER_SIZE \<Longrightarrow> E = {#}"
        using fin [OF True] q(7) by (simp add: shared_reset_def q'_def split: if_splits)
    qed (use q in \<open>simp_all add: shared_reset_def q'_def\<close>)
    then obtain m' where m': "call_finalizers (zone_finalizers (hs ! i)) m1 = Inr m'"
      "own_inv (Suc n) (shared_reset D q') m' (hs[i := h])" by blast
    show ?thesis
    proof (cases "ok \<and> \<not> r_zone r")
      case True
      then show ?thesis using \<open>fin\<close> by (simp add: shared_next_def e release_zone_def fl)
    next
      case False
      then have "release_zone D r p1 m = Inr (h_zone h, q', m1)" by (simp add: release_zone_def fl h_def q'_def)
      then show ?thesis using \<open>fin\<close> m' by (simp add: shared_next_def e h_def)
    qed
  qed
qed

lemma act_owns:
  assumes inv: "own_inv n (w_unpacker w) (w_buffers w) (w_handles w)" and n: "n + 2 < 2 ^ 32 - 1" and op: "shared_allowed op w"
  shows "case shared_act D op w of Inl e \<Rightarrow> e \<noteq> Use_after_free
    | Inr w' \<Rightarrow> own_inv (Suc n) (w_unpacker w') (w_buffers w') (w_handles w')"
proof -
  obtain c bs where b: "w_buffers w (u_buffer (w_unpacker w)) = Some (c, bs)" "length bs = u_used (w_unpacker w) - COUNTER_SIZE"
    using own_inv_buffer [OF inv] by metis
  have off: "COUNTER_SIZE \<le> u_off (w_unpacker w)" "u_off (w_unpacker w) \<le> u_used (w_unpacker w)"
    and sole: "u_off (w_unpacker w) = COUNTER_SIZE \<Longrightarrow> u_buffer (w_unpacker w) \<notin> set (finalizers (w_unpacker w) (w_handles w))"
    and o: "owned (w_buffers w) (owners (w_unpacker w) (w_handles w))"
    and l: "length (finalizers (w_unpacker w) (w_handles w)) \<le> n"
    using inv by (simp_all add: own_inv_def)
  note grows = own_inv_mono [of n _ _ _ "Suc n"]
  have n': "n + 2 < 2 ^ 32" using n by simp
  show ?thesis
  proof (cases op)
    case (Reserve r sz)
    have "case shared_reserve_buffer D r sz (w_unpacker w) (w_buffers w) of Inl e \<Rightarrow> e \<noteq> Use_after_free
        | Inr (q, m') \<Rightarrow> own_inv (Suc n) q m' (w_handles w)"
      using op n by (intro reserve_owns [OF inv]) (auto simp: Reserve)
    then show ?thesis by (auto simp: Reserve bind_result_def split: sum.splits)
  next
    case (Consumed new)
    define q where "q = (w_unpacker w)\<lparr>u_used := u_used (w_unpacker w) + length new, u_free := u_free (w_unpacker w) - length new\<rparr>"
    have "own_inv n q ((w_buffers w)(u_buffer (w_unpacker w) \<mapsto> (c, bs @ new))) (w_handles w)"
      using off b(2) sole by (intro own_inv_bytes [OF inv b(1)]) (simp_all add: q_def)
    then show ?thesis using grows by (simp add: Consumed shared_buffer_consumed_def b(1) q_def)
  next
    case New_handle
    then show ?thesis using grows [OF inv] by (simp add: own_inv_def object_handle_new_def zone_finalizers_def)
  next
    case (Next r i)
    then show ?thesis using next_owns [OF inv _ n', of i r] op
      by (auto simp: bind_result_def split: sum.splits)
  next
    case (Destroy_handle i)
    have "\<exists>m'. call_finalizers (zone_finalizers (w_handles w ! i)) (w_buffers w) = Inr m'
        \<and> own_inv (Suc n) (w_unpacker w) m' ((w_handles w)[i := object_handle_new])"
      using op o Destroy_handle
      by (intro own_handle_replaced [OF inv _ n', of _ _ _ "{#}"]) (simp_all add: object_handle_new_def zone_finalizers_def)
    then show ?thesis by (auto simp: Destroy_handle)
  next
    case Reset
    have "own_inv n (shared_reset D (w_unpacker w)) (w_buffers w) (w_handles w)"
      using off by (intro own_inv_members [OF inv]) (simp_all add: shared_reset_def)
    then show ?thesis using grows by (simp add: Reset)
  next
    case Reset_zone
    have "\<exists>m'. call_finalizers (u_zone (w_unpacker w)) (w_buffers w) = Inr m'
        \<and> own_inv (Suc n) ((w_unpacker w)\<lparr>u_zone := []\<rparr>) m' (w_handles w)"
    proof (rule own_inv_free)
      show "owned (w_buffers w) (mset (u_zone (w_unpacker w)) + owners ((w_unpacker w)\<lparr>u_zone := []\<rparr>) (w_handles w))"
        using o by simp
    qed (use l n' off sole inv in \<open>simp_all add: own_inv_def\<close>)
    then show ?thesis by (auto simp: Reset_zone reset_zone_def)
  next
    case (Skip_nonparsed k)
    have "own_inv n (shared_skip_nonparsed_buffer k (w_unpacker w)) (w_buffers w) (w_handles w)"
      using op off Skip_nonparsed
      by (intro own_inv_members [OF inv]) (simp_all add: shared_skip_nonparsed_buffer_def shared_nonparsed_size_def)
    then show ?thesis using grows by (simp add: Skip_nonparsed)
  next
    case Remove_nonparsed
    define q where "q = (w_unpacker w)\<lparr>u_used := u_off (w_unpacker w)\<rparr>"
    define bs' where "bs' = take (u_off (w_unpacker w) - COUNTER_SIZE) bs"
    have "own_inv n q ((w_buffers w)(u_buffer (w_unpacker w) \<mapsto> (c, bs'))) (w_handles w)"
      using off b(2) sole by (intro own_inv_bytes [OF inv b(1)]) (simp_all add: q_def bs'_def)
    then show ?thesis using grows by (simp add: Remove_nonparsed shared_remove_nonparsed_buffer_def b(1) q_def bs'_def)
  qed
qed

lemma throw_owns:
  assumes "thrown D op w w'" "own_inv n (w_unpacker w) (w_buffers w) (w_handles w)" "n + 2 < 2 ^ 32"
  shows "own_inv (Suc n) (w_unpacker w') (w_buffers w') (w_handles w')"
  using assms(1)
proof cases
  case (refused r sz)
  then show ?thesis using own_inv_mono [OF assms(2), of "Suc n"] by simp
next
  case (rewound p m r sz)
  then show ?thesis using rewind_owns [OF assms(2) _ rewound(4,5)] assms(3) own_inv_mono [of n p m _ "Suc n"] by simp
next
  case (decoding off r i c)
  have "own_inv n ((w_unpacker w)\<lparr>u_ctx := c, u_off := off\<rparr>) (w_buffers w) (w_handles w)"
    using decoding(3,4) by (intro own_inv_members [OF assms(2)]) simp_all
  then show ?thesis using decoding(2) own_inv_mono by fastforce
next
  case (releasing q r ok p m i)
  have q: "own_inv n q (w_buffers w) (w_handles w)" "u_off q \<noteq> COUNTER_SIZE"
    using execute_owns [OF assms(2) releasing(3)] by simp_all
  obtain E where E: "mset (u_zone p) = mset (u_zone q) + E" "size E \<le> 1" "owned m (E + owners q (w_handles w))"
      "contents m = contents (w_buffers w)" "u_buffer p = u_buffer q" "u_used p = u_used q" "u_off p = u_off q"
    using flush_owns [OF q releasing(4)] by blast
  have "owners p (w_handles w) = E + owners q (w_handles w)" by (simp add: E(1,5))
  then have "owned m (owners p (w_handles w))" using E(3) by metis
  moreover have "length (u_zone p) \<le> Suc (length (u_zone q))" using arg_cong [OF E(1), of size] E(2) by simp
  ultimately have "own_inv (Suc n) p m (w_handles w)"
    using q by (simp add: own_inv_def E(4-7))
  then show ?thesis using releasing(2) by simp
qed

lemma runs_own:
  assumes "shared_runs D n w" "n + 2 < 2 ^ 32"
  shows "own_inv n (w_unpacker w) (w_buffers w) (w_handles w)"
  using assms
proof (induction rule: shared_runs.induct)
  case (made r sz p m)
  then show ?case
    by (auto simp: shared_new_def init_count_def Let_def own_inv_def owned_def contents_def split: option.splits if_splits)
next
  case (acts n w op w')
  then show ?case using act_owns [of n w op] by simp
next
  case (throws n w op e w')
  then show ?case using throw_owns [of op w w' n] by simp
qed

lemma no_use_after_free:
  assumes "shared_runs D n w" "n < 2 ^ 32 - 3" "shared_allowed op w"
  shows "shared_act D op w \<noteq> Inl Use_after_free"
  using act_owns [OF runs_own [OF assms(1)] _ assms(3)] assms(2) by auto

lemma given_back:
  assumes "shared_runs D n w" "n < 2 ^ 32 - 3" "mset hs = mset (w_handles w)"
  shows "teardown (w_unpacker w) hs (w_buffers w) = Inr Map.empty"
proof -
  let ?p = "w_unpacker w" and ?m = "w_buffers w"
  have inv: "own_inv n ?p ?m (w_handles w)" using runs_own [OF assms(1)] assms(2) by simp
  let ?zs = "u_buffer ?p # u_zone ?p @ concat (map zone_finalizers hs)"
  have z: "mset (concat (map zone_finalizers hs)) = mset (concat (map zone_finalizers (w_handles w)))"
    by (simp add: mset_concat assms(3) flip: sum_mset_sum_list)
  then have "owned ?m (mset ?zs + {#})" using inv by (simp add: own_inv_def)
  moreover have "length (finalizers ?p (w_handles w)) \<le> n" using inv by (simp add: own_inv_def)
  then have "length ?zs \<le> Suc n" using arg_cong [OF z, of size] by simp
  then have "size {#} + length ?zs < 2 ^ 32" using assms(2) by simp
  ultimately obtain m' where "call_finalizers ?zs ?m = Inr m'" "owned m' {#}"
    using finalizers_owned [of ?m ?zs "{#}"] by blast
  then have "call_finalizers ?zs ?m = Inr Map.empty" using owned_none by blast
  then show ?thesis
    by (simp add: teardown_def shared_destroy_def call_finalizers_append bind_result_def split: sum.splits)
qed

end

end
