(* ===== verification/SharedProps.thy ===== *)
theory SharedProps
  imports SharedOwners
begin

text \<open>
  What \<open>SharedBuffer\<close> shows of the unpacker that runs (version 2; the lemmas on version 1 follow from the same
  interface): the pointers of delivered objects stay valid, no buffer is leaked or freed twice, and the
  bytes are those of \<open>StreamParser\<close>, whose \<open>heap\<close> says of the memory only what it answers.
\<close>

subsection \<open>A delivered object\<close>

abbreviation sample_decoder :: "v2_context decoder" where
  "sample_decoder \<equiv> v2_decoder (\<lambda>_ _. True) default_limit"

definition sample_resources :: "nat \<Rightarrow> resources" where
  "sample_resources b = \<lparr>r_malloc = (\<lambda>n. Some b), r_realloc = (\<lambda>n. Some b), r_push = True, r_zone = True\<rparr>"

text \<open>The string of the object points into the buffer 1.\<close>

definition sample_delivered :: "v2_context shared_world" where
  "sample_delivered = \<lparr>w_unpacker = \<lparr>u_ctx = \<lparr>v2_parser = context_init, v2_referenced = False\<rparr>, u_refs = [], u_zone = [],
     u_buffer = 1, u_used = 6, u_free = 58, u_off = 6, u_parsed = 0, u_initial = 64\<rparr>, w_buffers = [1 \<mapsto> (2, [0xa1, 0x68])],
     w_handles = [\<lparr>h_obj = STRING [0x68], h_zone = Some [1], h_refs = [(1, 2)]\<rparr>]\<rparr>"

definition sample_filled :: "v2_context shared_world" where
  "sample_filled = \<lparr>w_unpacker = \<lparr>u_ctx = \<lparr>v2_parser = context_init, v2_referenced = False\<rparr>, u_refs = [], u_zone = [],
     u_buffer = 1, u_used = 6, u_free = 58, u_off = 4, u_parsed = 0, u_initial = 64\<rparr>, w_buffers = [1 \<mapsto> (1, [0xa1, 0x68])],
     w_handles = [object_handle_new]\<rparr>"

lemmas sample_run = shared_next_def shared_execute_imp_def v2_decoder_def execute.simps execute_refers.simps header_step_def
  trail_step_def trail_value_def visit_str_def visited_def after_visit_proc_def context_init_def visitor_init_def put_def
  header_refers_def trail_refers_def release_zone_def flush_zone_def incr_count_def set_referenced_def shared_reset_def
  zone_finalizers_def object_handle_new_def COUNTER_SIZE_def default_limit_def Let_def

lemma sample_filled_steps: "shared_steps sample_decoder 2 sample_filled"
proof -
  define p where "p = \<lparr>u_ctx = \<lparr>v2_parser = context_init, v2_referenced = False\<rparr>, u_refs = [], u_zone = [], u_buffer = 1,
     u_used = 4, u_free = 60, u_off = 4, u_parsed = 0, u_initial = 64\<rparr>"
  have "shared_new sample_decoder (sample_resources 1) 64 Map.empty = Inr (p, [1 \<mapsto> (1, [])])"
    by (simp add: shared_new_def sample_resources_def COUNTER_SIZE_def p_def init_count_def v2_decoder_def)
  from shared_steps.made [OF this]
  have "shared_steps sample_decoder 0 \<lparr>w_unpacker = p, w_buffers = [1 \<mapsto> (1, [])], w_handles = []\<rparr>" .
  from shared_steps.acts [OF this, of New_handle]
  have "shared_steps sample_decoder 1 \<lparr>w_unpacker = p, w_buffers = [1 \<mapsto> (1, [])], w_handles = [object_handle_new]\<rparr>" by simp
  from shared_steps.acts [OF this, of "Consumed [0xa1, 0x68]" sample_filled] show ?thesis
    by (simp add: shared_buffer_consumed_def p_def sample_filled_def numeral_2_eq_2)
qed

lemma sample_next: "shared_act sample_decoder (Next (sample_resources 2) 0) sample_filled = Inr sample_delivered"
  by (simp add: sample_run sample_filled_def sample_delivered_def sample_resources_def)

lemma sample_delivered_steps: "shared_steps sample_decoder 3 sample_delivered"
  using shared_steps.acts [OF sample_filled_steps _ sample_next]
  by (simp add: sample_filled_def sample_resources_def numeral_3_eq_3 numeral_2_eq_2)

text \<open>Without room for the finalizer the object is delivered without an owner for the bytes it points to.\<close>

lemma object_without_owner:
  defines "r \<equiv> sample_resources 2\<lparr>r_push := False\<rparr>"
  shows "\<exists>w. shared_act sample_decoder (Next r 0) sample_filled = Inr w \<and> h_zone (w_handles w ! 0) = None
    \<and> h_refs (w_handles w ! 0) = [(1, 2)] \<and> shared_destroy (w_unpacker w) (w_buffers w) = Inr Map.empty"
  by (simp add: r_def sample_run sample_filled_def sample_resources_def shared_destroy_def decr_buffer_def fun_eq_iff)

subsection \<open>The bytes are those of the stream\<close>

definition stream_of :: "v2_context shared_unpacker \<Rightarrow> buffers \<Rightarrow> unpacker" where
  "stream_of p m = \<lparr>ctx = v2_parser (u_ctx p), buf = the (contents m (u_buffer p)), m_used = u_used p, m_free = u_free p,
     m_off = u_off p, m_parsed = u_parsed p, m_initial_buffer_size = u_initial p\<rparr>"

lemma stream_of_fields [simp]:
  "m_used (stream_of p m) = u_used p" "m_free (stream_of p m) = u_free p" "m_off (stream_of p m) = u_off p"
  "ctx (stream_of p m) = v2_parser (u_ctx p)"
  by (simp_all add: stream_of_def)

text \<open>What the stream sees of the memory: whether the request that comes succeeds, whether the buffer may be
  written again from its start, and whether the finalizer cannot be pushed.\<close>

definition heap_of :: "resources \<Rightarrow> v2_context shared_unpacker \<Rightarrow> buffers \<Rightarrow> heap" where
  "heap_of r p m = (let sole = get_count (u_buffer p) m = Inr 1 \<and> \<not> v2_referenced (u_ctx p) in
     \<lparr>malloc = (\<lambda>n. if u_off p = COUNTER_SIZE \<or> u_used p = u_off p \<and> sole then r_realloc r n \<noteq> None else r_malloc r n \<noteq> None),
      sole_owner = sole, hook_throws = v2_referenced (u_ctx p) \<and> \<not> r_push r\<rparr>)"

fun stream_act :: "unpack_limit \<Rightarrow> shared_op \<Rightarrow> v2_context shared_world \<Rightarrow> stream_exn + object option \<times> unpacker" where
  "stream_act lm (Reserve r sz) w = bind_result (reserve_buffer (heap_of r (w_unpacker w) (w_buffers w)) sz (stream_of (w_unpacker w) (w_buffers w)))
     (\<lambda>s. Inr (None, s))"
| "stream_act lm (Consumed bs) w = Inr (None, buffer_consumed bs (stream_of (w_unpacker w) (w_buffers w)))"
| "stream_act lm (Next r i) w = unpacker_next lm (stream_of (w_unpacker w) (w_buffers w))"
| "stream_act lm Reset w = Inr (None, reset (stream_of (w_unpacker w) (w_buffers w)))"
| "stream_act lm (Skip_nonparsed n) w = Inr (None, skip_nonparsed_buffer n (stream_of (w_unpacker w) (w_buffers w)))"
| "stream_act lm Remove_nonparsed w = Inr (None, remove_nonparsed_buffer (stream_of (w_unpacker w) (w_buffers w)))"
| "stream_act lm _ w = Inr (None, stream_of (w_unpacker w) (w_buffers w))"

lemma stream_of_keeps:
  assumes "stream_inv D n p m' hs" "keeps m m'"
  shows "stream_of p m' = stream_of p m"
  using stream_inv_buffer [OF assms(1)] assms(2) by (auto simp: stream_of_def keeps_def)

lemma decr_buffer_other: "decr_buffer b m = Inr m' \<Longrightarrow> a \<noteq> b \<Longrightarrow> m' a = m a"
  by (auto simp: decr_buffer_def split: option.splits if_splits)

lemma stream_enlarge:
  assumes e: "shared_enlarge (v2_decoder f lm) r sz p m = Inr (q, m')" and b: "m (u_buffer p) = Some (c, bs)"
    and fresh: "\<And>k b. r_malloc r k = Some b \<Longrightarrow> m b = None"
    and h: "\<And>n. malloc h n = (if u_off p = COUNTER_SIZE then r_realloc r n \<noteq> None else r_malloc r n \<noteq> None)"
      "hook_throws h \<longleftrightarrow> v2_referenced (u_ctx p) \<and> \<not> r_push r"
  shows "enlarge_buffer h sz (stream_of p m) = Inr (stream_of q m')"
proof (cases "u_off p = COUNTER_SIZE")
  case True
  then show ?thesis using e b h(1)
    by (auto simp: shared_enlarge_def enlarge_buffer_def stream_of_def contents_def Let_def split: option.splits)
next
  case False
  obtain tmp where t: "r_malloc r (grow (u_initial p) (wrap (sz + (u_used p - u_off p) + COUNTER_SIZE))) = Some tmp"
    using e b False by (auto simp: shared_enlarge_def Let_def split: option.splits)
  note ne = fresh [OF t]
  then have "tmp \<noteq> u_buffer p" using b by auto
  then show ?thesis using e b h t False
    by (auto simp: shared_enlarge_def enlarge_buffer_def stream_of_def contents_def Let_def set_referenced_def init_count_def
        v2_decoder_def bind_result_def dest: decr_buffer_other split: sum.splits if_splits)
qed

lemma stream_reserve:
  assumes inv: "stream_inv (v2_decoder f lm) n p m hs" and n: "Suc n < 2 ^ 32"
    and e: "shared_reserve_buffer (v2_decoder f lm) r sz p m = Inr (q, m')"
    and fresh: "\<And>k b. r_malloc r k = Some b \<Longrightarrow> m b = None"
  shows "reserve_buffer (heap_of r p m) sz (stream_of p m) = Inr (stream_of q m')"
proof -
  let ?D = "v2_decoder f lm"
  obtain c bs where b: "m (u_buffer p) = Some (c, bs)" using stream_inv_buffer [OF inv] by blast
  have flag: "d_referenced ?D = v2_referenced" by (simp add: v2_decoder_def)
  show ?thesis
  proof (cases "u_used p = u_off p \<and> get_count (u_buffer p) m = Inr 1 \<and> \<not> v2_referenced (u_ctx p)")
    case False
    then have s: "\<not> (u_used p = u_off p \<and> sole_owner (heap_of r p m))" by (auto simp: heap_of_def Let_def)
    have "sz \<le> u_free p \<and> q = p \<and> m' = m \<or> \<not> sz \<le> u_free p \<and> shared_enlarge ?D r sz p m = Inr (q, m')"
      using e False by (auto simp: shared_reserve_buffer_def shared_expand_buffer_def flag get_count_def b split: if_splits)
    moreover have "enlarge_buffer (heap_of r p m) sz (stream_of p m) = Inr (stream_of q m')"
      if "shared_enlarge ?D r sz p m = Inr (q, m')"
      using False by (intro stream_enlarge [OF that b fresh]) (auto simp: heap_of_def Let_def)
    ultimately show ?thesis using s by (auto simp: reserve_buffer_def expand_buffer_def)
  next
    case True
    then have s: "u_used p = u_off p \<and> sole_owner (heap_of r p m)" by (simp add: heap_of_def)
    obtain p1 m1 where rw: "shared_rewind p m = (p1, m1)" by fastforce
    have p1: "stream_of p1 m1 = rewind_buffer (stream_of p m)" "m1 (u_buffer p1) = Some (1, [])" "u_off p1 = COUNTER_SIZE"
        "u_ctx p1 = u_ctx p" "\<And>a. m a = None \<Longrightarrow> m1 a = None"
      using rw True b by (auto simp: shared_rewind_def stream_of_def rewind_buffer_def contents_def get_count_def)
    have "sz \<le> u_free p \<and> q = p \<and> m' = m \<or> \<not> sz \<le> u_free p \<and> sz \<le> u_free p1 \<and> q = p1 \<and> m' = m1
        \<or> \<not> sz \<le> u_free p \<and> \<not> sz \<le> u_free p1 \<and> shared_enlarge ?D r sz p1 m1 = Inr (q, m')"
      using e True by (auto simp: shared_reserve_buffer_def shared_expand_buffer_def flag rw split: if_splits)
    moreover have "enlarge_buffer (heap_of r p m) sz (stream_of p1 m1) = Inr (stream_of q m')"
      if "shared_enlarge ?D r sz p1 m1 = Inr (q, m')"
      using True p1 fresh by (intro stream_enlarge [OF that p1(2)]) (auto simp: heap_of_def)
    ultimately show ?thesis using s by (auto simp: reserve_buffer_def expand_buffer_def p1(1) [symmetric] Let_def)
  qed
qed

lemma stream_next:
  assumes inv: "stream_inv (v2_decoder f lm) n p m hs" and inv': "stream_inv (v2_decoder f lm) k q m' hs'" and kp: "keeps m m'"
    and e: "shared_next (v2_decoder f lm) r h0 p m = Inr (got, ref, h, q, m')"
  shows "unpacker_next lm (stream_of p m) = Inr (if got then Some (h_obj h) else None, stream_of q m')"
proof -
  let ?D = "v2_decoder f lm"
  obtain c bs where b: "m (u_buffer p) = Some (c, bs)" "contents m (u_buffer p) = Some bs" using stream_inv_buffer [OF inv] by blast
  obtain fin p1 where x: "shared_execute_imp ?D p m = Inr (fin, p1)" using e by (cases "shared_execute_imp ?D p m") (auto simp: shared_next_def)
  then obtain ret d rest where run: "execute lm (v2_parser (u_ctx p)) (drop (u_off p - COUNTER_SIZE) bs) = Inr (ret, d, rest)"
      "fin = (ret = PARSE_SUCCESS)"
    by (auto simp: shared_execute_imp_def b v2_decoder_def bind_result_def Let_def split: sum.splits)
  have p1: "v2_parser (u_ctx p1) = d" "u_buffer p1 = u_buffer p" "u_used p1 = u_used p" "u_free p1 = u_free p" "u_initial p1 = u_initial p"
      "u_off p1 = u_used p - length rest"
      "u_parsed p1 = u_parsed p + (if u_off p < u_off p1 then u_off p1 - u_off p else 0)"
    using x run(1) by (auto simp: shared_execute_imp_def b v2_decoder_def Let_def)
  have nb: "nonparsed_buffer (stream_of p m) = drop (u_off p - COUNTER_SIZE) bs"
    by (simp add: nonparsed_buffer_def stream_of_def b)
  have ex: "execute_imp lm (stream_of p m) = Inr (ret, stream_of p1 m)"
    using run(1) p1 by (simp add: execute_imp_def nb Let_def) (simp add: stream_of_def)
  have out: "stream_of q m' = stream_of q m" by (rule stream_of_keeps [OF inv' kp])
  show ?thesis
  proof (cases fin)
    case False
    then have "q = p1 \<and> \<not> got" using e x by (auto simp: shared_next_def bind_result_def split: sum.splits)
    then show ?thesis using False run(2) ex out by (simp add: unpacker_next_def parser_next_def)
  next
    case True
    obtain z p2 m2 where rel: "release_zone ?D r p1 m = Inr (z, p2, m2)"
      using e x True by (cases "release_zone ?D r p1 m") (auto simp: shared_next_def Let_def)
    have p2: "v2_parser (u_ctx p2) = d" "u_buffer p2 = u_buffer p1" "u_used p2 = u_used p1" "u_free p2 = u_free p1"
        "u_initial p2 = u_initial p1" "u_off p2 = u_off p1" "u_parsed p2 = u_parsed p1"
      using rel p1(1) by (auto simp: release_zone_def flush_zone_def set_referenced_def v2_decoder_def bind_result_def
          split: sum.splits if_splits)
    have "got" "q = shared_reset ?D p2" "h_obj h = cur (vis d)"
      using e x True rel p2(1) by (auto simp: shared_next_def Let_def v2_decoder_def bind_result_def split: sum.splits)
    then show ?thesis using True run(2) ex out p1 p2
      by (simp add: unpacker_next_def parser_next_def) (simp add: stream_of_def reset_def shared_reset_def v2_decoder_def)
  qed
qed

lemma stream_bytes:
  assumes "stream_inv D n p m hs"
  shows "shared_buffer_consumed new p m = Inr (q, m') \<Longrightarrow> stream_of q m' = buffer_consumed new (stream_of p m)"
    "shared_remove_nonparsed_buffer p m = (q, m') \<Longrightarrow> stream_of q m' = remove_nonparsed_buffer (stream_of p m)"
  using stream_inv_buffer [OF assms]
  by (auto simp: shared_buffer_consumed_def shared_remove_nonparsed_buffer_def buffer_consumed_def remove_nonparsed_buffer_def
      stream_of_def contents_def)

subsection \<open>Properties\<close>

text \<open>
  C35: the memory that decoded objects point into is never freed, moved or written under them. After fewer than
  \<open>2^32 - 3\<close> operations on an unpacker and its handles, none of which threw an exception, in which the finalizer
  of a finished object could be pushed, the zone was emptied only between objects and the unpacker was not moved, the
  next such operation uses no buffer after it was freed; and as long as a handle keeps its object, every buffer that the
  object's strings point into is allocated, and the bytes up to the last one pointed to stay the same. (Without the
  conditions it fails: \<open>object_without_owner\<close> for the push, the theory UnpackerMove for the move.)
\<close>

theorem pointers_stay_valid:
  assumes "shared_steps (v2_decoder f lm) n w" "n < 2 ^ 32 - 3" "shared_valid op w"
  shows "case shared_act (v2_decoder f lm) op w of Inl e \<Rightarrow> e \<noteq> Use_after_free
    | Inr w' \<Rightarrow> \<forall>h b k. h \<in> set (w_handles w) \<longrightarrow> h \<in> set (w_handles w') \<longrightarrow> (b, k) \<in> set (h_refs h) \<longrightarrow>
       (\<exists>c bs c' bs'. w_buffers w b = Some (c, bs) \<and> k \<le> length bs
          \<and> w_buffers w' b = Some (c', bs') \<and> take k bs' = take k bs)"
  by (rule v2.pointers_valid [OF assms])

text \<open>The buffer of the sample is replaced when room for 100 bytes is asked for, and kept for the object.\<close>

theorem pointers_stay_valid_witness:
  "\<exists>w' c bs c' bs'. shared_act sample_decoder (Reserve (sample_resources 2) 100) sample_delivered = Inr w'
    \<and> w_buffers sample_delivered 1 = Some (c, bs) \<and> 2 \<le> length bs
    \<and> w_buffers w' 1 = Some (c', bs') \<and> take 2 bs' = take 2 bs \<and> u_buffer (w_unpacker w') = 2"
proof -
  let ?op = "Reserve (sample_resources 2) 100"
  have "grow 64 104 = 128" by (simp add: grow.simps Let_def)
  then obtain w' where w': "shared_act sample_decoder ?op sample_delivered = Inr w'" "w_handles w' = w_handles sample_delivered"
      "u_buffer (w_unpacker w') = 2"
    by (simp add: sample_delivered_def shared_reserve_buffer_def shared_expand_buffer_def get_count_def shared_enlarge_def
        COUNTER_SIZE_def sample_resources_def init_count_def decr_buffer_def v2_decoder_def Let_def)
  have "shared_valid ?op sample_delivered" by (simp add: sample_delivered_def sample_resources_def)
  from pointers_stay_valid [OF sample_delivered_steps _ this] w'
  show ?thesis by (fastforce simp: sample_delivered_def)
qed

text \<open>A run with an exception: the object is decoded, its finalizer is pushed, and then the new zone is refused.\<close>

lemma sample_thrown_runs:
  "\<exists>w. shared_runs sample_decoder 3 w \<and> w_handles w = [object_handle_new] \<and> u_zone (w_unpacker w) = [1]
    \<and> w_buffers w = [1 \<mapsto> (2, [0xa1, 0x68])]"
proof -
  define r where "r = sample_resources 2\<lparr>r_zone := False\<rparr>"
  obtain q where q: "shared_execute_imp sample_decoder (w_unpacker sample_filled) (w_buffers sample_filled) = Inr (True, q)"
      "u_buffer q = 1" "u_zone q = []" "v2_referenced (u_ctx q)"
    by (simp add: sample_run sample_filled_def)
  define p where "p = set_referenced sample_decoder False (q\<lparr>u_zone := [1]\<rparr>)"
  have m: "w_buffers sample_filled = [1 \<mapsto> (1, [0xa1, 0x68])]" by (simp add: sample_filled_def)
  have f: "flush_zone sample_decoder r q (w_buffers sample_filled) = Inr (True, p, [1 \<mapsto> (2, [0xa1, 0x68])])"
    using q(2-4) by (simp add: flush_zone_def incr_count_def m v2_decoder_def r_def sample_resources_def p_def)
  have "shared_act sample_decoder (Next r 0) sample_filled = Inl (Thrown Bad_alloc)"
    using f q(1) by (simp add: shared_next_def release_zone_def r_def)
  from shared_runs.throws [OF steps_are_runs [OF sample_filled_steps] _ this thrown.releasing [OF q(1) f]]
  have "shared_runs sample_decoder 3 (sample_filled\<lparr>w_unpacker := p, w_buffers := [1 \<mapsto> (2, [0xa1, 0x68])]\<rparr>)"
    by (simp add: sample_filled_def numeral_3_eq_3 numeral_2_eq_2)
  then show ?thesis by (intro exI conjI) (assumption, simp_all add: sample_filled_def p_def set_referenced_def)
qed

text \<open>
  C36: no buffer leaks and none is freed twice, exceptions or not. After fewer than \<open>2^32 - 3\<close> operations on
  an unpacker that is not moved, of which any may have thrown (a parse error, a limit that is exceeded, memory, a
  finalizer or a zone that is refused) and left the unpacker at the place of the throw, no operation uses a buffer that was
  freed; and destroying the unpacker and then the handles, in whatever order, frees every buffer that was
  allocated and not yet freed, each exactly once.
\<close>

theorem buffers_given_back:
  assumes "shared_runs (v2_decoder f lm) n w" "n < 2 ^ 32 - 3" "mset hs = mset (w_handles w)"
  shows "teardown (w_unpacker w) hs (w_buffers w) = Inr Map.empty
    \<and> (\<forall>op. shared_allowed op w \<longrightarrow> shared_act (v2_decoder f lm) op w \<noteq> Inl Use_after_free)"
  using v2.given_back [OF assms] v2.no_use_after_free [OF assms(1,2)] by blast

theorem buffers_given_back_witness:
  "\<exists>w :: v2_context shared_world. u_zone (w_unpacker w) = [1] \<and> w_buffers w = [1 \<mapsto> (2, [0xa1, 0x68])]
    \<and> teardown (w_unpacker w) [object_handle_new] (w_buffers w) = Inr Map.empty"
proof -
  obtain w where w: "shared_runs sample_decoder 3 w" "w_handles w = [object_handle_new]" "u_zone (w_unpacker w) = [1]"
      "w_buffers w = [1 \<mapsto> (2, [0xa1, 0x68])]"
    using sample_thrown_runs by blast
  have "(3 :: nat) < 2 ^ 32 - 3" by simp
  from buffers_given_back [OF w(1) this, of "[object_handle_new]"] w(2)
  have "teardown (w_unpacker w) [object_handle_new] (w_buffers w) = Inr Map.empty" by simp
  then show ?thesis using w(3,4) by blast
qed

text \<open>The same of version 1.\<close>

lemmas v1_pointers_stay_valid = v1.pointers_valid
lemmas v1_buffers_given_back = v1.given_back



end
