(* ===== verification/UnpackerMove.thy ===== *)
theory UnpackerMove
  imports SharedProps
begin

text \<open>
  Moving an unpacker (\<open>v1/unpack.hpp\<close>, \<open>v2/parse.hpp\<close>, \<open>v2/create_object_visitor.hpp\<close>). A version 1 unpacker is moved
  as a whole. A version 2 unpacker is not: the reference \<open>m_referenced_buffer_hook\<close> stays bound to the member \<open>m_finalizer\<close> of the
  object moved from, which keeps pointing to the zone of that time, and the visitor leaves behind \<open>m_obj\<close>, the object
  that the entry at the bottom of its stack was filling.
\<close>

subsection \<open>Version 1\<close>

text \<open>What is left of an unpacker that was moved from has no buffer and no zone, and its destructor does nothing.\<close>

definition shared_move :: "'c shared_unpacker \<Rightarrow> 'c shared_unpacker \<times> 'c shared_unpacker option" where
  "shared_move other = (other, None)"

definition shared_destructor :: "'c shared_unpacker option \<Rightarrow> buffers \<Rightarrow> shared_exn + buffers" where
  "shared_destructor p m = (case p of None \<Rightarrow> Inr m | Some p \<Rightarrow> shared_destroy p m)"

definition shared_assign :: "'c shared_unpacker option \<Rightarrow> 'c shared_unpacker \<Rightarrow> buffers
    \<Rightarrow> shared_exn + 'c shared_unpacker \<times> 'c shared_unpacker option \<times> buffers" where
  "shared_assign p other m = bind_result (shared_destructor p m) (\<lambda>m. Inr (fst (shared_move other), snd (shared_move other), m))"

subsection \<open>Version 2\<close>

text \<open>Which zone the \<open>m_finalizer\<close> that the hook refers to points to: that of the unpacker, that of a handle, or one that
  is destroyed.\<close>

datatype hook_zone = Own_zone | Handle_zone nat | Dead_zone

text \<open>\<open>mw_hook\<close> is none while the hook is the unpacker's own; \<open>mw_old\<close> says whether the object moved from still
  exists; \<open>mw_lost\<close> says whether the object at the bottom of the stack was left behind.\<close>

record moved_world =
  mw_world :: "v2_context shared_world"
  mw_hook :: "hook_zone option"
  mw_old :: bool
  mw_lost :: bool

definition parser_move :: "moved_world \<Rightarrow> moved_world" where
  "parser_move w = (case mw_hook w of None \<Rightarrow> w\<lparr>mw_hook := Some Own_zone, mw_old := True\<rparr> | Some z \<Rightarrow> w)"

definition visitor_move :: "moved_world \<Rightarrow> moved_world" where
  "visitor_move w = w\<lparr>mw_lost := mw_lost w \<or> frames (vis (v2_parser (u_ctx (w_unpacker (mw_world w))))) \<noteq> []\<rparr>"

text \<open>Assignment to an unpacker \<open>p\<close> destroys what it had and moves.\<close>

definition parser_assign :: "v2_context shared_unpacker \<Rightarrow> moved_world \<Rightarrow> shared_exn + moved_world" where
  "parser_assign p w = bind_result (shared_destroy p (w_buffers (mw_world w))) (\<lambda>m.
     Inr (visitor_move (parser_move (w\<lparr>mw_world := (mw_world w)\<lparr>w_buffers := m\<rparr>\<rparr>))))"

definition destroy_old :: "moved_world \<Rightarrow> moved_world" where
  "destroy_old w = w\<lparr>mw_old := False\<rparr>"

text \<open>\<open>zone_push_finalizer\<close> of the moved object: a finalizer that \<open>reserve_buffer\<close> would push to the zone of the unpacker
  goes to the zone that the hook points to.\<close>

definition hook_push :: "moved_world \<Rightarrow> v2_context shared_unpacker \<times> buffers \<Rightarrow> shared_exn + moved_world" where
  "hook_push w pm = (let world = mw_world w; p = fst pm; b = u_buffer (w_unpacker world);
       done = world\<lparr>w_unpacker := p, w_buffers := snd pm\<rparr>;
       hs = w_handles world
     in if u_zone p = u_zone (w_unpacker world) then Inr (w\<lparr>mw_world := done\<rparr>)
     else case mw_hook w of
         None \<Rightarrow> Inr (w\<lparr>mw_world := done\<rparr>)
       | Some z \<Rightarrow> if \<not> mw_old w then Inl Use_after_free
           else (case z of
             Own_zone \<Rightarrow> Inr (w\<lparr>mw_world := done\<rparr>)
           | Dead_zone \<Rightarrow> Inl Use_after_free
           | Handle_zone i \<Rightarrow> Inr (w\<lparr>mw_world := done\<lparr>w_unpacker := p\<lparr>u_zone := u_zone (w_unpacker world)\<rparr>,
               w_handles := hs[i := (hs ! i)\<lparr>h_zone := Some (b # zone_finalizers (hs ! i))\<rparr>]\<rparr>\<rparr>)))"

definition zone_dies :: "nat \<Rightarrow> hook_zone \<Rightarrow> hook_zone" where
  "zone_dies i z = (if z = Handle_zone i then Dead_zone else z)"

definition moved_next :: "v2_context decoder \<Rightarrow> resources \<Rightarrow> nat \<Rightarrow> moved_world \<Rightarrow> shared_exn + moved_world" where
  "moved_next D r i w = (let world = mw_world w in
     bind_result (shared_next D r (w_handles world ! i) (w_unpacker world) (w_buffers world)) (\<lambda>(got, _, h, p, m).
       Inr (w\<lparr>mw_world := \<lparr>w_unpacker = p, w_buffers = m,
           w_handles = (w_handles world)[i := if got \<and> mw_lost w then h\<lparr>h_obj := NIL\<rparr> else h]\<rparr>,
         mw_hook := map_option (\<lambda>z. if z = Own_zone \<and> h_zone h \<noteq> None then Handle_zone i else zone_dies i z) (mw_hook w),
         mw_lost := mw_lost w \<and> \<not> got\<rparr>)))"

datatype moved_op = Plain shared_op | Move | Destroy_old

fun moved_act :: "v2_context decoder \<Rightarrow> moved_op \<Rightarrow> moved_world \<Rightarrow> shared_exn + moved_world" where
  "moved_act D Move w = Inr (visitor_move (parser_move w))"
| "moved_act D Destroy_old w = Inr (destroy_old w)"
| "moved_act D (Plain (Reserve r sz)) w = bind_result
     (shared_reserve_buffer D r sz (w_unpacker (mw_world w)) (w_buffers (mw_world w))) (hook_push w)"
| "moved_act D (Plain (Next r i)) w = moved_next D r i w"
| "moved_act D (Plain (Destroy_handle i)) w = bind_result (shared_act D (Destroy_handle i) (mw_world w)) (\<lambda>v.
     Inr (w\<lparr>mw_world := v, mw_hook := map_option (zone_dies i) (mw_hook w)\<rparr>))"
| "moved_act D (Plain Reset) w = bind_result (shared_act D Reset (mw_world w)) (\<lambda>v.
     Inr (w\<lparr>mw_world := v, mw_lost := False\<rparr>))"
| "moved_act D (Plain op) w = bind_result (shared_act D op (mw_world w)) (\<lambda>v. Inr (w\<lparr>mw_world := v\<rparr>))"

fun moved_acts :: "v2_context decoder \<Rightarrow> moved_op list \<Rightarrow> moved_world \<Rightarrow> shared_exn + moved_world" where
  "moved_acts D [] w = Inr w"
| "moved_acts D (op # ops) w = bind_result (moved_act D op w) (moved_acts D ops)"

subsection \<open>An unpacker that stays where it is\<close>

definition unmoved :: "v2_context shared_world \<Rightarrow> moved_world" where
  "unmoved w = \<lparr>mw_world = w, mw_hook = None, mw_old = False, mw_lost = False\<rparr>"

lemma unmoved_act: "moved_act D (Plain op) (unmoved w) = map_sum id unmoved (shared_act D op w)"
  by (cases op) (auto simp: unmoved_def hook_push_def moved_next_def bind_result_def Let_def split: sum.splits prod.splits)

text \<open>So as long as it is not moved, what \<open>SharedProps\<close> shows holds of it.\<close>

lemma unmoved_acts:
  assumes "shared_steps D n w" "shared_valid op w" "moved_act D (Plain op) (unmoved w) = Inr w'"
  shows "\<exists>v. w' = unmoved v \<and> shared_steps D (Suc n) v"
proof -
  obtain v where v: "shared_act D op w = Inr v" "w' = unmoved v"
    using assms(3) by (cases "shared_act D op w") (auto simp: unmoved_act)
  then show ?thesis using shared_steps.acts [OF assms(1,2) v(1)] by blast
qed

subsection \<open>An unpacker that is moved\<close>

text \<open>A string is taken; the next object begins with a string that lies in the same buffer, the rest of it needs a
  new buffer; the first string is given up; then the second object is completed.\<close>

definition begin_second :: "moved_op list" where
  "begin_second = map Plain [Next (sample_resources 2) 0, New_handle, Consumed [0x92, 0xa1, 0x69], Next (sample_resources 2) 1]"

definition finish_second :: "moved_op list" where
  "finish_second = map Plain [Reserve (sample_resources 2) 60, Destroy_handle 0, Consumed [0x05], Next (sample_resources 3) 1]"

definition second_begun :: "v2_context shared_world" where
  "second_begun = \<lparr>w_unpacker = \<lparr>u_ctx = \<lparr>v2_parser = \<lparr>m_cs = 0, m_trail = 1, m_stack = [(CT_ARRAY_ITEM, 1)],
       vis = \<lparr>cur = STRING [0x69], frames = [[STRING [0x69]]]\<rparr>\<rparr>, v2_referenced = True\<rparr>, u_refs = [(1, 5)], u_zone = [],
       u_buffer = 1, u_used = 9, u_free = 55, u_off = 9, u_parsed = 3, u_initial = 64\<rparr>,
     w_buffers = [1 \<mapsto> (2, [0xa1, 0x68, 0x92, 0xa1, 0x69])],
     w_handles = [\<lparr>h_obj = STRING [0x68], h_zone = Some [1], h_refs = [(1, 2)]\<rparr>, object_handle_new]\<rparr>"

lemma moved_acts_append: "moved_acts D (xs @ ys) w = bind_result (moved_acts D xs w) (moved_acts D ys)"
  by (induction xs arbitrary: w) (simp_all add: bind_result_def split: sum.splits)

definition moved_to :: "hook_zone option \<Rightarrow> v2_context shared_world \<Rightarrow> moved_world" where
  "moved_to z w = \<lparr>mw_world = w, mw_hook = z, mw_old = (z \<noteq> None), mw_lost = False\<rparr>"

lemma begin_second_run:
  "moved_acts sample_decoder begin_second (moved_to z sample_filled) = Inr (moved_to (map_option (\<lambda>_. Handle_zone 0) z) second_begun)"
  if "z = None \<or> z = Some Own_zone"
  using that
  by (auto simp: begin_second_def moved_to_def moved_next_def sample_run sample_filled_def sample_resources_def
      shared_buffer_consumed_def second_begun_def zone_dies_def start_aggregate_def start_array_def end_item_def)

lemma grow_done: "need \<le> n \<Longrightarrow> grow n need = n"
  by (subst grow.simps) simp

lemma finish_second_run:
  "\<exists>w. moved_acts sample_decoder finish_second (moved_to None second_begun) = Inr w
    \<and> h_refs (w_handles (mw_world w) ! 1) = [(1, 5)] \<and> w_buffers (mw_world w) 1 \<noteq> None"
  "\<exists>w. moved_acts sample_decoder finish_second (moved_to (Some (Handle_zone 0)) second_begun) = Inr w
    \<and> h_refs (w_handles (mw_world w) ! 1) = [(1, 5)] \<and> w_buffers (mw_world w) 1 = None"
  by (simp_all add: finish_second_def moved_to_def moved_next_def sample_run sample_resources_def second_begun_def hook_push_def
      shared_buffer_consumed_def shared_reserve_buffer_def shared_expand_buffer_def shared_enlarge_def get_count_def init_count_def
      grow_done zone_dies_def decr_buffer_def end_array_def end_item_def visit_positive_integer_def)

text \<open>
  The object that is completed points into buffer 1. That buffer is allocated if the unpacker stayed where it was, and
  is freed if it was moved before: the unpacker gives its share of the buffer to the zone that the hook
  of the old one points to, which went to the first handle, and not to the zone of the object being built.
\<close>

theorem moved_unpacker_dangles:
  "(\<exists>w. moved_acts sample_decoder (begin_second @ finish_second) (unmoved sample_filled) = Inr w
      \<and> h_refs (w_handles (mw_world w) ! 1) = [(1, 5)] \<and> w_buffers (mw_world w) 1 \<noteq> None)
    \<and> (\<exists>w. moved_acts sample_decoder (Move # begin_second @ finish_second) (unmoved sample_filled) = Inr w
      \<and> h_refs (w_handles (mw_world w) ! 1) = [(1, 5)] \<and> w_buffers (mw_world w) 1 = None)"
proof -
  have start: "unmoved sample_filled = moved_to None sample_filled" by (simp add: unmoved_def moved_to_def)
  have move: "visitor_move (parser_move (moved_to None sample_filled)) = moved_to (Some Own_zone) sample_filled"
    by (simp add: moved_to_def parser_move_def visitor_move_def sample_filled_def context_init_def visitor_init_def)
  show ?thesis
    using finish_second_run begin_second_run [of None] begin_second_run [of "Some Own_zone"]
    by (simp add: start move moved_acts_append)
qed

text \<open>If the move comes while a container is open, the handle receives no more than nil, whatever bytes follow.\<close>

theorem moved_midway_is_lost:
  assumes "frames (vis (v2_parser (u_ctx (w_unpacker (mw_world w))))) \<noteq> []"
    and "moved_act D Move w = Inr w1" "moved_act D (Plain (Consumed bs)) w1 = Inr w2" "moved_act D (Plain (Next r i)) w2 = Inr w3"
    and "i < length (w_handles (mw_world w2))"
  shows "h_obj (w_handles (mw_world w3) ! i) = NIL"
proof -
  have "mw_world (parser_move w) = mw_world w" by (simp add: parser_move_def split: option.splits)
  then have "mw_lost w2" using assms(1-3) by (auto simp: visitor_move_def bind_result_def split: sum.splits)
  moreover obtain got ref h p m where n: "shared_next D r (w_handles (mw_world w2) ! i) (w_unpacker (mw_world w2))
      (w_buffers (mw_world w2)) = Inr (got, ref, h, p, m)"
      "w_handles (mw_world w3) = (w_handles (mw_world w2))[i := if got \<and> mw_lost w2 then h\<lparr>h_obj := NIL\<rparr> else h]"
    using assms(4) by (auto simp: moved_next_def Let_def bind_result_def split: sum.splits)
  moreover have "\<not> got \<Longrightarrow> h_obj h = NIL" using n(1)
    by (auto simp: shared_next_def object_handle_new_def bind_result_def Let_def split: sum.splits if_splits)
  ultimately show ?thesis using assms(5) by auto
qed

end
