(* ===== verification/FloatBits.thy ===== *)
theory FloatBits
  imports StdLib
begin

text \<open>
  The bits of \<open>float\<close> and \<open>double\<close>: the encoder and the decoder move a number as a word, through a
  union of the two types (\<open>pack.hpp\<close>, \<open>parse.hpp\<close>). \<open>ieee_fp\<close> reads any binary format with \<open>mb\<close>
  bits of fraction and \<open>eb\<close> bits of exponent; the bits of a \<open>float\<close> are written by
  \<open>bits_of_float\<close>, with one NaN and one zero.
\<close>

definition ieee_fp :: "nat \<Rightarrow> nat \<Rightarrow> int \<Rightarrow> fp" where
  "ieee_fp mb eb n = (let s = (2 ^ (mb + eb) \<le> n); q = n mod 2 ^ (mb + eb);
       e = q div 2 ^ mb; m = q mod 2 ^ mb; bias = 2 ^ (eb - 1) - 1
     in if e = 2 ^ eb - 1 then (if m = 0 then Inf s else NaN)
        else if e = 0 then Fin (signed s (of_int m * pw2 (1 - bias - int mb)))
        else Fin (signed s (of_int (m + 2 ^ mb) * pw2 (e - bias - int mb))))"

definition float_of_bits :: "32 word \<Rightarrow> float" where
  "float_of_bits b = ieee_fp 23 8 (uint b)"

definition double_of_bits :: "64 word \<Rightarrow> double" where
  "double_of_bits b = ieee_fp 52 11 (uint b)"

text \<open>The exponent and the scaled magnitude of a number; together they are its bits without the sign.\<close>

definition float_exponent :: "rat \<Rightarrow> int" where
  "float_exponent x = max (ilog2 \<bar>x\<bar>) (- 126)"

definition float_magnitude :: "rat \<Rightarrow> int" where
  "float_magnitude x = (let e = float_exponent x in (e + 126) * 2 ^ 23 + \<lfloor>\<bar>x\<bar> / pw2 (e - 23)\<rfloor>)"

definition bits_of_float :: "float \<Rightarrow> 32 word" where
  "bits_of_float v = (case v of
      NaN \<Rightarrow> 0x7fc00000
    | Inf s \<Rightarrow> if s then 0xff800000 else 0x7f800000
    | Fin x \<Rightarrow> if x = 0 then 0 else word_of_int ((if x < 0 then 2 ^ 31 else 0) + float_magnitude x))"

text \<open>The values a \<open>float\<close> can have.\<close>

definition is_float :: "fp \<Rightarrow> bool" where
  "is_float v = (case v of Fin x \<Rightarrow> representable 24 (- 126) x \<and> \<bar>x\<bar> < pw2 128 | _ \<Rightarrow> True)"

lemma float_magnitude_bounds:
  assumes "representable 24 (- 126) x" "\<bar>x\<bar> < pw2 128" "x \<noteq> 0"
  obtains e m where "float_magnitude x = (e + 126) * 2 ^ 23 + m" "\<bar>x\<bar> = of_int m * pw2 (e - 23)"
    "- 126 \<le> e" "e \<le> 127" "0 < m" "m < 2 ^ 24" "e = - 126 \<or> 2 ^ 23 \<le> m"
proof -
  define e where "e = float_exponent x"
  define m where "m = rne (\<bar>x\<bar> / pw2 (e - 23))"
  have pos: "0 < \<bar>x\<bar>" using assms(3) by simp
  have "representable 24 (- 126) \<bar>x\<bar>" using assms(1) by (cases "x < 0") simp_all
  then have x: "\<bar>x\<bar> = of_int m * pw2 (e - 23)"
    using assms(3) by (simp add: representable_def rnd_rat_def Let_def m_def e_def float_exponent_def)
  then have q: "\<bar>x\<bar> / pw2 (e - 23) = of_int m" by (simp add: field_simps)
  have e: "- 126 \<le> e" "ilog2 \<bar>x\<bar> \<le> e" "e = ilog2 \<bar>x\<bar> \<or> e = - 126" by (auto simp: e_def float_exponent_def)
  moreover have "e \<le> 127" using ilog2_less [OF pos assms(2)] by (auto simp: e_def float_exponent_def)
  moreover have "0 < m" using x pos by (metis mult_pos_pos mult_not_zero of_int_0_less_iff pw2_pos zero_less_mult_pos2)
  moreover have "m < 2 ^ 24"
  proof -
    have "\<bar>x\<bar> < pw2 (e + 1)" using ilog2_bounds(2) [OF pos] pw2_mono [of "ilog2 \<bar>x\<bar> + 1" "e + 1"] e(2) by linarith
    also have "pw2 (e + 1) = of_int (2 ^ 24) * pw2 (e - 23)" using two_power_pw2 [of 24 "e - 23"] by (simp add: add.commute)
    finally have "of_int m < (of_int (2 ^ 24) :: rat)" using x by simp
    then show ?thesis by (simp only: of_int_less_iff)
  qed
  moreover have "2 ^ 23 \<le> m" if "e = ilog2 \<bar>x\<bar>"
  proof -
    have "pw2 e = of_int (2 ^ 23) * pw2 (e - 23)" using two_power_pw2 [of 23 "e - 23"] by simp
    moreover have "pw2 e \<le> \<bar>x\<bar>" using ilog2_bounds(1) [OF pos] that by simp
    ultimately have "of_int (2 ^ 23) * pw2 (e - 23) \<le> of_int m * pw2 (e - 23)"
      unfolding x by simp
    then have "(of_int (2 ^ 23) :: rat) \<le> of_int m" by simp
    then show ?thesis by (simp only: of_int_le_iff)
  qed
  moreover have "float_magnitude x = (e + 126) * 2 ^ 23 + m"
    by (simp add: float_magnitude_def Let_def e_def [symmetric] q)
  ultimately show ?thesis using that x by blast
qed

text \<open>Reading the magnitude back.\<close>

lemma ieee_magnitude:
  assumes "- 126 \<le> e" "e \<le> 127" "0 < m" "m < 2 ^ 24" "e = - 126 \<or> 2 ^ 23 \<le> m"
  shows "ieee_fp 23 8 ((if s then 2 ^ 31 else 0) + ((e + 126) * 2 ^ 23 + m))
    = Fin (signed s (of_int m * pw2 (e - 23)))"
proof -
  define q where "q = (e + 126) * 2 ^ 23 + m"
  have q: "0 \<le> q" "q < 2 ^ 31" using assms(1-4) by (auto simp: q_def)
  have sign: "(2 ^ 31 \<le> (if s then 2 ^ 31 else 0) + q) = s" "((if s then 2 ^ 31 else 0) + q) mod 2 ^ 31 = q"
    using q mod_add_self1 [of "2 ^ 31" q] by (cases s; simp)+
  show ?thesis
  proof (cases "m < 2 ^ 23")
    case True
    then have "e = - 126" using assms(5) by simp
    moreover have "m div 2 ^ 23 = 0" "m mod 2 ^ 23 = m" using True assms(3) by simp_all
    ultimately show ?thesis using sign unfolding q_def [symmetric] by (simp add: ieee_fp_def Let_def) (simp add: q_def)
  next
    case False
    have "q = (e + 127) * 2 ^ 23 + (m - 2 ^ 23)" by (simp add: q_def)
    moreover have "((e + 127) * 2 ^ 23 + (m - 2 ^ 23)) div 2 ^ 23 = e + 127"
      using False assms(4) div_mult_self1 [of "2 ^ 23" "m - 2 ^ 23" "e + 127"] div_pos_pos_trivial [of "m - 2 ^ 23" "2 ^ 23"]
      by (simp add: add.commute mult.commute)
    ultimately have d: "q div 2 ^ 23 = e + 127" by simp
    then have "q mod 2 ^ 23 = m - 2 ^ 23" using div_mult_mod_eq [of q "2 ^ 23"] by (simp add: q_def)
    with d show ?thesis using sign assms(1,2) unfolding q_def [symmetric] by (simp add: ieee_fp_def Let_def)
  qed
qed

lemma float_bits_inverse: "is_float v \<Longrightarrow> float_of_bits (bits_of_float v) = v"
proof (cases v)
  case (Fin x)
  assume "is_float v"
  then have r: "representable 24 (- 126) x" "\<bar>x\<bar> < pw2 128" using Fin by (simp_all add: is_float_def)
  show ?thesis
  proof (cases "x = 0")
    case True
    then show ?thesis using Fin by (simp add: bits_of_float_def float_of_bits_def ieee_fp_def signed_def)
  next
    case False
    obtain e m where em: "float_magnitude x = (e + 126) * 2 ^ 23 + m" "\<bar>x\<bar> = of_int m * pw2 (e - 23)"
      and b: "- 126 \<le> e" "e \<le> 127" "0 < m" "m < 2 ^ 24" "e = - 126 \<or> 2 ^ 23 \<le> m"
      using float_magnitude_bounds [OF r False] by metis
    define n where "n = (if x < 0 then 2 ^ 31 else 0) + ((e + 126) * 2 ^ 23 + m)"
    have "0 \<le> n" "n < 2 ^ 32" using b by (auto simp: n_def)
    then have "uint (word_of_int n :: 32 word) = n" by (simp add: uint_word_of_int)
    then have "float_of_bits (bits_of_float v) = ieee_fp 23 8 n"
      unfolding bits_of_float_def float_of_bits_def Fin fp.case em(1) n_def [symmetric] using False by simp
    also have "\<dots> = Fin (signed (x < 0) \<bar>x\<bar>)" by (simp only: n_def ieee_magnitude [OF b] em(2))
    finally show ?thesis using Fin by (simp add: signed_def)
  qed
qed (simp_all add: bits_of_float_def float_of_bits_def ieee_fp_def)

text \<open>What is read is a \<open>float\<close>, and converting it to \<open>float\<close> again changes nothing.\<close>

lemma is_float_to_float: "is_float v \<Longrightarrow> to_float v = v"
  by (cases v) (auto simp: is_float_def to_float_def round32_def in_format_def representable_def Let_def)

end
