(* ===== verification/Zone.thy ===== *)
theory Zone
  imports Growth
begin

text \<open>
  \<open>rpclib/rpc/msgpack/v1/detail/cpp11_zone.hpp\<close>: the allocator of the decoded objects. Memory is
  addressed by numbers; a \<open>memory\<close> answers requests of \<open>malloc\<close> with an address, or none. A chunk is
  its address and the size of what follows its header; the first of the list is the one in use.
  Addresses and sizes are small enough that pointers do not wrap around; the doubling of sizes may. The constructor
  is \<open>noexcept\<close>: where \<open>zone_new\<close> gives \<open>Zone_bad_alloc\<close>, the exception of \<open>chunk_list\<close> ends the program.
\<close>

datatype zone_exn = Zone_bad_alloc

type_synonym memory = "nat \<Rightarrow> nat option"

record 'f zone =
  cl_chunk_size :: nat
  cl_free :: nat
  cl_ptr :: nat
  cl_chunks :: "(nat \<times> nat) list"
  fin_array :: "'f list"
  fin_end :: nat

definition sizeof_chunk :: nat where "sizeof_chunk = 8"
definition sizeof_finalizer :: nat where "sizeof_finalizer = 16"

subsection \<open>Chunks\<close>

definition zone_new :: "memory \<Rightarrow> nat \<Rightarrow> zone_exn + 'f zone" where
  "zone_new malloc chunk_size = (case malloc (sizeof_chunk + chunk_size) of
      None \<Rightarrow> Inl Zone_bad_alloc
    | Some c \<Rightarrow> Inr \<lparr>cl_chunk_size = chunk_size, cl_free = chunk_size, cl_ptr = c + sizeof_chunk,
        cl_chunks = [(c, chunk_size)], fin_array = [], fin_end = 0\<rparr>)"

definition get_aligned :: "nat \<Rightarrow> nat \<Rightarrow> nat" where
  "get_aligned ptr align = (ptr + (align - 1)) div align * align"

definition allocate_expand :: "memory \<Rightarrow> nat \<Rightarrow> 'f zone \<Rightarrow> zone_exn + nat \<times> 'f zone" where
  "allocate_expand malloc sz z = (let next = grow (cl_chunk_size z) sz in
     case malloc (sizeof_chunk + next) of
       None \<Rightarrow> Inl Zone_bad_alloc
     | Some c \<Rightarrow> Inr (c + sizeof_chunk, z\<lparr>cl_chunks := (c, next) # cl_chunks z, cl_free := next,
         cl_ptr := c + sizeof_chunk\<rparr>))"

text \<open>The block between the pointer and the end of what was asked for is used up.\<close>

definition use_up :: "nat \<Rightarrow> 'f zone \<Rightarrow> 'f zone" where
  "use_up n z = z\<lparr>cl_free := cl_free z - n, cl_ptr := cl_ptr z + n\<rparr>"

definition allocate_align :: "memory \<Rightarrow> nat \<Rightarrow> nat \<Rightarrow> 'f zone \<Rightarrow> zone_exn + nat \<times> 'f zone" where
  "allocate_align malloc sz align z =
    (let aligned = get_aligned (cl_ptr z) align; adjusted_size = wrap (sz + (aligned - cl_ptr z)) in
     if cl_free z < adjusted_size then
       bind_result (allocate_expand malloc (wrap (sz + align - 1)) z) (\<lambda>(ptr, z).
         let aligned = get_aligned ptr align; adjusted_size = sz + (aligned - cl_ptr z) in
         Inr (aligned, use_up adjusted_size z))
     else Inr (aligned, use_up adjusted_size z))"

definition allocate_no_align :: "memory \<Rightarrow> nat \<Rightarrow> 'f zone \<Rightarrow> zone_exn + nat \<times> 'f zone" where
  "allocate_no_align malloc sz z =
    (if cl_free z < sz then bind_result (allocate_expand malloc sz z) (\<lambda>(ptr, z). Inr (ptr, use_up sz z))
     else Inr (cl_ptr z, use_up sz z))"

definition undo_allocate :: "nat \<Rightarrow> 'f zone \<Rightarrow> 'f zone" where
  "undo_allocate sz z = z\<lparr>cl_ptr := cl_ptr z - sz, cl_free := cl_free z + sz\<rparr>"

subsection \<open>Finalizers\<close>

text \<open>\<open>fin_array\<close> are those between \<open>m_array\<close> and \<open>m_tail\<close>, \<open>fin_end\<close> the room there is.\<close>

definition push_finalizer :: "memory \<Rightarrow> 'f \<Rightarrow> 'f zone \<Rightarrow> zone_exn + 'f zone" where
  "push_finalizer malloc f z =
    (if length (fin_array z) = fin_end z then
       (let nnext = (if fin_end z = 0 then (if sizeof_finalizer < 72 div 2 then 72 div sizeof_finalizer else 8)
          else fin_end z * 2)
        in case malloc (sizeof_finalizer * nnext) of
          None \<Rightarrow> Inl Zone_bad_alloc
        | Some _ \<Rightarrow> Inr (z\<lparr>fin_array := fin_array z @ [f], fin_end := nnext\<rparr>))
     else Inr (z\<lparr>fin_array := fin_array z @ [f]\<rparr>))"

text \<open>\<open>allocate<T>\<close>: \<open>ok\<close> says whether the constructor of the object returns; when it throws, or when the
  finalizer cannot be pushed, the memory is given back.\<close>

definition allocate :: "memory \<Rightarrow> memory \<Rightarrow> bool \<Rightarrow> nat \<Rightarrow> nat \<Rightarrow> 'f \<Rightarrow> 'f zone \<Rightarrow> (zone_exn option + nat) \<times> 'f zone" where
  "allocate malloc malloc2 ok sz align f z = (case allocate_align malloc sz align z of
      Inl e \<Rightarrow> (Inl (Some e), z)
    | Inr (x, z) \<Rightarrow> (case push_finalizer malloc2 f z of
        Inl e \<Rightarrow> (Inl (Some e), undo_allocate sz z)
      | Inr z \<Rightarrow> if ok then (Inr x, z)
          else (Inl None, undo_allocate sz (z\<lparr>fin_array := butlast (fin_array z)\<rparr>))))"

text \<open>\<open>finalizer_array::clear\<close> calls the finalizers, the last one first; the result lists them in this
  order. \<open>chunk_list::clear\<close> frees every chunk but the oldest.\<close>

definition finalizer_clear :: "'f zone \<Rightarrow> 'f list \<times> 'f zone" where
  "finalizer_clear z = (rev (fin_array z), z\<lparr>fin_array := []\<rparr>)"

definition chunk_list_clear :: "nat \<Rightarrow> 'f zone \<Rightarrow> 'f zone" where
  "chunk_list_clear chunk_size z = (let c = last (cl_chunks z) in
     z\<lparr>cl_chunks := [c], cl_free := chunk_size, cl_ptr := fst c + sizeof_chunk\<rparr>)"

definition clear :: "'f zone \<Rightarrow> 'f list \<times> 'f zone" where
  "clear z = (case finalizer_clear z of (fs, z) \<Rightarrow> (fs, chunk_list_clear (cl_chunk_size z) z))"

subsection \<open>The blocks a zone has given away\<close>

definition apart :: "nat \<times> nat \<Rightarrow> nat \<times> nat \<Rightarrow> bool" where
  "apart a b \<longleftrightarrow> fst a + snd a \<le> fst b \<or> fst b + snd b \<le> fst a"

definition inside_of :: "nat \<times> nat \<Rightarrow> nat \<times> nat \<Rightarrow> bool" where
  "inside_of a b \<longleftrightarrow> fst b \<le> fst a \<and> fst a + snd a \<le> fst b + snd b"

text \<open>The memory of a chunk, and the part of it that is given away.\<close>

definition chunk_block :: "nat \<times> nat \<Rightarrow> nat \<times> nat" where
  "chunk_block c = (fst c, sizeof_chunk + snd c)"

definition payload :: "nat \<times> nat \<Rightarrow> nat \<times> nat" where
  "payload c = (fst c + sizeof_chunk, snd c)"

text \<open>\<open>malloc\<close> gives memory that is not part of a live chunk.\<close>

definition fresh :: "memory \<Rightarrow> 'f zone \<Rightarrow> bool" where
  "fresh malloc z \<longleftrightarrow> (\<forall>n a c. malloc n = Some a \<longrightarrow> c \<in> set (cl_chunks z) \<longrightarrow> apart (a, n) (chunk_block c))"

definition small :: "nat \<Rightarrow> bool" where
  "small n \<longleftrightarrow> n < 2 ^ 62"

inductive zone_reaches :: "'f zone \<Rightarrow> (nat \<times> nat) list \<Rightarrow> bool" where
  new: "zone_new malloc chunk_size = Inr z \<Longrightarrow> zone_reaches z []"
| aligned: "zone_reaches z bs \<Longrightarrow> fresh malloc z \<Longrightarrow> small sz \<Longrightarrow> small align \<Longrightarrow> 0 < align
    \<Longrightarrow> allocate_align malloc sz align z = Inr (p, z') \<Longrightarrow> zone_reaches z' ((p, sz) # bs)"
| plain: "zone_reaches z bs \<Longrightarrow> fresh malloc z \<Longrightarrow> allocate_no_align malloc sz z = Inr (p, z') \<Longrightarrow> zone_reaches z' ((p, sz) # bs)"
| constructed: "zone_reaches z bs \<Longrightarrow> fresh malloc z \<Longrightarrow> small sz \<Longrightarrow> small align \<Longrightarrow> 0 < align
    \<Longrightarrow> allocate malloc malloc2 ok sz align f z = (r, z') \<Longrightarrow> zone_reaches z' (case r of Inl e \<Rightarrow> bs | Inr p \<Rightarrow> (p, sz) # bs)"
| pushed: "zone_reaches z bs \<Longrightarrow> push_finalizer malloc f z = Inr z' \<Longrightarrow> zone_reaches z' bs"
| cleared: "zone_reaches z bs \<Longrightarrow> clear z = (fs, z') \<Longrightarrow> zone_reaches z' []"

definition zone_ok :: "'f zone \<Rightarrow> (nat \<times> nat) list \<Rightarrow> bool" where
  "zone_ok z bs \<longleftrightarrow> (\<exists>c cs. cl_chunks z = c # cs
     \<and> sorted_wrt apart (map chunk_block (c # cs)) \<and> sorted_wrt apart bs
     \<and> fst c + sizeof_chunk \<le> cl_ptr z \<and> cl_ptr z + cl_free z = fst c + sizeof_chunk + snd c
     \<and> snd (last (c # cs)) = cl_chunk_size z
     \<and> (\<forall>b\<in>set bs. (inside_of b (payload c) \<and> fst b + snd b \<le> cl_ptr z) \<or> (\<exists>d\<in>set cs. inside_of b (payload d))))"

lemma apart_sym: "apart a b \<Longrightarrow> apart b a"
  by (auto simp: apart_def)

lemma within_apart: "inside_of a c \<Longrightarrow> inside_of b d \<Longrightarrow> apart c d \<Longrightarrow> apart a b"
  by (auto simp: inside_of_def apart_def)

lemma payload_apart: "apart (chunk_block c) (chunk_block d) \<Longrightarrow> apart (payload c) (payload d)"
  by (auto simp: apart_def chunk_block_def payload_def)

lemma zone_okE:
  assumes "zone_ok z bs"
  obtains c cs where "cl_chunks z = c # cs" "sorted_wrt apart (map chunk_block (c # cs))" "sorted_wrt apart bs"
    "fst c + sizeof_chunk \<le> cl_ptr z" "cl_ptr z + cl_free z = fst c + sizeof_chunk + snd c"
    "snd (last (c # cs)) = cl_chunk_size z"
    "\<And>b. b \<in> set bs \<Longrightarrow> (inside_of b (payload c) \<and> fst b + snd b \<le> cl_ptr z) \<or> (\<exists>d\<in>set cs. inside_of b (payload d))"
  using assms unfolding zone_ok_def by blast

lemma get_aligned_bounds:
  assumes "0 < align"
  shows "ptr \<le> get_aligned ptr align" "get_aligned ptr align < ptr + align" "align dvd get_aligned ptr align"
proof -
  have "(ptr + (align - 1)) div align * align + (ptr + (align - 1)) mod align = ptr + (align - 1)" by simp
  moreover have "(ptr + (align - 1)) mod align < align" using assms by simp
  ultimately show "ptr \<le> get_aligned ptr align" "get_aligned ptr align < ptr + align"
    unfolding get_aligned_def by linarith+
qed (simp add: get_aligned_def)

lemma zone_ok_blocks:
  assumes "zone_ok z bs"
  shows "sorted_wrt apart bs" "b \<in> set bs \<Longrightarrow> \<exists>c\<in>set (cl_chunks z). inside_of b (payload c)"
proof -
  obtain c cs where "cl_chunks z = c # cs" "sorted_wrt apart bs"
    "\<And>b. b \<in> set bs \<Longrightarrow> (inside_of b (payload c) \<and> fst b + snd b \<le> cl_ptr z) \<or> (\<exists>d\<in>set cs. inside_of b (payload d))"
    using zone_okE [OF assms] by blast
  then show "sorted_wrt apart bs" "b \<in> set bs \<Longrightarrow> \<exists>c\<in>set (cl_chunks z). inside_of b (payload c)"
    by (simp, metis list.set_intros)
qed

text \<open>A block behind the pointer that fits what is free.\<close>

lemma use_up_ok:
  assumes "zone_ok z bs" "cl_ptr z \<le> p" "sz + (p - cl_ptr z) \<le> cl_free z"
  shows "zone_ok (use_up (sz + (p - cl_ptr z)) z) ((p, sz) # bs)"
    "zone_ok (undo_allocate sz (use_up (sz + (p - cl_ptr z)) z)) bs"
proof -
  obtain c cs where z: "cl_chunks z = c # cs" "sorted_wrt apart (map chunk_block (c # cs))" "sorted_wrt apart bs"
    "fst c + sizeof_chunk \<le> cl_ptr z" "cl_ptr z + cl_free z = fst c + sizeof_chunk + snd c"
    "snd (last (c # cs)) = cl_chunk_size z"
    and bs: "\<And>b. b \<in> set bs \<Longrightarrow> (inside_of b (payload c) \<and> fst b + snd b \<le> cl_ptr z) \<or> (\<exists>d\<in>set cs. inside_of b (payload d))"
    using zone_okE [OF assms(1)] by blast
  have new: "inside_of (p, sz) (payload c)" using assms(2,3) z(4,5) by (auto simp: inside_of_def payload_def)
  have "apart (p, sz) b" if "b \<in> set bs" for b
    using bs [OF that]
  proof
    assume "inside_of b (payload c) \<and> fst b + snd b \<le> cl_ptr z"
    then show ?thesis using assms(2) by (simp add: apart_def)
  next
    assume "\<exists>d\<in>set cs. inside_of b (payload d)"
    then obtain d where d: "d \<in> set cs" "inside_of b (payload d)" by blast
    then have "apart (chunk_block c) (chunk_block d)" using z(2) by simp
    then show ?thesis using within_apart [OF new d(2)] payload_apart by blast
  qed
  moreover have "fst b + snd b \<le> p + sz" if "fst b + snd b \<le> cl_ptr z" for b :: "nat \<times> nat" using that assms(2) by simp
  ultimately show "zone_ok (use_up (sz + (p - cl_ptr z)) z) ((p, sz) # bs)"
    using z bs new assms(2,3) unfolding zone_ok_def by (auto simp: use_up_def dest!: bs)
  show "zone_ok (undo_allocate sz (use_up (sz + (p - cl_ptr z)) z)) bs"
    using z bs assms(2,3) unfolding zone_ok_def by (auto simp: use_up_def undo_allocate_def dest!: bs)
qed

lemma expand_ok:
  assumes "zone_ok z bs" "fresh malloc z" "allocate_expand malloc sz z = Inr (ptr, z1)"
  shows "zone_ok z1 bs \<and> cl_ptr z1 = ptr \<and> sz \<le> cl_free z1"
proof -
  obtain c cs where z: "cl_chunks z = c # cs" "sorted_wrt apart (map chunk_block (c # cs))" "sorted_wrt apart bs"
    "fst c + sizeof_chunk \<le> cl_ptr z" "cl_ptr z + cl_free z = fst c + sizeof_chunk + snd c"
    "snd (last (c # cs)) = cl_chunk_size z"
    and bs: "\<And>b. b \<in> set bs \<Longrightarrow> (inside_of b (payload c) \<and> fst b + snd b \<le> cl_ptr z) \<or> (\<exists>d\<in>set cs. inside_of b (payload d))"
    using zone_okE [OF assms(1)] by blast
  define next_size where "next_size = grow (cl_chunk_size z) sz"
  obtain a where a: "malloc (sizeof_chunk + next_size) = Some a" "ptr = a + sizeof_chunk"
    "z1 = z\<lparr>cl_chunks := (a, next_size) # cl_chunks z, cl_free := next_size, cl_ptr := a + sizeof_chunk\<rparr>"
    using assms(3) by (auto simp: allocate_expand_def next_size_def Let_def split: option.splits)
  have "apart (chunk_block (a, next_size)) (chunk_block d)" if "d \<in> set (cl_chunks z)" for d
    using assms(2) a(1) that by (simp add: fresh_def chunk_block_def)
  then have "sorted_wrt apart (map chunk_block ((a, next_size) # c # cs))" using z(1,2) by simp
  then have "zone_ok z1 bs" using z bs unfolding zone_ok_def by (auto simp: a(3) dest!: bs)
  then show ?thesis using grow_enough [of sz "cl_chunk_size z"] by (simp add: a next_size_def)
qed

lemma allocate_align_ok:
  assumes "zone_ok z bs" "fresh malloc z" "small sz" "small align" "0 < align" "allocate_align malloc sz align z = Inr (p, z')"
  shows "zone_ok z' ((p, sz) # bs) \<and> zone_ok (undo_allocate sz z') bs \<and> align dvd p"
proof -
  have w: "wrap (sz + (get_aligned ptr align - ptr)) = sz + (get_aligned ptr align - ptr)"
    "wrap (sz + align - 1) = sz + align - 1" "get_aligned ptr align - ptr < align" for ptr
    using assms(3,4) get_aligned_bounds(2) [OF assms(5), of ptr] assms(5) by (auto simp: small_def)
  show ?thesis
  proof (cases "cl_free z < sz + (get_aligned (cl_ptr z) align - cl_ptr z)")
    case True
    then obtain ptr z1 where z1: "allocate_expand malloc (sz + align - 1) z = Inr (ptr, z1)"
      "p = get_aligned ptr align" "z' = use_up (sz + (p - cl_ptr z1)) z1"
      using assms(6) by (auto simp: allocate_align_def Let_def w w(2) [unfolded One_nat_def] bind_result_Inr_iff)
    note e = expand_ok [OF assms(1,2) z1(1)]
    have "cl_ptr z1 \<le> p" using e get_aligned_bounds(1) [OF assms(5), of ptr] by (simp add: z1(2))
    moreover have "p - cl_ptr z1 < align" using w(3) [of ptr] e by (simp add: z1(2))
    then have "sz + (p - cl_ptr z1) \<le> cl_free z1" using e by linarith
    ultimately show ?thesis
      using use_up_ok [of z1 bs p sz] e get_aligned_bounds(3) [OF assms(5), of ptr] by (simp add: z1(2,3))
  next
    case False
    then have "p = get_aligned (cl_ptr z) align" "z' = use_up (sz + (p - cl_ptr z)) z"
      using assms(6) by (auto simp: allocate_align_def Let_def w)
    then show ?thesis
      using use_up_ok [OF assms(1), of p sz] False get_aligned_bounds [OF assms(5), of "cl_ptr z"] by simp
  qed
qed

lemma allocate_no_align_ok:
  assumes "zone_ok z bs" "fresh malloc z" "allocate_no_align malloc sz z = Inr (p, z')"
  shows "zone_ok z' ((p, sz) # bs)"
proof (cases "cl_free z < sz")
  case True
  then obtain z1 where z1: "allocate_expand malloc sz z = Inr (p, z1)" "z' = use_up sz z1"
    using assms(3) by (auto simp: allocate_no_align_def bind_result_Inr_iff)
  from expand_ok [OF assms(1,2) this(1)] show ?thesis using use_up_ok(1) [of z1 bs p sz] z1(2) by simp
next
  case False
  then have "p = cl_ptr z" "z' = use_up sz z" using assms(3) by (auto simp: allocate_no_align_def)
  then show ?thesis using use_up_ok(1) [OF assms(1), of p sz] False by simp
qed

lemma push_finalizer_fields:
  assumes "push_finalizer malloc f z = Inr z'"
  obtains fs n where "z' = z\<lparr>fin_array := fs, fin_end := n\<rparr>"
proof (cases "length (fin_array z) = fin_end z")
  case True
  then show ?thesis using assms that by (auto simp: push_finalizer_def Let_def split: option.splits)
next
  case False
  then have "z' = z\<lparr>fin_array := fin_array z @ [f], fin_end := fin_end z\<rparr>"
    using assms by (cases z) (auto simp: push_finalizer_def)
  then show ?thesis by (rule that)
qed

lemma push_finalizer_ok:
  assumes "push_finalizer malloc f z = Inr z'"
  shows "zone_ok z' bs = zone_ok z bs"
    "zone_ok (undo_allocate sz (z'\<lparr>fin_array := gs\<rparr>)) bs = zone_ok (undo_allocate sz z) bs"
proof -
  obtain fs n where "z' = z\<lparr>fin_array := fs, fin_end := n\<rparr>" by (rule push_finalizer_fields [OF assms])
  then show "zone_ok z' bs = zone_ok z bs"
    "zone_ok (undo_allocate sz (z'\<lparr>fin_array := gs\<rparr>)) bs = zone_ok (undo_allocate sz z) bs"
    by (simp_all add: zone_ok_def undo_allocate_def)
qed

lemma allocate_ok:
  assumes "zone_ok z bs" "fresh malloc z" "small sz" "small align" "0 < align" "allocate malloc malloc2 ok sz align f z = (r, z')"
  shows "zone_ok z' (case r of Inl e \<Rightarrow> bs | Inr p \<Rightarrow> (p, sz) # bs)"
proof (cases "allocate_align malloc sz align z")
  case (Inl e)
  then show ?thesis using assms(1,6) by (auto simp: allocate_def)
next
  case (Inr y)
  then obtain x z1 where x: "allocate_align malloc sz align z = Inr (x, z1)" by (cases y) auto
  note a = allocate_align_ok [OF assms(1-5) x]
  show ?thesis
  proof (cases "push_finalizer malloc2 f z1")
    case (Inl e)
    then show ?thesis using assms(6) a x by (auto simp: allocate_def)
  next
    case (Inr z2)
    then show ?thesis
      using assms(6) a x push_finalizer_ok(1) [OF Inr, of "(x, sz) # bs"] push_finalizer_ok(2) [OF Inr, of sz _ bs]
      by (cases ok) (auto simp: allocate_def)
  qed
qed

lemma clear_ok:
  assumes "zone_ok z bs" "clear z = (fs, z')"
  shows "zone_ok z' []"
proof -
  obtain c cs where "cl_chunks z = c # cs" "snd (last (c # cs)) = cl_chunk_size z" using zone_okE [OF assms(1)] by metis
  moreover define d where "d = last (c # cs)"
  ultimately have "z' = z\<lparr>fin_array := [], cl_chunks := [d], cl_free := snd d, cl_ptr := fst d + sizeof_chunk\<rparr>"
    "snd d = cl_chunk_size z"
    using assms(2) by (auto simp: clear_def finalizer_clear_def chunk_list_clear_def Let_def)
  then show ?thesis unfolding zone_ok_def by (intro exI [of _ d] exI [of _ "[]"]) simp
qed

lemma new_ok: "zone_new malloc n = Inr z \<Longrightarrow> zone_ok z []"
  by (auto simp: zone_new_def zone_ok_def split: option.splits)

lemma zone_reaches_ok: "zone_reaches z bs \<Longrightarrow> zone_ok z bs"
proof (induction rule: zone_reaches.induct)
  case (new malloc chunk_size z)
  then show ?case by (rule new_ok)
next
  case (aligned z bs malloc sz align p z')
  then show ?case using allocate_align_ok by blast
next
  case (plain z bs malloc sz p z')
  then show ?case using allocate_no_align_ok by blast
next
  case (constructed z bs malloc sz align malloc2 ok f r z')
  show ?case by (rule allocate_ok [OF constructed.IH constructed.hyps(2-6)])
next
  case (pushed z bs malloc f z')
  then show ?case using push_finalizer_ok(1) [OF pushed.hyps(2)] by simp
next
  case (cleared z bs fs z')
  then show ?case using clear_ok by blast
qed

subsection \<open>Properties\<close>

text \<open>
  C30: the blocks of a zone do not overlap. After any sequence of allocations, of constructions that
  succeed or fail, of finalizers and of \<open>clear\<close>, the blocks given away since the last \<open>clear\<close> are pairwise
  apart and each lies in the payload of a chunk the zone holds; and whatever \<open>malloc\<close> answers, the next
  block is aligned as asked and apart from all of them. \<open>malloc\<close> gives memory that is not in use.
\<close>

theorem blocks_disjoint:
  assumes "zone_reaches z bs" "fresh malloc z" "small sz" "small align" "0 < align"
    and "allocate_align malloc sz align z = Inr (p, z')"
  shows "sorted_wrt apart bs \<and> (\<forall>b\<in>set bs. \<exists>c\<in>set (cl_chunks z). inside_of b (payload c))
    \<and> align dvd p \<and> (\<exists>c\<in>set (cl_chunks z'). inside_of (p, sz) (payload c)) \<and> (\<forall>b\<in>set bs. apart (p, sz) b)"
proof -
  have ok: "zone_ok z bs" using zone_reaches_ok [OF assms(1)] .
  have a: "zone_ok z' ((p, sz) # bs)" "align dvd p" using allocate_align_ok [OF ok assms(2-6)] by simp_all
  have "\<exists>c\<in>set (cl_chunks z'). inside_of (p, sz) (payload c)" by (rule zone_ok_blocks(2) [OF a(1)]) simp
  moreover have "\<forall>b\<in>set bs. apart (p, sz) b" using zone_ok_blocks(1) [OF a(1)] by simp
  ultimately show ?thesis using zone_ok_blocks [OF ok] a(2) by blast
qed

text \<open>A zone of chunks of 16 bytes on a memory that grows upwards, after one block of 10 bytes; 8 more do not fit.\<close>

definition sample_zone :: "nat zone" where
  "sample_zone = \<lparr>cl_chunk_size = 16, cl_free = 6, cl_ptr = 1018, cl_chunks = [(1000, 16)], fin_array = [], fin_end = 0\<rparr>"

lemma sample_zone_reached: "zone_reaches sample_zone [(1008, 10)]"
proof -
  have "zone_reaches (sample_zone\<lparr>cl_free := 16, cl_ptr := 1008\<rparr>) []"
    by (rule zone_reaches.new [where malloc = "\<lambda>_. Some 1000" and chunk_size = 16])
      (simp add: zone_new_def sample_zone_def sizeof_chunk_def)
  then show ?thesis
    by (rule zone_reaches.plain [where malloc = "\<lambda>_. None"])
      (simp_all add: fresh_def allocate_no_align_def sample_zone_def use_up_def)
qed

theorem blocks_disjoint_witness:
  "8 dvd (2008 :: nat) \<and> apart (2008, 8) (1008, 10)"
proof -
  have "allocate_align (\<lambda>_. Some 2000) 8 8 sample_zone
    = Inr (2008, sample_zone\<lparr>cl_chunks := [(2000, 16), (1000, 16)], cl_free := 8, cl_ptr := 2016\<rparr>)"
    by (simp add: allocate_align_def allocate_expand_def sample_zone_def get_aligned_def use_up_def sizeof_chunk_def grow.simps Let_def)
  moreover have "fresh (\<lambda>_. Some 2000) sample_zone"
    by (simp add: fresh_def sample_zone_def chunk_block_def apart_def sizeof_chunk_def)
  ultimately show ?thesis using blocks_disjoint [OF sample_zone_reached, of "\<lambda>_. Some 2000" 8 8] by (simp add: small_def)
qed

end
