(* ===== verification/ObjectOps.thy ===== *)
theory ObjectOps
  imports FloatBits Unpack Zone
begin

text \<open>
  \<open>rpclib/rpc/msgpack/v1/object.hpp\<close>: what can be done with a decoded object besides packing it: comparing
  (\<open>operator==\<close>), copying it into a zone (\<open>aligned_zone_size\<close>, \<open>object_with_zone\<close>, \<open>clone\<close>) and printing it
  (\<open>operator<<\<close>). For the copy an object is \<open>located\<close>: its pointers and what they point to.
\<close>

subsection \<open>Equality\<close>

lemma size_pair_less:
  "((k, v), p) \<in> set (zip xs ys) \<Longrightarrow> size k < Suc (size_list (size_prod size size) xs)"
  "((k, v), p) \<in> set (zip xs ys) \<Longrightarrow> size v < Suc (size_list (size_prod size size) xs)"
  by (drule set_zip_leftD, induction xs, auto)+

lemma size_item_less: "(x, y) \<in> set (zip xs ys) \<Longrightarrow> size x < Suc (size_list size xs)"
  by (drule set_zip_leftD, induction xs) auto

text \<open>The bytes of an extension begin with its type, and its size does not count it. Both kinds of float are
  kept as \<open>double\<close>.\<close>

function object_eq :: "object \<Rightarrow> object \<Rightarrow> bool" where
  "object_eq x y = (case (x, y) of
      (NIL, NIL) \<Rightarrow> True
    | (BOOLEAN a, BOOLEAN b) \<Rightarrow> a = b
    | (POSITIVE_INTEGER a, POSITIVE_INTEGER b) \<Rightarrow> a = b
    | (NEGATIVE_INTEGER a, NEGATIVE_INTEGER b) \<Rightarrow> a = b
    | (FLOAT32 a, FLOAT32 b) \<Rightarrow> feq (float_of_bits a) (float_of_bits b)
    | (FLOAT64 a, FLOAT64 b) \<Rightarrow> feq (double_of_bits a) (double_of_bits b)
    | (STRING a, STRING b) \<Rightarrow> length a = length b \<and> take (length a) a = take (length a) b
    | (BIN a, BIN b) \<Rightarrow> length a = length b \<and> take (length a) a = take (length a) b
    | (EXT t a, EXT u b) \<Rightarrow> length a = length b \<and> take (length a) (t # a) = take (length a) (u # b)
    | (ARRAY xs, ARRAY ys) \<Rightarrow> length xs = length ys \<and> list_all (\<lambda>(x, y). object_eq x y) (zip xs ys)
    | (MAP xs, MAP ys) \<Rightarrow> length xs = length ys
        \<and> list_all (\<lambda>((k, v), (k', v')). object_eq k k' \<and> object_eq v v') (zip xs ys)
    | _ \<Rightarrow> False)"
  by pat_completeness auto

termination
  by (relation "measure (\<lambda>(x, y). size x)") (auto dest: size_pair_less size_item_less)

declare object_eq.simps [simp del]

text \<open>What the comparison looks at: numbers by value, and of an extension as many bytes as its size says,
  counted from its type.\<close>

datatype view = V_OTHER object | V_FLOAT bool fp | V_EXT nat "byte list" | V_ARRAY "view list" | V_MAP "(view \<times> view) list"

fun view_of :: "object \<Rightarrow> view" where
  "view_of (FLOAT32 b) = V_FLOAT True (float_of_bits b)"
| "view_of (FLOAT64 b) = V_FLOAT False (double_of_bits b)"
| "view_of (EXT t s) = V_EXT (length s) (take (length s) (t # s))"
| "view_of (ARRAY xs) = V_ARRAY (map view_of xs)"
| "view_of (MAP xs) = V_MAP (map (\<lambda>(k, v). (view_of k, view_of v)) xs)"
| "view_of x = V_OTHER x"

fun nan_free :: "object \<Rightarrow> bool" where
  "nan_free (FLOAT32 b) = (float_of_bits b \<noteq> NaN)"
| "nan_free (FLOAT64 b) = (double_of_bits b \<noteq> NaN)"
| "nan_free (ARRAY xs) = list_all nan_free xs"
| "nan_free (MAP xs) = list_all (\<lambda>(k, v). nan_free k \<and> nan_free v) xs"
| "nan_free x = True"

lemma list_all_zip_map:
  assumes "length xs = length ys" "\<And>x y. x \<in> set xs \<Longrightarrow> P (x, y) \<longleftrightarrow> ok x \<and> f x = f y"
  shows "list_all P (zip xs ys) \<longleftrightarrow> list_all ok xs \<and> map f xs = map f ys"
  using assms by (induction xs ys rule: list_induct2) auto

lemma object_eq_ARRAY:
  "object_eq (ARRAY xs) (ARRAY ys) \<longleftrightarrow> length xs = length ys \<and> list_all (\<lambda>(x, y). object_eq x y) (zip xs ys)"
  by (subst object_eq.simps) simp

lemma object_eq_MAP:
  "object_eq (MAP xs) (MAP ys) \<longleftrightarrow> length xs = length ys
     \<and> list_all (\<lambda>(p, q). object_eq (fst p) (fst q) \<and> object_eq (snd p) (snd q)) (zip xs ys)"
  by (subst object_eq.simps) (simp add: split_def)

lemma object_eq_iff: "object_eq x y \<longleftrightarrow> nan_free x \<and> view_of x = view_of y"
proof (induction x arbitrary: y)
  case (ARRAY xs)
  show ?case
  proof (cases y)
    case y: (ARRAY ys)
    show ?thesis
    proof (cases "length xs = length ys")
      case True
      have "list_all (\<lambda>(x, y). object_eq x y) (zip xs ys) \<longleftrightarrow> list_all nan_free xs \<and> map view_of xs = map view_of ys"
        using ARRAY by (intro list_all_zip_map [OF True]) simp
      then show ?thesis using True by (simp add: y object_eq_ARRAY)
    next
      case False
      then show ?thesis by (simp add: y object_eq_ARRAY) (metis length_map)
    qed
  qed (subst object_eq.simps, simp)+
next
  case (MAP xs)
  show ?case
  proof (cases y)
    case y: (MAP ys)
    show ?thesis
    proof (cases "length xs = length ys")
      case True
      have "list_all (\<lambda>(p, q). object_eq (fst p) (fst q) \<and> object_eq (snd p) (snd q)) (zip xs ys)
        \<longleftrightarrow> list_all (\<lambda>(k, v). nan_free k \<and> nan_free v) xs
          \<and> map (\<lambda>(k, v). (view_of k, view_of v)) xs = map (\<lambda>(k, v). (view_of k, view_of v)) ys"
        using MAP by (intro list_all_zip_map [OF True]) (fastforce simp: fsts.simps snds.simps)
      then show ?thesis using True by (simp add: y object_eq_MAP)
    next
      case False
      then show ?thesis by (simp add: y object_eq_MAP) (metis length_map)
    qed
  qed (subst object_eq.simps, simp)+
qed (subst object_eq.simps, case_tac y; auto)+

subsection \<open>Objects in memory\<close>

text \<open>An object with the addresses of what it points to; other objects hold their value in place. An object
  has 24 bytes, an entry of a map two of them, and both are aligned to 8.\<close>

datatype located =
    L_PLAIN object
  | L_STR nat "byte list"
  | L_BIN nat "byte list"
  | L_EXT nat byte "byte list"
  | L_ARRAY nat "located list"
  | L_MAP nat "(located \<times> located) list"

definition sizeof_object :: nat where "sizeof_object = 24"
definition sizeof_object_kv :: nat where "sizeof_object_kv = 48"
definition alignof_object :: nat where "alignof_object = 8"

fun pointee :: "located \<Rightarrow> object" where
  "pointee (L_PLAIN x) = x"
| "pointee (L_STR p s) = STRING s"
| "pointee (L_BIN p s) = BIN s"
| "pointee (L_EXT p t s) = EXT t s"
| "pointee (L_ARRAY p xs) = ARRAY (map pointee xs)"
| "pointee (L_MAP p xs) = MAP (map (\<lambda>(k, v). (pointee k, pointee v)) xs)"

text \<open>The blocks of memory it uses.\<close>

fun blocks :: "located \<Rightarrow> (nat \<times> nat) list" where
  "blocks (L_PLAIN x) = []"
| "blocks (L_STR p s) = [(p, length s)]"
| "blocks (L_BIN p s) = [(p, length s)]"
| "blocks (L_EXT p t s) = [(p, length s + 1)]"
| "blocks (L_ARRAY p xs) = (p, sizeof_object * length xs) # concat (map blocks xs)"
| "blocks (L_MAP p xs) = (p, sizeof_object_kv * length xs) # concat (map (\<lambda>(k, v). blocks k @ blocks v) xs)"

definition aligned_size :: "nat \<Rightarrow> nat \<Rightarrow> nat" where
  "aligned_size sz align = (sz + align - 1) div align * align"

text \<open>With a \<open>size_t\<close> of eight bytes the size of an extension always takes its type.\<close>

definition add_ext_type_size :: "nat \<Rightarrow> nat" where "add_ext_type_size sz = sz + 1"

fun aligned_zone_size :: "located \<Rightarrow> nat" where
  "aligned_zone_size (L_ARRAY p xs) =
     aligned_size (sizeof_object * length xs) alignof_object + sum_list (map aligned_zone_size xs)"
| "aligned_zone_size (L_MAP p xs) =
     aligned_size (sizeof_object_kv * length xs) alignof_object
     + sum_list (map (\<lambda>(k, v). aligned_zone_size k + aligned_zone_size v) xs)"
| "aligned_zone_size (L_EXT p t s) = aligned_size (add_ext_type_size (length s)) 1"
| "aligned_zone_size (L_STR p s) = aligned_size (length s) 1"
| "aligned_zone_size (L_BIN p s) = aligned_size (length s) 1"
| "aligned_zone_size (L_PLAIN x) = 0"

subsection \<open>Copies\<close>

text \<open>\<open>object_with_zone\<close> copies an object into a zone, containers before their elements; \<open>mal\<close> answers what the zone
  asks of \<open>malloc\<close> in each of its states. The size of an extension has 32 bits, and so has the size with its type that is
  allocated and copied: for the longest extension it is 0, nothing is copied, and the object shows what stands
  behind the empty block: \<open>stray_bytes\<close>, memory that is not modelled.\<close>

definition stray_bytes :: "nat \<Rightarrow> nat \<Rightarrow> byte list" where
  "stray_bytes p n = map (\<lambda>k. undefined (p + k)) [0..<n]"

type_synonym 'f copier = "'f zone \<Rightarrow> zone_exn + located \<times> 'f zone"

function object_with_zone :: "('f zone \<Rightarrow> memory) \<Rightarrow> located \<Rightarrow> 'f zone \<Rightarrow> zone_exn + located \<times> 'f zone"
  and objects_with_zone :: "('f zone \<Rightarrow> memory) \<Rightarrow> located list \<Rightarrow> 'f zone \<Rightarrow> zone_exn + located list \<times> 'f zone"
  and entries_with_zone :: "('f zone \<Rightarrow> memory) \<Rightarrow> (located \<times> located) list \<Rightarrow> 'f zone
    \<Rightarrow> zone_exn + (located \<times> located) list \<times> 'f zone" where
  "object_with_zone mal (L_PLAIN x) z = Inr (L_PLAIN x, z)"
| "object_with_zone mal (L_STR p s) z =
     bind_result (allocate_align (mal z) (length s) 1 z) (\<lambda>(ptr, z). Inr (L_STR ptr s, z))"
| "object_with_zone mal (L_BIN p s) z =
     bind_result (allocate_align (mal z) (length s) 1 z) (\<lambda>(ptr, z). Inr (L_BIN ptr s, z))"
| "object_with_zone mal (L_EXT p t s) z =
     (let n = (length s + 1) mod 2 ^ 32 in
      bind_result (allocate_align (mal z) n 1 z) (\<lambda>(ptr, z).
        let bs = take n (t # s) @ drop n (stray_bytes ptr (length s + 1)) in Inr (L_EXT ptr (hd bs) (List.tl bs), z)))"
| "object_with_zone mal (L_ARRAY p xs) z =
     bind_result (allocate_align (mal z) (sizeof_object * length xs) alignof_object z) (\<lambda>(ptr, z).
     bind_result (objects_with_zone mal xs z) (\<lambda>(ys, z). Inr (L_ARRAY ptr ys, z)))"
| "object_with_zone mal (L_MAP p xs) z =
     bind_result (allocate_align (mal z) (sizeof_object_kv * length xs) alignof_object z) (\<lambda>(ptr, z).
     bind_result (entries_with_zone mal xs z) (\<lambda>(ys, z). Inr (L_MAP ptr ys, z)))"
| "objects_with_zone mal [] z = Inr ([], z)"
| "objects_with_zone mal (x # xs) z =
     bind_result (object_with_zone mal x z) (\<lambda>(y, z).
     bind_result (objects_with_zone mal xs z) (\<lambda>(ys, z). Inr (y # ys, z)))"
| "entries_with_zone mal [] z = Inr ([], z)"
| "entries_with_zone mal ((k, v) # xs) z =
     bind_result (object_with_zone mal k z) (\<lambda>(k, z).
     bind_result (object_with_zone mal v z) (\<lambda>(v, z).
     bind_result (entries_with_zone mal xs z) (\<lambda>(ys, z). Inr ((k, v) # ys, z))))"
  by pat_completeness auto

termination
  by (relation "measure (case_sum (\<lambda>(_, x, _). size x)
      (case_sum (\<lambda>(_, xs, _). size_list size xs) (\<lambda>(_, xs, _). size_list (size_prod size size) xs)))") auto

lemma object_with_zone_EXT:
  assumes "length s + 1 < 2 ^ 32"
  shows "object_with_zone mal (L_EXT p t s) z
    = bind_result (allocate_align (mal z) (length s + 1) 1 z) (\<lambda>(ptr, z). Inr (L_EXT ptr t s, z))"
proof -
  have "(length s + 1) mod 2 ^ 32 = length s + 1" using assms by simp
  then show ?thesis by (simp only: object_with_zone.simps) (simp add: Let_def stray_bytes_def)
qed

text \<open>\<open>clone\<close>: an object that needs no memory is copied as it is, without a zone.\<close>

definition clone :: "memory \<Rightarrow> ('f zone \<Rightarrow> memory) \<Rightarrow> located \<Rightarrow> zone_exn + located \<times> 'f zone option" where
  "clone malloc mal obj = (let sz = aligned_zone_size obj in
     if sz = 0 then Inr (obj, None)
     else bind_result (zone_new malloc sz) (\<lambda>z.
       bind_result (object_with_zone mal obj z) (\<lambda>(newobj, z). Inr (newobj, Some z))))"

subsection \<open>A copy is apart from everything else\<close>

text \<open>Lengths are numbers of 32 bits, that of an extension with its type too.\<close>

fun lengths_fit :: "located \<Rightarrow> bool" where
  "lengths_fit (L_STR p s) = (length s < 2 ^ 32)"
| "lengths_fit (L_BIN p s) = (length s < 2 ^ 32)"
| "lengths_fit (L_EXT p t s) = (length s + 1 < 2 ^ 32)"
| "lengths_fit (L_ARRAY p xs) = (length xs < 2 ^ 32 \<and> list_all lengths_fit xs)"
| "lengths_fit (L_MAP p xs) = (length xs < 2 ^ 32 \<and> list_all (\<lambda>(k, v). lengths_fit k \<and> lengths_fit v) xs)"
| "lengths_fit (L_PLAIN x) = True"

fun well_placed :: "located \<Rightarrow> bool" where
  "well_placed (L_ARRAY p xs) = (alignof_object dvd p \<and> list_all well_placed xs)"
| "well_placed (L_MAP p xs) = (alignof_object dvd p \<and> list_all (\<lambda>(k, v). well_placed k \<and> well_placed v) xs)"
| "well_placed _ = True"

text \<open>A zone with its blocks, all of whose chunks satisfy \<open>P\<close>.\<close>

definition holds :: "(nat \<times> nat \<Rightarrow> bool) \<Rightarrow> 'f zone \<Rightarrow> (nat \<times> nat) list \<Rightarrow> bool" where
  "holds P z bs \<longleftrightarrow> zone_ok z bs \<and> list_all P (cl_chunks z)"

definition provides :: "(nat \<times> nat \<Rightarrow> bool) \<Rightarrow> ('f zone \<Rightarrow> memory) \<Rightarrow> bool" where
  "provides P mal \<longleftrightarrow> (\<forall>z. fresh (mal z) z) \<and> (\<forall>z n a. mal z (sizeof_chunk + n) = Some a \<longrightarrow> P (a, n))"

lemma allocate_align_chunks:
  assumes "allocate_align (mal z) sz align z = Inr (p, z')" "list_all P (cl_chunks z)" "provides P mal"
  shows "list_all P (cl_chunks z')"
  using assms
  by (auto simp: allocate_align_def allocate_expand_def use_up_def provides_def Let_def bind_result_Inr_iff
      split: if_splits option.splits)

lemma allocate_holds:
  assumes "holds P z bs" "provides P mal" "allocate_align (mal z) sz align z = Inr (p, z')" "sz < 2 ^ 62" "align < 2 ^ 62" "0 < align"
  shows "holds P z' ((p, sz) # bs) \<and> align dvd p"
  using assms allocate_align_ok [of z bs "mal z" sz align p z'] allocate_align_chunks [of mal z sz align p z' P]
  by (simp add: holds_def provides_def small_def)

lemma copies_hold:
  assumes "provides P mal"
  shows
    "lengths_fit x \<Longrightarrow> holds P z bs \<Longrightarrow> object_with_zone mal x z = Inr (y, z')
      \<Longrightarrow> holds P z' (rev (blocks y) @ bs) \<and> pointee y = pointee x \<and> well_placed y"
    "list_all lengths_fit xs \<Longrightarrow> holds P z bs \<Longrightarrow> objects_with_zone mal xs z = Inr (ys, z')
      \<Longrightarrow> holds P z' (rev (concat (map blocks ys)) @ bs) \<and> map pointee ys = map pointee xs \<and> list_all well_placed ys"
    "list_all (\<lambda>(k, v). lengths_fit k \<and> lengths_fit v) es \<Longrightarrow> holds P z bs \<Longrightarrow> entries_with_zone mal es z = Inr (fs, z')
      \<Longrightarrow> holds P z' (rev (concat (map (\<lambda>(k, v). blocks k @ blocks v) fs)) @ bs)
        \<and> map (\<lambda>(k, v). (pointee k, pointee v)) fs = map (\<lambda>(k, v). (pointee k, pointee v)) es
        \<and> list_all (\<lambda>(k, v). well_placed k \<and> well_placed v) fs"
  using assms
proof (induction mal x z and mal xs z and mal es z arbitrary: bs y z' and bs ys z' and bs fs z'
    rule: object_with_zone_objects_with_zone_entries_with_zone.induct)
  case (1 mal x z)
  then show ?case by auto
next
  case (2 mal p s z)
  then show ?case using allocate_holds [of P z bs mal "length s" 1] by (auto simp: bind_result_Inr_iff)
next
  case (3 mal p s z)
  then show ?case using allocate_holds [of P z bs mal "length s" 1] by (auto simp: bind_result_Inr_iff)
next
  case (4 mal p t s z)
  then have n: "length s + 1 < 2 ^ 32" by simp
  show ?case using "4.prems" allocate_holds [of P z bs mal "length s + 1" 1] n
    by (auto simp: bind_result_Inr_iff object_with_zone_EXT [OF n] simp del: object_with_zone.simps)
next
  case (5 mal p xs z)
  then obtain ptr z1 ys where a: "allocate_align (mal z) (sizeof_object * length xs) alignof_object z = Inr (ptr, z1)"
    "objects_with_zone mal xs z1 = Inr (ys, z')" "y = L_ARRAY ptr ys"
    by (auto simp: bind_result_Inr_iff)
  have "holds P z1 ((ptr, sizeof_object * length xs) # bs) \<and> alignof_object dvd ptr"
    using allocate_holds [OF "5.prems"(2) "5.prems"(4) a(1)] "5.prems"(1) by (simp add: sizeof_object_def alignof_object_def)
  then show ?case using "5.IH" [of z1 "(ptr, sizeof_object * length xs) # bs" ys z'] "5.prems"(1,4) a
      map_eq_imp_length_eq [of pointee ys pointee xs] by simp
next
  case (6 mal p xs z)
  then obtain ptr z1 ys where a: "allocate_align (mal z) (sizeof_object_kv * length xs) alignof_object z = Inr (ptr, z1)"
    "entries_with_zone mal xs z1 = Inr (ys, z')" "y = L_MAP ptr ys"
    by (auto simp: bind_result_Inr_iff)
  have "holds P z1 ((ptr, sizeof_object_kv * length xs) # bs) \<and> alignof_object dvd ptr"
    using allocate_holds [OF "6.prems"(2) "6.prems"(4) a(1)] "6.prems"(1) by (simp add: sizeof_object_kv_def alignof_object_def)
  then show ?case using "6.IH" [of z1 "(ptr, sizeof_object_kv * length xs) # bs" ys z'] "6.prems"(1,4) a
      map_eq_imp_length_eq [of "\<lambda>(k, v). (pointee k, pointee v)" ys "\<lambda>(k, v). (pointee k, pointee v)" xs] by simp
next
  case (7 mal z)
  then show ?case by auto
next
  case (8 mal x xs z)
  then obtain y z1 ys' where a: "object_with_zone mal x z = Inr (y, z1)" "objects_with_zone mal xs z1 = Inr (ys', z')" "ys = y # ys'"
    by (auto simp: bind_result_Inr_iff)
  have "holds P z1 (rev (blocks y) @ bs) \<and> pointee y = pointee x \<and> well_placed y"
    using "8.IH"(1) [of bs y z1] "8.prems" a(1) by simp
  then show ?case using "8.IH"(2) [of z1 "rev (blocks y) @ bs" ys' z'] "8.prems"(1,4) a(2,3) by simp
next
  case (9 mal z)
  then show ?case by auto
next
  case (10 mal k v xs z)
  then obtain k' z1 v' z2 ys where a: "object_with_zone mal k z = Inr (k', z1)" "object_with_zone mal v z1 = Inr (v', z2)"
    "entries_with_zone mal xs z2 = Inr (ys, z')" "fs = (k', v') # ys"
    by (auto simp: bind_result_Inr_iff)
  have k: "holds P z1 (rev (blocks k') @ bs) \<and> pointee k' = pointee k \<and> well_placed k'"
    using "10.IH"(1) [of bs k' z1] "10.prems" a(1) by simp
  then have "holds P z2 (rev (blocks v') @ rev (blocks k') @ bs) \<and> pointee v' = pointee v \<and> well_placed v'"
    using "10.IH"(2) [of z1 "rev (blocks k') @ bs" v' z2] "10.prems"(1,4) a(2) by simp
  then show ?case
    using k "10.IH"(3) [of z2 "rev (blocks v') @ rev (blocks k') @ bs" ys z'] "10.prems"(1,4) a(3,4) by simp
qed

lemma aligned_size_ge: "0 < align \<Longrightarrow> sz \<le> aligned_size sz align"
  using get_aligned_bounds(1) [of align sz] by (simp add: aligned_size_def get_aligned_def)

lemma aligned_size_one [simp]: "aligned_size sz 1 = sz"
  by (simp add: aligned_size_def)

lemma aligned_zone_size_zero: "aligned_zone_size obj = 0 \<Longrightarrow> b \<in> set (blocks obj) \<Longrightarrow> snd b = 0"
proof (induction obj arbitrary: b)
  case (L_ARRAY p xs)
  have "sizeof_object * length xs = 0"
    using L_ARRAY.prems(1) aligned_size_ge [of alignof_object "sizeof_object * length xs"] by (simp add: alignof_object_def)
  then show ?case using L_ARRAY.prems(2) by (simp add: sizeof_object_def)
next
  case (L_MAP p xs)
  have "sizeof_object_kv * length xs = 0"
    using L_MAP.prems(1) aligned_size_ge [of alignof_object "sizeof_object_kv * length xs"] by (simp add: alignof_object_def)
  then show ?case using L_MAP.prems(2) by (simp add: sizeof_object_kv_def)
qed (auto simp: add_ext_type_size_def aligned_size_def)

lemma apart_empty: "snd a = 0 \<Longrightarrow> snd b = 0 \<Longrightarrow> apart a b"
  by (auto simp: apart_def)

lemma sorted_apart_empty: "(\<And>b. b \<in> set bs \<Longrightarrow> snd b = 0) \<Longrightarrow> sorted_wrt apart bs"
  by (induction bs) (auto simp: apart_def)

text \<open>Memory that \<open>malloc\<close> gives is not used by the object that is copied.\<close>

definition avoids :: "memory \<Rightarrow> (nat \<times> nat) list \<Rightarrow> bool" where
  "avoids malloc bs \<longleftrightarrow> (\<forall>n a. malloc n = Some a \<longrightarrow> list_all (apart (a, n)) bs)"

lemma zone_new_holds:
  assumes "zone_new malloc sz = Inr z" "avoids malloc bs"
  shows "holds (\<lambda>c. list_all (apart (chunk_block c)) bs) z []"
proof -
  have "cl_chunks z = [(a, sz)]" if "malloc (sizeof_chunk + sz) = Some a" for a
    using assms(1) that by (auto simp: zone_new_def)
  then show ?thesis using assms new_ok [OF assms(1)]
    by (auto simp: holds_def avoids_def chunk_block_def zone_new_def split: option.splits)
qed

lemma clone_holds:
  assumes "clone malloc mal obj = Inr (obj', Some z)" "lengths_fit obj" "avoids malloc (blocks obj)"
    and "\<And>z. fresh (mal z) z" "\<And>z. avoids (mal z) (blocks obj)"
  shows "holds (\<lambda>c. list_all (apart (chunk_block c)) (blocks obj)) z (rev (blocks obj')) \<and> pointee obj' = pointee obj \<and> well_placed obj'"
proof -
  obtain z0 where z0: "zone_new malloc (aligned_zone_size obj) = Inr z0" "object_with_zone mal obj z0 = Inr (obj', z)"
    using assms(1) by (auto simp: clone_def Let_def bind_result_Inr_iff split: if_splits)
  have p: "provides (\<lambda>c. list_all (apart (chunk_block c)) (blocks obj)) mal"
    using assms(4,5) by (auto simp: provides_def avoids_def chunk_block_def)
  show ?thesis
    using copies_hold(1) [OF p assms(2) zone_new_holds [OF z0(1) assms(3)] z0(2)] by simp
qed

text \<open>
  C39: a clone is a deep copy. When \<open>clone\<close> returns, the copy stands for the same object as the
  original; each of its blocks of memory lies inside a chunk of the zone that is returned with it (without a zone it
  has no memory of its own: its blocks are empty); they are pairwise apart, apart from every block of the original,
  and its containers are aligned, so that neither can be changed through the other. \<open>malloc\<close> gives memory
  that is not in use, and no extension is as long as the four gigabytes at which its size wraps around.
\<close>

theorem clone_deep:
  assumes "clone malloc mal obj = Inr (obj', r)" "lengths_fit obj" "well_placed obj"
    and "avoids malloc (blocks obj)" "\<And>z. fresh (mal z) z" "\<And>z. avoids (mal z) (blocks obj)"
  shows "pointee obj' = pointee obj \<and> sorted_wrt apart (blocks obj') \<and> well_placed obj'
    \<and> (\<forall>b\<in>set (blocks obj'). \<forall>c\<in>set (blocks obj). apart b c)
    \<and> (\<forall>b\<in>set (blocks obj'). case r of None \<Rightarrow> snd b = 0 | Some z \<Rightarrow> \<exists>d\<in>set (cl_chunks z). inside_of b (payload d))"
proof (cases r)
  case None
  then have "aligned_zone_size obj = 0" "obj' = obj"
    using assms(1) by (auto simp: clone_def Let_def bind_result_Inr_iff split: if_splits)
  then show ?thesis
    using aligned_zone_size_zero [of obj] sorted_apart_empty assms(3) None by (auto simp: apart_def)
next
  case (Some z)
  note h = clone_holds [OF assms(1) [unfolded Some] assms(2,4-6)]
  then have ok: "zone_ok z (rev (blocks obj'))" by (simp add: holds_def)
  have "sorted_wrt apart (blocks obj')"
    using zone_ok_blocks(1) [OF ok] by (simp add: sorted_wrt_rev) (rule sorted_wrt_mono_rel, auto intro: apart_sym)
  moreover have d: "\<exists>d\<in>set (cl_chunks z). inside_of b (payload d)" if "b \<in> set (blocks obj')" for b
    using zone_ok_blocks(2) [OF ok, of b] that unfolding set_rev by blast
  moreover have "apart b c" if b: "b \<in> set (blocks obj')" and c: "c \<in> set (blocks obj)" for b c
  proof -
    obtain d where d: "d \<in> set (cl_chunks z)" "inside_of b (payload d)" using d [OF b] by blast
    have "apart (chunk_block d) c" using h d(1) c by (simp add: holds_def list_all_iff)
    moreover have "inside_of b (chunk_block d)" using d(2) by (auto simp: inside_of_def payload_def chunk_block_def)
    ultimately show ?thesis using within_apart [of b "chunk_block d" c c] by (simp add: inside_of_def)
  qed
  ultimately show ?thesis using h Some by simp
qed

definition sample_source :: located where
  "sample_source = L_ARRAY 64 [L_STR 3 [0x61, 0x62, 0x63], L_ARRAY 128 [L_PLAIN NIL]]"

text \<open>A memory that answers with the first address behind the chunks of the zone, and not below 4096.\<close>

definition bump :: "'f zone \<Rightarrow> memory" where
  "bump z n = Some (foldr (\<lambda>c m. max (fst c + sizeof_chunk + snd c) m) (cl_chunks z) 4096)"

lemma bump_ge: "c \<in> set cs \<Longrightarrow> fst c + sizeof_chunk + snd c \<le> foldr (\<lambda>c m. max (fst c + sizeof_chunk + snd c) m) cs k"
  "k \<le> foldr (\<lambda>c m. max (fst c + sizeof_chunk + snd c) m) cs (k :: nat)"
  by (induction cs) auto

lemma bump_fresh: "fresh (bump z) z"
  unfolding fresh_def
proof (intro allI impI)
  fix n a c
  assume "bump z n = Some a" "c \<in> set (cl_chunks z)"
  then show "apart (a, n) (chunk_block c)"
    using bump_ge(1) [of c "cl_chunks z" 4096] by (auto simp: bump_def apart_def chunk_block_def)
qed

lemma bump_avoids: "(\<And>b. b \<in> set bs \<Longrightarrow> fst b + snd b \<le> 4096) \<Longrightarrow> avoids (bump z) bs"
  unfolding avoids_def list_all_iff
proof (intro allI impI ballI)
  fix n a b
  assume "\<And>b. b \<in> set bs \<Longrightarrow> fst b + snd b \<le> 4096" "bump z n = Some a" "b \<in> set bs"
  then show "apart (a, n) b" using bump_ge(2) [of 4096 "cl_chunks z"] by (fastforce simp: bump_def apart_def)
qed

definition sample_clone :: located where
  "sample_clone = L_ARRAY 1008 [L_STR 1056 [0x61, 0x62, 0x63], L_ARRAY 4104 [L_PLAIN NIL]]"

lemma sample_cloned:
  "\<exists>z. clone (\<lambda>_. Some 1000) bump sample_source = Inr (sample_clone, Some (z :: nat zone)) \<and> length (cl_chunks z) = 2"
  by (simp add: clone_def sample_source_def sample_clone_def aligned_size_def sizeof_object_def alignof_object_def zone_new_def
      sizeof_chunk_def Let_def allocate_align_def get_aligned_def use_up_def allocate_expand_def bump_def grow.simps)

theorem clone_deep_witness:
  "pointee sample_clone = pointee sample_source \<and> apart (4104, 24) (128, 24)"
proof -
  obtain z :: "nat zone" where z: "clone (\<lambda>_. Some 1000) bump sample_source = Inr (sample_clone, Some z)" using sample_cloned by blast
  have "avoids (\<lambda>_. Some 1000) (blocks sample_source)"
    by (simp add: avoids_def sample_source_def apart_def sizeof_object_def)
  moreover have "avoids (bump z) (blocks sample_source)" for z :: "nat zone"
    by (rule bump_avoids) (auto simp: sample_source_def sizeof_object_def)
  moreover have "lengths_fit sample_source" "well_placed sample_source" by (simp_all add: sample_source_def alignof_object_def)
  ultimately show ?thesis
    using clone_deep [OF z _ _ _ bump_fresh] by (simp add: sample_source_def sample_clone_def sizeof_object_def)
qed

subsection \<open>The size that is computed for a copy\<close>

text \<open>Strings of eight bytes each leave no gap before the next container.\<close>

fun no_gaps :: "located \<Rightarrow> bool" where
  "no_gaps (L_PLAIN x) = True"
| "no_gaps (L_STR p s) = (8 dvd length s)"
| "no_gaps (L_BIN p s) = (8 dvd length s)"
| "no_gaps (L_EXT p t s) = (8 dvd length s + 1 \<and> length s + 1 < 2 ^ 32)"
| "no_gaps (L_ARRAY p xs) = list_all no_gaps xs"
| "no_gaps (L_MAP p xs) = list_all (\<lambda>(k, v). no_gaps k \<and> no_gaps v) xs"

lemma get_aligned_dvd: "0 < align \<Longrightarrow> align dvd p \<Longrightarrow> get_aligned p align = p"
proof -
  assume a: "0 < align" "align dvd p"
  note b = get_aligned_bounds [OF a(1), of p]
  have "align dvd get_aligned p align - p" using b(3) a(2) by (rule dvd_diff_nat)
  then have "get_aligned p align - p = 0" using b(2) a(1) dvd_imp_le [of align "get_aligned p align - p"] by linarith
  then show ?thesis using b(1) by simp
qed

lemma aligned_size_dvd: "0 < align \<Longrightarrow> align dvd sz \<Longrightarrow> aligned_size sz align = sz"
  using get_aligned_dvd [of align sz] by (simp add: aligned_size_def get_aligned_def)

text \<open>An allocation that fits and needs no alignment.\<close>

lemma allocate_exact:
  assumes "align dvd cl_ptr z" "0 < align" "sz \<le> cl_free z" "sz < 2 ^ 64"
  shows "allocate_align malloc sz align z = Inr (cl_ptr z, use_up sz z)"
  using assms by (simp add: allocate_align_def get_aligned_dvd Let_def)

lemma use_up_use_up: "use_up n (use_up m z) = use_up (m + n) z"
  by (simp add: use_up_def)

lemma use_up_zero: "use_up 0 z = z"
  by (simp add: use_up_def)

lemma use_up_fields [simp]: "cl_ptr (use_up n z) = cl_ptr z + n" "cl_free (use_up n z) = cl_free z - n" "cl_chunks (use_up n z) = cl_chunks z"
  by (simp_all add: use_up_def)

lemma dvd_sum_list: "(\<And>x. x \<in> set xs \<Longrightarrow> d dvd f x) \<Longrightarrow> (d :: nat) dvd sum_list (map f xs)"
  by (induction xs) auto

lemma aligned_zone_size_dvd: "no_gaps x \<Longrightarrow> 8 dvd aligned_zone_size x"
proof (induction x)
  case (L_ARRAY p xs)
  then show ?case
    by (auto simp: aligned_size_def alignof_object_def list_all_iff intro!: dvd_add dvd_sum_list)
next
  case (L_MAP p xs)
  then show ?case
    by (fastforce simp: aligned_size_def alignof_object_def list_all_iff intro!: dvd_add dvd_sum_list)
qed (auto simp: aligned_size_def add_ext_type_size_def)

abbreviation entry_size :: "located \<times> located \<Rightarrow> nat" where
  "entry_size \<equiv> \<lambda>(k, v). aligned_zone_size k + aligned_zone_size v"

lemma sizeof_aligned [simp]:
  "aligned_size (sizeof_object * n) alignof_object = sizeof_object * n"
  "aligned_size (sizeof_object_kv * n) alignof_object = sizeof_object_kv * n"
  by (rule aligned_size_dvd; simp add: alignof_object_def sizeof_object_def sizeof_object_kv_def)+

lemma alignof_iff: "0 < alignof_object" "alignof_object dvd n \<longleftrightarrow> 8 dvd n"
  by (simp_all add: alignof_object_def)

lemma sizeof_dvd [simp]: "8 dvd sizeof_object * n" "8 dvd sizeof_object_kv * n"
  by (simp_all add: sizeof_object_def sizeof_object_kv_def)

lemma copies_fit:
  shows
    "no_gaps x \<Longrightarrow> 8 dvd cl_ptr z \<Longrightarrow> aligned_zone_size x \<le> cl_free z \<Longrightarrow> cl_free z < 2 ^ 64
      \<Longrightarrow> \<exists>y. object_with_zone mal x z = Inr (y, use_up (aligned_zone_size x) z)"
    "list_all no_gaps xs \<Longrightarrow> 8 dvd cl_ptr z \<Longrightarrow> sum_list (map aligned_zone_size xs) \<le> cl_free z \<Longrightarrow> cl_free z < 2 ^ 64
      \<Longrightarrow> \<exists>ys. objects_with_zone mal xs z = Inr (ys, use_up (sum_list (map aligned_zone_size xs)) z)"
    "list_all (\<lambda>(k, v). no_gaps k \<and> no_gaps v) es \<Longrightarrow> 8 dvd cl_ptr z \<Longrightarrow> sum_list (map entry_size es) \<le> cl_free z \<Longrightarrow> cl_free z < 2 ^ 64
      \<Longrightarrow> \<exists>fs. entries_with_zone mal es z = Inr (fs, use_up (sum_list (map entry_size es)) z)"
proof (induction mal x z and mal xs z and mal es z rule: object_with_zone_objects_with_zone_entries_with_zone.induct)
  case (4 mal p t s z)
  then have n: "length s + 1 < 2 ^ 32" by simp
  then show ?case using "4.prems" allocate_exact [of 1 z "length s + 1" "mal z"]
    by (simp add: object_with_zone_EXT [OF n] add_ext_type_size_def del: object_with_zone.simps One_nat_def)
next
  case (5 mal p xs z)
  have a: "allocate_align (mal z) (sizeof_object * length xs) alignof_object z = Inr (cl_ptr z, use_up (sizeof_object * length xs) z)"
    using "5.prems" by (intro allocate_exact) (simp_all add: alignof_iff)
  obtain ys where "objects_with_zone mal xs (use_up (sizeof_object * length xs) z)
    = Inr (ys, use_up (sum_list (map aligned_zone_size xs)) (use_up (sizeof_object * length xs) z))"
    using "5.IH" [of "use_up (sizeof_object * length xs) z"] "5.prems" by (simp add: le_diff_conv2 less_imp_diff_less) blast
  then show ?case by (simp add: a use_up_use_up)
next
  case (6 mal p xs z)
  have a: "allocate_align (mal z) (sizeof_object_kv * length xs) alignof_object z = Inr (cl_ptr z, use_up (sizeof_object_kv * length xs) z)"
    using "6.prems" by (intro allocate_exact) (simp_all add: alignof_iff)
  obtain ys where "entries_with_zone mal xs (use_up (sizeof_object_kv * length xs) z)
    = Inr (ys, use_up (sum_list (map entry_size xs)) (use_up (sizeof_object_kv * length xs) z))"
    using "6.IH" [of "use_up (sizeof_object_kv * length xs) z"] "6.prems" by (simp add: le_diff_conv2 less_imp_diff_less) blast
  then show ?case by (simp add: a use_up_use_up)
next
  case (8 mal x xs z)
  obtain y where y: "object_with_zone mal x z = Inr (y, use_up (aligned_zone_size x) z)" using "8.IH"(1) "8.prems" by auto
  have "8 dvd cl_ptr (use_up (aligned_zone_size x) z)" using aligned_zone_size_dvd [of x] "8.prems" by simp
  then obtain ys where "objects_with_zone mal xs (use_up (aligned_zone_size x) z)
    = Inr (ys, use_up (sum_list (map aligned_zone_size xs)) (use_up (aligned_zone_size x) z))"
    using "8.IH"(2) [of "use_up (aligned_zone_size x) z"] "8.prems" by (simp add: le_diff_conv2 less_imp_diff_less) blast
  then show ?case by (simp add: y use_up_use_up)
next
  case (10 mal k v xs z)
  obtain k' where k: "object_with_zone mal k z = Inr (k', use_up (aligned_zone_size k) z)" using "10.IH"(1) "10.prems" by auto
  have "8 dvd cl_ptr (use_up (aligned_zone_size k) z)" using aligned_zone_size_dvd [of k] "10.prems" by simp
  then obtain v' where v: "object_with_zone mal v (use_up (aligned_zone_size k) z) = Inr (v', use_up (aligned_zone_size k + aligned_zone_size v) z)"
    using "10.IH"(2) [of "use_up (aligned_zone_size k) z"] "10.prems"
    by (simp add: use_up_use_up le_diff_conv2 less_imp_diff_less) blast
  have "8 dvd cl_ptr (use_up (aligned_zone_size k + aligned_zone_size v) z)"
    using aligned_zone_size_dvd [of k] aligned_zone_size_dvd [of v] "10.prems" by simp
  then obtain ys where "entries_with_zone mal xs (use_up (aligned_zone_size k + aligned_zone_size v) z)
    = Inr (ys, use_up (sum_list (map entry_size xs)) (use_up (aligned_zone_size k + aligned_zone_size v) z))"
    using "10.IH"(3) [of "use_up (aligned_zone_size k + aligned_zone_size v) z"] "10.prems"
    by (simp add: le_diff_conv2 less_imp_diff_less) blast
  then show ?case by (simp add: k v use_up_use_up)
qed (auto simp: use_up_zero allocate_exact simp del: One_nat_def)

text \<open>
  The size computed for a clone is what the copy needs, when every string, binary and extension ends on
  a multiple of eight bytes: \<open>clone\<close> then returns, asks for memory once, and the copy fills the chunk to the last byte.
  Memory comes at multiples of eight.
\<close>

theorem clone_one_chunk:
  fixes mal :: "'f zone \<Rightarrow> memory"
  assumes "no_gaps obj" "0 < aligned_zone_size obj" "aligned_zone_size obj < 2 ^ 64"
    and "malloc (sizeof_chunk + aligned_zone_size obj) = Some a" "8 dvd a"
  shows "\<exists>obj' z. clone malloc mal obj = Inr (obj', Some z) \<and> cl_chunks z = [(a, aligned_zone_size obj)] \<and> cl_free z = 0"
proof -
  define z :: "'f zone" where "z = \<lparr>cl_chunk_size = aligned_zone_size obj, cl_free = aligned_zone_size obj, cl_ptr = a + sizeof_chunk,
        cl_chunks = [(a, aligned_zone_size obj)], fin_array = [], fin_end = 0\<rparr>"
  obtain y where "object_with_zone mal obj z = Inr (y, use_up (aligned_zone_size obj) z)"
    using copies_fit(1) [OF assms(1), of z mal] assms(3,5) by (auto simp: z_def sizeof_chunk_def)
  then show ?thesis using assms(2,4) by (simp add: clone_def zone_new_def z_def Let_def)
qed

theorem clone_one_chunk_witness:
  "\<exists>obj' (z :: nat zone). clone (\<lambda>_. Some 1000) bump (L_ARRAY 64 [L_EXT 256 1 [0, 0, 0, 0, 0, 0, 0], L_ARRAY 128 []])
    = Inr (obj', Some z) \<and> cl_chunks z = [(1000, 56)] \<and> cl_free z = 0"
proof -
  define obj where "obj = L_ARRAY 64 [L_EXT 256 1 [0, 0, 0, 0, 0, 0, 0], L_ARRAY 128 []]"
  have n: "aligned_zone_size obj = 56" unfolding obj_def by code_simp
  have g: "no_gaps obj" by (simp add: obj_def) (simp add: eval_nat_numeral)
  then show ?thesis
    using clone_one_chunk [of obj "\<lambda>_. Some 1000" 1000 "bump :: nat zone \<Rightarrow> memory"] g unfolding n by (simp add: obj_def sizeof_chunk_def)
qed

text \<open>Otherwise it is not: the padding before a container that follows a string is not counted, and \<open>sample_cloned\<close>
  has a second chunk.\<close>

text \<open>
  What \<open>operator==\<close> decides. Two objects are equal exactly when the first contains no NaN and both look
  the same to the comparison: of the same kind, numbers equal as numbers, strings and binaries byte by byte,
  containers element by element in the same order, and extensions of the same size in their type and all data bytes but the last.
\<close>

theorem object_equality: "object_eq x y \<longleftrightarrow> nan_free x \<and> view_of x = view_of y"
  by (rule object_eq_iff)

text \<open>So the last byte of an extension is not compared, and the type only if there is data.\<close>

lemma extension_last_byte: "object_eq (EXT t (s @ [a])) (EXT t (s @ [b]))" "object_eq (EXT t []) (EXT u [])"
  by (simp_all add: object_eq_iff)

end
