(* ===== verification/ObjectPrint.thy ===== *)
theory ObjectPrint
  imports ObjectOps
begin

text \<open>
  \<open>operator<<\<close> of \<open>object.hpp\<close>, which prints an object in the manner of JSON on a stream with the default flags.
  Bytes are printed as the characters they are; the ones from 128 on are negative as \<open>char\<close>, and become
  large numbers when they are compared.
\<close>

subsection \<open>Numbers\<close>

text \<open>A \<open>double\<close> on a stream is \<open>%g\<close>: six significant digits, the exact value rounded to even, without the
  zeros at the end.\<close>

definition ilog10 :: "rat \<Rightarrow> int" where
  "ilog10 x = (if x \<ge> 1 then int (length (nat_string (nat \<lfloor>x\<rfloor>))) - 1
     else - int (length (nat_string (nat (\<lceil>1 / x\<rceil> - 1)))))"

definition strip_zeros :: "string \<Rightarrow> string" where
  "strip_zeros ds = rev (dropWhile (\<lambda>c. c = CHR ''0'') (rev ds))"

definition with_fraction :: "string \<Rightarrow> string \<Rightarrow> string" where
  "with_fraction ds fs = (let fs = strip_zeros fs in if fs = [] then ds else ds @ ''.'' @ fs)"

definition print_positive :: "rat \<Rightarrow> string" where
  "print_positive x = (let e = ilog10 x;
      m = rne (if e \<le> 5 then x * 10 ^ nat (5 - e) else x / 10 ^ nat (e - 5));
      (m, e) = (if m = 10 ^ 6 then (10 ^ 5, e + 1) else (m, e));
      ds = pad_string 6 (nat m)
    in if e < - 4 \<or> 6 \<le> e then
         with_fraction [hd ds] (List.tl ds) @ ''e'' @ (if e < 0 then ''-'' else ''+'')
           @ (if \<bar>e\<bar> < 10 then ''0'' else []) @ nat_string (nat \<bar>e\<bar>)
       else if 0 \<le> e then with_fraction (take (nat e + 1) ds) (drop (nat e + 1) ds)
       else with_fraction ''0'' (replicate (nat (- e - 1)) (CHR ''0'') @ ds))"

text \<open>The sign of a zero or a NaN is only in its bits.\<close>

definition print_double :: "bool \<Rightarrow> fp \<Rightarrow> string" where
  "print_double negative v = (case v of
      NaN \<Rightarrow> (if negative then ''-'' else []) @ ''nan''
    | Inf s \<Rightarrow> (if s then ''-'' else []) @ ''inf''
    | Fin x \<Rightarrow> (if x = 0 then (if negative then ''-'' else []) @ ''0''
        else (if x < 0 then ''-'' else []) @ print_positive \<bar>x\<bar>))"

subsection \<open>Strings\<close>

definition chr :: "byte \<Rightarrow> char" where
  "chr b = char_of (unat b)"

definition hex_digit :: "nat \<Rightarrow> char" where
  "hex_digit n = char_of (if n < 10 then 48 + n else 87 + n)"

definition print_byte :: "byte \<Rightarrow> string" where
  "print_byte c =
    (if c = 0x5c then [CHR 0x5c, CHR 0x5c]
     else if c = 0x22 then [CHR 0x5c, CHR 0x22]
     else if c = 0x2f then [CHR 0x5c, CHR ''/'']
     else if c = 0x08 then [CHR 0x5c, CHR ''b'']
     else if c = 0x0c then [CHR 0x5c, CHR ''f'']
     else if c = 0x0a then [CHR 0x5c, CHR ''n'']
     else if c = 0x0d then [CHR 0x5c, CHR ''r'']
     else if c = 0x09 then [CHR 0x5c, CHR ''t'']
     else (let code = (scast c :: 32 word) in
       if code < 0x20 \<or> code = 0x7f then
         [CHR 0x5c, CHR ''u'', CHR ''0'', CHR ''0'', hex_digit (unat (code AND 0xff) div 16), hex_digit (unat (code AND 0xff) mod 16)]
       else [chr c]))"

subsection \<open>Objects\<close>

text \<open>The elements of a container are separated by a comma and a blank.\<close>

definition comma_list :: "string list \<Rightarrow> string" where
  "comma_list ss = (case ss of [] \<Rightarrow> [] | s # ss \<Rightarrow> s @ concat (map (\<lambda>s. '', '' @ s) ss))"

fun print_object :: "object \<Rightarrow> string" where
  "print_object NIL = ''null''"
| "print_object (BOOLEAN b) = (if b then ''true'' else ''false'')"
| "print_object (POSITIVE_INTEGER u) = nat_string (unat u)"
| "print_object (NEGATIVE_INTEGER i) = to_string_int (sint i)"
| "print_object (FLOAT32 b) = print_double (bit b 31) (float_of_bits b)"
| "print_object (FLOAT64 b) = print_double (bit b 63) (double_of_bits b)"
| "print_object (STRING s) = [CHR 0x22] @ concat (map print_byte s) @ [CHR 0x22]"
| "print_object (BIN s) = [CHR 0x22] @ map chr s @ [CHR 0x22]"
| "print_object (EXT t s) = ''EXT''"
| "print_object (ARRAY xs) = ''['' @ comma_list (map print_object xs) @ '']''"
| "print_object (MAP xs) = ''{'' @ comma_list (map (\<lambda>(k, v). print_object k @ '':'' @ print_object v) xs) @ ''}''"

subsection \<open>Reading a printed string\<close>

text \<open>The string notation of JSON, as far as single bytes go.\<close>

definition hex_value :: "char \<Rightarrow> nat option" where
  "hex_value c = (let n = of_char c :: nat in
     if 48 \<le> n \<and> n \<le> 57 then Some (n - 48) else if 97 \<le> n \<and> n \<le> 102 then Some (n - 87) else None)"

definition escape_value :: "char \<Rightarrow> byte option" where
  "escape_value c = map_of [(CHR 0x5c, 0x5c), (CHR 0x22, 0x22), (CHR ''/'', 0x2f), (CHR ''b'', 8), (CHR ''f'', 12),
     (CHR ''n'', 10), (CHR ''r'', 13), (CHR ''t'', 9)] c"

definition read_byte :: "string \<Rightarrow> (byte \<times> string) option" where
  "read_byte cs = (case cs of
      [] \<Rightarrow> None
    | c # cs \<Rightarrow> (if c \<noteq> CHR 0x5c then Some (word_of_nat (of_char c), cs)
        else case cs of
          [] \<Rightarrow> None
        | d # cs \<Rightarrow> (if d \<noteq> CHR ''u'' then map_option (\<lambda>b. (b, cs)) (escape_value d)
            else case cs of
              z1 # z2 # h # l # cs \<Rightarrow> (case (hex_value h, hex_value l) of
                (Some a, Some b) \<Rightarrow> if z1 = CHR ''0'' \<and> z2 = CHR ''0'' then Some (word_of_nat (16 * a + b), cs) else None
              | _ \<Rightarrow> None)
            | _ \<Rightarrow> None)))"

function read_bytes :: "string \<Rightarrow> (byte list \<times> string) option" where
  "read_bytes cs = (case cs of
      [] \<Rightarrow> None
    | c # r \<Rightarrow> (if c = CHR 0x22 then Some ([], r)
        else case read_byte cs of
          None \<Rightarrow> None
        | Some (b, r) \<Rightarrow> map_option (\<lambda>(bs, r). (b # bs, r)) (read_bytes r)))"
  by pat_completeness auto

termination
  by (relation "measure length")
    (auto simp: read_byte_def split: list.splits option.splits if_splits)

declare read_bytes.simps [simp del]

definition read_string :: "string \<Rightarrow> (byte list \<times> string) option" where
  "read_string cs = (case cs of [] \<Rightarrow> None | c # cs \<Rightarrow> if c = CHR 0x22 then read_bytes cs else None)"

lemma unat_byte_less: "unat (c :: byte) < 256"
  by (rule less_le_trans [OF unsigned_less]) simp

lemma of_char_chr [simp]: "of_char (chr c) = (unat c :: nat)"
  unfolding chr_def of_char_of by (rule mod_less [OF unat_byte_less])

lemma chr_eq_iff: "chr c = CHR 0x5c \<longleftrightarrow> c = 0x5c" "chr c = CHR 0x22 \<longleftrightarrow> c = 0x22"
proof -
  have "chr c = d \<longleftrightarrow> unat c = of_char d" for d
    using of_char_eq_iff [of "chr c" d, where 'a = nat] by simp
  then have "chr c = CHR 0x5c \<longleftrightarrow> unat c = 0x5c" "chr c = CHR 0x22 \<longleftrightarrow> unat c = 0x22" by simp_all
  then show "chr c = CHR 0x5c \<longleftrightarrow> c = 0x5c" "chr c = CHR 0x22 \<longleftrightarrow> c = 0x22"
    by (simp_all add: word_unat_eq_iff)
qed

lemma hex_value_digit [simp]: "n < 16 \<Longrightarrow> hex_value (hex_digit n) = Some n"
  by (auto simp: hex_value_def hex_digit_def)

lemma low_byte: "unat ((scast (c :: byte) :: 32 word) AND 0xff) = unat c"
proof -
  have m: "(0xff :: 32 word) = mask 8" by (simp add: mask_eq_exp_minus_1)
  have "(scast c :: 32 word) AND mask 8 = ucast c"
  proof (rule bit_word_eqI)
    fix n
    assume "n < LENGTH(32)"
    then show "bit ((scast c :: 32 word) AND mask 8) n = bit (ucast c :: 32 word) n"
      using bit_imp_le_length [of c n] by (cases "n < 8") (auto simp: bit_simps min_absorb2)
  qed
  moreover have "take_bit 32 (unat c) = unat c" using unat_byte_less [of c] by (simp add: take_bit_nat_eq_self_iff)
  ultimately show ?thesis by (simp add: m unsigned_ucast_eq)
qed

lemma read_print_byte: "read_byte (print_byte c @ r) = Some (c, r) \<and> hd (print_byte c) \<noteq> CHR 0x22"
proof -
  consider "c \<in> {0x5c, 0x22, 0x2f, 0x08, 0x0c, 0x0a, 0x0d, 0x09}"
    | "c \<notin> {0x5c, 0x22, 0x2f, 0x08, 0x0c, 0x0a, 0x0d, 0x09}" by blast
  then show ?thesis
  proof cases
    case 1
    then show ?thesis by (auto simp: print_byte_def read_byte_def escape_value_def)
  next
    case 2
    have "16 * (unat c div 16) + unat c mod 16 = unat c" by simp
    then show ?thesis using 2 unat_byte_less [of c]
      by (auto simp: print_byte_def read_byte_def Let_def low_byte chr_eq_iff)
  qed
qed

lemma read_print_bytes: "read_bytes (concat (map print_byte s) @ CHR 0x22 # r) = Some (s, r)"
proof (induction s)
  case Nil
  show ?case by (subst read_bytes.simps) simp
next
  case (Cons c s)
  obtain d ds where d: "print_byte c = d # ds" by (cases "print_byte c") (auto simp: print_byte_def Let_def split: if_splits)
  have "d \<noteq> CHR 0x22" using read_print_byte [of c r] d by simp
  then show ?case
    using read_print_byte [of c "concat (map print_byte s) @ CHR 0x22 # r"] Cons.IH d by (subst read_bytes.simps) simp
qed

subsection \<open>Properties\<close>

text \<open>
  A string that is printed can be read back: whatever its bytes, quotes, backslashes and control characters
  included, a reader of the JSON notation that starts at the opening quote gets exactly these bytes and stops
  behind the closing quote, whatever is printed after it.
\<close>

theorem printed_string_reads: "read_string (print_object (STRING s) @ r) = Some (s, r)"
  by (simp add: read_string_def read_print_bytes)

text \<open>Binary data is printed as it is: a quote inside it ends the string.\<close>

lemma printed_binary_reads: "read_string (print_object (BIN [0x22, 0x61])) = Some ([], [CHR ''a'', CHR 0x22])"
  by code_simp

end
