(* ===== verification/Sbuffer.thy ===== *)
theory Sbuffer
  imports Growth Unpack
begin

text \<open>
  \<open>rpclib/rpc/msgpack/v1/sbuffer.hpp\<close>: the buffer that messages are packed into. \<open>sb_data\<close> is the
  contents of the first \<open>sb_size\<close> bytes of the memory; \<open>ok\<close> says for which sizes \<open>malloc\<close> and
  \<open>realloc\<close> succeed.
\<close>

datatype sb_exn = Sb_bad_alloc

record sbuffer =
  sb_size :: nat
  sb_data :: "byte list"
  sb_alloc :: nat

definition SBUFFER_INIT_SIZE :: nat where "SBUFFER_INIT_SIZE = 8192"

definition sbuffer_new :: "(nat \<Rightarrow> bool) \<Rightarrow> nat \<Rightarrow> sb_exn + sbuffer" where
  "sbuffer_new ok initsz =
    (if initsz \<noteq> 0 \<and> \<not> ok initsz then Inl Sb_bad_alloc
     else Inr \<lparr>sb_size = 0, sb_data = [], sb_alloc = initsz\<rparr>)"

definition sb_expand_buffer :: "(nat \<Rightarrow> bool) \<Rightarrow> nat \<Rightarrow> sbuffer \<Rightarrow> sb_exn + sbuffer" where
  "sb_expand_buffer ok len b =
    (let nsize = (if sb_alloc b > 0 then wrap (sb_alloc b * 2) else SBUFFER_INIT_SIZE);
       nsize = grow nsize (wrap (sb_size b + len))
     in if ok nsize then Inr (b\<lparr>sb_alloc := nsize\<rparr>) else Inl Sb_bad_alloc)"

definition sb_write :: "(nat \<Rightarrow> bool) \<Rightarrow> byte list \<Rightarrow> sbuffer \<Rightarrow> sb_exn + sbuffer" where
  "sb_write ok bs b =
     bind_result (if sb_alloc b - sb_size b < length bs then sb_expand_buffer ok (length bs) b else Inr b)
       (\<lambda>b. Inr (b\<lparr>sb_data := sb_data b @ bs, sb_size := sb_size b + length bs\<rparr>))"

definition sb_release :: "sbuffer \<Rightarrow> byte list \<times> sbuffer" where
  "sb_release b = (sb_data b, \<lparr>sb_size = 0, sb_data = [], sb_alloc = 0\<rparr>)"

definition sb_clear :: "sbuffer \<Rightarrow> sbuffer" where
  "sb_clear b = b\<lparr>sb_size := 0, sb_data := []\<rparr>"

text \<open>A move leaves an empty buffer behind; move assignment frees what was there before. The result is the buffer and what is left
  of the other one.\<close>

definition sb_move :: "sbuffer \<Rightarrow> sbuffer \<times> sbuffer" where
  "sb_move other = (other, \<lparr>sb_size = 0, sb_data = [], sb_alloc = 0\<rparr>)"

definition sb_assign :: "sbuffer \<Rightarrow> sbuffer \<Rightarrow> sbuffer \<times> sbuffer" where
  "sb_assign b other = (b\<lparr>sb_size := sb_size other, sb_alloc := sb_alloc other, sb_data := sb_data other\<rparr>,
     other\<lparr>sb_size := 0, sb_alloc := 0, sb_data := []\<rparr>)"

text \<open>The writes of a packer, one after the other.\<close>

fun sb_writes :: "(nat \<Rightarrow> bool) \<Rightarrow> byte list list \<Rightarrow> sbuffer \<Rightarrow> sb_exn + sbuffer" where
  "sb_writes ok [] b = Inr b"
| "sb_writes ok (bs # bss) b = bind_result (sb_write ok bs b) (sb_writes ok bss)"

subsection \<open>What is written is there\<close>

text \<open>The contents fit the memory.\<close>

definition sbuffer_ok :: "sbuffer \<Rightarrow> bool" where
  "sbuffer_ok b \<longleftrightarrow> length (sb_data b) = sb_size b \<and> sb_size b \<le> sb_alloc b"

lemma sbuffer_ok_ops:
  "sbuffer_new ok n = Inr b \<Longrightarrow> sbuffer_ok b" "sbuffer_ok (snd (sb_release b))" "sbuffer_ok (sb_clear b)"
  by (auto simp: sbuffer_new_def sbuffer_ok_def sb_release_def sb_clear_def split: if_splits)

lemma sbuffer_ok_moves:
  "sbuffer_ok b \<Longrightarrow> sbuffer_ok (fst (sb_move b)) \<and> sbuffer_ok (snd (sb_move b))"
  "sbuffer_ok c \<Longrightarrow> sbuffer_ok (fst (sb_assign b c)) \<and> sbuffer_ok (snd (sb_assign b c)) \<and> sb_data (fst (sb_assign b c)) = sb_data c"
  by (simp_all add: sb_move_def sb_assign_def sbuffer_ok_def)

lemma sb_write_ok:
  assumes "sb_write ok bs b = Inr b'" "sbuffer_ok b" "sb_size b + length bs < 2 ^ 64"
  shows "sbuffer_ok b' \<and> sb_data b' = sb_data b @ bs"
proof (cases "sb_alloc b - sb_size b < length bs")
  case True
  have "sb_size b + length bs \<le> grow n (sb_size b + length bs)" for n by (rule grow_enough)
  then show ?thesis
    using True assms by (auto simp: sb_write_def sb_expand_buffer_def Let_def sbuffer_ok_def bind_result_Inr_iff split: if_splits)
next
  case False
  then show ?thesis using assms by (auto simp: sb_write_def sbuffer_ok_def)
qed

lemma sb_write_succeeds: "\<forall>n. ok n \<Longrightarrow> \<exists>b'. sb_write ok bs b = Inr b'"
  by (simp add: sb_write_def sb_expand_buffer_def Let_def)

lemma sb_writes_ok:
  assumes "\<forall>n. ok n" "sbuffer_ok b" "sb_size b + length (concat bss) < 2 ^ 64"
  shows "\<exists>b'. sb_writes ok bss b = Inr b' \<and> sbuffer_ok b' \<and> sb_data b' = sb_data b @ concat bss"
  using assms(2,3)
proof (induction bss arbitrary: b)
  case (Cons bs bss)
  obtain c where c: "sb_write ok bs b = Inr c" using sb_write_succeeds [OF assms(1)] by blast
  have d: "sbuffer_ok c \<and> sb_data c = sb_data b @ bs" using sb_write_ok [OF c] Cons.prems by simp
  then have "sb_size c = sb_size b + length bs" using Cons.prems(1) unfolding sbuffer_ok_def by (metis length_append)
  then have "sb_size c + length (concat bss) < 2 ^ 64" using Cons.prems(2) by simp
  then obtain b' where "sb_writes ok bss c = Inr b'" "sbuffer_ok b'" "sb_data b' = sb_data c @ concat bss"
    using Cons.IH d by blast
  then show ?case using c d by simp
qed simp

subsection \<open>Properties\<close>

text \<open>
  A packed message leaves the buffer as it should. The buffer implements a list of bytes: however the
  packer cuts a message into writes, into a buffer of any size, the writes succeed while
  there is memory, the buffer never holds more than its memory, and what it then holds is the message, which
  the decoder reads back.
\<close>

theorem sbuffer_holds_message:
  assumes "sbuffer_new ok n = Inr b" "\<forall>n. ok n" "fits lm 0 o'" "concat pieces = pack_object o'"
    and "length (pack_object o') < 2 ^ 64"
  shows "\<exists>b'. sb_writes ok pieces b = Inr b' \<and> sb_data b' = pack_object o' \<and> sb_size b' = length (pack_object o')
    \<and> sb_size b' \<le> sb_alloc b' \<and> parse_imp lm (sb_data b') = Inr (PARSE_SUCCESS, o', sb_size b')"
proof -
  have "sbuffer_ok b" "sb_size b = 0" "sb_data b = []"
    using sbuffer_ok_ops(1) [OF assms(1)] assms(1) by (auto simp: sbuffer_new_def split: if_splits)
  then obtain b' where "sb_writes ok pieces b = Inr b'" "sbuffer_ok b'" "sb_data b' = pack_object o'"
    using sb_writes_ok [of ok b pieces] assms(2,4,5) by auto
  then show ?thesis using parse_packed [OF assms(3), of "[]"] by (auto simp: sbuffer_ok_def)
qed

theorem sbuffer_holds_message_witness:
  "\<exists>b'. sb_writes (\<lambda>_. True) [[0xcd], [1, 0x2c]] \<lparr>sb_size = 0, sb_data = [], sb_alloc = 2\<rparr> = Inr b'
    \<and> sb_data b' = pack_object (POSITIVE_INTEGER 300) \<and> sb_size b' = length (pack_object (POSITIVE_INTEGER 300))
    \<and> sb_size b' \<le> sb_alloc b' \<and> parse_imp default_limit (sb_data b') = Inr (PARSE_SUCCESS, POSITIVE_INTEGER 300, sb_size b')"
  by (rule sbuffer_holds_message [where n = 2])
    (simp_all add: sbuffer_new_def pack_uint64_def pack_imp_uint64_def store16_eq)

end
