(* ===== verification/Vrefbuffer.thy ===== *)
theory Vrefbuffer
  imports Zone
begin

text \<open>
  \<open>rpclib/rpc/msgpack/v1/vrefbuffer.hpp\<close>: the buffer that refers to long data where it lies and
  copies short data into chunks of its own. Memory is a function from addresses to bytes; a chunk
  is its address and the size of what follows its header, as in \<open>Zone\<close>. Sizes are small enough that
  their sums do not wrap around.
\<close>

datatype vref_fault = Vref_bad_alloc

type_synonym store = "nat \<Rightarrow> 8 word"

text \<open>\<open>v_vec\<close> are the entries from \<open>m_array\<close> to \<open>m_tail\<close>, address and length, and \<open>v_room\<close> is the number of
  entries to \<open>m_end\<close>. A buffer with more entries than room has written memory behind its array.\<close>

record vrefbuffer =
  v_array :: nat
  v_vec :: "(nat \<times> nat) list"
  v_room :: nat
  v_ref_size :: nat
  v_chunk_size :: nat
  ib_free :: nat
  ib_ptr :: nat
  ib_chunks :: "(nat \<times> nat) list"

definition sizeof_iovec :: nat where "sizeof_iovec = 16"
definition packer_max_buffer_size :: nat where "packer_max_buffer_size = 9"

definition vref_tail :: "vrefbuffer \<Rightarrow> nat" where
  "vref_tail b = v_array b + sizeof_iovec * length (v_vec b)"

definition vref_end :: "vrefbuffer \<Rightarrow> nat" where
  "vref_end b = v_array b + sizeof_iovec * v_room b"

subsection \<open>The operations\<close>

definition vref_new :: "memory \<Rightarrow> memory \<Rightarrow> nat \<Rightarrow> nat \<Rightarrow> vref_fault + vrefbuffer" where
  "vref_new malloc malloc2 ref_size chunk_size =
    (let nfirst = (if sizeof_iovec < 72 div 2 then 72 div sizeof_iovec else 8)
     in case malloc (sizeof_iovec * nfirst) of
       None \<Rightarrow> Inl Vref_bad_alloc
     | Some array \<Rightarrow> (case malloc2 (sizeof_chunk + chunk_size) of
         None \<Rightarrow> Inl Vref_bad_alloc
       | Some c \<Rightarrow> Inr \<lparr>v_array = array, v_vec = [], v_room = nfirst,
           v_ref_size = max ref_size (packer_max_buffer_size + 1), v_chunk_size = chunk_size,
           ib_free = chunk_size, ib_ptr = c + sizeof_chunk, ib_chunks = [(c, chunk_size)]\<rparr>))"

definition append_ref :: "memory \<Rightarrow> nat \<Rightarrow> nat \<Rightarrow> vrefbuffer \<Rightarrow> (vref_fault + unit) \<times> vrefbuffer" where
  "append_ref realloc buf len b =
    (case (if length (v_vec b) = v_room b then
        (let nnext = length (v_vec b) * 2 in case realloc (sizeof_iovec * nnext) of
            None \<Rightarrow> Inl Vref_bad_alloc
          | Some nvec \<Rightarrow> Inr (b\<lparr>v_array := nvec, v_room := nnext\<rparr>))
        else Inr b) of
      Inl e \<Rightarrow> (Inl e, b)
    | Inr b \<Rightarrow> (Inr (), b\<lparr>v_vec := v_vec b @ [(buf, len)]\<rparr>))"

definition memcpy :: "nat \<Rightarrow> nat \<Rightarrow> nat \<Rightarrow> store \<Rightarrow> store" where
  "memcpy dest src n mem = (\<lambda>a. if dest \<le> a \<and> a < dest + n then mem (src + (a - dest)) else mem a)"

definition new_chunk :: "memory \<Rightarrow> nat \<Rightarrow> vrefbuffer \<Rightarrow> vref_fault + vrefbuffer" where
  "new_chunk malloc len b = (let sz = (if v_chunk_size b < len then len else v_chunk_size b)
     in case malloc (sizeof_chunk + sz) of
       None \<Rightarrow> Inl Vref_bad_alloc
     | Some c \<Rightarrow> Inr (b\<lparr>ib_chunks := (c, sz) # ib_chunks b, ib_free := sz, ib_ptr := c + sizeof_chunk\<rparr>))"

definition append_copy :: "memory \<Rightarrow> memory \<Rightarrow> nat \<Rightarrow> nat \<Rightarrow> vrefbuffer \<Rightarrow> store
    \<Rightarrow> (vref_fault + unit) \<times> vrefbuffer \<times> store" where
  "append_copy malloc realloc buf len b mem =
    (case (if ib_free b < len then new_chunk malloc len b else Inr b) of
      Inl e \<Rightarrow> (Inl e, b, mem)
    | Inr b \<Rightarrow>
        (let m = ib_ptr b; mem = memcpy m buf len mem;
           b = b\<lparr>ib_free := ib_free b - len, ib_ptr := ib_ptr b + len\<rparr>;
           (p, n) = last (v_vec b)
         in if v_vec b \<noteq> [] \<and> m = p + n then (Inr (), b\<lparr>v_vec := butlast (v_vec b) @ [(p, n + len)]\<rparr>, mem)
           else (case append_ref realloc m len b of (r, b) \<Rightarrow> (r, b, mem))))"

definition vref_write :: "memory \<Rightarrow> memory \<Rightarrow> nat \<Rightarrow> nat \<Rightarrow> vrefbuffer \<Rightarrow> store
    \<Rightarrow> (vref_fault + unit) \<times> vrefbuffer \<times> store" where
  "vref_write malloc realloc buf len b mem =
    (if len < v_ref_size b then append_copy malloc realloc buf len b mem
     else (case append_ref realloc buf len b of (r, b) \<Rightarrow> (r, b, mem)))"

text \<open>The result of \<open>migrate\<close> has both buffers, the one moved from first.\<close>

definition migrate :: "memory \<Rightarrow> memory \<Rightarrow> vrefbuffer \<Rightarrow> vrefbuffer \<Rightarrow> (vref_fault + unit) \<times> vrefbuffer \<times> vrefbuffer" where
  "migrate malloc realloc b to = (case malloc (sizeof_chunk + v_chunk_size b) of
      None \<Rightarrow> (Inl Vref_bad_alloc, b, to)
    | Some blank \<Rightarrow>
        (let nused = length (v_vec b) in
         case (if vref_tail to + sizeof_iovec * nused < vref_end b then
            (let nnext = grow (v_room to * 2) (nused + length (v_vec to)) in case realloc (sizeof_iovec * nnext) of
                None \<Rightarrow> Inl Vref_bad_alloc
              | Some nvec \<Rightarrow> Inr (to\<lparr>v_array := nvec, v_room := nnext\<rparr>))
            else Inr to) of
           Inl e \<Rightarrow> (Inl e, b, to)
         | Inr to \<Rightarrow> (Inr (), b\<lparr>v_vec := [], ib_chunks := [(blank, v_chunk_size b)], ib_free := v_chunk_size b,
                 ib_ptr := blank + sizeof_chunk\<rparr>,
               (let to = to\<lparr>v_vec := v_vec to @ v_vec b, ib_chunks := ib_chunks b @ ib_chunks to\<rparr>
                in if ib_free to < ib_free b then to\<lparr>ib_free := ib_free b, ib_ptr := ib_ptr b\<rparr> else to))))"

definition vref_clear :: "vrefbuffer \<Rightarrow> vrefbuffer" where
  "vref_clear b = (let c = hd (ib_chunks b) in
     b\<lparr>ib_chunks := [c], ib_free := v_chunk_size b, ib_ptr := fst c + sizeof_chunk, v_vec := []\<rparr>)"

text \<open>What the destructor frees, in this order.\<close>

definition vref_destroy :: "vrefbuffer \<Rightarrow> nat list" where
  "vref_destroy b = map fst (ib_chunks b) @ [v_array b]"

subsection \<open>The message\<close>

text \<open>What \<open>writev\<close> sends of the entries.\<close>

definition region :: "store \<Rightarrow> nat \<times> nat \<Rightarrow> 8 word list" where
  "region mem r = map mem [fst r..<fst r + snd r]"

definition gather :: "store \<Rightarrow> vrefbuffer \<Rightarrow> 8 word list" where
  "gather mem b = concat (map (region mem) (v_vec b))"

definition free_part :: "vrefbuffer \<Rightarrow> nat \<times> nat" where
  "free_part b = (ib_ptr b, ib_free b)"

text \<open>
  The chunks are apart; the free part lies in one and no entry meets it; an entry lies in a chunk or is as
  long as a reference; and \<open>clear\<close> finds a chunk of the size it believes in.
\<close>

definition vref_ok :: "vrefbuffer \<Rightarrow> bool" where
  "vref_ok b \<longleftrightarrow> length (v_vec b) \<le> v_room b \<and> 0 < v_room b \<and> packer_max_buffer_size < v_ref_size b
     \<and> (\<forall>c \<in> set (ib_chunks b). \<forall>d \<in> set (ib_chunks b). c = d \<or> apart (chunk_block c) (chunk_block d))
     \<and> (\<exists>c \<in> set (ib_chunks b). inside_of (free_part b) (payload c))
     \<and> (\<forall>r \<in> set (v_vec b). apart r (free_part b)
         \<and> ((\<exists>c \<in> set (ib_chunks b). inside_of r (payload c)) \<or> v_ref_size b \<le> snd r))
     \<and> v_chunk_size b \<le> snd (hd (ib_chunks b))"

text \<open>Memory that is not part of a chunk, and a \<open>malloc\<close> that gives none that is in use.\<close>

definition outside :: "nat \<times> nat \<Rightarrow> vrefbuffer \<Rightarrow> bool" where
  "outside r b \<longleftrightarrow> (\<forall>c \<in> set (ib_chunks b). apart r (chunk_block c))"

definition vref_fresh :: "memory \<Rightarrow> vrefbuffer \<Rightarrow> bool" where
  "vref_fresh malloc b \<longleftrightarrow> (\<forall>n a. malloc n = Some a \<longrightarrow> outside (a, n) b \<and> (\<forall>r \<in> set (v_vec b). apart r (a, n)))"

lemma region_memcpy_apart: "apart r (dest, n) \<Longrightarrow> region (memcpy dest src n mem) r = region mem r"
  unfolding region_def by (rule map_cong [OF refl]) (cases r, simp add: memcpy_def apart_def, linarith)

lemma region_memcpy: "region (memcpy dest src n mem) (dest, n) = region mem (src, n)"
proof (rule nth_equalityI)
  fix i assume "i < length (region (memcpy dest src n mem) (dest, n))"
  then have "i < n" by (simp add: region_def)
  then show "region (memcpy dest src n mem) (dest, n) ! i = region mem (src, n) ! i"
    by (simp add: region_def) (simp add: memcpy_def)
qed (simp add: region_def)

lemma region_append: "region mem (p, n + k) = region mem (p, n) @ region mem (p + n, k)"
  using upt_add_eq_append [of p "p + n" k] by (simp add: region_def add.assoc)

lemma gather_cong: "(\<And>r. r \<in> set (v_vec b) \<Longrightarrow> region mem' r = region mem r) \<Longrightarrow> gather mem' b = gather mem b"
  by (simp add: gather_def cong: map_cong)

lemma gather_memcpy:
  assumes "vref_ok b" "n \<le> ib_free b"
  shows "gather (memcpy (ib_ptr b) src n mem) b = gather mem b"
proof (rule gather_cong)
  fix r assume "r \<in> set (v_vec b)"
  then have "apart r (ib_ptr b, n)" using assms by (auto simp: vref_ok_def free_part_def apart_def)
  then show "region (memcpy (ib_ptr b) src n mem) r = region mem r" by (rule region_memcpy_apart)
qed

lemma inside_payload_apart: "inside_of r (payload c) \<Longrightarrow> apart q (chunk_block c) \<Longrightarrow> 0 < snd r \<or> 0 < snd q \<Longrightarrow> apart q r"
  by (cases q; cases r; cases c) (auto simp: inside_of_def payload_def apart_def chunk_block_def sizeof_chunk_def)

lemma vref_ok_room:
  "vref_ok b \<Longrightarrow> length (v_vec b) \<le> n \<Longrightarrow> 0 < n \<Longrightarrow> vref_ok (b\<lparr>v_array := a, v_room := n\<rparr>)"
  by (simp add: vref_ok_def free_part_def)

lemma append_ref_ok:
  assumes "append_ref realloc p n b = (r, b')" "vref_ok b" "apart (p, n) (free_part b)"
    "(\<exists>c \<in> set (ib_chunks b). inside_of (p, n) (payload c)) \<or> v_ref_size b \<le> n"
  shows "vref_ok b' \<and> gather mem b' = gather mem b @ (if r = Inr () then region mem (p, n) else [])"
proof (cases "if length (v_vec b) = v_room b then
    (let nnext = length (v_vec b) * 2 in case realloc (sizeof_iovec * nnext) of
        None \<Rightarrow> Inl Vref_bad_alloc | Some nvec \<Rightarrow> Inr (b\<lparr>v_array := nvec, v_room := nnext\<rparr>)) else Inr b")
  case (Inl e)
  then show ?thesis using assms(1,2) by (auto simp: append_ref_def)
next
  case (Inr c)
  have "length (v_vec b) \<le> v_room b" "0 < v_room b" using assms(2) by (simp_all add: vref_ok_def)
  then have c: "vref_ok c" "v_vec c = v_vec b" "length (v_vec b) < v_room c" "free_part c = free_part b"
    "ib_chunks c = ib_chunks b" "v_ref_size c = v_ref_size b"
    using Inr assms(2) vref_ok_room [OF assms(2)]
    by (auto simp: free_part_def Let_def split: if_splits option.splits)
  have "r = Inr ()" "b' = c\<lparr>v_vec := v_vec b @ [(p, n)]\<rparr>"
    using assms(1) Inr c(2) by (simp_all add: append_ref_def)
  then show ?thesis using c assms(3,4) by (auto simp: vref_ok_def gather_def free_part_def)
qed

lemma new_chunk_ok:
  assumes "new_chunk malloc n b = Inr b'" "vref_ok b" "vref_fresh malloc b"
  shows "vref_ok b' \<and> n \<le> ib_free b' \<and> v_vec b' = v_vec b \<and> v_ref_size b' = v_ref_size b
    \<and> (\<forall>r. outside r b' \<longrightarrow> outside r b)"
proof -
  obtain c sz where c: "malloc (sizeof_chunk + sz) = Some c" "n \<le> sz" "v_chunk_size b \<le> sz"
    "b' = b\<lparr>ib_chunks := (c, sz) # ib_chunks b, ib_free := sz, ib_ptr := c + sizeof_chunk\<rparr>"
    using assms(1) by (auto simp: new_chunk_def Let_def split: option.splits if_splits)
  have "apart r (c + sizeof_chunk, sz)" if "r \<in> set (v_vec b)" for r
  proof -
    have "apart r (c, sizeof_chunk + sz)" using assms(3) c(1) that by (auto simp: vref_fresh_def)
    then show ?thesis by (auto simp: apart_def)
  qed
  moreover have "\<forall>d \<in> set (ib_chunks b). apart (chunk_block (c, sz)) (chunk_block d) \<and> apart (chunk_block d) (chunk_block (c, sz))"
    using assms(3) c(1) by (auto simp: vref_fresh_def outside_def apart_def chunk_block_def)
  moreover have "free_part b' = (c + sizeof_chunk, sz)" "inside_of (c + sizeof_chunk, sz) (payload (c, sz))"
    by (simp_all add: c(4) free_part_def inside_of_def payload_def)
  ultimately have "vref_ok b'" using assms(2) c(3) unfolding vref_ok_def by (simp add: c(4))
  then show ?thesis using c(2,4) by (simp add: outside_def)
qed

text \<open>A copy: the bytes go to the free part, and extend the last entry where it ends there.\<close>

lemma same_chunk:
  assumes "vref_ok b" "c \<in> set (ib_chunks b)" "inside_of (free_part b) (payload c)"
    "d \<in> set (ib_chunks b)" "inside_of (q, k) (payload d)" "q + k = ib_ptr b"
  shows "c = d"
proof (rule ccontr)
  assume "c \<noteq> d"
  then have "apart (chunk_block c) (chunk_block d)" using assms(1,2,4) by (auto simp: vref_ok_def)
  then show False using assms(3,5,6)
    by (auto simp: inside_of_def free_part_def payload_def chunk_block_def apart_def sizeof_chunk_def)
qed

lemma extend_ok:
  assumes "vref_ok c" "n \<le> ib_free c" "v_vec c = vs @ [(q, k)]" "ib_ptr c = q + k"
  shows "vref_ok (c\<lparr>ib_free := ib_free c - n, ib_ptr := ib_ptr c + n, v_vec := vs @ [(q, k + n)]\<rparr>)"
proof -
  obtain e where e: "e \<in> set (ib_chunks c)" "inside_of (free_part c) (payload e)" using assms(1) by (auto simp: vref_ok_def)
  have i: "inside_of (ib_ptr c + n, ib_free c - n) (payload e)"
    using e(2) assms(2) by (auto simp: inside_of_def free_part_def)
  have last: "(\<exists>d \<in> set (ib_chunks c). inside_of (q, k + n) (payload d)) \<or> v_ref_size c \<le> k + n"
  proof (cases "v_ref_size c \<le> k")
    case False
    then obtain d where d: "d \<in> set (ib_chunks c)" "inside_of (q, k) (payload d)"
      using assms(1,3) by (force simp: vref_ok_def)
    then have "inside_of (q, k + n) (payload e)"
      using same_chunk [OF assms(1) e d] assms(2,4) e(2) by (auto simp: inside_of_def free_part_def)
    then show ?thesis using e(1) by blast
  qed simp
  have "\<forall>r \<in> set vs. apart r (ib_ptr c + n, ib_free c - n)"
    using assms(1-3) by (auto simp: vref_ok_def free_part_def apart_def)
  then show ?thesis using assms(1,3,4) i e(1) last by (auto simp: vref_ok_def free_part_def apart_def)
qed

lemma append_copy_ok:
  assumes "append_copy malloc realloc p n b mem = (r, b', mem')" "vref_ok b" "vref_fresh malloc b"
  shows "vref_ok b' \<and> gather mem' b' = gather mem b @ (if r = Inr () then region mem (p, n) else [])"
proof (cases "if ib_free b < n then new_chunk malloc n b else Inr b")
  case (Inl e)
  then show ?thesis using assms(1,2) by (auto simp: append_copy_def)
next
  case (Inr c)
  have c: "vref_ok c" "n \<le> ib_free c" "v_vec c = v_vec b"
    using Inr assms(2) new_chunk_ok [OF _ assms(2,3), of n c] by (auto split: if_splits)
  define d where "d = c\<lparr>ib_free := ib_free c - n, ib_ptr := ib_ptr c + n\<rparr>"
  define mem1 where "mem1 = memcpy (ib_ptr c) p n mem"
  have g: "gather mem1 d = gather mem b"
    using gather_memcpy [OF c(1,2), of p mem] c(3) by (simp add: mem1_def d_def gather_def)
  have m: "region mem1 (ib_ptr c, n) = region mem (p, n)" by (simp add: mem1_def region_memcpy)
  have d: "vref_ok d" "apart (ib_ptr c, n) (free_part d)"
    "\<exists>k \<in> set (ib_chunks d). inside_of (ib_ptr c, n) (payload k)"
  proof -
    obtain k where k: "k \<in> set (ib_chunks c)" "inside_of (free_part c) (payload k)"
      using c(1) by (auto simp: vref_ok_def)
    then have i: "inside_of (ib_ptr c, n) (payload k)" "inside_of (free_part d) (payload k)"
      using c(2) by (auto simp: d_def free_part_def inside_of_def)
    show "\<exists>k \<in> set (ib_chunks d). inside_of (ib_ptr c, n) (payload k)" using i(1) k(1) by (auto simp: d_def)
    show "apart (ib_ptr c, n) (free_part d)" by (simp add: apart_def d_def free_part_def)
    have "\<forall>r \<in> set (v_vec c). apart r (free_part d)"
      using c(1,2) by (auto simp: vref_ok_def d_def free_part_def apart_def)
    then show "vref_ok d" using c(1) i(2) k(1) by (auto simp: vref_ok_def d_def)
  qed
  show ?thesis
  proof (cases "v_vec c \<noteq> [] \<and> ib_ptr c = fst (last (v_vec c)) + snd (last (v_vec c))")
    case True
    then obtain vs q k where v: "v_vec c = vs @ [(q, k)]" "ib_ptr c = q + k" by (cases "v_vec c" rule: rev_cases) auto
    then have res: "r = Inr ()" "mem' = mem1" "b' = d\<lparr>v_vec := vs @ [(q, k + n)]\<rparr>"
      using assms(1) Inr by (simp_all add: append_copy_def Let_def d_def mem1_def)
    have "region mem1 (q, k + n) = region mem1 (q, k) @ region mem (p, n)" using m v(2) by (simp add: region_append)
    then have "gather mem1 b' = gather mem1 d @ region mem (p, n)" using v(1) by (simp add: res(3) gather_def d_def)
    moreover have "vref_ok b'"
      using extend_ok [OF c(1,2) v] by (simp add: res(3) d_def)
    ultimately show ?thesis using g res by simp
  next
    case False
    then obtain b'' where "append_ref realloc (ib_ptr c) n d = (r, b'')" "b' = b''" "mem' = mem1"
      using assms(1) Inr by (auto simp: append_copy_def Let_def d_def mem1_def split: prod.splits)
    then show ?thesis using append_ref_ok [OF _ d(1,2), of realloc r b' mem1] d(3) g m by simp
  qed
qed

lemma vref_write_ok:
  assumes "vref_write malloc realloc p n b mem = (r, b', mem')" "vref_ok b" "vref_fresh malloc b" "outside (p, n) b"
  shows "vref_ok b' \<and> gather mem' b' = gather mem b @ (if r = Inr () then region mem (p, n) else [])"
proof (cases "n < v_ref_size b")
  case True
  then show ?thesis using append_copy_ok [OF _ assms(2,3)] assms(1) by (simp add: vref_write_def)
next
  case False
  then have w: "append_ref realloc p n b = (r, b')" "mem' = mem"
    using assms(1) by (auto simp: vref_write_def split: prod.splits)
  obtain c where "c \<in> set (ib_chunks b)" "inside_of (free_part b) (payload c)" using assms(2) by (auto simp: vref_ok_def)
  then have "apart (p, n) (free_part b)"
    using assms(4) inside_payload_apart [of "free_part b" c "(p, n)"] False assms(2)
    by (auto simp: outside_def vref_ok_def packer_max_buffer_size_def)
  then show ?thesis using append_ref_ok [OF w(1) assms(2), of mem] False w(2) by simp
qed


subsection \<open>Runs\<close>

text \<open>
  Everything a packer and its surroundings may do with one buffer: write, whether memory is found or not,
  clear it, and use memory that no entry refers to in any way.
\<close>

inductive vref_run :: "vrefbuffer \<Rightarrow> store \<Rightarrow> 8 word list \<Rightarrow> bool" where
  vr_new: "vref_new malloc malloc2 ref_size chunk_size = Inr b \<Longrightarrow> vref_run b mem []"
| vr_write: "vref_run b mem msg \<Longrightarrow> vref_fresh malloc b \<Longrightarrow> outside (p, n) b \<Longrightarrow>
    vref_write malloc realloc p n b mem = (r, b', mem') \<Longrightarrow>
    vref_run b' mem' (msg @ (if r = Inr () then region mem (p, n) else []))"
| vr_elsewhere: "vref_run b mem msg \<Longrightarrow> (\<forall>r \<in> set (v_vec b). region mem' r = region mem r) \<Longrightarrow> vref_run b mem' msg"
| vr_clear: "vref_run b mem msg \<Longrightarrow> vref_run (vref_clear b) mem []"

lemma vref_new_ok:
  assumes "vref_new malloc malloc2 ref_size chunk_size = Inr b"
  shows "vref_ok b \<and> gather mem b = []"
  using assms
  by (auto simp: vref_new_def Let_def vref_ok_def gather_def free_part_def inside_of_def payload_def sizeof_iovec_def
      packer_max_buffer_size_def split: option.splits)

lemma vref_clear_ok:
  assumes "vref_ok b"
  shows "vref_ok (vref_clear b) \<and> gather mem (vref_clear b) = []"
proof -
  obtain c cs where "ib_chunks b = c # cs" using assms by (cases "ib_chunks b") (auto simp: vref_ok_def)
  then show ?thesis using assms
    by (auto simp: vref_ok_def vref_clear_def gather_def free_part_def inside_of_def payload_def Let_def)
qed

lemma vref_run_ok: "vref_run b mem msg \<Longrightarrow> vref_ok b \<and> gather mem b = msg"
proof (induction rule: vref_run.induct)
  case (vr_new malloc malloc2 ref_size chunk_size b mem)
  then show ?case using vref_new_ok by blast
next
  case (vr_write b mem msg malloc p n realloc r b' mem')
  then show ?case using vref_write_ok by simp
next
  case (vr_elsewhere b mem msg mem')
  then show ?case using gather_cong [of b mem' mem] by simp
next
  case (vr_clear b mem msg)
  then show ?case using vref_clear_ok by blast
qed

text \<open>An entry that lies in no chunk is a reference, and as long as one has to be.\<close>

lemma vref_entries:
  assumes "vref_ok b" "r \<in> set (v_vec b)" "snd r \<le> packer_max_buffer_size"
  shows "\<exists>c \<in> set (ib_chunks b). inside_of r (payload c)"
  using assms by (auto simp: vref_ok_def)

subsection \<open>Migration\<close>

lemma migrate_returns:
  assumes "malloc (sizeof_chunk + v_chunk_size b) = Some blank"
    "realloc (sizeof_iovec * grow (v_room to * 2) (length (v_vec b) + length (v_vec to))) \<noteq> None"
  shows "\<exists>b' to'. migrate malloc realloc b to = (Inr (), b', to')"
  using assms by (auto simp: migrate_def Let_def)

text \<open>The array of the target has been enlarged, and then for all entries, if it lies below the one of the source; if it
  lies above, it stays as it is.\<close>

lemma migrate_room:
  assumes "migrate malloc realloc b to = (Inr (), b', to')" "vref_ok b" "vref_ok to"
  shows "vref_end to < v_array b \<Longrightarrow> length (v_vec to') \<le> v_room to'"
    and "vref_end b \<le> v_array to \<Longrightarrow> v_array to' = v_array to \<and> v_room to' = v_room to"
proof -
  have n: "length (v_vec b) \<le> v_room b" "length (v_vec to) \<le> v_room to" using assms(2,3) by (simp_all add: vref_ok_def)
  show "length (v_vec to') \<le> v_room to'" if "vref_end to < v_array b"
  proof -
    have "vref_tail to + sizeof_iovec * length (v_vec b) < vref_end b"
      using n that by (simp add: vref_tail_def vref_end_def sizeof_iovec_def)
    then show ?thesis
      using assms(1) grow_enough [of "length (v_vec b) + length (v_vec to)" "v_room to * 2"]
      by (auto simp: migrate_def Let_def split: option.splits if_splits)
  qed
  show "v_array to' = v_array to \<and> v_room to' = v_room to" if "vref_end b \<le> v_array to"
  proof -
    have "\<not> vref_tail to + sizeof_iovec * length (v_vec b) < vref_end b"
      using that by (simp add: vref_tail_def)
    then show ?thesis using assms(1) by (auto simp: migrate_def Let_def split: option.splits if_splits)
  qed
qed

text \<open>Two buffers that share no memory.\<close>

definition vref_separate :: "vrefbuffer \<Rightarrow> vrefbuffer \<Rightarrow> bool" where
  "vref_separate b to \<longleftrightarrow> (\<forall>c \<in> set (ib_chunks b). outside (chunk_block c) to)
     \<and> (\<forall>r \<in> set (v_vec b). apart r (free_part to)) \<and> (\<forall>r \<in> set (v_vec to). apart r (free_part b))"

lemma migrate_ok:
  assumes "migrate malloc realloc b to = (Inr (), b', to')" "vref_ok b" "vref_ok to"
  shows "gather mem to' = gather mem to @ gather mem b \<and> gather mem b' = [] \<and> vref_ok b'"
  using assms
  by (auto simp: migrate_def Let_def gather_def vref_ok_def free_part_def inside_of_def payload_def
      split: option.splits if_splits sum.splits)

lemma grow_keeps: "n \<le> grow n need"
  by (induction n need rule: grow.induct) (subst grow.simps, auto simp: Let_def)

lemma migrate_target:
  assumes "migrate malloc realloc b to = (Inr (), b', to')" "vref_ok b" "vref_ok to"
  shows "v_vec to' = v_vec to @ v_vec b" "ib_chunks to' = ib_chunks b @ ib_chunks to"
    "0 < v_room to'"
    "v_ref_size to' = v_ref_size to" "v_chunk_size to' = v_chunk_size to"
    "free_part to' = (if ib_free to < ib_free b then free_part b else free_part to)"
  using assms grow_enough [of "length (v_vec b) + length (v_vec to)" "v_room to * 2"]
    grow_keeps [of "v_room to * 2" "length (v_vec b) + length (v_vec to)"]
  by (auto simp: migrate_def Let_def free_part_def vref_ok_def split: option.splits if_splits sum.splits)

lemma migrate_target_ok:
  assumes "migrate malloc realloc b to = (Inr (), b', to')" "vref_ok b" "vref_ok to" "vref_separate b to"
    "v_ref_size to \<le> v_ref_size b"
  shows "vref_ok to' \<longleftrightarrow> length (v_vec to') \<le> v_room to' \<and> v_chunk_size to \<le> snd (hd (ib_chunks b))"
proof -
  note t = migrate_target [OF assms(1-3)]
  have hd: "hd (ib_chunks to') = hd (ib_chunks b)" using assms(2) by (auto simp: t(2) vref_ok_def hd_append)
  have "apart (chunk_block c) (chunk_block d) \<and> apart (chunk_block d) (chunk_block c)"
    if "c \<in> set (ib_chunks b)" "d \<in> set (ib_chunks to)" for c d
    using assms(4) that apart_sym by (auto simp: vref_separate_def outside_def)
  then have chunks: "\<forall>c \<in> set (ib_chunks to'). \<forall>d \<in> set (ib_chunks to'). c = d \<or> apart (chunk_block c) (chunk_block d)"
    using assms(2,3) unfolding t(2) by (auto simp: vref_ok_def)
  have "\<exists>c \<in> set (ib_chunks to'). inside_of (free_part to') (payload c)"
    using assms(2,3) unfolding t(2,6) by (auto simp: vref_ok_def)
  moreover have "\<forall>r \<in> set (v_vec to'). apart r (free_part to')"
    using assms(2-4) unfolding t(1,6) by (auto simp: vref_ok_def vref_separate_def)
  moreover have "(\<exists>c \<in> set (ib_chunks to'). inside_of r (payload c)) \<or> v_ref_size to \<le> snd r"
    if "r \<in> set (v_vec to')" for r
    using assms(2,3,5) that unfolding t(1,2) by (fastforce simp: vref_ok_def)
  moreover have "packer_max_buffer_size < v_ref_size to" using assms(3) by (simp add: vref_ok_def)
  ultimately show ?thesis using chunks t(3-5) hd by (simp add: vref_ok_def)
qed

lemma migrate_clear:
  assumes "migrate malloc realloc b to = (Inr (), b', to')" "vref_ok b" "vref_ok to"
  shows "inside_of (free_part (vref_clear to')) (payload (hd (ib_chunks to'))) \<longleftrightarrow> v_chunk_size to \<le> snd (hd (ib_chunks b))"
proof -
  note t = migrate_target [OF assms]
  have "hd (ib_chunks to') = hd (ib_chunks b)" using assms(2) by (auto simp: t(2) vref_ok_def hd_append)
  then show ?thesis by (simp add: vref_clear_def free_part_def inside_of_def payload_def Let_def t(5))
qed

subsection \<open>Properties\<close>

text \<open>
  C32: the buffer holds the message. After any run of writes, of which some may find no memory, of \<open>clear\<close>
  and of changes to memory that no entry refers to, what the entries refer to is exactly the data of the
  writes that succeeded since the last \<open>clear\<close>, in order; and data of up to nine bytes, which a packer
  keeps on its stack, is never referred to where it was but lies in a chunk of the buffer.
\<close>

theorem vref_holds_message:
  assumes "vref_run b mem msg"
  shows "gather mem b = msg
    \<and> (\<forall>r \<in> set (v_vec b). snd r \<le> packer_max_buffer_size \<longrightarrow> (\<exists>c \<in> set (ib_chunks b). inside_of r (payload c)))"
  using vref_run_ok [OF assms] vref_entries by blast

text \<open>
  C33: what \<open>migrate\<close> does with two buffers that share no memory, when memory is found and the target takes no longer data for
  references than the source does. It returns; the message of the source follows the message of the target; and the source is
  an empty buffer that can be used again. But its test compares a pointer into one array with the end of the other. If
  the array of the target lies below the one of the source, the target has room for all entries. If it lies above, the array is never
  enlarged, so that entries are written behind its end exactly when both together are more than it has room for.
  The target is a buffer that can be used again exactly if it has room and its own chunk size is at most the size of the
  chunk that was in front of the source; if it is larger, the free part that \<open>clear\<close> sets leaves this chunk.
\<close>

theorem migrate_moves_message:
  assumes "vref_ok b" "vref_ok to" "vref_separate b to" "v_ref_size to \<le> v_ref_size b"
    and "malloc (sizeof_chunk + v_chunk_size b) = Some blank"
    and "realloc (sizeof_iovec * grow (v_room to * 2) (length (v_vec b) + length (v_vec to))) \<noteq> None"
  shows "\<exists>b' to'. migrate malloc realloc b to = (Inr (), b', to')
    \<and> gather mem to' = gather mem to @ gather mem b \<and> gather mem b' = [] \<and> vref_ok b'
    \<and> (vref_end to < v_array b \<longrightarrow> length (v_vec to') \<le> v_room to')
    \<and> (vref_end b \<le> v_array to \<longrightarrow> v_array to' = v_array to
        \<and> (v_room to' < length (v_vec to') \<longleftrightarrow> v_room to < length (v_vec to) + length (v_vec b)))
    \<and> (vref_ok to' \<longleftrightarrow> length (v_vec to') \<le> v_room to' \<and> v_chunk_size to \<le> snd (hd (ib_chunks b)))
    \<and> (inside_of (free_part (vref_clear to')) (payload (hd (ib_chunks to'))) \<longleftrightarrow> v_chunk_size to \<le> snd (hd (ib_chunks b)))"
proof -
  obtain b' to' where m: "migrate malloc realloc b to = (Inr (), b', to')"
    using migrate_returns [of malloc b blank realloc to, OF assms(5,6)] by blast
  have "length (v_vec to') = length (v_vec to) + length (v_vec b)" using migrate_target(1) [OF m assms(1,2)] by simp
  then show ?thesis
    using m migrate_ok [OF m assms(1,2), of mem] migrate_room [OF m assms(1,2)] migrate_target_ok [OF m assms(1-4)]
      migrate_clear [OF m assms(1,2)] by (intro exI [of _ b'] exI [of _ to']) auto
qed

text \<open>A buffer at address 1000 and its chunk at 2000, and one at 3000 whose four entries are used.\<close>

definition small_vref :: vrefbuffer where
  "small_vref = \<lparr>v_array = 1000, v_vec = [(2008, 3)], v_room = 4, v_ref_size = 32, v_chunk_size = 64,
     ib_free = 61, ib_ptr = 2011, ib_chunks = [(2000, 64)]\<rparr>"

definition full_vref :: vrefbuffer where
  "full_vref = \<lparr>v_array = 3000, v_vec = [(5000, 40), (6000, 40), (7000, 40), (8000, 40)], v_room = 4, v_ref_size = 32,
     v_chunk_size = 64, ib_free = 64, ib_ptr = 4008, ib_chunks = [(4000, 64)]\<rparr>"

theorem migrate_moves_message_witness:
  "\<exists>b' to'. migrate (\<lambda>_. Some 9000) (\<lambda>_. Some 9000) small_vref full_vref = (Inr (), b', to')
    \<and> v_array to' = 3000 \<and> v_room to' < length (v_vec to')"
proof -
  have ok: "vref_ok small_vref" "vref_ok full_vref" "vref_separate small_vref full_vref" "v_ref_size full_vref \<le> v_ref_size small_vref"
    "vref_end small_vref \<le> v_array full_vref" "v_room full_vref < length (v_vec full_vref) + length (v_vec small_vref)"
    by (auto simp: vref_ok_def small_vref_def full_vref_def vref_separate_def outside_def free_part_def apart_def
        inside_of_def payload_def chunk_block_def sizeof_chunk_def packer_max_buffer_size_def vref_end_def sizeof_iovec_def)
  obtain b' to' where m: "migrate (\<lambda>_. Some 9000) (\<lambda>_. Some 9000) small_vref full_vref = (Inr (), b', to')
    \<and> v_array to' = v_array full_vref \<and> v_room to' < length (v_vec to')"
    using migrate_moves_message [OF ok(1-4), of "\<lambda>_. Some 9000" 9000 "\<lambda>_. Some 9000" "\<lambda>_. 0"] ok(5,6) by auto
  then show ?thesis by (intro exI [of _ b'] exI [of _ to']) (simp add: full_vref_def)
qed

text \<open>Three bytes of the stack of a packer are copied into a new buffer.\<close>

theorem vref_holds_message_witness:
  "gather (memcpy 2008 5000 3 (\<lambda>a. of_nat a)) (small_vref\<lparr>v_chunk_size := 64\<rparr>) = [136, 137, 138]"
proof -
  let ?b = "\<lparr>v_array = 1000, v_vec = [], v_room = 4, v_ref_size = 32, v_chunk_size = 64,
     ib_free = 64, ib_ptr = 2008, ib_chunks = [(2000, 64)]\<rparr>"
  have new: "vref_run ?b (\<lambda>a. of_nat a) []"
    by (rule vr_new [of "\<lambda>_. Some 1000" "\<lambda>_. Some 2000" 32 64])
      (simp add: vref_new_def sizeof_iovec_def sizeof_chunk_def packer_max_buffer_size_def)
  have w: "vref_write (\<lambda>_. None) (\<lambda>_. None) 5000 3 ?b (\<lambda>a. of_nat a)
    = (Inr (), small_vref, memcpy 2008 5000 3 (\<lambda>a. of_nat a))"
    by (simp add: vref_write_def append_copy_def append_ref_def small_vref_def)
  have "vref_run small_vref (memcpy 2008 5000 3 (\<lambda>a. of_nat a)) (region (\<lambda>a. of_nat a) (5000, 3))"
    using vr_write [OF new _ _ w] by (simp add: vref_fresh_def outside_def apart_def chunk_block_def sizeof_chunk_def)
  then have "gather (memcpy 2008 5000 3 (\<lambda>a. of_nat a)) small_vref = region (\<lambda>a. of_nat a) (5000, 3)"
    using vref_holds_message by blast
  then show ?thesis by (simp add: region_def upt_rec small_vref_def)
qed

end
