(* ===== verification/ZoneLife.thy ===== *)
theory ZoneLife
  imports Zone "HOL-Library.Multiset"
begin

text \<open>
  The life of zones (\<open>cpp11_zone.hpp\<close>): destruction, moves and \<open>swap\<close>, and what they do to the chunks and
  finalizers. An event is a call of a finalizer or the \<open>free\<close> of a chunk; the members of a class are destroyed in the
  reverse of their order and moved in their order, which is \<open>m_chunk_list\<close>, \<open>m_finalizer_array\<close>.
\<close>

datatype 'f zone_event = is_Finalized: Finalized 'f | Freed nat

subsection \<open>The end of a zone\<close>

definition finalizer_events :: "'f zone \<Rightarrow> 'f zone_event list" where
  "finalizer_events z = map Finalized (rev (fin_array z))"

definition chunk_list_events :: "'f zone \<Rightarrow> 'f zone_event list" where
  "chunk_list_events z = map Freed (map fst (cl_chunks z))"

definition zone_destroy :: "'f zone \<Rightarrow> 'f zone_event list" where
  "zone_destroy z = finalizer_events z @ chunk_list_events z"

text \<open>\<open>clear\<close> needs a chunk to keep, which a zone that was moved from has not.\<close>

definition clear_events :: "'f zone \<Rightarrow> 'f zone_event list" where
  "clear_events z = map Finalized (fst (clear z)) @ map Freed (map fst (butlast (cl_chunks z)))"

subsection \<open>Moves\<close>

text \<open>What is left of a zone that is moved from: its pointer and its free size stay.\<close>

definition chunk_list_moved :: "'f zone \<Rightarrow> 'f zone" where
  "chunk_list_moved z = z\<lparr>cl_chunks := []\<rparr>"

definition finalizer_array_moved :: "'f zone \<Rightarrow> 'f zone" where
  "finalizer_array_moved z = z\<lparr>fin_array := [], fin_end := 0\<rparr>"

definition moved_from :: "'f zone \<Rightarrow> 'f zone" where
  "moved_from z = finalizer_array_moved (chunk_list_moved z)"

text \<open>Move assignment destroys and rebuilds the members one after the other.\<close>

definition zone_assign :: "'f zone \<Rightarrow> 'f zone \<Rightarrow> 'f zone_event list \<times> 'f zone \<times> 'f zone" where
  "zone_assign z other = (chunk_list_events z @ finalizer_events z, other, moved_from other)"

text \<open>\<open>std::swap\<close> moves three times over a temporary, which it then destroys.\<close>

definition zone_swap :: "'f zone \<Rightarrow> 'f zone \<Rightarrow> 'f zone_event list \<times> 'f zone \<times> 'f zone" where
  "zone_swap a b = (let tmp = a; a = moved_from a in
     case zone_assign a b of (es1, a, b) \<Rightarrow>
     case zone_assign b tmp of (es2, b, tmp) \<Rightarrow> (es1 @ es2 @ zone_destroy tmp, a, b))"

lemma moved_from_events [simp]:
  "finalizer_events (moved_from z) = []" "chunk_list_events (moved_from z) = []" "zone_destroy (moved_from z) = []"
  by (simp_all add: moved_from_def finalizer_array_moved_def chunk_list_moved_def finalizer_events_def chunk_list_events_def zone_destroy_def)

lemma zone_swap_eq: "zone_swap a b = ([], b, a)"
  by (simp add: zone_swap_def zone_assign_def)

text \<open>A zone that was moved from still gives away what is left of the chunk it no longer owns.\<close>

lemma moved_zone_aliases:
  "sz \<le> cl_free z \<Longrightarrow> allocate_no_align malloc sz z = Inr (cl_ptr z, use_up sz z)
     \<and> allocate_no_align malloc' sz (moved_from z) = Inr (cl_ptr z, use_up sz (moved_from z))"
  by (simp add: allocate_no_align_def moved_from_def finalizer_array_moved_def chunk_list_moved_def)

subsection \<open>Many zones\<close>

fun freed :: "'f zone_event list \<Rightarrow> nat multiset" where
  "freed [] = {#}"
| "freed (Freed a # es) = add_mset a (freed es)"
| "freed (Finalized f # es) = freed es"

fun finalized :: "'f zone_event list \<Rightarrow> 'f multiset" where
  "finalized [] = {#}"
| "finalized (Freed a # es) = finalized es"
| "finalized (Finalized f # es) = add_mset f (finalized es)"

text \<open>What an operation took from \<open>malloc\<close> for chunks: they are in front of the list.\<close>

definition new_chunks :: "'f zone \<Rightarrow> 'f zone \<Rightarrow> nat multiset" where
  "new_chunks z z' = mset (map fst (take (length (cl_chunks z') - length (cl_chunks z)) (cl_chunks z')))"

text \<open>\<open>zones_run M t p es\<close>: after some operations \<open>M\<close> are the zones that live, \<open>t\<close> the chunks ever taken, \<open>p\<close> the finalizers ever
  pushed, \<open>es\<close> the events. Any zone may be the one an operation works on.\<close>

inductive zones_run :: "'f zone multiset \<Rightarrow> nat multiset \<Rightarrow> 'f multiset \<Rightarrow> 'f zone_event list \<Rightarrow> bool" where
  none: "zones_run {#} {#} {#} []"
| create: "zones_run M t p es \<Longrightarrow> zone_new malloc n = Inr z \<Longrightarrow> zones_run (add_mset z M) (t + mset (map fst (cl_chunks z))) p es"
| aligned: "zones_run (add_mset z M) t p es \<Longrightarrow> allocate_align malloc sz align z = Inr (a, z')
    \<Longrightarrow> zones_run (add_mset z' M) (t + new_chunks z z') p es"
| plain: "zones_run (add_mset z M) t p es \<Longrightarrow> allocate_no_align malloc sz z = Inr (a, z')
    \<Longrightarrow> zones_run (add_mset z' M) (t + new_chunks z z') p es"
| constructed: "zones_run (add_mset z M) t p es \<Longrightarrow> allocate malloc malloc2 ok sz align f z = (r, z')
    \<Longrightarrow> zones_run (add_mset z' M) (t + new_chunks z z') (p + (case r of Inl e \<Rightarrow> {#} | Inr a \<Rightarrow> {#f#})) es"
| pushed: "zones_run (add_mset z M) t p es \<Longrightarrow> push_finalizer malloc f z = Inr z' \<Longrightarrow> zones_run (add_mset z' M) t (add_mset f p) es"
| cleared: "zones_run (add_mset z M) t p es \<Longrightarrow> cl_chunks z \<noteq> [] \<Longrightarrow> zones_run (add_mset (snd (clear z)) M) t p (es @ clear_events z)"
| moved: "zones_run (add_mset z M) t p es \<Longrightarrow> zones_run (add_mset z (add_mset (moved_from z) M)) t p es"
| assigned: "zones_run (add_mset z (add_mset other M)) t p es \<Longrightarrow> zone_assign z other = (es', z', other')
    \<Longrightarrow> zones_run (add_mset z' (add_mset other' M)) t p (es @ es')"
| swapped: "zones_run (add_mset a (add_mset b M)) t p es \<Longrightarrow> zone_swap a b = (es', a', b')
    \<Longrightarrow> zones_run (add_mset a' (add_mset b' M)) t p (es @ es')"
| destroyed: "zones_run (add_mset z M) t p es \<Longrightarrow> zones_run M t p (es @ zone_destroy z)"

abbreviation chunks_of :: "'f zone \<Rightarrow> nat multiset" where
  "chunks_of z \<equiv> mset (map fst (cl_chunks z))"

abbreviation held_chunks :: "'f zone multiset \<Rightarrow> nat multiset" where
  "held_chunks M \<equiv> \<Sum>\<^sub># (image_mset chunks_of M)"

abbreviation held_finalizers :: "'f zone multiset \<Rightarrow> 'f multiset" where
  "held_finalizers M \<equiv> \<Sum>\<^sub># (image_mset (\<lambda>z. mset (fin_array z)) M)"

lemma freed_append [simp]: "freed (es @ fs) = freed es + freed fs"
  by (induction es rule: freed.induct) simp_all

lemma finalized_append [simp]: "finalized (es @ fs) = finalized es + finalized fs"
  by (induction es rule: finalized.induct) simp_all

lemma freed_map [simp]: "freed (map (Freed \<circ> g) xs) = image_mset g (mset xs)" "freed (map Finalized fs) = {#}"
proof -
  show "freed (map (Freed \<circ> g) xs) = image_mset g (mset xs)" by (induction xs) simp_all
  show "freed (map Finalized fs) = {#}" by (induction fs) simp_all
qed

lemma finalized_map [simp]: "finalized (map Finalized fs) = mset fs" "finalized (map (Freed \<circ> g) xs) = {#}"
proof -
  show "finalized (map Finalized fs) = mset fs" by (induction fs) simp_all
  show "finalized (map (Freed \<circ> g) xs) = {#}" by (induction xs) simp_all
qed

lemma destroy_events [simp]:
  "freed (zone_destroy z) = chunks_of z" "finalized (zone_destroy z) = mset (fin_array z)"
  by (simp_all add: zone_destroy_def finalizer_events_def chunk_list_events_def)

text \<open>Allocating only puts chunks in front and leaves the finalizers alone.\<close>

definition grows :: "'f zone \<Rightarrow> 'f zone \<Rightarrow> bool" where
  "grows z z' \<longleftrightarrow> (\<exists>cs. cl_chunks z' = cs @ cl_chunks z) \<and> fin_array z' = fin_array z"

lemma grows_chunks: "\<exists>cs. cl_chunks z' = cs @ cl_chunks z \<Longrightarrow> chunks_of z' = new_chunks z z' + chunks_of z"
  by (auto simp: new_chunks_def)

lemma allocate_expand_grows: "allocate_expand malloc sz z = Inr (a, z') \<Longrightarrow> grows z z'"
  by (auto simp: allocate_expand_def Let_def grows_def split: option.splits)

lemma allocate_align_grows:
  assumes "allocate_align malloc sz align z = Inr (a, z')"
  shows "grows z z'"
proof (cases "cl_free z < wrap (sz + (get_aligned (cl_ptr z) align - cl_ptr z))")
  case True
  then obtain ptr z1 n where "allocate_expand malloc (wrap (sz + align - 1)) z = Inr (ptr, z1)" "z' = use_up n z1"
    using assms by (auto simp: allocate_align_def Let_def bind_result_Inr_iff)
  then show ?thesis using allocate_expand_grows [of malloc _ z ptr z1] by (simp add: grows_def use_up_def)
next
  case False
  then show ?thesis using assms by (auto simp: allocate_align_def Let_def grows_def use_up_def)
qed

lemma allocate_no_align_grows: "allocate_no_align malloc sz z = Inr (a, z') \<Longrightarrow> grows z z'"
  using allocate_expand_grows
  by (fastforce simp: allocate_no_align_def bind_result_Inr_iff grows_def use_up_def split: if_splits)

lemma push_finalizer_adds:
  "push_finalizer malloc f z = Inr z' \<Longrightarrow> fin_array z' = fin_array z @ [f] \<and> cl_chunks z' = cl_chunks z"
  by (auto simp: push_finalizer_def Let_def split: if_splits option.splits)

lemma allocate_effect:
  assumes "allocate malloc malloc2 ok sz align f z = (r, z')"
  shows "(\<exists>cs. cl_chunks z' = cs @ cl_chunks z) \<and> mset (fin_array z') = mset (fin_array z) + (case r of Inl e \<Rightarrow> {#} | Inr a \<Rightarrow> {#f#})"
proof (cases "allocate_align malloc sz align z")
  case (Inl e)
  then show ?thesis using assms by (auto simp: allocate_def)
next
  case (Inr y)
  then obtain x z1 where x: "allocate_align malloc sz align z = Inr (x, z1)" by (cases y) auto
  then have g: "grows z z1" by (rule allocate_align_grows)
  show ?thesis
  proof (cases "push_finalizer malloc2 f z1")
    case (Inl e)
    then show ?thesis using assms x g by (auto simp: allocate_def grows_def undo_allocate_def)
  next
    case (Inr z2)
    then show ?thesis using assms x g push_finalizer_adds [OF Inr]
      by (cases ok) (auto simp: allocate_def grows_def undo_allocate_def)
  qed
qed

lemma clear_accounts:
  assumes "cl_chunks z \<noteq> []"
  shows "freed (clear_events z) + chunks_of (snd (clear z)) = chunks_of z"
    "finalized (clear_events z) = mset (fin_array z)" "fin_array (snd (clear z)) = []"
proof -
  have "chunks_of z = mset (map fst (butlast (cl_chunks z) @ [last (cl_chunks z)]))" using assms by simp
  then show "freed (clear_events z) + chunks_of (snd (clear z)) = chunks_of z"
    by (simp add: clear_events_def clear_def finalizer_clear_def chunk_list_clear_def Let_def)
qed (simp_all add: clear_events_def clear_def finalizer_clear_def chunk_list_clear_def Let_def)

lemma zones_account: "zones_run M t p es \<Longrightarrow> t = freed es + held_chunks M \<and> p = finalized es + held_finalizers M"
proof (induction rule: zones_run.induct)
  case (create M t p es malloc n z)
  then show ?case by (auto simp: zone_new_def split: option.splits)
next
  case (aligned z M t p es malloc sz align a z')
  then show ?case using allocate_align_grows [OF aligned.hyps(2)] grows_chunks [of z' z] by (simp add: grows_def)
next
  case (plain z M t p es malloc sz a z')
  then show ?case using allocate_no_align_grows [OF plain.hyps(2)] grows_chunks [of z' z] by (simp add: grows_def)
next
  case (constructed z M t p es malloc malloc2 ok sz align f r z')
  then show ?case using allocate_effect [OF constructed.hyps(2)] grows_chunks [of z' z] by simp
next
  case (pushed z M t p es malloc f z')
  then show ?case using push_finalizer_adds [OF pushed.hyps(2)] by simp
next
  case (cleared z M t p es)
  then show ?case using clear_accounts [OF cleared.hyps(2)] by (simp add: ac_simps)
next
  case (moved z M t p es)
  then show ?case by (simp add: moved_from_def finalizer_array_moved_def chunk_list_moved_def)
next
  case (assigned z other M t p es es' z' other')
  then show ?case by (auto simp: zone_assign_def moved_from_def finalizer_array_moved_def chunk_list_moved_def finalizer_events_def chunk_list_events_def)
next
  case (swapped a b M t p es es' a' b')
  then show ?case by (auto simp: zone_swap_eq ac_simps)
next
  case (destroyed z M t p es)
  then show ?case by (simp add: ac_simps)
qed simp_all

subsection \<open>Properties\<close>

text \<open>A finalizer is called after a chunk, in which its object may lie, was freed.\<close>

fun frees_first :: "'f zone_event list \<Rightarrow> bool" where
  "frees_first [] = False"
| "frees_first (Freed a # es) = list_ex is_Finalized es"
| "frees_first (Finalized f # es) = frees_first es"

lemma no_finalizer_freed: "\<not> list_ex is_Finalized (map Freed as)"
  by (induction as) simp_all

lemma freed_only: "\<not> frees_first (map Freed as)"
  by (cases as) (simp_all add: no_finalizer_freed)

lemma finalizers_then_chunks: "\<not> frees_first (map Finalized fs @ map Freed as)"
  by (induction fs) (simp_all add: freed_only)

lemma chunks_then_finalizers: "frees_first (map Freed as @ map Finalized fs) \<longleftrightarrow> as \<noteq> [] \<and> fs \<noteq> []"
proof (cases as)
  case Nil
  then show ?thesis using finalizers_then_chunks [of fs "[]"] by simp
next
  case (Cons a as')
  have "list_ex is_Finalized (map Finalized fs) \<longleftrightarrow> fs \<noteq> []" by (cases fs) simp_all
  then show ?thesis using Cons by (simp add: no_finalizer_freed)
qed

lemmas frees_first_split = finalizers_then_chunks chunks_then_finalizers

text \<open>
  C31: nothing is lost and nothing is done twice. Create zones and work on them in any order: allocate, construct objects that
  may throw, push finalizers, clear, move, assign, swap and destroy. When all zones that are left are
  destroyed, every chunk ever taken from \<open>malloc\<close> has been freed exactly once and every finalizer ever pushed has been called
  exactly once. A zone that is destroyed or cleared calls its finalizers before it frees a chunk; move assignment to a
  zone that has both does it the other way round, so the objects are destroyed in memory that is gone.
\<close>

theorem zone_life:
  fixes M :: "'f zone multiset"
  assumes "zones_run M t p es" "mset zs = M"
  shows "freed (es @ concat (map zone_destroy zs)) = t \<and> finalized (es @ concat (map zone_destroy zs)) = p
    \<and> (\<forall>z :: 'f zone. \<not> frees_first (zone_destroy z) \<and> \<not> frees_first (clear_events z))
    \<and> (\<forall>z other :: 'f zone. frees_first (fst (zone_assign z other)) \<longleftrightarrow> cl_chunks z \<noteq> [] \<and> fin_array z \<noteq> [])"
proof -
  have "freed (concat (map zone_destroy zs)) = held_chunks (mset zs)"
    "finalized (concat (map zone_destroy zs)) = held_finalizers (mset zs)" by (induction zs) simp_all
  then have "freed (es @ concat (map zone_destroy zs)) = t" "finalized (es @ concat (map zone_destroy zs)) = p"
    using zones_account [OF assms(1)] assms(2) by simp_all
  moreover have "\<not> frees_first (zone_destroy z) \<and> \<not> frees_first (clear_events z)" for z :: "'f zone"
    by (simp add: zone_destroy_def clear_events_def finalizer_events_def chunk_list_events_def frees_first_split flip: map_map)
  moreover have "frees_first (fst (zone_assign z other)) \<longleftrightarrow> cl_chunks z \<noteq> [] \<and> fin_array z \<noteq> []" for z other :: "'f zone"
    by (simp add: zone_assign_def finalizer_events_def chunk_list_events_def frees_first_split flip: map_map)
  ultimately show ?thesis by blast
qed

definition fresh_zone :: "nat \<Rightarrow> nat zone" where
  "fresh_zone a = \<lparr>cl_chunk_size = 16, cl_free = 16, cl_ptr = a + 8, cl_chunks = [(a, 16)], fin_array = [], fin_end = 0\<rparr>"

lemma fresh_zone_new: "zone_new (\<lambda>_. Some a) 16 = Inr (fresh_zone a)"
  by (simp add: zone_new_def fresh_zone_def sizeof_chunk_def)

text \<open>A zone with a finalizer is assigned another zone.\<close>

theorem zone_life_witness:
  "freed ([Freed 1000, Finalized 7] @ zone_destroy (fresh_zone 2000)) = {#1000, 2000#}
   \<and> finalized ([Freed 1000, Finalized 7] @ zone_destroy (fresh_zone 2000)) = {#7 :: nat#}"
proof -
  define z where "z = (fresh_zone 1000)\<lparr>fin_array := [7], fin_end := 4\<rparr>"
  have "zones_run {#fresh_zone 1000#} {#1000#} {#} []"
    using zones_run.create [OF zones_run.none fresh_zone_new, of 1000] by (simp add: fresh_zone_def)
  then have "zones_run {#z#} {#1000#} {#7#} []"
    by (rule zones_run.pushed [where malloc = "\<lambda>_. Some 0" and f = 7])
      (simp add: push_finalizer_def z_def fresh_zone_def sizeof_finalizer_def)
  from zones_run.create [OF this fresh_zone_new, of 2000]
  have "zones_run (add_mset z {#fresh_zone 2000#}) {#1000, 2000#} {#7#} []"
    by (simp add: fresh_zone_def add_mset_commute)
  from zones_run.assigned [OF this, of "[Freed 1000, Finalized 7]" "fresh_zone 2000" "moved_from (fresh_zone 2000)"]
  have run: "zones_run {#fresh_zone 2000, moved_from (fresh_zone 2000)#} {#1000, 2000#} {#7#} [Freed 1000, Finalized 7]"
    by (simp add: zone_assign_def chunk_list_events_def finalizer_events_def z_def fresh_zone_def)
  show ?thesis using zone_life [OF run, of "[fresh_zone 2000, moved_from (fresh_zone 2000)]"] by (simp add: fresh_zone_def)
qed

end
