(* ===== verification/Rpc.thy ===== *)
theory Rpc
  imports SRS Unpack FloatBits
begin

text \<open>
  Remote calls: the adaptors of \<open>rpclib\<close> that turn a decoded object into C++ values and back
  (\<open>float.hpp\<close>, \<open>bool.hpp\<close>, \<open>int.hpp\<close>, \<open>string.hpp\<close>, \<open>tuple.hpp\<close>), the functors that \<open>bind\<close> registers
  (\<open>dispatcher.inl\<close>), the message a client sends (\<open>client.inl\<close>), and the three bindings of
  \<open>SRSServer.cpp\<close>. The bodies that are only in \<open>librpc.a\<close> are the fields of \<open>rpc_lib\<close>; what the headers
  document of them is \<open>rpc_lib_ok\<close>.
\<close>

text \<open>\<open>Out_of_bounds\<close> is no exception of the code: it marks a read past the end of what there is.\<close>

datatype rpc_exn = Type_error | Argument_error | Name_error | Container_size_overflow | Out_of_bounds

subsection \<open>Conversions of objects\<close>

definition convert_float :: "object \<Rightarrow> rpc_exn + float" where
  "convert_float o' = (case o' of
      FLOAT32 b \<Rightarrow> Inr (to_float (float_of_bits b))
    | FLOAT64 b \<Rightarrow> Inr (to_float (double_of_bits b))
    | POSITIVE_INTEGER u \<Rightarrow> Inr (round32 (of_int (uint u)))
    | NEGATIVE_INTEGER i \<Rightarrow> Inr (round32 (of_int (sint i)))
    | _ \<Rightarrow> Inl Type_error)"

definition convert_double :: "object \<Rightarrow> rpc_exn + double" where
  "convert_double o' = (case o' of
      FLOAT32 b \<Rightarrow> Inr (float_of_bits b)
    | FLOAT64 b \<Rightarrow> Inr (double_of_bits b)
    | POSITIVE_INTEGER u \<Rightarrow> Inr (round64 (of_int (uint u)))
    | NEGATIVE_INTEGER i \<Rightarrow> Inr (round64 (of_int (sint i)))
    | _ \<Rightarrow> Inl Type_error)"

definition convert_bool :: "object \<Rightarrow> rpc_exn + bool" where
  "convert_bool o' = (case o' of BOOLEAN b \<Rightarrow> Inr b | _ \<Rightarrow> Inl Type_error)"

text \<open>Integers of \<open>n\<close> bits; a value outside the type is an error.\<close>

definition convert_signed :: "nat \<Rightarrow> object \<Rightarrow> rpc_exn + int" where
  "convert_signed n o' = (case o' of
      POSITIVE_INTEGER u \<Rightarrow> if uint u > 2 ^ (n - 1) - 1 then Inl Type_error else Inr (uint u)
    | NEGATIVE_INTEGER i \<Rightarrow> if sint i < - (2 ^ (n - 1)) then Inl Type_error else Inr (sint i)
    | _ \<Rightarrow> Inl Type_error)"

definition convert_unsigned :: "nat \<Rightarrow> object \<Rightarrow> rpc_exn + int" where
  "convert_unsigned n o' = (case o' of
      POSITIVE_INTEGER u \<Rightarrow> if uint u > 2 ^ n - 1 then Inl Type_error else Inr (uint u)
    | _ \<Rightarrow> Inl Type_error)"

definition convert_string :: "object \<Rightarrow> rpc_exn + byte list" where
  "convert_string o' = (case o' of BIN s \<Rightarrow> Inr s | STRING s \<Rightarrow> Inr s | _ \<Rightarrow> Inl Type_error)"

definition convert_object :: "object \<Rightarrow> rpc_exn + object" where
  "convert_object o' = Inr o'"

text \<open>The element \<open>n\<close> of a tuple keeps the value it was default-constructed with when the array is too
  short.\<close>

definition convert_elem :: "nat \<Rightarrow> (object \<Rightarrow> rpc_exn + 'a) \<Rightarrow> 'a \<Rightarrow> object list \<Rightarrow> rpc_exn + 'a" where
  "convert_elem n conv v xs = (if length xs \<ge> n then conv (xs ! (n - 1)) else Inr v)"

definition convert_tuple4 :: "(object \<Rightarrow> rpc_exn + 'a) \<Rightarrow> (object \<Rightarrow> rpc_exn + 'b) \<Rightarrow> (object \<Rightarrow> rpc_exn + 'c)
    \<Rightarrow> (object \<Rightarrow> rpc_exn + 'd) \<Rightarrow> 'a \<times> 'b \<times> 'c \<times> 'd \<Rightarrow> object \<Rightarrow> rpc_exn + 'a \<times> 'b \<times> 'c \<times> 'd" where
  "convert_tuple4 c1 c2 c3 c4 v o' = (case o' of
      ARRAY xs \<Rightarrow> (case v of (v1, v2, v3, v4) \<Rightarrow>
        bind_result (convert_elem 1 c1 v1 xs) (\<lambda>w1. bind_result (convert_elem 2 c2 v2 xs) (\<lambda>w2.
        bind_result (convert_elem 3 c3 v3 xs) (\<lambda>w3. bind_result (convert_elem 4 c4 v4 xs) (\<lambda>w4.
          Inr (w1, w2, w3, w4))))))
    | _ \<Rightarrow> Inl Type_error)"

text \<open>A value as an object.\<close>

definition object_float :: "float \<Rightarrow> object" where
  "object_float v = FLOAT32 (bits_of_float v)"

subsection \<open>Messages\<close>

definition string_bytes :: "string \<Rightarrow> byte list" where
  "string_bytes s = map of_char s"

definition pack_string :: "string \<Rightarrow> byte list" where
  "pack_string s = pack_str (size32 s) @ pack_str_body (string_bytes s) (size32 s)"

text \<open>\<open>client::async_call\<close> packs a tuple of four: the kind of request, the number of the call, the name
  and the tuple of arguments; \<open>args\<close> are the packed arguments.\<close>

definition client_call :: "32 word \<Rightarrow> string \<Rightarrow> byte list list \<Rightarrow> byte list" where
  "client_call idx name args = pack_array 4 @ pack_unsigned_char 0 @ pack_int idx @ pack_string name
     @ (pack_array (size32 args) @ concat args)"

text \<open>The type \<open>call_t\<close> that the dispatcher converts a message to.\<close>

definition convert_call :: "object \<Rightarrow> rpc_exn + int \<times> int \<times> byte list \<times> object" where
  "convert_call = convert_tuple4 (convert_signed 8) (convert_unsigned 32) convert_string convert_object (0, 0, [], NIL)"

subsection \<open>The registry of functors\<close>

record rpc_lib =
  enforce_arg_count :: "string \<Rightarrow> nat \<Rightarrow> nat \<Rightarrow> rpc_exn + unit"
  enforce_unique_name :: "string set \<Rightarrow> string \<Rightarrow> rpc_exn + unit"
  via_array_size :: "object \<Rightarrow> nat"

text \<open>\<open>via_array_size\<close> reads the size out of the union: it means something only for an array.\<close>

definition rpc_lib_ok :: "rpc_lib \<Rightarrow> bool" where
  "rpc_lib_ok L \<longleftrightarrow> (\<forall>f m n. enforce_arg_count L f m n = (if m = n then Inr () else Inl Argument_error))
     \<and> (\<forall>S n. n \<notin> S \<longrightarrow> enforce_unique_name L S n = Inr ())
     \<and> (\<forall>xs. via_array_size L (ARRAY xs) = length xs)"

text \<open>A functor takes the arguments and runs; what it hands to its continuation is the object of the
  result, if it has one.\<close>

type_synonym rpc_func = "object \<Rightarrow> rpc_exn + ((object option \<Rightarrow> proc) \<Rightarrow> proc)"
type_synonym funcs = "string \<rightharpoonup> rpc_func"

definition insert_func :: "string \<Rightarrow> rpc_func \<Rightarrow> funcs \<Rightarrow> funcs" where
  "insert_func name f funcs = (if name \<in> dom funcs then funcs else funcs(name \<mapsto> f))"

definition bind_void_zero :: "rpc_lib \<Rightarrow> string \<Rightarrow> (proc \<Rightarrow> proc) \<Rightarrow> funcs \<Rightarrow> rpc_exn + funcs" where
  "bind_void_zero L name func funcs =
     bind_result (enforce_unique_name L (dom funcs) name) (\<lambda>_.
     bind_result (enforce_unique_name L (dom funcs) name) (\<lambda>_.
       Inr (insert_func name (\<lambda>args.
         bind_result (enforce_arg_count L name 0 (via_array_size L args)) (\<lambda>_.
           Inr (\<lambda>k. func (k None)))) funcs)))"

definition bind_void_nonzero :: "rpc_lib \<Rightarrow> string \<Rightarrow> nat \<Rightarrow> (object \<Rightarrow> rpc_exn + 'a) \<Rightarrow> ('a \<Rightarrow> proc \<Rightarrow> proc)
    \<Rightarrow> funcs \<Rightarrow> rpc_exn + funcs" where
  "bind_void_nonzero L name args_count convert func funcs =
     bind_result (enforce_unique_name L (dom funcs) name) (\<lambda>_.
     bind_result (enforce_unique_name L (dom funcs) name) (\<lambda>_.
       Inr (insert_func name (\<lambda>args.
         bind_result (enforce_arg_count L name args_count (via_array_size L args)) (\<lambda>_.
         bind_result (convert args) (\<lambda>args_real.
           Inr (\<lambda>k. func args_real (k None))))) funcs)))"

definition bind_nonvoid_zero :: "rpc_lib \<Rightarrow> string \<Rightarrow> ('a \<Rightarrow> object) \<Rightarrow> (('a \<Rightarrow> proc) \<Rightarrow> proc) \<Rightarrow> funcs \<Rightarrow> rpc_exn + funcs" where
  "bind_nonvoid_zero L name to_object func funcs =
     bind_result (enforce_unique_name L (dom funcs) name) (\<lambda>_.
     bind_result (enforce_unique_name L (dom funcs) name) (\<lambda>_.
       Inr (insert_func name (\<lambda>args.
         bind_result (enforce_arg_count L name 0 (via_array_size L args)) (\<lambda>_.
           Inr (\<lambda>k. func (\<lambda>v. k (Some (to_object v)))))) funcs)))"

definition bind_nonvoid_nonzero :: "rpc_lib \<Rightarrow> string \<Rightarrow> nat \<Rightarrow> (object \<Rightarrow> rpc_exn + 'a) \<Rightarrow> ('b \<Rightarrow> object)
    \<Rightarrow> ('a \<Rightarrow> ('b \<Rightarrow> proc) \<Rightarrow> proc) \<Rightarrow> funcs \<Rightarrow> rpc_exn + funcs" where
  "bind_nonvoid_nonzero L name args_count convert to_object func funcs =
     bind_result (enforce_unique_name L (dom funcs) name) (\<lambda>_.
     bind_result (enforce_unique_name L (dom funcs) name) (\<lambda>_.
       Inr (insert_func name (\<lambda>args.
         bind_result (enforce_arg_count L name args_count (via_array_size L args)) (\<lambda>_.
         bind_result (convert args) (\<lambda>args_real.
           Inr (\<lambda>k. func args_real (\<lambda>v. k (Some (to_object v))))))) funcs)))"

text \<open>The bindings of \<open>main\<close>; \<open>e\<close> is what the database gives a sweep.\<close>

definition convert_ramp_args :: "object \<Rightarrow> rpc_exn + float \<times> float \<times> float \<times> bool" where
  "convert_ramp_args = convert_tuple4 convert_float convert_float convert_float convert_bool (Fin 0, Fin 0, Fin 0, False)"

definition srs_bindings :: "rpc_lib \<Rightarrow> (bool \<times> int) \<times> nat \<Rightarrow> rpc_exn + funcs" where
  "srs_bindings L e =
     bind_result (bind_void_nonzero L ''VoltageRamp'' 4 convert_ramp_args
       (\<lambda>(startScanV, stopScanV, scanT, display). VoltageRamp startScanV stopScanV scanT display) Map.empty) (\<lambda>fs.
     bind_result (bind_void_zero L ''PerformSweep'' (PerformSweep e) fs) (\<lambda>fs.
       bind_nonvoid_zero L ''ReadMemVoltage'' object_float ReadMemPSVoltage fs))"

subsection \<open>Facts\<close>

text \<open>A name can be read back from its bytes.\<close>

definition bytes_string :: "byte list \<Rightarrow> string" where
  "bytes_string bs = map (\<lambda>b. char_of (unat b)) bs"

lemma bytes_string_bytes [simp]: "bytes_string (string_bytes s) = s"
proof -
  have "char_of (unat (of_char c :: byte)) = c" for c
  proof -
    have "of_char c = (of_nat (of_char c) :: byte)" by (rule of_nat_of_char [symmetric])
    moreover have "(of_char c :: nat) < 256" by (rule nat_of_char_less_256)
    ultimately have "unat (of_char c :: byte) = of_char c" by (simp add: unat_of_nat)
    then show ?thesis by simp
  qed
  then show ?thesis by (simp add: string_bytes_def bytes_string_def comp_def)
qed

text \<open>What a client sends for a call is the object of the message.\<close>

definition call_object :: "32 word \<Rightarrow> string \<Rightarrow> object list \<Rightarrow> object" where
  "call_object idx name args = ARRAY [POSITIVE_INTEGER 0, POSITIVE_INTEGER (scast idx),
     STRING (string_bytes name), ARRAY args]"

lemma int32_as_uint64: "0 \<le> d \<Longrightarrow> d < 2 ^ 31 \<Longrightarrow> pack_imp_int32 d = pack_imp_uint64 d"
  using integer_packers_agree [of d] by simp

lemma length_string_bytes [simp]: "length (string_bytes s) = length s"
  by (simp add: string_bytes_def)

lemma uint_call_number:
  assumes "0 \<le> sint (idx :: 32 word)"
  shows "uint (scast idx :: 64 word) = sint idx"
proof -
  have "uint (word_of_int (sint idx) :: 64 word) = sint idx mod 2 ^ 64" by (simp only: uint_word_of_int) simp
  also have "\<dots> = sint idx" using assms sint_lt [of idx] by simp
  finally show ?thesis by (simp only: scast_eq)
qed

lemma client_call_object:
  assumes "0 \<le> sint idx"
  shows "client_call idx name (map pack_object args) = pack_object (call_object idx name args)"
proof -
  have "pack_int idx = pack_object (POSITIVE_INTEGER (scast idx))"
    using assms sint_lt [of idx] by (simp add: pack_int_def pack_uint64_def uint_call_number int32_as_uint64)
  moreover have "pack_unsigned_char 0 = pack_object (POSITIVE_INTEGER 0)"
    by (simp add: pack_unsigned_char_def pack_uint64_def pack_imp_uint8_def pack_imp_uint64_def)
  moreover have "pack_string name = pack_object (STRING (string_bytes name))"
    by (simp add: pack_string_def)
  ultimately show ?thesis by (simp add: client_call_def call_object_def)
qed

lemma convert_call_object:
  assumes "0 \<le> sint idx"
  shows "convert_call (call_object idx name args) = Inr (0, sint idx, string_bytes name, ARRAY args)"
  using uint_call_number [OF assms] sint_lt [of idx]
  by (simp add: convert_call_def call_object_def convert_tuple4_def convert_elem_def convert_signed_def
      convert_unsigned_def convert_string_def convert_object_def)

lemma convert_object_float: "is_float v \<Longrightarrow> convert_float (object_float v) = Inr v"
  by (simp add: convert_float_def object_float_def float_bits_inverse is_float_to_float)

lemma convert_ramp_ARRAY:
  "convert_ramp_args (ARRAY [x1, x2, x3, x4]) =
     bind_result (convert_float x1) (\<lambda>a. bind_result (convert_float x2) (\<lambda>b.
     bind_result (convert_float x3) (\<lambda>t. bind_result (convert_bool x4) (\<lambda>d. Inr (a, b, t, d)))))"
  by (simp add: convert_ramp_args_def convert_tuple4_def convert_elem_def)

text \<open>The three functors.\<close>

definition ramp_functor :: "rpc_lib \<Rightarrow> rpc_func" where
  "ramp_functor L args = bind_result (enforce_arg_count L ''VoltageRamp'' 4 (via_array_size L args)) (\<lambda>_.
     bind_result (convert_ramp_args args) (\<lambda>(a, b, t, d). Inr (\<lambda>k. VoltageRamp a b t d (k None))))"

definition sweep_functor :: "rpc_lib \<Rightarrow> (bool \<times> int) \<times> nat \<Rightarrow> rpc_func" where
  "sweep_functor L e args = bind_result (enforce_arg_count L ''PerformSweep'' 0 (via_array_size L args)) (\<lambda>_.
     Inr (\<lambda>k. PerformSweep e (k None)))"

definition read_functor :: "rpc_lib \<Rightarrow> rpc_func" where
  "read_functor L args = bind_result (enforce_arg_count L ''ReadMemVoltage'' 0 (via_array_size L args)) (\<lambda>_.
     Inr (\<lambda>k. ReadMemPSVoltage (\<lambda>v. k (Some (object_float v)))))"

lemma srs_bindings_eq:
  assumes "rpc_lib_ok L"
  shows "srs_bindings L e = Inr [''VoltageRamp'' \<mapsto> ramp_functor L, ''PerformSweep'' \<mapsto> sweep_functor L e,
    ''ReadMemVoltage'' \<mapsto> read_functor L]"
  using assms
  by (simp add: srs_bindings_def bind_void_nonzero_def bind_void_zero_def bind_nonvoid_zero_def insert_func_def
      rpc_lib_ok_def split_def ramp_functor_def [abs_def] sweep_functor_def [abs_def] read_functor_def [abs_def])

lemma rpc_lib_simps:
  assumes "rpc_lib_ok L"
  shows "via_array_size L (ARRAY xs) = length xs"
    "enforce_arg_count L f m n = (if m = n then Inr () else Inl Argument_error)"
  using assms by (simp_all add: rpc_lib_ok_def)

text \<open>What each kind of object converts to.\<close>

definition is_number :: "object \<Rightarrow> bool" where
  "is_number o' = (case o' of FLOAT32 b \<Rightarrow> True | FLOAT64 b \<Rightarrow> True | POSITIVE_INTEGER u \<Rightarrow> True
     | NEGATIVE_INTEGER i \<Rightarrow> True | _ \<Rightarrow> False)"

definition is_boolean :: "object \<Rightarrow> bool" where
  "is_boolean o' = (case o' of BOOLEAN b \<Rightarrow> True | _ \<Rightarrow> False)"

lemma convert_float_number: "is_number o' \<Longrightarrow> \<exists>v. convert_float o' = Inr v"
  by (cases o') (simp_all add: is_number_def convert_float_def)

lemma convert_float_other: "\<not> is_number o' \<Longrightarrow> convert_float o' = Inl Type_error"
  by (cases o') (simp_all add: is_number_def convert_float_def)

lemma convert_bool_boolean: "is_boolean o' \<Longrightarrow> \<exists>v. convert_bool o' = Inr v"
  by (cases o') (simp_all add: is_boolean_def convert_bool_def)

lemma convert_bool_other: "\<not> is_boolean o' \<Longrightarrow> convert_bool o' = Inl Type_error"
  by (cases o') (simp_all add: is_boolean_def convert_bool_def)

lemma bind_float_refused:
  assumes "\<And>v. is_number o' \<Longrightarrow> f v = Inl Type_error"
  shows "bind_result (convert_float o') f = Inl Type_error"
  using convert_float_number [of o'] convert_float_other [of o'] assms by (cases "is_number o'") auto

text \<open>The arguments of a ramp that are accepted.\<close>

definition ramp_arguments :: "object list \<Rightarrow> bool" where
  "ramp_arguments xs = (case xs of [x1, x2, x3, x4] \<Rightarrow> is_number x1 \<and> is_number x2 \<and> is_number x3 \<and> is_boolean x4
     | _ \<Rightarrow> False)"

lemma length_four: "length xs = 4 \<longleftrightarrow> (\<exists>x1 x2 x3 x4. xs = [x1, x2, x3, x4])"
  by (simp add: eval_nat_numeral length_Suc_conv) blast

lemma ramp_arguments_accepted:
  assumes "ramp_arguments xs"
  obtains a b t d where "length xs = 4" "convert_ramp_args (ARRAY xs) = Inr (a, b, t, d)"
proof -
  obtain x1 x2 x3 x4 where xs: "xs = [x1, x2, x3, x4]" "is_number x1" "is_number x2" "is_number x3" "is_boolean x4"
    using assms by (auto simp: ramp_arguments_def split: list.splits)
  moreover obtain a b t d where "convert_float x1 = Inr a" "convert_float x2 = Inr b" "convert_float x3 = Inr t"
    "convert_bool x4 = Inr d"
    using xs convert_float_number convert_bool_boolean by meson
  ultimately show thesis using that by (simp add: convert_ramp_ARRAY)
qed

lemma ramp_arguments_refused:
  assumes "\<not> ramp_arguments xs" "length xs = 4"
  shows "convert_ramp_args (ARRAY xs) = Inl Type_error"
proof -
  obtain x1 x2 x3 x4 where xs: "xs = [x1, x2, x3, x4]" using assms(2) length_four by metis
  then have "\<not> (is_number x1 \<and> is_number x2 \<and> is_number x3 \<and> is_boolean x4)"
    using assms(1) by (simp add: ramp_arguments_def)
  then have "is_number x1 \<Longrightarrow> is_number x2 \<Longrightarrow> is_number x3 \<Longrightarrow> convert_bool x4 = Inl Type_error"
    using convert_bool_other by blast
  then show ?thesis unfolding xs convert_ramp_ARRAY by (intro bind_float_refused) simp
qed

lemma ramp_call_object:
  assumes "0 \<le> sint idx"
  shows "parse_imp default_limit (client_call idx ''VoltageRamp'' [pack_float (bits_of_float a), pack_float (bits_of_float b),
       pack_float (bits_of_float t), if d then pack_true else pack_false])
    = Inr (PARSE_SUCCESS, call_object idx ''VoltageRamp'' [object_float a, object_float b, object_float t, BOOLEAN d],
        length (client_call idx ''VoltageRamp'' [pack_float (bits_of_float a), pack_float (bits_of_float b),
          pack_float (bits_of_float t), if d then pack_true else pack_false]))"
proof -
  define args where "args = [object_float a, object_float b, object_float t, BOOLEAN d]"
  have m: "client_call idx ''VoltageRamp'' [pack_float (bits_of_float a), pack_float (bits_of_float b),
       pack_float (bits_of_float t), if d then pack_true else pack_false]
    = pack_object (call_object idx ''VoltageRamp'' args)"
    using client_call_object [OF assms, of "''VoltageRamp''" args] by (simp add: args_def object_float_def)
  have "fits default_limit 0 (call_object idx ''VoltageRamp'' args)"
    by (simp add: call_object_def args_def object_float_def default_limit_def)
  from parse_packed [OF this, of "[]"] show ?thesis unfolding m args_def [symmetric] by simp
qed

text \<open>A library with the documented behaviour.\<close>

definition sample_lib :: rpc_lib where
  "sample_lib = \<lparr>enforce_arg_count = (\<lambda>f m n. if m = n then Inr () else Inl Argument_error),
     enforce_unique_name = (\<lambda>S n. if n \<in> S then Inl Name_error else Inr ()),
     via_array_size = (\<lambda>o'. case o' of ARRAY xs \<Rightarrow> length xs | _ \<Rightarrow> 0)\<rparr>"

lemma sample_lib_ok: "rpc_lib_ok sample_lib"
  by (simp add: sample_lib_def rpc_lib_ok_def)

lemma is_float_int:
  assumes "\<bar>n\<bar> < 2 ^ 24"
  shows "is_float (Fin (of_int n))"
proof -
  have "\<bar>of_int n :: rat\<bar> = of_int \<bar>n\<bar>" by simp
  also have "\<dots> < of_int (2 ^ 24)" using assms by (simp only: of_int_less_iff)
  also have "of_int (2 ^ 24) = pw2 24" by (simp add: pw2_def)
  also have "pw2 24 \<le> pw2 128" by (rule pw2_mono) simp
  finally show ?thesis using representable_of_int [of n 24 "- 126"] assms by (simp add: is_float_def)
qed

definition the_funcs :: funcs where
  "the_funcs = (case srs_bindings sample_lib ((True, 1), 0) of Inr fs \<Rightarrow> fs | Inl _ \<Rightarrow> Map.empty)"

definition sample_server :: SRSServer where
  "sample_server = (srs_sample [])\<lparr>currentVoltage := Fin 10\<rparr>"

lemma sample_voltage: "currentVoltage sample_server = Fin 10"
  by (simp add: sample_server_def)

lemma the_funcs_eq: "srs_bindings sample_lib ((True, 1), 0) = Inr the_funcs"
  by (simp add: the_funcs_def srs_bindings_eq [OF sample_lib_ok])

text \<open>
  A ramp that a client asks for is the ramp that the server runs. The message the client sends
  for \<open>VoltageRamp\<close> decodes, all of it, to a call with the client's number and name, and the functor
  that \<open>main\<close> bound to the name runs \<open>VoltageRamp\<close> of the driver with exactly the four values the
  client passed, for any numbers of type \<open>float\<close>, infinities and NaN included.
\<close>

theorem remote_ramp:
  assumes "rpc_lib_ok L" "0 \<le> sint idx" "is_float a" "is_float b" "is_float t"
  shows "\<exists>fs f. srs_bindings L e = Inr fs \<and> fs ''VoltageRamp'' = Some f
    \<and> (\<exists>n msg args. parse_imp default_limit (client_call idx ''VoltageRamp'' [pack_float (bits_of_float a),
           pack_float (bits_of_float b), pack_float (bits_of_float t), if d then pack_true else pack_false])
         = Inr (PARSE_SUCCESS, msg, n)
       \<and> convert_call msg = Inr (0, sint idx, string_bytes ''VoltageRamp'', args)
       \<and> f args = Inr (\<lambda>k. VoltageRamp a b t d (k None)))"
proof -
  define args where "args = ARRAY [object_float a, object_float b, object_float t, BOOLEAN d]"
  have "convert_ramp_args args = Inr (a, b, t, d)"
    using assms(3-5) by (simp add: args_def convert_ramp_ARRAY convert_object_float convert_bool_def)
  then have "ramp_functor L args = Inr (\<lambda>k. VoltageRamp a b t d (k None))"
    by (simp add: ramp_functor_def rpc_lib_simps [OF assms(1)] args_def)
  then show ?thesis
    using srs_bindings_eq [OF assms(1), of e] ramp_call_object [OF assms(2), of a b t d]
      convert_call_object [OF assms(2), of "''VoltageRamp''" "[object_float a, object_float b, object_float t, BOOLEAN d]"]
    unfolding args_def by simp
qed

theorem remote_ramp_witness:
  "\<exists>fs f. srs_bindings sample_lib ((True, 1), 0) = Inr fs \<and> fs ''VoltageRamp'' = Some f
    \<and> (\<exists>n msg args. parse_imp default_limit (client_call 7 ''VoltageRamp'' [pack_float (bits_of_float (Fin 0)),
           pack_float (bits_of_float (Fin 10)), pack_float (bits_of_float (Fin 5)), if True then pack_true else pack_false])
         = Inr (PARSE_SUCCESS, msg, n)
       \<and> convert_call msg = Inr (0, sint (7 :: 32 word), string_bytes ''VoltageRamp'', args)
       \<and> f args = Inr (\<lambda>k. VoltageRamp (Fin 0) (Fin 10) (Fin 5) True (k None)))"
  by (rule remote_ramp) (use is_float_int [of 0] is_float_int [of 10] is_float_int [of 5] in \<open>simp_all add: sample_lib_ok\<close>)

text \<open>
  C34: calls that do not fit are refused before anything is done. The functor of \<open>VoltageRamp\<close> throws
  for an argument list that has not four elements, and throws a type error when one of the first
  three is not a number or the last is not a boolean; otherwise it runs. The other two throw for any
  argument, and run for none.
\<close>

theorem bad_calls_rejected:
  assumes "rpc_lib_ok L" "srs_bindings L e = Inr fs"
  shows "\<exists>f g h. fs ''VoltageRamp'' = Some f \<and> fs ''PerformSweep'' = Some g \<and> fs ''ReadMemVoltage'' = Some h
    \<and> (\<forall>xs. (if length xs \<noteq> 4 then f (ARRAY xs) = Inl Argument_error
          else if \<not> ramp_arguments xs then f (ARRAY xs) = Inl Type_error
          else \<exists>a b t d. f (ARRAY xs) = Inr (\<lambda>k. VoltageRamp a b t d (k None)))
        \<and> g (ARRAY xs) = (if xs = [] then Inr (\<lambda>k. PerformSweep e (k None)) else Inl Argument_error)
        \<and> h (ARRAY xs) = (if xs = [] then Inr (\<lambda>k. ReadMemPSVoltage (\<lambda>v. k (Some (object_float v)))) else Inl Argument_error))"
proof -
  note lib = rpc_lib_simps [OF assms(1)]
  have "\<exists>a b t d. ramp_functor L (ARRAY xs) = Inr (\<lambda>k. VoltageRamp a b t d (k None))" if r: "ramp_arguments xs" for xs
  proof -
    obtain a b t d where "length xs = 4" "convert_ramp_args (ARRAY xs) = Inr (a, b, t, d)"
      by (rule ramp_arguments_accepted [OF r])
    then have "ramp_functor L (ARRAY xs) = Inr (\<lambda>k. VoltageRamp a b t d (k None))" by (simp add: ramp_functor_def lib)
    then show ?thesis by blast
  qed
  moreover have "ramp_functor L (ARRAY xs) = Inl Type_error" if "length xs = 4" "\<not> ramp_arguments xs" for xs
    using ramp_arguments_refused [OF that(2,1)] that(1) by (simp add: ramp_functor_def lib)
  moreover have "ramp_functor L (ARRAY xs) = Inl Argument_error" if "length xs \<noteq> 4" for xs
    using that by (auto simp: ramp_functor_def lib)
  moreover have "sweep_functor L e (ARRAY xs) = (if xs = [] then Inr (\<lambda>k. PerformSweep e (k None)) else Inl Argument_error)"
    "read_functor L (ARRAY xs) = (if xs = [] then Inr (\<lambda>k. ReadMemPSVoltage (\<lambda>v. k (Some (object_float v)))) else Inl Argument_error)" for xs
    by (cases xs; simp add: sweep_functor_def read_functor_def lib)+
  moreover have "fs = [''VoltageRamp'' \<mapsto> ramp_functor L, ''PerformSweep'' \<mapsto> sweep_functor L e,
    ''ReadMemVoltage'' \<mapsto> read_functor L]"
    using srs_bindings_eq [OF assms(1), of e] assms(2) by auto
  ultimately show ?thesis
    by (intro exI [of _ "ramp_functor L"] exI [of _ "sweep_functor L e"] exI [of _ "read_functor L"]) simp
qed

theorem bad_calls_rejected_witness:
  "\<exists>f g h. the_funcs ''VoltageRamp'' = Some f \<and> the_funcs ''PerformSweep'' = Some g \<and> the_funcs ''ReadMemVoltage'' = Some h
    \<and> (\<forall>xs. (if length xs \<noteq> 4 then f (ARRAY xs) = Inl Argument_error
          else if \<not> ramp_arguments xs then f (ARRAY xs) = Inl Type_error
          else \<exists>a b t d. f (ARRAY xs) = Inr (\<lambda>k. VoltageRamp a b t d (k None)))
        \<and> g (ARRAY xs) = (if xs = [] then Inr (\<lambda>k. PerformSweep ((True, 1), 0) (k None)) else Inl Argument_error)
        \<and> h (ARRAY xs) = (if xs = [] then Inr (\<lambda>k. ReadMemPSVoltage (\<lambda>v. k (Some (object_float v)))) else Inl Argument_error))"
  by (rule bad_calls_rejected [OF sample_lib_ok the_funcs_eq])

text \<open>
  The voltage a client reads is the stored one. The functor of \<open>ReadMemVoltage\<close> does one step
  that changes nothing and continues with an object; its bytes decode to the same object, and what a
  client converts it to is the \<open>float\<close> the driver had stored.
\<close>

theorem read_voltage:
  assumes "rpc_lib_ok L" "srs_bindings L e = Inr fs" "is_float (currentVoltage s)"
  shows "\<exists>h run step o'. fs ''ReadMemVoltage'' = Some h \<and> h (ARRAY []) = Inr run \<and> run k = Act step
    \<and> step s = (Inr (k (Some o')), s)
    \<and> parse_imp default_limit (pack_object o') = Inr (PARSE_SUCCESS, o', 5)
    \<and> convert_float o' = Inr (currentVoltage s)"
proof -
  define o' where "o' = object_float (currentVoltage s)"
  have "fs ''ReadMemVoltage'' = Some (read_functor L)" using srs_bindings_eq [OF assms(1), of e] assms(2) by auto
  moreover have "read_functor L (ARRAY []) = Inr (\<lambda>k. ReadMemPSVoltage (\<lambda>v. k (Some (object_float v))))"
    by (simp add: read_functor_def rpc_lib_simps [OF assms(1)])
  moreover have "\<exists>step. ReadMemPSVoltage (\<lambda>v. k (Some (object_float v))) = Act step \<and> step s = (Inr (k (Some o')), s)"
    by (simp add: ReadMemPSVoltage_def look_def do_io_def io_get_def o'_def)
  moreover have "parse_imp default_limit (pack_object o') = Inr (PARSE_SUCCESS, o', 5)"
    using parse_packed [of default_limit o' "[]"] by (simp add: o'_def object_float_def pack_float_def)
  moreover have "convert_float o' = Inr (currentVoltage s)"
    unfolding o'_def by (rule convert_object_float [OF assms(3)])
  ultimately show ?thesis by blast
qed

theorem read_voltage_witness:
  "\<exists>h run step o'. the_funcs ''ReadMemVoltage'' = Some h \<and> h (ARRAY []) = Inr run \<and> run (\<lambda>_. Halt) = Act step
    \<and> step sample_server = (Inr Halt, sample_server)
    \<and> parse_imp default_limit (pack_object o') = Inr (PARSE_SUCCESS, o', 5)
    \<and> convert_float o' = Inr (currentVoltage sample_server)"
  using read_voltage [OF sample_lib_ok the_funcs_eq, of sample_server "\<lambda>_. Halt"] is_float_int [of 10] sample_voltage by simp

end
