(* ===== verification/Adaptors.thy ===== *)
theory Adaptors
  imports Rpc "HOL-Library.Multiset"
begin

text \<open>
  The adaptors of \<open>rpclib\<close> (\<open>v1/adaptor\<close>): how the values of C++ are packed, made into objects and read
  back. \<open>convert\<close> overwrites a value that is there already, so it takes that value; \<open>as\<close> makes a new one, by
  converting into a default-constructed value (\<open>object::as\<close>) unless the type has an \<open>as\<close> of its own. A template over
  an element type takes the operations of the element. \<open>std::vector\<close>, \<open>std::list\<close>, \<open>std::deque\<close> and
  \<open>std::forward_list\<close> have the same code and are lists here, and so have the unordered containers and the ordered
  ones. The locale \<open>adaptor\<close> is what the adaptors promise each other: what is packed is the object,
  and converting the object gives the value.
\<close>

subsection \<open>Writing\<close>

text \<open>What a packer has written, and the exception that stopped it.\<close>

type_synonym written = "rpc_exn option \<times> byte list"
type_synonym 'a packer = "'a \<Rightarrow> written"
type_synonym 'a conversion = "object \<Rightarrow> 'a \<Rightarrow> rpc_exn + 'a"

definition emit :: "byte list \<Rightarrow> written" where
  "emit bs = (None, bs)"

definition then_write :: "written \<Rightarrow> written \<Rightarrow> written" where
  "then_write a b = (case fst a of None \<Rightarrow> (fst b, snd a @ snd b) | Some e \<Rightarrow> a)"

fun write_all :: "written list \<Rightarrow> written" where
  "write_all [] = emit []"
| "write_all (w # ws) = then_write w (write_all ws)"

definition checked_get_container_size :: "nat \<Rightarrow> rpc_exn + 32 word" where
  "checked_get_container_size n = (if n > 0xffffffff then Inl Container_size_overflow else Inr (word_of_nat n))"

definition with_size :: "nat \<Rightarrow> (32 word \<Rightarrow> written) \<Rightarrow> written" where
  "with_size n k = (case checked_get_container_size n of Inl e \<Rightarrow> (Some e, []) | Inr s \<Rightarrow> k s)"

lemma emit_simps [simp]:
  "fst (emit bs) = None" "snd (emit bs) = bs" "then_write (emit as) (emit bs) = emit (as @ bs)"
  by (simp_all add: emit_def then_write_def)

lemma checked_size [simp]: "n < 2 ^ 32 \<Longrightarrow> checked_get_container_size n = Inr (word_of_nat n)"
  by (simp add: checked_get_container_size_def)

lemma with_size [simp]: "n < 2 ^ 32 \<Longrightarrow> with_size n k = k (word_of_nat n)"
  by (simp add: with_size_def)

lemma write_all_emit: "write_all (map (\<lambda>x. emit (f x)) xs) = emit (concat (map f xs))"
  by (induction xs) simp_all

subsection \<open>Plain values\<close>

definition object_as :: "'a conversion \<Rightarrow> 'a \<Rightarrow> object \<Rightarrow> rpc_exn + 'a" where
  "object_as conv fresh ob = conv ob fresh"

definition convert_nil :: "unit conversion" where
  "convert_nil ob _ = (if ob \<noteq> NIL then Inl Type_error else Inr ())"

definition object_bool :: "bool \<Rightarrow> object" where
  "object_bool v = BOOLEAN v"

definition pack_bool :: "bool packer" where
  "pack_bool v = emit (if v then pack_true else pack_false)"

text \<open>Integers of 8, 16, 32 and 64 bits, as the numbers they stand for.\<close>

definition object_signed :: "int \<Rightarrow> object" where
  "object_signed v = (if v < 0 then NEGATIVE_INTEGER (word_of_int v) else POSITIVE_INTEGER (word_of_int v))"

definition object_unsigned :: "int \<Rightarrow> object" where
  "object_unsigned v = POSITIVE_INTEGER (word_of_int v)"

definition pack_signed :: "nat \<Rightarrow> int packer" where
  "pack_signed n v = emit (if n = 8 then pack_signed_char (word_of_int v) else if n = 16 then pack_short (word_of_int v)
     else if n = 32 then pack_int (word_of_int v) else pack_long (word_of_int v))"

definition pack_unsigned :: "nat \<Rightarrow> int packer" where
  "pack_unsigned n v = emit (if n = 8 then pack_unsigned_char (word_of_int v) else if n = 16 then pack_unsigned_short (word_of_int v)
     else if n = 32 then pack_unsigned_int (word_of_int v) else pack_unsigned_long (word_of_int v))"

text \<open>\<open>fix_int\<close> keeps the width on the wire.\<close>

definition pack_fix_signed :: "nat \<Rightarrow> int packer" where
  "pack_fix_signed n v = emit (if n = 8 then pack_fix_int8 (word_of_int v) else if n = 16 then pack_fix_int16 (word_of_int v)
     else if n = 32 then pack_fix_int32 (word_of_int v) else pack_fix_int64 (word_of_int v))"

definition pack_fix_unsigned :: "nat \<Rightarrow> int packer" where
  "pack_fix_unsigned n v = emit (if n = 8 then pack_fix_uint8 (word_of_int v) else if n = 16 then pack_fix_uint16 (word_of_int v)
     else if n = 32 then pack_fix_uint32 (word_of_int v) else pack_fix_uint64 (word_of_int v))"

definition pack_float_value :: "float packer" where
  "pack_float_value v = emit (pack_float (bits_of_float v))"

subsection \<open>Strings and bytes\<close>

definition object_bytes :: "byte list \<Rightarrow> rpc_exn + object" where
  "object_bytes v = bind_result (checked_get_container_size (length v)) (\<lambda>_. Inr (STRING v))"

definition pack_std_string :: "byte list packer" where
  "pack_std_string v = with_size (length v) (\<lambda>n. then_write (emit (pack_str n)) (emit (pack_str_body v n)))"

definition strlen :: "byte list \<Rightarrow> nat" where
  "strlen v = length (takeWhile (\<lambda>c. c \<noteq> 0) v)"

definition pack_char_ptr :: "byte list packer" where
  "pack_char_ptr v = with_size (strlen v) (\<lambda>n. then_write (emit (pack_str n)) (emit (pack_str_body v n)))"

text \<open>\<open>std::vector<char>\<close>.\<close>

definition object_vector_char :: "byte list \<Rightarrow> rpc_exn + object" where
  "object_vector_char v = bind_result (checked_get_container_size (length v)) (\<lambda>_. Inr (BIN v))"

definition pack_vector_char :: "byte list packer" where
  "pack_vector_char v = with_size (length v) (\<lambda>n. then_write (emit (pack_bin n)) (if n \<noteq> 0 then emit (pack_bin_body v n) else emit []))"

definition convert_vector_char :: "byte list conversion" where
  "convert_vector_char ob _ = (case ob of BIN s \<Rightarrow> Inr s | STRING s \<Rightarrow> Inr s | _ \<Rightarrow> Inl Type_error)"

text \<open>\<open>raw_ref\<close> and \<open>v4raw_ref\<close>: the order goes by the size first.\<close>

definition convert_raw_ref :: "byte list conversion" where
  "convert_raw_ref ob _ = (case ob of BIN s \<Rightarrow> Inr s | _ \<Rightarrow> Inl Type_error)"

definition convert_v4raw_ref :: "byte list conversion" where
  "convert_v4raw_ref ob _ = (case ob of STRING s \<Rightarrow> Inr s | _ \<Rightarrow> Inl Type_error)"

fun memcmp_less :: "byte list \<Rightarrow> byte list \<Rightarrow> bool" where
  "memcmp_less (a # as) (b # bs) = (if a = b then memcmp_less as bs else a < b)"
| "memcmp_less _ _ = False"

definition raw_less :: "byte list \<Rightarrow> byte list \<Rightarrow> bool" where
  "raw_less x y = (if length x = length y then memcmp_less x y else length x < length y)"

text \<open>\<open>ext\<close> owns its type and data; \<open>ext_ref\<close> points at both and counts the data only.\<close>

definition ext_new :: "byte \<Rightarrow> byte list \<Rightarrow> rpc_exn + byte list" where
  "ext_new t s = (if length s > 0xffffffff then Inl Container_size_overflow else Inr (t # s))"

definition convert_ext :: "byte list conversion" where
  "convert_ext ob _ = (case ob of EXT t s \<Rightarrow> ext_new t s | _ \<Rightarrow> Inl Type_error)"

definition object_ext :: "byte list \<Rightarrow> object" where
  "object_ext m_data = EXT (hd m_data) (tl m_data)"

definition pack_ext_value :: "byte list packer" where
  "pack_ext_value m_data = (let n = size32 (tl m_data) in
     then_write (emit (pack_ext (ucast n) (hd m_data))) (emit (pack_ext_body (tl m_data) n)))"

record ext_ref =
  m_ptr :: "byte list"
  m_size :: nat

definition ext_ref_new :: "byte list \<Rightarrow> ext_ref" where
  "ext_ref_new p = \<lparr>m_ptr = (if p = [] then [0] else p), m_size = length p - 1\<rparr>"

definition ext_ref_eq :: "ext_ref \<Rightarrow> ext_ref \<Rightarrow> bool" where
  "ext_ref_eq x y \<longleftrightarrow> m_size x = m_size y \<and> take (m_size x) (m_ptr x) = take (m_size x) (m_ptr y)"

definition ext_ref_less :: "ext_ref \<Rightarrow> ext_ref \<Rightarrow> bool" where
  "ext_ref_less x y = (if m_size x < m_size y then True else if m_size x > m_size y then False
     else memcmp_less (take (m_size x) (m_ptr x)) (take (m_size x) (m_ptr y)))"

subsection \<open>Sequences\<close>

definition resize :: "nat \<Rightarrow> 'a \<Rightarrow> 'a list \<Rightarrow> 'a list" where
  "resize n fresh v = take n v @ replicate (n - length v) fresh"

text \<open>The loop over the elements: each object is converted into the value at its place.\<close>

fun convert_each :: "'a conversion \<Rightarrow> object list \<Rightarrow> 'a list \<Rightarrow> rpc_exn + 'a list" where
  "convert_each conv (p # ps) (it # its) =
     bind_result (conv p it) (\<lambda>w. bind_result (convert_each conv ps its) (\<lambda>ws. Inr (w # ws)))"
| "convert_each conv _ its = Inr its"

definition convert_vector :: "'a conversion \<Rightarrow> 'a \<Rightarrow> 'a list conversion" where
  "convert_vector conv fresh ob v = (case ob of
      ARRAY xs \<Rightarrow> convert_each conv xs (resize (length xs) fresh v)
    | _ \<Rightarrow> Inl Type_error)"

text \<open>The loop that makes a new value of each element, up to the first exception.\<close>

fun collect :: "('b \<Rightarrow> rpc_exn + 'a) \<Rightarrow> 'b list \<Rightarrow> rpc_exn + 'a list" where
  "collect f [] = Inr []"
| "collect f (p # ps) = bind_result (f p) (\<lambda>w. bind_result (collect f ps) (\<lambda>ws. Inr (w # ws)))"

definition as_vector :: "(object \<Rightarrow> rpc_exn + 'a) \<Rightarrow> object \<Rightarrow> rpc_exn + 'a list" where
  "as_vector f ob = (case ob of ARRAY xs \<Rightarrow> collect f xs | _ \<Rightarrow> Inl Type_error)"

text \<open>\<open>std::vector<bool>\<close> is resized only for an array that is not empty.\<close>

definition convert_vector_bool :: "bool list conversion" where
  "convert_vector_bool ob v = (case ob of
      ARRAY xs \<Rightarrow> if length xs > 0 then collect convert_bool xs else Inr v
    | _ \<Rightarrow> Inl Type_error)"

definition pack_vector_bool :: "bool list packer" where
  "pack_vector_bool v = with_size (length v) (\<lambda>n. then_write (emit (pack_array n)) (write_all (map pack_bool v)))"

definition object_vector_bool :: "bool list \<Rightarrow> rpc_exn + object" where
  "object_vector_bool v = (if v = [] then Inr (ARRAY [])
     else bind_result (checked_get_container_size (length v)) (\<lambda>_. Inr (ARRAY (map object_bool v))))"

definition pack_vector :: "'a packer \<Rightarrow> 'a list packer" where
  "pack_vector pk v = with_size (length v) (\<lambda>n. then_write (emit (pack_array n)) (write_all (map pk v)))"

definition object_vector :: "('a \<Rightarrow> rpc_exn + object) \<Rightarrow> 'a list \<Rightarrow> rpc_exn + object" where
  "object_vector obj v = (if v = [] then Inr (ARRAY [])
     else bind_result (checked_get_container_size (length v)) (\<lambda>_. bind_result (collect obj v) (\<lambda>xs. Inr (ARRAY xs))))"

text \<open>Arrays of a fixed size: an array that is too short leaves the rest as it was. The loop of \<open>T[N]\<close> runs at
  least once, so an empty array makes it read an element that is not there. \<open>as\<close> of \<open>std::array\<close> always reads \<open>N\<close> elements.\<close>

definition convert_array :: "nat \<Rightarrow> 'a conversion \<Rightarrow> 'a list conversion" where
  "convert_array N conv ob v = (case ob of
      ARRAY xs \<Rightarrow> if length xs > N then Inl Type_error
        else if length xs > 0 then convert_each conv xs v else Inr v
    | _ \<Rightarrow> Inl Type_error)"

fun as_impl :: "(object \<Rightarrow> rpc_exn + 'a) \<Rightarrow> nat \<Rightarrow> object list \<Rightarrow> rpc_exn + 'a list" where
  "as_impl f 0 xs = Inr []"
| "as_impl f (Suc n) xs = bind_result (as_impl f n xs) (\<lambda>ws.
     if n < length xs then bind_result (f (xs ! n)) (\<lambda>w. Inr (ws @ [w])) else Inl Out_of_bounds)"

definition as_array :: "nat \<Rightarrow> (object \<Rightarrow> rpc_exn + 'a) \<Rightarrow> object \<Rightarrow> rpc_exn + 'a list" where
  "as_array N f ob = (case ob of
      ARRAY xs \<Rightarrow> if length xs > N then Inl Type_error else as_impl f N xs
    | _ \<Rightarrow> Inl Type_error)"

definition convert_carray :: "nat \<Rightarrow> 'a conversion \<Rightarrow> 'a list conversion" where
  "convert_carray N conv ob v = (case ob of
      ARRAY xs \<Rightarrow> if length xs > N then Inl Type_error
        else if xs = [] then Inl Out_of_bounds else convert_each conv xs v
    | _ \<Rightarrow> Inl Type_error)"

text \<open>Characters: \<open>memcpy n dst src\<close> copies \<open>n\<close> bytes, which both must have.\<close>

definition memcpy :: "nat \<Rightarrow> byte list \<Rightarrow> byte list \<Rightarrow> rpc_exn + byte list" where
  "memcpy n dst src = (if n \<le> length src \<and> n \<le> length dst then Inr (take n src @ drop n dst) else Inl Out_of_bounds)"

definition convert_char_array :: "nat \<Rightarrow> byte list conversion" where
  "convert_char_array N ob v = (if N = 0 then Inr v else case ob of
      BIN s \<Rightarrow> if length s > N then Inl Type_error else memcpy (length s) v s
    | STRING s \<Rightarrow> if length s > N then Inl Type_error else memcpy N v s
    | _ \<Rightarrow> Inl Type_error)"

definition convert_char_carray :: "nat \<Rightarrow> byte list conversion" where
  "convert_char_carray N ob v = (case ob of
      BIN s \<Rightarrow> if length s > N then Inl Type_error else memcpy (length s) v s
    | STRING s \<Rightarrow> if length s > N then Inl Type_error
        else bind_result (memcpy (length s) v s) (\<lambda>w. Inr (if length s < N then w[length s := 0] else w))
    | _ \<Rightarrow> Inl Type_error)"

definition pack_char_array :: "byte list packer" where
  "pack_char_array v = with_size (length v) (\<lambda>n. then_write (emit (pack_bin n)) (emit (pack_bin_body v n)))"

definition object_char_array :: "byte list \<Rightarrow> rpc_exn + object" where
  "object_char_array v = bind_result (checked_get_container_size (length v)) (\<lambda>_. Inr (BIN v))"

definition pack_char_carray :: "byte list packer" where
  "pack_char_carray v = with_size (length v) (\<lambda>_. let n = word_of_nat (strlen v) in
     then_write (emit (pack_str n)) (emit (pack_str_body v n)))"

text \<open>Vectors and arrays of \<open>unsigned char\<close> have adaptors of their own, which treat them as bytes: the elements are
  numbers, and \<open>reinterpret_cast\<close> makes bytes of them.\<close>

definition reinterpret_cast :: "int list \<Rightarrow> byte list" where
  "reinterpret_cast v = map word_of_int v"

definition convert_vector_unsigned_char :: "int list conversion" where
  "convert_vector_unsigned_char ob _ = (case ob of BIN s \<Rightarrow> Inr (map uint s) | STRING s \<Rightarrow> Inr (map uint s) | _ \<Rightarrow> Inl Type_error)"

definition pack_vector_unsigned_char :: "int list packer" where
  "pack_vector_unsigned_char v = with_size (length v) (\<lambda>n. then_write (emit (pack_bin n))
     (if n \<noteq> 0 then emit (pack_bin_body (reinterpret_cast v) n) else emit []))"

definition object_vector_unsigned_char :: "int list \<Rightarrow> rpc_exn + object" where
  "object_vector_unsigned_char v = bind_result (checked_get_container_size (length v)) (\<lambda>_. Inr (BIN (reinterpret_cast v)))"

definition convert_array_unsigned_char :: "nat \<Rightarrow> int list conversion" where
  "convert_array_unsigned_char N ob v = (if N = 0 then Inr v else case ob of
      BIN s \<Rightarrow> if length s > N then Inl Type_error
        else bind_result (memcpy (length s) (reinterpret_cast v) s) (\<lambda>w. Inr (map uint w))
    | STRING s \<Rightarrow> if length s > N then Inl Type_error
        else bind_result (memcpy N (reinterpret_cast v) s) (\<lambda>w. Inr (map uint w))
    | _ \<Rightarrow> Inl Type_error)"

definition pack_array_unsigned_char :: "int list packer" where
  "pack_array_unsigned_char v = with_size (length v) (\<lambda>n.
     then_write (emit (pack_bin n)) (emit (pack_bin_body (reinterpret_cast v) n)))"

definition object_array_unsigned_char :: "int list \<Rightarrow> rpc_exn + object" where
  "object_array_unsigned_char v = bind_result (checked_get_container_size (length v)) (\<lambda>_. Inr (BIN (reinterpret_cast v)))"

subsection \<open>Pairs, tuples and the members of a class\<close>

definition convert_pair :: "'a conversion \<Rightarrow> 'b conversion \<Rightarrow> ('a \<times> 'b) conversion" where
  "convert_pair conv1 conv2 ob v = (case ob of
      ARRAY xs \<Rightarrow> if length xs \<noteq> 2 then Inl Type_error
        else bind_result (conv1 (xs ! 0) (fst v)) (\<lambda>x. bind_result (conv2 (xs ! 1) (snd v)) (\<lambda>y. Inr (x, y)))
    | _ \<Rightarrow> Inl Type_error)"

definition pack_pair :: "'a packer \<Rightarrow> 'b packer \<Rightarrow> ('a \<times> 'b) packer" where
  "pack_pair pk1 pk2 v = then_write (emit (pack_array 2)) (then_write (pk1 (fst v)) (pk2 (snd v)))"

definition object_pair :: "('a \<Rightarrow> rpc_exn + object) \<Rightarrow> ('b \<Rightarrow> rpc_exn + object) \<Rightarrow> 'a \<times> 'b \<Rightarrow> rpc_exn + object" where
  "object_pair obj1 obj2 v = bind_result (obj1 (fst v)) (\<lambda>x. bind_result (obj2 (snd v)) (\<lambda>y. Inr (ARRAY [x, y])))"

text \<open>A tuple has one conversion for each element. \<open>convert\<close> counts the objects from the front, and a missing one
  leaves the element as it was; \<open>as\<close> counts them from the back, in an unsigned subtraction.\<close>

fun StdTupleConverter :: "object list \<Rightarrow> nat \<Rightarrow> 'a conversion list \<Rightarrow> 'a list \<Rightarrow> rpc_exn + 'a list" where
  "StdTupleConverter xs n (c # cs) (v # vs) =
     bind_result (if length xs \<ge> Suc n then c (xs ! n) v else Inr v) (\<lambda>w.
     bind_result (StdTupleConverter xs (Suc n) cs vs) (\<lambda>ws. Inr (w # ws)))"
| "StdTupleConverter xs n _ vs = Inr vs"

definition convert_tuple :: "'a conversion list \<Rightarrow> 'a list conversion" where
  "convert_tuple convs ob v = (case ob of ARRAY xs \<Rightarrow> StdTupleConverter xs 0 convs v | _ \<Rightarrow> Inl Type_error)"

fun StdTupleAs :: "object list \<Rightarrow> (object \<Rightarrow> rpc_exn + 'a) list \<Rightarrow> rpc_exn + 'a list" where
  "StdTupleAs xs [] = Inr []"
| "StdTupleAs xs (f # fs) = (if length xs < length fs + 1 then Inl Out_of_bounds
     else bind_result (f (xs ! (length xs - length fs - 1))) (\<lambda>w. bind_result (StdTupleAs xs fs) (\<lambda>ws. Inr (w # ws))))"

definition as_tuple :: "(object \<Rightarrow> rpc_exn + 'a) list \<Rightarrow> object \<Rightarrow> rpc_exn + 'a list" where
  "as_tuple fs ob = (case ob of ARRAY xs \<Rightarrow> StdTupleAs xs fs | _ \<Rightarrow> Inl Type_error)"

definition pack_tuple :: "'a packer list \<Rightarrow> 'a list packer" where
  "pack_tuple pks v = with_size (length pks) (\<lambda>n. then_write (emit (pack_array n)) (write_all (map2 (\<lambda>pk x. pk x) pks v)))"

definition object_tuple :: "('a \<Rightarrow> rpc_exn + object) list \<Rightarrow> 'a list \<Rightarrow> rpc_exn + object" where
  "object_tuple objs v = bind_result (checked_get_container_size (length objs)) (\<lambda>_.
     bind_result (collect (\<lambda>(obj, x). obj x) (zip objs v)) (\<lambda>xs. Inr (ARRAY xs)))"

text \<open>The members of a class as an array (\<open>MSGPACK_DEFINE_ARRAY\<close>) or as a map from names
  (\<open>MSGPACK_DEFINE_MAP\<close>). The keys of the map are read as strings without a look at their type: for a binary these are its
  bytes, for any other object they are not in the union. Of equal keys the first one counts.\<close>

fun define_array_unpack :: "object list \<Rightarrow> nat \<Rightarrow> 'a conversion list \<Rightarrow> 'a list \<Rightarrow> rpc_exn + 'a list" where
  "define_array_unpack xs n (c # cs) (t # ts) =
     (if length xs \<le> n then bind_result (define_array_unpack xs (Suc n) cs ts) (\<lambda>ws. Inr (t # ws))
      else bind_result (c (xs ! n) t) (\<lambda>w. bind_result (define_array_unpack xs (Suc n) cs ts) (\<lambda>ws. Inr (w # ws))))"
| "define_array_unpack xs n _ ts = Inr ts"

definition msgpack_unpack_array :: "'a conversion list \<Rightarrow> 'a list conversion" where
  "msgpack_unpack_array convs ob a = (case ob of ARRAY xs \<Rightarrow> define_array_unpack xs 0 convs a | _ \<Rightarrow> Inl Type_error)"

definition msgpack_pack_array :: "'a packer list \<Rightarrow> 'a list packer" where
  "msgpack_pack_array pks a = then_write (emit (pack_array (size32 pks))) (write_all (map2 (\<lambda>pk x. pk x) pks a))"

definition via_str :: "object \<Rightarrow> rpc_exn + byte list" where
  "via_str k = (case k of STRING s \<Rightarrow> Inr s | BIN s \<Rightarrow> Inr s | _ \<Rightarrow> Inl Out_of_bounds)"

fun make_kvmap :: "(object \<times> object) list \<Rightarrow> (byte list \<rightharpoonup> object) \<Rightarrow> rpc_exn + (byte list \<rightharpoonup> object)" where
  "make_kvmap [] kvmap = Inr kvmap"
| "make_kvmap ((k, x) # kvs) kvmap = bind_result (via_str k) (\<lambda>s.
     make_kvmap kvs (if kvmap s = None then kvmap(s \<mapsto> x) else kvmap))"

fun define_map_unpack :: "(byte list \<rightharpoonup> object) \<Rightarrow> (byte list \<times> 'a conversion) list \<Rightarrow> 'a list \<Rightarrow> rpc_exn + 'a list" where
  "define_map_unpack kvmap ((name, c) # cs) (t # ts) =
     bind_result (case kvmap name of Some x \<Rightarrow> c x t | None \<Rightarrow> Inr t) (\<lambda>w.
     bind_result (define_map_unpack kvmap cs ts) (\<lambda>ws. Inr (w # ws)))"
| "define_map_unpack kvmap _ ts = Inr ts"

definition msgpack_unpack_map :: "(byte list \<times> 'a conversion) list \<Rightarrow> 'a list conversion" where
  "msgpack_unpack_map members ob a = (case ob of
      MAP kvs \<Rightarrow> bind_result (make_kvmap kvs Map.empty) (\<lambda>kvmap. define_map_unpack kvmap members a)
    | _ \<Rightarrow> Inl Type_error)"

definition msgpack_pack_map :: "(byte list \<times> 'a packer) list \<Rightarrow> 'a list packer" where
  "msgpack_pack_map members a = then_write (emit (pack_map (size32 members)))
     (write_all (map2 (\<lambda>(name, pk) x. then_write (pack_std_string name) (pk x)) members a))"

subsection \<open>Pointers and optional values\<close>

definition convert_ptr :: "'a conversion \<Rightarrow> 'a \<Rightarrow> 'a option conversion" where
  "convert_ptr conv fresh ob _ = (if ob = NIL then Inr None else bind_result (conv ob fresh) (\<lambda>t. Inr (Some t)))"

definition pack_ptr :: "'a packer \<Rightarrow> 'a option packer" where
  "pack_ptr pk v = (case v of Some x \<Rightarrow> pk x | None \<Rightarrow> emit pack_nil)"

definition object_ptr :: "('a \<Rightarrow> rpc_exn + object) \<Rightarrow> 'a option \<Rightarrow> rpc_exn + object" where
  "object_ptr obj v = (case v of Some x \<Rightarrow> obj x | None \<Rightarrow> Inr NIL)"

subsection \<open>Sets and maps\<close>

text \<open>The elements are taken from the back; a container is walked in the order of its elements.\<close>

definition convert_set :: "(object \<Rightarrow> rpc_exn + 'a) \<Rightarrow> 'a set conversion" where
  "convert_set f ob _ = (case ob of
      ARRAY xs \<Rightarrow> bind_result (collect f (rev xs)) (\<lambda>ws. Inr (fold insert ws {}))
    | _ \<Rightarrow> Inl Type_error)"

definition convert_multiset :: "(object \<Rightarrow> rpc_exn + 'a) \<Rightarrow> 'a multiset conversion" where
  "convert_multiset f ob _ = (case ob of
      ARRAY xs \<Rightarrow> bind_result (collect f (rev xs)) (\<lambda>ws. Inr (fold add_mset ws {#}))
    | _ \<Rightarrow> Inl Type_error)"

definition pack_set :: "('a :: linorder) packer \<Rightarrow> 'a set packer" where
  "pack_set pk v = pack_vector pk (sorted_list_of_set v)"

definition object_set :: "('a :: linorder \<Rightarrow> rpc_exn + object) \<Rightarrow> 'a set \<Rightarrow> rpc_exn + object" where
  "object_set obj v = object_vector obj (sorted_list_of_set v)"

definition pack_multiset :: "('a :: linorder) packer \<Rightarrow> 'a multiset packer" where
  "pack_multiset pk v = pack_vector pk (sorted_list_of_multiset v)"

text \<open>\<open>std::map\<close>: \<open>convert\<close> converts each value into the one \<open>tmp[key]\<close> has, \<open>as\<close> emplaces a pair whose
  key is not there yet.\<close>

fun convert_entries :: "'k conversion \<Rightarrow> 'k \<Rightarrow> 'v conversion \<Rightarrow> 'v \<Rightarrow> (object \<times> object) list \<Rightarrow> ('k \<rightharpoonup> 'v) \<Rightarrow> rpc_exn + ('k \<rightharpoonup> 'v)" where
  "convert_entries ck fk cv fv [] tmp = Inr tmp"
| "convert_entries ck fk cv fv ((k, x) # kvs) tmp = bind_result (ck k fk) (\<lambda>key.
     bind_result (cv x (case tmp key of Some v \<Rightarrow> v | None \<Rightarrow> fv)) (\<lambda>v.
     convert_entries ck fk cv fv kvs (tmp(key \<mapsto> v))))"

definition convert_map :: "'k conversion \<Rightarrow> 'k \<Rightarrow> 'v conversion \<Rightarrow> 'v \<Rightarrow> ('k \<rightharpoonup> 'v) conversion" where
  "convert_map ck fk cv fv ob _ = (case ob of MAP kvs \<Rightarrow> convert_entries ck fk cv fv kvs Map.empty | _ \<Rightarrow> Inl Type_error)"

fun emplace_entries :: "(object \<Rightarrow> rpc_exn + 'k) \<Rightarrow> (object \<Rightarrow> rpc_exn + 'v) \<Rightarrow> (object \<times> object) list \<Rightarrow> ('k \<rightharpoonup> 'v) \<Rightarrow> rpc_exn + ('k \<rightharpoonup> 'v)" where
  "emplace_entries fk fv [] v = Inr v"
| "emplace_entries fk fv ((k, x) # kvs) v = bind_result (fk k) (\<lambda>key. bind_result (fv x) (\<lambda>val.
     emplace_entries fk fv kvs (if v key = None then v(key \<mapsto> val) else v)))"

definition as_map :: "(object \<Rightarrow> rpc_exn + 'k) \<Rightarrow> (object \<Rightarrow> rpc_exn + 'v) \<Rightarrow> object \<Rightarrow> rpc_exn + ('k \<rightharpoonup> 'v)" where
  "as_map fk fv ob = (case ob of MAP kvs \<Rightarrow> emplace_entries fk fv kvs Map.empty | _ \<Rightarrow> Inl Type_error)"

text \<open>The entries in the order of the keys.\<close>

definition entries :: "('k :: linorder \<rightharpoonup> 'v) \<Rightarrow> ('k \<times> 'v) list" where
  "entries m = map (\<lambda>k. (k, the (m k))) (sorted_list_of_set (dom m))"

definition pack_map_value :: "('k :: linorder) packer \<Rightarrow> 'v packer \<Rightarrow> ('k \<rightharpoonup> 'v) packer" where
  "pack_map_value pk pv m = with_size (length (entries m)) (\<lambda>n.
     then_write (emit (pack_map n)) (write_all (map (\<lambda>(k, x). then_write (pk k) (pv x)) (entries m))))"

definition object_map :: "('k :: linorder \<Rightarrow> rpc_exn + object) \<Rightarrow> ('v \<Rightarrow> rpc_exn + object) \<Rightarrow> ('k \<rightharpoonup> 'v) \<Rightarrow> rpc_exn + object" where
  "object_map obk obv m = (if entries m = [] then Inr (MAP [])
     else bind_result (checked_get_container_size (length (entries m))) (\<lambda>_.
       bind_result (collect (\<lambda>(k, x). bind_result (obk k) (\<lambda>a. bind_result (obv x) (\<lambda>b. Inr (a, b)))) (entries m)) (\<lambda>kvs. Inr (MAP kvs))))"

text \<open>\<open>std::multimap\<close>: its entries in the order of their keys, equal keys in the order they came.\<close>

fun insert_upper :: "('k :: linorder) \<times> 'v \<Rightarrow> ('k \<times> 'v) list \<Rightarrow> ('k \<times> 'v) list" where
  "insert_upper e [] = [e]"
| "insert_upper e (x # xs) = (if fst e < fst x then e # x # xs else x # insert_upper e xs)"

definition convert_multimap :: "('k :: linorder) conversion \<Rightarrow> 'k \<Rightarrow> 'v conversion \<Rightarrow> 'v \<Rightarrow> ('k \<times> 'v) list conversion" where
  "convert_multimap ck fk cv fv ob _ = (case ob of
      MAP kvs \<Rightarrow> bind_result (collect (\<lambda>(k, x). bind_result (ck k fk) (\<lambda>a. bind_result (cv x fv) (\<lambda>b. Inr (a, b)))) kvs)
        (\<lambda>es. Inr (fold insert_upper es []))
    | _ \<Rightarrow> Inl Type_error)"

definition pack_multimap :: "'k packer \<Rightarrow> 'v packer \<Rightarrow> ('k \<times> 'v) list packer" where
  "pack_multimap pk pv es = with_size (length es) (\<lambda>n.
     then_write (emit (pack_map n)) (write_all (map (\<lambda>(k, x). then_write (pk k) (pv x)) es)))"

text \<open>\<open>assoc_vector\<close>: a vector of entries that is sorted by the keys after it was read. \<open>std::sort\<close> may leave
  equal keys in any order, so it is an argument, and \<open>std_sort\<close> is what it promises.\<close>

definition std_sort :: "((('k :: linorder) \<times> 'v) list \<Rightarrow> ('k \<times> 'v) list) \<Rightarrow> bool" where
  "std_sort srt \<longleftrightarrow> (\<forall>es. mset (srt es) = mset es \<and> sorted (map fst (srt es)))"

fun convert_pairs :: "'k conversion \<Rightarrow> 'v conversion \<Rightarrow> (object \<times> object) list \<Rightarrow> ('k \<times> 'v) list \<Rightarrow> rpc_exn + ('k \<times> 'v) list" where
  "convert_pairs ck cv (p # ps) (it # its) = bind_result (ck (fst p) (fst it)) (\<lambda>a. bind_result (cv (snd p) (snd it)) (\<lambda>b.
     bind_result (convert_pairs ck cv ps its) (\<lambda>es. Inr ((a, b) # es))))"
| "convert_pairs ck cv _ its = Inr its"

definition convert_assoc_vector :: "(('k \<times> 'v) list \<Rightarrow> ('k \<times> 'v) list) \<Rightarrow> 'k conversion \<Rightarrow> 'k \<Rightarrow> 'v conversion \<Rightarrow> 'v
    \<Rightarrow> ('k \<times> 'v) list conversion" where
  "convert_assoc_vector srt ck fk cv fv ob v = (case ob of
      MAP kvs \<Rightarrow> let v = resize (length kvs) (fk, fv) v in
        if kvs \<noteq> [] then bind_result (convert_pairs ck cv kvs v) (\<lambda>es. Inr (srt es)) else Inr v
    | _ \<Rightarrow> Inl Type_error)"

definition as_assoc_vector :: "(('k \<times> 'v) list \<Rightarrow> ('k \<times> 'v) list) \<Rightarrow> (object \<Rightarrow> rpc_exn + 'k) \<Rightarrow> (object \<Rightarrow> rpc_exn + 'v)
    \<Rightarrow> object \<Rightarrow> rpc_exn + ('k \<times> 'v) list" where
  "as_assoc_vector srt fk fv ob = (case ob of
      MAP kvs \<Rightarrow> bind_result (collect (\<lambda>(k, x). bind_result (fk k) (\<lambda>a. bind_result (fv x) (\<lambda>b. Inr (a, b)))) kvs) (\<lambda>es. Inr (srt es))
    | _ \<Rightarrow> Inl Type_error)"

definition pack_assoc_vector :: "'k packer \<Rightarrow> 'v packer \<Rightarrow> ('k \<times> 'v) list packer" where
  "pack_assoc_vector pk pv v = with_size (length v) (\<lambda>n.
     then_write (emit (pack_map n)) (write_all (map (\<lambda>(k, x). then_write (pk k) (pv x)) v)))"

definition object_assoc_vector :: "('k \<Rightarrow> rpc_exn + object) \<Rightarrow> ('v \<Rightarrow> rpc_exn + object) \<Rightarrow> ('k \<times> 'v) list \<Rightarrow> rpc_exn + object" where
  "object_assoc_vector obk obv v = (if v = [] then Inr (MAP [])
     else bind_result (checked_get_container_size (length v)) (\<lambda>_.
       bind_result (collect (\<lambda>(k, x). bind_result (obk k) (\<lambda>a. bind_result (obv x) (\<lambda>b. Inr (a, b)))) v) (\<lambda>kvs. Inr (MAP kvs))))"

subsection \<open>References to arrays\<close>

text \<open>\<open>array_ref\<close> points to a container, or to nothing. A container of a fixed size keeps the elements behind the
  last object; a vector is resized.\<close>

definition convert_array_ref :: "'a conversion \<Rightarrow> 'a list option conversion" where
  "convert_array_ref conv ob v = (case v of None \<Rightarrow> Inl Type_error | Some xs \<Rightarrow> (case ob of
      ARRAY ps \<Rightarrow> if length xs < length ps then Inl Type_error
        else if length ps > 0 then bind_result (convert_each conv ps xs) (\<lambda>ws. Inr (Some ws)) else Inr v
    | _ \<Rightarrow> Inl Type_error))"

definition convert_array_ref_vector :: "'a conversion \<Rightarrow> 'a \<Rightarrow> 'a list option conversion" where
  "convert_array_ref_vector conv fresh ob v = (case v of None \<Rightarrow> Inl Type_error | Some xs \<Rightarrow> (case ob of
      ARRAY ps \<Rightarrow> let xs = resize (length ps) fresh xs in
        if length ps > 0 then bind_result (convert_each conv ps xs) (\<lambda>ws. Inr (Some ws)) else Inr (Some xs)
    | _ \<Rightarrow> Inl Type_error))"

definition pack_array_ref :: "'a packer \<Rightarrow> 'a list option packer" where
  "pack_array_ref pk v = (case v of None \<Rightarrow> (Some Type_error, [])
    | Some xs \<Rightarrow> with_size (length xs) (\<lambda>n. then_write (emit (pack_array n)) (write_all (map pk xs))))"

definition object_array_ref :: "('a \<Rightarrow> rpc_exn + object) \<Rightarrow> 'a list option \<Rightarrow> rpc_exn + object" where
  "object_array_ref obj v = (case v of None \<Rightarrow> Inl Type_error
    | Some xs \<Rightarrow> if xs = [] then Inr (ARRAY [])
      else bind_result (checked_get_container_size (length xs)) (\<lambda>_. bind_result (collect obj xs) (\<lambda>obs. Inr (ARRAY obs))))"

end
