(* ===== verification/AdaptorLaws.thy ===== *)
theory AdaptorLaws
  imports Adaptors "HOL-Library.List_Lexorder"
begin

text \<open>
  What the adaptors promise each other, as a locale: a value in the range of its type becomes an object, its bytes are the
  bytes of this object, and converting the object into a default-constructed value gives the value back. The locale
  is interpreted on the plain types, and the adaptors of containers keep it.
\<close>

definition carries :: "('a \<Rightarrow> rpc_exn + object) \<Rightarrow> 'a packer \<Rightarrow> 'a conversion \<Rightarrow> 'a \<Rightarrow> 'a \<Rightarrow> object \<Rightarrow> bool" where
  "carries obj pk conv fresh x ob \<longleftrightarrow> obj x = Inr ob \<and> pk x = emit (pack_object ob) \<and> conv ob fresh = Inr x"

lemma carriesI: "obj x = Inr ob \<Longrightarrow> pk x = emit (pack_object ob) \<Longrightarrow> conv ob fresh = Inr x \<Longrightarrow> carries obj pk conv fresh x ob"
  by (simp add: carries_def)

text \<open>The loops over elements that are carried.\<close>

lemma carried_objects:
  assumes "list_all (\<lambda>x. \<exists>ob. carries obj pk conv fresh x ob) v"
  obtains obs where "list_all2 (carries obj pk conv fresh) v obs"
  using assms
proof (induction v arbitrary: thesis)
  case (Cons x v)
  then obtain ob where "carries obj pk conv fresh x ob" by auto
  moreover obtain obs where "list_all2 (carries obj pk conv fresh) v obs" using Cons by auto
  ultimately show ?case using Cons.prems(1) [of "ob # obs"] by simp
qed simp

lemma carried_collect: "list_all2 (carries obj pk conv fresh) v obs \<Longrightarrow> collect obj v = Inr obs"
  by (induction rule: list_all2_induct) (simp_all add: carries_def)

lemma carried_write: "list_all2 (carries obj pk conv fresh) v obs \<Longrightarrow> write_all (map pk v) = emit (concat (map pack_object obs))"
  by (induction rule: list_all2_induct) (simp_all add: carries_def)

lemma carried_as: "list_all2 (carries obj pk conv fresh) v obs \<Longrightarrow> collect (object_as conv fresh) obs = Inr v"
  by (induction rule: list_all2_induct) (simp_all add: carries_def object_as_def)

lemma carried_convert:
  "list_all2 (carries obj pk conv fresh) v obs \<Longrightarrow> convert_each conv obs (replicate (length obs) fresh) = Inr v"
  by (induction rule: list_all2_induct) (simp_all add: carries_def)

lemma collect_rev: "collect f xs = Inr ws \<Longrightarrow> collect f (rev xs) = Inr (rev ws)"
proof -
  have snoc: "collect f (xs @ [x]) = bind_result (collect f xs) (\<lambda>ws. bind_result (f x) (\<lambda>w. Inr (ws @ [w])))" for xs x
    by (induction xs) (auto simp: bind_result_def split: sum.splits)
  show "collect f xs = Inr ws \<Longrightarrow> collect f (rev xs) = Inr (rev ws)"
    by (induction xs arbitrary: ws) (auto simp: snoc bind_result_Inr_iff)
qed

subsection \<open>The interface\<close>

locale adaptor =
  fixes valid :: "'a \<Rightarrow> bool"
    and object_of :: "'a \<Rightarrow> rpc_exn + object"
    and pack_of :: "'a packer"
    and convert :: "'a conversion"
    and fresh :: 'a
  assumes carried: "valid x \<Longrightarrow> \<exists>ob. carries object_of pack_of convert fresh x ob"
begin

lemma arrives:
  assumes "valid x"
  obtains ob where "object_of x = Inr ob" "fst (pack_of x) = None" "object_as convert fresh ob = Inr x"
    "\<And>lm rest. fits lm 0 ob \<Longrightarrow> parse_imp lm (snd (pack_of x) @ rest)
       = Inr (if rest = [] then PARSE_SUCCESS else PARSE_EXTRA_BYTES, ob, length (snd (pack_of x)))"
  using carried [OF assms] that by (auto simp: carries_def object_as_def parse_packed)

lemma carried_list: "list_all valid v \<Longrightarrow> \<exists>obs. list_all2 (carries object_of pack_of convert fresh) v obs"
  using carried by (metis (mono_tags, lifting) carried_objects list_all_iff)

lemma vector_adaptor:
  "adaptor (\<lambda>v. length v < 2 ^ 32 \<and> list_all valid v) (object_vector object_of) (pack_vector pack_of) (convert_vector convert fresh) []"
proof
  fix v assume v: "length v < 2 ^ 32 \<and> list_all valid v"
  then obtain obs where o': "list_all2 (carries object_of pack_of convert fresh) v obs" using carried_list by blast
  have n: "length obs = length v" using o' by (simp add: list_all2_lengthD)
  have "carries (object_vector object_of) (pack_vector pack_of) (convert_vector convert fresh) [] v (ARRAY obs)"
  proof (rule carriesI)
    show "object_vector object_of v = Inr (ARRAY obs)"
      using v n carried_collect [OF o'] by (auto simp: object_vector_def)
    show "pack_vector pack_of v = emit (pack_object (ARRAY obs))"
      using v n carried_write [OF o'] by (simp add: pack_vector_def)
    show "convert_vector convert fresh (ARRAY obs) [] = Inr v"
      using carried_convert [OF o'] n by (simp add: convert_vector_def resize_def)
  qed
  then show "\<exists>ob. carries (object_vector object_of) (pack_vector pack_of) (convert_vector convert fresh) [] v ob" ..
qed

text \<open>An array of the right size overwrites all its elements.\<close>

lemma array_adaptor:
  "adaptor (\<lambda>v. length v = N \<and> N < 2 ^ 32 \<and> list_all valid v) (object_vector object_of) (pack_vector pack_of) (convert_array N convert)
     (replicate N fresh)"
proof
  fix v assume v: "length v = N \<and> N < 2 ^ 32 \<and> list_all valid v"
  then obtain obs where o': "list_all2 (carries object_of pack_of convert fresh) v obs" using carried_list by blast
  have n: "length obs = N" using o' v by (simp add: list_all2_lengthD)
  have "carries (object_vector object_of) (pack_vector pack_of) (convert_array N convert) (replicate N fresh) v (ARRAY obs)"
  proof (rule carriesI)
    show "object_vector object_of v = Inr (ARRAY obs)"
      using v n carried_collect [OF o'] by (auto simp: object_vector_def)
    show "pack_vector pack_of v = emit (pack_object (ARRAY obs))"
      using v n carried_write [OF o'] by (simp add: pack_vector_def)
    show "convert_array N convert (ARRAY obs) (replicate N fresh) = Inr v"
      using carried_convert [OF o'] n v by (auto simp: convert_array_def)
  qed
  then show "\<exists>ob. carries (object_vector object_of) (pack_vector pack_of) (convert_array N convert) (replicate N fresh) v ob" ..
qed

text \<open>A pointer to a value whose object is nil would come back as a null pointer.\<close>

lemma ptr_adaptor:
  "adaptor (\<lambda>v. \<forall>x. v = Some x \<longrightarrow> valid x \<and> object_of x \<noteq> Inr NIL) (object_ptr object_of) (pack_ptr pack_of) (convert_ptr convert fresh) None"
proof
  fix v assume v: "\<forall>x. v = Some x \<longrightarrow> valid x \<and> object_of x \<noteq> Inr NIL"
  show "\<exists>ob. carries (object_ptr object_of) (pack_ptr pack_of) (convert_ptr convert fresh) None v ob"
  proof (cases v)
    case None
    then show ?thesis by (simp add: carries_def object_ptr_def pack_ptr_def convert_ptr_def)
  next
    case (Some x)
    then obtain ob where "carries object_of pack_of convert fresh x ob" using v carried by blast
    then show ?thesis using v Some
      by (intro exI [of _ ob]) (auto simp: carries_def object_ptr_def pack_ptr_def convert_ptr_def)
  qed
qed

text \<open>A reference reads into what it points to; one that was made by \<open>as\<close> points to nothing.\<close>

lemma array_ref_arrives:
  assumes "length xs < 2 ^ 32" "list_all valid xs" "length ys = length xs"
  obtains obs where "object_array_ref object_of (Some xs) = Inr (ARRAY obs)"
    "pack_array_ref pack_of (Some xs) = emit (pack_object (ARRAY obs))"
    "convert_array_ref_vector convert fresh (ARRAY obs) (Some []) = Inr (Some xs)"
    "object_as (convert_array_ref convert) None (ARRAY obs) = Inl Type_error"
proof -
  obtain obs where o': "list_all2 (carries object_of pack_of convert fresh) xs obs" using carried_list assms(2) by blast
  have n: "length obs = length xs" using o' by (simp add: list_all2_lengthD)
  show thesis
  proof (rule that)
    show "object_array_ref object_of (Some xs) = Inr (ARRAY obs)"
      using assms(1) n carried_collect [OF o'] by (auto simp: object_array_ref_def)
    show "pack_array_ref pack_of (Some xs) = emit (pack_object (ARRAY obs))"
      using assms(1) n carried_write [OF o'] by (simp add: pack_array_ref_def)
    show "convert_array_ref_vector convert fresh (ARRAY obs) (Some []) = Inr (Some xs)"
      using carried_convert [OF o'] n by (auto simp: convert_array_ref_vector_def resize_def Let_def)
    show "object_as (convert_array_ref convert) None (ARRAY obs) = Inl Type_error"
      by (simp add: object_as_def convert_array_ref_def)
  qed
qed

end

text \<open>The ordered set and the multiset, whose elements are inserted from the back.\<close>

locale ordered_adaptor = adaptor valid object_of pack_of convert fresh
  for valid :: "'a :: linorder \<Rightarrow> bool" and object_of pack_of convert fresh
begin

lemma set_adaptor:
  "adaptor (\<lambda>v. finite v \<and> card v < 2 ^ 32 \<and> (\<forall>x\<in>v. valid x)) (object_set object_of) (pack_set pack_of)
     (convert_set (object_as convert fresh)) {}"
proof
  fix v :: "'a set" assume v: "finite v \<and> card v < 2 ^ 32 \<and> (\<forall>x\<in>v. valid x)"
  define xs where "xs = sorted_list_of_set v"
  have xs: "set xs = v" "length xs < 2 ^ 32" "list_all valid xs" using v by (auto simp: xs_def list_all_iff)
  then obtain obs where o': "list_all2 (carries object_of pack_of convert fresh) xs obs" using carried_list by blast
  have n: "length obs = length xs" using o' by (simp add: list_all2_lengthD)
  have ins: "fold insert ws S = set ws \<union> S" for ws :: "'a list" and S by (induction ws arbitrary: S) auto
  have "carries (object_set object_of) (pack_set pack_of) (convert_set (object_as convert fresh)) {} v (ARRAY obs)"
  proof (rule carriesI)
    show "object_set object_of v = Inr (ARRAY obs)"
      using xs n carried_collect [OF o'] by (auto simp: object_set_def object_vector_def xs_def [symmetric])
    show "pack_set pack_of v = emit (pack_object (ARRAY obs))"
      using xs n carried_write [OF o'] by (simp add: pack_set_def pack_vector_def xs_def [symmetric])
    show "convert_set (object_as convert fresh) (ARRAY obs) {} = Inr v"
      using collect_rev [OF carried_as [OF o']] xs(1) by (simp add: convert_set_def ins)
  qed
  then show "\<exists>ob. carries (object_set object_of) (pack_set pack_of) (convert_set (object_as convert fresh)) {} v ob" ..
qed

end

subsection \<open>Two types together\<close>

locale two_adaptors = one: adaptor valid1 object1 pack1 convert1 fresh1 + two: adaptor valid2 object2 pack2 convert2 fresh2
  for valid1 :: "'a \<Rightarrow> bool" and object1 pack1 convert1 fresh1
    and valid2 :: "'b \<Rightarrow> bool" and object2 pack2 convert2 fresh2
begin

lemma pair_adaptor:
  "adaptor (\<lambda>v. valid1 (fst v) \<and> valid2 (snd v)) (object_pair object1 object2) (pack_pair pack1 pack2)
     (convert_pair convert1 convert2) (fresh1, fresh2)"
proof
  fix v assume "valid1 (fst v) \<and> valid2 (snd v)"
  then obtain a b where "carries object1 pack1 convert1 fresh1 (fst v) a" "carries object2 pack2 convert2 fresh2 (snd v) b"
    using one.carried two.carried by blast
  then have "carries (object_pair object1 object2) (pack_pair pack1 pack2) (convert_pair convert1 convert2) (fresh1, fresh2) v (ARRAY [a, b])"
    by (simp add: carries_def object_pair_def pack_pair_def convert_pair_def)
  then show "\<exists>ob. carries (object_pair object1 object2) (pack_pair pack1 pack2) (convert_pair convert1 convert2) (fresh1, fresh2) v ob" ..
qed

text \<open>An entry of a map and the pair of objects it becomes.\<close>

abbreviation carries_entry :: "'a \<times> 'b \<Rightarrow> object \<times> object \<Rightarrow> bool" where
  "carries_entry e p \<equiv> carries object1 pack1 convert1 fresh1 (fst e) (fst p) \<and> carries object2 pack2 convert2 fresh2 (snd e) (snd p)"

lemma carried_entries:
  assumes "\<forall>e\<in>set es. valid1 (fst e) \<and> valid2 (snd e)"
  obtains kvs where "list_all2 carries_entry es kvs"
  using assms
proof (induction es arbitrary: thesis)
  case (Cons e es)
  then obtain a b where "carries object1 pack1 convert1 fresh1 (fst e) a" "carries object2 pack2 convert2 fresh2 (snd e) b"
    using one.carried two.carried by (metis list.set_intros(1))
  moreover obtain kvs where "list_all2 carries_entry es kvs" using Cons by auto
  ultimately show ?case using Cons.prems(1) [of "(a, b) # kvs"] by simp
qed simp

lemma entries_objects:
  "list_all2 carries_entry es kvs \<Longrightarrow>
     collect (\<lambda>(k, x). bind_result (object1 k) (\<lambda>a. bind_result (object2 x) (\<lambda>b. Inr (a, b)))) es = Inr kvs"
  by (induction rule: list_all2_induct) (auto simp: carries_def split_beta)

lemma entries_write:
  "list_all2 carries_entry es kvs \<Longrightarrow>
     write_all (map (\<lambda>(k, x). then_write (pack1 k) (pack2 x)) es) = emit (concat (map (\<lambda>(k, x). pack_object k @ pack_object x) kvs))"
  by (induction rule: list_all2_induct) (auto simp: carries_def split_beta)

lemma entries_convert:
  "list_all2 carries_entry es kvs \<Longrightarrow> distinct (map fst es) \<Longrightarrow> \<forall>e\<in>set es. tmp (fst e) = None
     \<Longrightarrow> convert_entries convert1 fresh1 convert2 fresh2 kvs tmp = Inr (tmp ++ map_of es)"
proof (induction arbitrary: tmp rule: list_all2_induct)
  case (Cons e es p kvs)
  obtain k x a b where eq: "e = (k, x)" "p = (a, b)" by (metis surj_pair)
  then have "tmp k = None" "k \<notin> set (map fst es)" using Cons.prems by auto
  then have "\<forall>e\<in>set es. (tmp(k \<mapsto> x)) (fst e) = None" using Cons.prems by auto
  then have "convert_entries convert1 fresh1 convert2 fresh2 kvs (tmp(k \<mapsto> x)) = Inr (tmp(k \<mapsto> x) ++ map_of es)"
    using Cons.IH Cons.prems(1) by simp
  moreover have m: "map_of (e # es) = (map_of es)(k \<mapsto> x)" by (auto simp: eq)
  then have "tmp(k \<mapsto> x) ++ map_of es = tmp ++ map_of (e # es)"
    using \<open>k \<notin> set (map fst es)\<close> unfolding m by (simp add: map_add_upd_left dom_map_of_conv_image_fst)
  moreover have "convert_entries convert1 fresh1 convert2 fresh2 (p # kvs) tmp = convert_entries convert1 fresh1 convert2 fresh2 kvs (tmp(k \<mapsto> x))"
    using Cons.hyps(1) \<open>tmp k = None\<close> by (simp add: eq carries_def)
  ultimately show ?case by (simp only:)
qed simp

lemma entries_pairs:
  "list_all2 carries_entry es kvs \<Longrightarrow> convert_pairs convert1 convert2 kvs (replicate (length kvs) (fresh1, fresh2)) = Inr es"
  by (induction rule: list_all2_induct) (auto simp: carries_def)

text \<open>Into an empty \<open>assoc_vector\<close>, \<open>convert\<close> does what \<open>as\<close> does.\<close>

lemma pairs_collect:
  "convert_pairs convert1 convert2 kvs (replicate (length kvs) (fresh1, fresh2))
    = collect (\<lambda>(k, x). bind_result (object_as convert1 fresh1 k) (\<lambda>a. bind_result (object_as convert2 fresh2 x) (\<lambda>b. Inr (a, b)))) kvs"
  by (induction kvs) (auto simp: object_as_def bind_result_def split: sum.splits)

lemma assoc_vector_as:
  "srt [] = [] \<Longrightarrow> as_assoc_vector srt (object_as convert1 fresh1) (object_as convert2 fresh2) ob
    = convert_assoc_vector srt convert1 fresh1 convert2 fresh2 ob []"
  by (cases ob) (simp_all add: as_assoc_vector_def convert_assoc_vector_def resize_def Let_def flip: pairs_collect)

end

locale ordered_keys = two_adaptors valid1 object1 pack1 convert1 fresh1 valid2 object2 pack2 convert2 fresh2
  for valid1 :: "'k :: linorder \<Rightarrow> bool" and object1 pack1 convert1 fresh1
    and valid2 :: "'v \<Rightarrow> bool" and object2 pack2 convert2 fresh2
begin

lemma map_adaptor:
  "adaptor (\<lambda>m. finite (dom m) \<and> card (dom m) < 2 ^ 32 \<and> (\<forall>k x. m k = Some x \<longrightarrow> valid1 k \<and> valid2 x))
     (object_map object1 object2) (pack_map_value pack1 pack2) (convert_map convert1 fresh1 convert2 fresh2) Map.empty"
proof
  fix m :: "'k \<rightharpoonup> 'v" assume m: "finite (dom m) \<and> card (dom m) < 2 ^ 32 \<and> (\<forall>k x. m k = Some x \<longrightarrow> valid1 k \<and> valid2 x)"
  have es: "distinct (map fst (entries m))" "length (entries m) < 2 ^ 32" "\<forall>e\<in>set (entries m). valid1 (fst e) \<and> valid2 (snd e)"
    using m by (auto simp: entries_def comp_def)
  have of: "map_of (entries m) = m"
    using m by (auto simp: entries_def map_of_map_keys fun_eq_iff)
  obtain kvs where kvs: "list_all2 carries_entry (entries m) kvs" using carried_entries [OF es(3)] by blast
  have n: "length kvs = length (entries m)" using kvs by (simp add: list_all2_lengthD)
  have "carries (object_map object1 object2) (pack_map_value pack1 pack2) (convert_map convert1 fresh1 convert2 fresh2) Map.empty m (MAP kvs)"
  proof (rule carriesI)
    show "object_map object1 object2 m = Inr (MAP kvs)"
      using es n entries_objects [OF kvs] by (auto simp: object_map_def)
    show "pack_map_value pack1 pack2 m = emit (pack_object (MAP kvs))"
      using es n entries_write [OF kvs] by (simp add: pack_map_value_def)
    show "convert_map convert1 fresh1 convert2 fresh2 (MAP kvs) Map.empty = Inr m"
      using entries_convert [OF kvs es(1), of Map.empty] of by (simp add: convert_map_def)
  qed
  then show "\<exists>ob. carries (object_map object1 object2) (pack_map_value pack1 pack2) (convert_map convert1 fresh1 convert2 fresh2) Map.empty m ob" ..
qed

text \<open>Entries in ascending order arrive as they are, and the sort leaves no other order of them.\<close>

lemma assoc_vector_adaptor:
  assumes "std_sort srt"
  shows "adaptor (\<lambda>es. length es < 2 ^ 32 \<and> sorted (map fst es) \<and> distinct (map fst es) \<and> (\<forall>e\<in>set es. valid1 (fst e) \<and> valid2 (snd e)))
     (object_assoc_vector object1 object2) (pack_assoc_vector pack1 pack2) (convert_assoc_vector srt convert1 fresh1 convert2 fresh2) []"
proof
  fix es :: "('k \<times> 'v) list"
  assume es: "length es < 2 ^ 32 \<and> sorted (map fst es) \<and> distinct (map fst es) \<and> (\<forall>e\<in>set es. valid1 (fst e) \<and> valid2 (snd e))"
  then obtain kvs where kvs: "list_all2 carries_entry es kvs" using carried_entries by blast
  have n: "length kvs = length es" using kvs by (simp add: list_all2_lengthD)
  have srt: "mset (srt es) = mset es" "sorted (map fst (srt es))" using assms by (simp_all add: std_sort_def)
  have "set (srt es) = set es" using srt(1) by (rule mset_eq_setD)
  moreover have "distinct (map fst (srt es))" using es srt(1) by (metis mset_eq_imp_distinct_iff mset_map)
  ultimately have "srt es = es" using es srt(2)
    by (intro map_sorted_distinct_set_unique [where f = fst]) (auto simp: distinct_map)
  then have "carries (object_assoc_vector object1 object2) (pack_assoc_vector pack1 pack2)
      (convert_assoc_vector srt convert1 fresh1 convert2 fresh2) [] es (MAP kvs)"
    using es n entries_objects [OF kvs] entries_write [OF kvs] entries_pairs [OF kvs]
    by (intro carriesI) (auto simp: object_assoc_vector_def pack_assoc_vector_def convert_assoc_vector_def resize_def Let_def)
  then show "\<exists>ob. carries (object_assoc_vector object1 object2) (pack_assoc_vector pack1 pack2)
      (convert_assoc_vector srt convert1 fresh1 convert2 fresh2) [] es ob" ..
qed

end

subsection \<open>The plain types\<close>

definition in_signed :: "nat \<Rightarrow> int \<Rightarrow> bool" where
  "in_signed n v \<longleftrightarrow> n \<in> {8, 16, 32, 64} \<and> - (2 ^ (n - 1)) \<le> v \<and> v < 2 ^ (n - 1)"

definition in_unsigned :: "nat \<Rightarrow> int \<Rightarrow> bool" where
  "in_unsigned n v \<longleftrightarrow> n \<in> {8, 16, 32, 64} \<and> 0 \<le> v \<and> v < 2 ^ n"

lemma word_as_uint: "0 \<le> v \<Longrightarrow> v < 2 ^ LENGTH('a) \<Longrightarrow> uint (word_of_int v :: 'a :: len word) = v"
  by (simp add: uint_word_of_int)

lemma word_as_sint:
  assumes "- (2 ^ (LENGTH('a) - 1)) \<le> v" "v < 2 ^ (LENGTH('a) - 1)"
  shows "sint (word_of_int v :: 'a :: len word) = v"
proof -
  have "sint (word_of_int v :: 'a word) = signed_take_bit (LENGTH('a) - 1) v" by (simp add: signed_of_int)
  then show ?thesis using assms by (simp add: signed_take_bit_int_eq_self)
qed

text \<open>The shortest encoding depends on the value only.\<close>

lemma signed_packers:
  "- (2 ^ 7) \<le> v \<Longrightarrow> v < 2 ^ 7 \<Longrightarrow> pack_imp_int8 v = pack_imp_int64 v"
  "- (2 ^ 15) \<le> v \<Longrightarrow> v < 2 ^ 15 \<Longrightarrow> pack_imp_int16 v = pack_imp_int64 v"
  "- (2 ^ 31) \<le> v \<Longrightarrow> v < 2 ^ 31 \<Longrightarrow> pack_imp_int32 v = pack_imp_int64 v"
  using integer_packers_agree [of v] by simp_all

lemma unsigned_packers:
  "0 \<le> v \<Longrightarrow> v < 2 ^ 8 \<Longrightarrow> pack_imp_uint8 v = pack_imp_uint64 v"
  "0 \<le> v \<Longrightarrow> v < 2 ^ 16 \<Longrightarrow> pack_imp_uint16 v = pack_imp_uint64 v"
  "0 \<le> v \<Longrightarrow> v < 2 ^ 32 \<Longrightarrow> pack_imp_uint32 v = pack_imp_uint64 v"
  using integer_packers_agree [of v] by simp_all

lemma pack_signed_object:
  assumes "in_signed n v"
  shows "pack_signed n v = emit (pack_object (object_signed v))"
proof -
  have r: "- (2 ^ 63) \<le> v" "v < 2 ^ 63" using assms by (auto simp: in_signed_def)
  consider "n = 8" "- (2 ^ 7) \<le> v" "v < 2 ^ 7" | "n = 16" "- (2 ^ 15) \<le> v" "v < 2 ^ 15"
    | "n = 32" "- (2 ^ 31) \<le> v" "v < 2 ^ 31" | "n = 64" "- (2 ^ 63) \<le> v" "v < 2 ^ 63"
    using assms by (auto simp: in_signed_def)
  then have "pack_signed n v = emit (pack_imp_int64 v)"
    by cases (simp_all add: pack_signed_def pack_signed_char_def pack_short_def pack_int_def pack_long_def word_as_sint signed_packers)
  also have "pack_imp_int64 v = pack_object (object_signed v)"
    using r integer_packers_agree [of v]
    by (simp add: object_signed_def pack_int64_def pack_uint64_def word_as_sint word_as_uint)
  finally show ?thesis .
qed

lemma pack_unsigned_object:
  assumes "in_unsigned n v"
  shows "pack_unsigned n v = emit (pack_object (object_unsigned v))"
proof -
  have r: "0 \<le> v" "v < 2 ^ 64" using assms by (auto simp: in_unsigned_def)
  consider "n = 8" "v < 2 ^ 8" | "n = 16" "v < 2 ^ 16" | "n = 32" "v < 2 ^ 32" | "n = 64" "v < 2 ^ 64"
    using assms by (auto simp: in_unsigned_def)
  then have "pack_unsigned n v = emit (pack_imp_uint64 v)"
    by cases (simp_all add: pack_unsigned_def pack_unsigned_char_def pack_unsigned_short_def pack_unsigned_int_def
        pack_unsigned_long_def word_as_uint r(1) unsigned_packers)
  then show ?thesis using r by (simp add: object_unsigned_def pack_uint64_def word_as_uint)
qed

lemma convert_signed_object: "in_signed n v \<Longrightarrow> convert_signed n (object_signed v) = Inr v"
proof -
  assume v: "in_signed n v"
  then have "- (2 ^ 63) \<le> v" "v < 2 ^ 63" by (auto simp: in_signed_def)
  then show ?thesis using v
    by (simp add: in_signed_def convert_signed_def object_signed_def word_as_sint word_as_uint)
qed

lemma convert_unsigned_object: "in_unsigned n v \<Longrightarrow> convert_unsigned n (object_unsigned v) = Inr v"
proof -
  assume v: "in_unsigned n v"
  then have "0 \<le> v" "v < 2 ^ 64" by (auto simp: in_unsigned_def)
  then show ?thesis using v by (simp add: in_unsigned_def convert_unsigned_def object_unsigned_def word_as_uint)
qed

text \<open>Conversions that do not look at the value they overwrite.\<close>

abbreviation overwrite :: "(object \<Rightarrow> rpc_exn + 'a) \<Rightarrow> 'a conversion" where
  "overwrite f \<equiv> \<lambda>ob _. f ob"

interpretation nils: adaptor "\<lambda>_. True" "\<lambda>_. Inr NIL" "\<lambda>_. emit pack_nil" convert_nil "()"
  by unfold_locales (simp add: carries_def convert_nil_def)

interpretation bools: adaptor "\<lambda>_. True" "\<lambda>v. Inr (object_bool v)" pack_bool "overwrite convert_bool" False
  by unfold_locales (simp add: carries_def object_bool_def pack_bool_def convert_bool_def)

interpretation signeds: ordered_adaptor "in_signed n" "\<lambda>v. Inr (object_signed v)" "pack_signed n" "overwrite (convert_signed n)" 0 for n
  by unfold_locales (simp add: carries_def pack_signed_object convert_signed_object)

interpretation unsigneds: ordered_adaptor "in_unsigned n" "\<lambda>v. Inr (object_unsigned v)" "pack_unsigned n" "overwrite (convert_unsigned n)" 0 for n
  by unfold_locales (simp add: carries_def pack_unsigned_object convert_unsigned_object)

interpretation floats: adaptor is_float "\<lambda>v. Inr (object_float v)" pack_float_value "overwrite convert_float" "Fin 0"
  by unfold_locales (simp add: carries_def convert_object_float [unfolded object_float_def] pack_float_value_def object_float_def)

interpretation strings: ordered_adaptor "\<lambda>v. length v < 2 ^ 32" object_bytes pack_std_string "overwrite convert_string" "[]"
  by unfold_locales (simp add: carries_def object_bytes_def pack_std_string_def convert_string_def)

lemma word_of_nat_zero: "n < 2 ^ 32 \<Longrightarrow> word_of_nat n = (0 :: 32 word) \<longleftrightarrow> n = 0"
  using unat_of_nat [of n, where 'a = 32] by (auto simp: take_bit_nat_eq_self)

interpretation chars: ordered_adaptor "\<lambda>v. length v < 2 ^ 32" object_vector_char pack_vector_char convert_vector_char "[]"
proof
  fix v :: "byte list" assume n: "length v < 2 ^ 32"
  then have "word_of_nat (length v) = (0 :: 32 word) \<longleftrightarrow> v = []" by (simp add: word_of_nat_zero)
  then show "\<exists>ob. carries object_vector_char pack_vector_char convert_vector_char [] v ob"
    using n by (auto simp: carries_def object_vector_char_def pack_vector_char_def convert_vector_char_def pack_bin_body_def Let_def)
qed

text \<open>Bytes as numbers and back.\<close>

lemma reinterpreted:
  "length (reinterpret_cast v) = length v"
  "list_all (in_unsigned 8) v \<Longrightarrow> map uint (reinterpret_cast v) = v"
  by (auto simp: reinterpret_cast_def in_unsigned_def list_all_iff word_as_uint intro!: map_idI)

interpretation unsigned_chars: adaptor "\<lambda>v. length v < 2 ^ 32 \<and> list_all (in_unsigned 8) v" object_vector_unsigned_char
    pack_vector_unsigned_char convert_vector_unsigned_char "[]"
  by unfold_locales (auto simp: carries_def object_vector_unsigned_char_def pack_vector_unsigned_char_def
    convert_vector_unsigned_char_def pack_bin_body_def Let_def reinterpreted word_of_nat_zero)

interpretation unsigned_char_arrays: adaptor "\<lambda>v. length v = N \<and> N < 2 ^ 32 \<and> list_all (in_unsigned 8) v" object_array_unsigned_char
    pack_array_unsigned_char "convert_array_unsigned_char N" "replicate N 0" for N
  by unfold_locales (auto simp: carries_def object_array_unsigned_char_def pack_array_unsigned_char_def
    convert_array_unsigned_char_def pack_bin_body_def Let_def reinterpreted memcpy_def)

interpretation char_arrays: adaptor "\<lambda>v. length v = N \<and> N < 2 ^ 32" object_char_array pack_char_array "convert_char_array N"
    "replicate N 0" for N
  by unfold_locales (auto simp: carries_def object_char_array_def pack_char_array_def convert_char_array_def pack_bin_body_def memcpy_def)

interpretation bool_vectors: adaptor "\<lambda>v. length v < 2 ^ 32" object_vector_bool pack_vector_bool convert_vector_bool "[]"
proof
  fix v :: "bool list" assume "length v < 2 ^ 32"
  moreover have "collect convert_bool (map object_bool v) = Inr v"
    by (induction v) (simp_all add: object_bool_def convert_bool_def)
  moreover have "write_all (map pack_bool v) = emit (concat (map pack_object (map object_bool v)))"
    by (induction v) (simp_all add: pack_bool_def object_bool_def)
  ultimately show "\<exists>ob. carries object_vector_bool pack_vector_bool convert_vector_bool [] v ob"
    by (auto simp: carries_def object_vector_bool_def pack_vector_bool_def convert_vector_bool_def)
qed

text \<open>The extension holds its type and at most \<open>2 ^ 32 - 1\<close> bytes, so the constructor's check is passed.\<close>

interpretation exts: adaptor "\<lambda>m. m \<noteq> [] \<and> length m \<le> 2 ^ 32" "\<lambda>v. Inr (object_ext v)" pack_ext_value convert_ext "[0]"
  by unfold_locales (auto simp: carries_def object_ext_def pack_ext_value_def convert_ext_def ext_new_def Let_def neq_Nil_conv)

end
