(* ===== verification/AdaptorTypes.thy ===== *)
theory AdaptorTypes
  imports AdaptorLaws
begin

text \<open>
  The types that a program can build from the adaptors, as data: the compiler chooses the adaptor of a type by
  recursion over the type, and so do \<open>object_any\<close>, \<open>pack_any\<close> and \<open>convert_any\<close>; of the specialisations of \<open>std::vector\<close> and
  \<open>std::array\<close> for \<open>bool\<close>, \<open>char\<close> and \<open>unsigned char\<close> the more special one is taken. The values of these types survive
  the trip over the wire. None of the types has an \<open>as\<close> of its own: those of the containers exist only for elements that have
  one (\<open>has_as\<close>), so \<open>as\<close> converts into a default-constructed value. The keys of a \<open>std::map\<close> are strings here; its entries are in the
  order of their keys.
\<close>

datatype cpp_type = T_nil | T_bool | T_signed nat | T_unsigned nat | T_float | T_string | T_vector_char | T_array_char nat | T_ext
  | T_vector cpp_type | T_array nat cpp_type | T_ptr cpp_type | T_pair cpp_type cpp_type
  | T_tuple "cpp_type list" | T_map cpp_type

datatype cpp_value = V_nil | V_bool (the_bool: bool) | V_int (the_int: int) | V_float (the_float: float)
  | V_bytes (the_bytes: "byte list") | V_seq (the_seq: "cpp_value list") | V_ptr (the_ptr: "cpp_value option")
  | V_map (the_map: "(byte list \<times> cpp_value) list")

abbreviation "unsigned_char \<equiv> T_unsigned 8"

text \<open>An operation on the values of one form, as one on all values.\<close>

definition via :: "('a \<Rightarrow> cpp_value) \<Rightarrow> (cpp_value \<Rightarrow> 'a) \<Rightarrow> 'a conversion \<Rightarrow> cpp_value conversion" where
  "via mk un conv ob v = bind_result (conv ob (un v)) (\<lambda>w. Inr (mk w))"

definition ints_of :: "cpp_value \<Rightarrow> int list" where
  "ints_of v = map the_int (the_seq v)"

definition bools_of :: "cpp_value \<Rightarrow> bool list" where
  "bools_of v = map the_bool (the_seq v)"

definition pair_of :: "cpp_value \<Rightarrow> cpp_value \<times> cpp_value" where
  "pair_of v = (the_seq v ! 0, the_seq v ! 1)"

primrec fresh_any :: "cpp_type \<Rightarrow> cpp_value" where
  "fresh_any T_nil = V_nil"
| "fresh_any T_bool = V_bool False"
| "fresh_any (T_signed n) = V_int 0"
| "fresh_any (T_unsigned n) = V_int 0"
| "fresh_any T_float = V_float (Fin 0)"
| "fresh_any T_string = V_bytes []"
| "fresh_any T_vector_char = V_bytes []"
| "fresh_any (T_array_char n) = V_bytes (replicate n 0)"
| "fresh_any T_ext = V_bytes [0]"
| "fresh_any (T_vector t) = V_seq []"
| "fresh_any (T_array n t) = V_seq (replicate n (fresh_any t))"
| "fresh_any (T_ptr t) = V_ptr None"
| "fresh_any (T_pair t u) = V_seq [fresh_any t, fresh_any u]"
| "fresh_any (T_tuple ts) = V_seq (map fresh_any ts)"
| "fresh_any (T_map t) = V_map []"

primrec object_any :: "cpp_type \<Rightarrow> cpp_value \<Rightarrow> rpc_exn + object" where
  "object_any T_nil = (\<lambda>v. Inr NIL)"
| "object_any T_bool = (\<lambda>v. Inr (object_bool (the_bool v)))"
| "object_any (T_signed n) = (\<lambda>v. Inr (object_signed (the_int v)))"
| "object_any (T_unsigned n) = (\<lambda>v. Inr (object_unsigned (the_int v)))"
| "object_any T_float = (\<lambda>v. Inr (object_float (the_float v)))"
| "object_any T_string = (\<lambda>v. object_bytes (the_bytes v))"
| "object_any T_vector_char = (\<lambda>v. object_vector_char (the_bytes v))"
| "object_any (T_array_char n) = (\<lambda>v. object_char_array (the_bytes v))"
| "object_any T_ext = (\<lambda>v. Inr (object_ext (the_bytes v)))"
| "object_any (T_vector t) = (if t = unsigned_char then (\<lambda>v. object_vector_unsigned_char (ints_of v))
     else if t = T_bool then (\<lambda>v. object_vector_bool (bools_of v)) else (\<lambda>v. object_vector (object_any t) (the_seq v)))"
| "object_any (T_array n t) = (if t = unsigned_char then (\<lambda>v. object_array_unsigned_char (ints_of v))
     else (\<lambda>v. object_vector (object_any t) (the_seq v)))"
| "object_any (T_ptr t) = (\<lambda>v. object_ptr (object_any t) (the_ptr v))"
| "object_any (T_pair t u) = (\<lambda>v. object_pair (object_any t) (object_any u) (pair_of v))"
| "object_any (T_tuple ts) = (\<lambda>v. object_tuple (map object_any ts) (the_seq v))"
| "object_any (T_map t) = (\<lambda>v. object_map object_bytes (object_any t) (map_of (the_map v)))"

primrec pack_any :: "cpp_type \<Rightarrow> cpp_value packer" where
  "pack_any T_nil = (\<lambda>v. emit pack_nil)"
| "pack_any T_bool = (\<lambda>v. pack_bool (the_bool v))"
| "pack_any (T_signed n) = (\<lambda>v. pack_signed n (the_int v))"
| "pack_any (T_unsigned n) = (\<lambda>v. pack_unsigned n (the_int v))"
| "pack_any T_float = (\<lambda>v. pack_float_value (the_float v))"
| "pack_any T_string = (\<lambda>v. pack_std_string (the_bytes v))"
| "pack_any T_vector_char = (\<lambda>v. pack_vector_char (the_bytes v))"
| "pack_any (T_array_char n) = (\<lambda>v. pack_char_array (the_bytes v))"
| "pack_any T_ext = (\<lambda>v. pack_ext_value (the_bytes v))"
| "pack_any (T_vector t) = (if t = unsigned_char then (\<lambda>v. pack_vector_unsigned_char (ints_of v))
     else if t = T_bool then (\<lambda>v. pack_vector_bool (bools_of v)) else (\<lambda>v. pack_vector (pack_any t) (the_seq v)))"
| "pack_any (T_array n t) = (if t = unsigned_char then (\<lambda>v. pack_array_unsigned_char (ints_of v))
     else (\<lambda>v. pack_vector (pack_any t) (the_seq v)))"
| "pack_any (T_ptr t) = (\<lambda>v. pack_ptr (pack_any t) (the_ptr v))"
| "pack_any (T_pair t u) = (\<lambda>v. pack_pair (pack_any t) (pack_any u) (pair_of v))"
| "pack_any (T_tuple ts) = (\<lambda>v. pack_tuple (map pack_any ts) (the_seq v))"
| "pack_any (T_map t) = (\<lambda>v. pack_map_value pack_std_string (pack_any t) (map_of (the_map v)))"

primrec convert_any :: "cpp_type \<Rightarrow> cpp_value conversion" where
  "convert_any T_nil = via (\<lambda>_. V_nil) (\<lambda>_. ()) convert_nil"
| "convert_any T_bool = via V_bool the_bool (overwrite convert_bool)"
| "convert_any (T_signed n) = via V_int the_int (overwrite (convert_signed n))"
| "convert_any (T_unsigned n) = via V_int the_int (overwrite (convert_unsigned n))"
| "convert_any T_float = via V_float the_float (overwrite convert_float)"
| "convert_any T_string = via V_bytes the_bytes (overwrite convert_string)"
| "convert_any T_vector_char = via V_bytes the_bytes convert_vector_char"
| "convert_any (T_array_char n) = via V_bytes the_bytes (convert_char_array n)"
| "convert_any T_ext = via V_bytes the_bytes convert_ext"
| "convert_any (T_vector t) = (if t = unsigned_char then via (\<lambda>w. V_seq (map V_int w)) ints_of convert_vector_unsigned_char
     else if t = T_bool then via (\<lambda>w. V_seq (map V_bool w)) bools_of convert_vector_bool
     else via V_seq the_seq (convert_vector (convert_any t) (fresh_any t)))"
| "convert_any (T_array n t) = (if t = unsigned_char then via (\<lambda>w. V_seq (map V_int w)) ints_of (convert_array_unsigned_char n)
     else via V_seq the_seq (convert_array n (convert_any t)))"
| "convert_any (T_ptr t) = via V_ptr the_ptr (convert_ptr (convert_any t) (fresh_any t))"
| "convert_any (T_pair t u) = via (\<lambda>(x, y). V_seq [x, y]) pair_of (convert_pair (convert_any t) (convert_any u))"
| "convert_any (T_tuple ts) = via V_seq the_seq (convert_tuple (map convert_any ts))"
| "convert_any (T_map t) = via (\<lambda>m. V_map (entries m)) (\<lambda>v. map_of (the_map v))
     (convert_map (overwrite convert_string) [] (convert_any t) (fresh_any t))"

text \<open>The values of a type. A pointer to something whose object is nil would come back as a null pointer.\<close>

primrec has_type :: "cpp_type \<Rightarrow> cpp_value \<Rightarrow> bool" where
  "has_type T_nil = (\<lambda>v. v = V_nil)"
| "has_type T_bool = is_V_bool"
| "has_type (T_signed n) = (\<lambda>v. is_V_int v \<and> in_signed n (the_int v))"
| "has_type (T_unsigned n) = (\<lambda>v. is_V_int v \<and> in_unsigned n (the_int v))"
| "has_type T_float = (\<lambda>v. is_V_float v \<and> is_float (the_float v))"
| "has_type T_string = (\<lambda>v. is_V_bytes v \<and> length (the_bytes v) < 2 ^ 32)"
| "has_type T_vector_char = (\<lambda>v. is_V_bytes v \<and> length (the_bytes v) < 2 ^ 32)"
| "has_type (T_array_char n) = (\<lambda>v. is_V_bytes v \<and> length (the_bytes v) = n \<and> n < 2 ^ 32)"
| "has_type T_ext = (\<lambda>v. is_V_bytes v \<and> the_bytes v \<noteq> [] \<and> length (the_bytes v) \<le> 2 ^ 32)"
| "has_type (T_vector t) = (\<lambda>v. is_V_seq v \<and> length (the_seq v) < 2 ^ 32 \<and> list_all (has_type t) (the_seq v))"
| "has_type (T_array n t) = (\<lambda>v. is_V_seq v \<and> length (the_seq v) = n \<and> n < 2 ^ 32 \<and> list_all (has_type t) (the_seq v))"
| "has_type (T_ptr t) = (\<lambda>v. is_V_ptr v \<and> (\<forall>x. the_ptr v = Some x \<longrightarrow> has_type t x \<and> object_any t x \<noteq> Inr NIL))"
| "has_type (T_pair t u) = (\<lambda>v. is_V_seq v \<and> length (the_seq v) = 2 \<and> has_type t (the_seq v ! 0) \<and> has_type u (the_seq v ! 1))"
| "has_type (T_tuple ts) = (\<lambda>v. is_V_seq v \<and> length ts < 2 ^ 32 \<and> list_all2 (\<lambda>f x. f x) (map has_type ts) (the_seq v))"
| "has_type (T_map t) = (\<lambda>v. is_V_map v \<and> sorted (map fst (the_map v)) \<and> distinct (map fst (the_map v)) \<and> length (the_map v) < 2 ^ 32
     \<and> list_all (\<lambda>e. length (fst e) < 2 ^ 32 \<and> has_type t (snd e)) (the_map v))"

subsection \<open>Every type is an adaptor\<close>

lemma via_adaptor:
  assumes "adaptor valid obj pk conv fresh" "\<And>v. V v \<Longrightarrow> valid (un v) \<and> mk (un v) = v" "un fr = fresh"
  shows "adaptor V (\<lambda>v. obj (un v)) (\<lambda>v. pk (un v)) (via mk un conv) fr"
proof
  fix v assume "V v"
  then have v: "valid (un v)" "mk (un v) = v" using assms(2) by auto
  obtain ob where "carries obj pk conv fresh (un v) ob" using adaptor.carried [OF assms(1) v(1)] by blast
  then have "carries (\<lambda>v. obj (un v)) (\<lambda>v. pk (un v)) (via mk un conv) fr v ob"
    using v(2) assms(3) by (simp add: carries_def via_def)
  then show "\<exists>ob. carries (\<lambda>v. obj (un v)) (\<lambda>v. pk (un v)) (via mk un conv) fr v ob" ..
qed

lemma tuple_convert:
  "list_all2 (\<lambda>t (x, ob). carries (O' t) (P t) (C t) (F t) x ob) ts (zip v obs) \<Longrightarrow> length v = length obs
    \<Longrightarrow> StdTupleConverter (pre @ obs) (length pre) (map C ts) (map F ts) = Inr v"
proof (induction ts arbitrary: v obs pre)
  case (Cons t ts)
  then obtain x v' ob obs' where eq: "v = x # v'" "obs = ob # obs'"
    by (cases v; cases obs) auto
  have "StdTupleConverter ((pre @ [ob]) @ obs') (length (pre @ [ob])) (map C ts) (map F ts) = Inr v'"
    using Cons.prems by (intro Cons.IH) (simp_all add: eq)
  then show ?case using Cons.prems by (simp add: eq carries_def)
qed auto

lemma tuple_parts:
  assumes "\<forall>t\<in>set ts. adaptor (V t) (O' t) (P t) (C t) (F t)" "list_all2 V ts v"
  obtains obs where "length v = length obs" "list_all2 (\<lambda>t (x, ob). carries (O' t) (P t) (C t) (F t) x ob) ts (zip v obs)"
    "collect (\<lambda>(obj, x). obj x) (zip (map O' ts) v) = Inr obs"
    "write_all (map2 (\<lambda>pk x. pk x) (map P ts) v) = emit (concat (map pack_object obs))"
  using assms
proof (induction ts arbitrary: v thesis)
  case (Cons t ts)
  then obtain x v' where v: "v = x # v'" "V t x" "list_all2 V ts v'" by (auto simp: list_all2_Cons1)
  obtain ob where ob: "carries (O' t) (P t) (C t) (F t) x ob"
    using Cons.prems(2) adaptor.carried v(2) by (metis list.set_intros(1))
  obtain obs where "length v' = length obs" "list_all2 (\<lambda>t (x, ob). carries (O' t) (P t) (C t) (F t) x ob) ts (zip v' obs)"
    "collect (\<lambda>(obj, x). obj x) (zip (map O' ts) v') = Inr obs"
    "write_all (map2 (\<lambda>pk x. pk x) (map P ts) v') = emit (concat (map pack_object obs))"
    using Cons.IH [OF _ _ v(3)] Cons.prems(2) by auto
  then show ?case using ob v(1) by (intro Cons.prems(1) [of "ob # obs"]) (simp_all add: carries_def)
qed simp

lemma tuple_adaptor:
  assumes "\<forall>t\<in>set ts. adaptor (V t) (O' t) (P t) (C t) (F t)"
  shows "adaptor (\<lambda>v. length ts < 2 ^ 32 \<and> list_all2 V ts v) (object_tuple (map O' ts)) (pack_tuple (map P ts)) (convert_tuple (map C ts)) (map F ts)"
proof
  fix v assume v: "length ts < 2 ^ 32 \<and> list_all2 V ts v"
  then obtain obs where obs: "length v = length obs" "list_all2 (\<lambda>t (x, ob). carries (O' t) (P t) (C t) (F t) x ob) ts (zip v obs)"
    "collect (\<lambda>(obj, x). obj x) (zip (map O' ts) v) = Inr obs"
    "write_all (map2 (\<lambda>pk x. pk x) (map P ts) v) = emit (concat (map pack_object obs))"
    using tuple_parts [OF assms] by blast
  have n: "length obs = length ts" using v obs(1) by (metis list_all2_lengthD)
  have "carries (object_tuple (map O' ts)) (pack_tuple (map P ts)) (convert_tuple (map C ts)) (map F ts) v (ARRAY obs)"
  proof (rule carriesI)
    show "object_tuple (map O' ts) v = Inr (ARRAY obs)" using v obs(3) by (simp add: object_tuple_def)
    show "pack_tuple (map P ts) v = emit (pack_object (ARRAY obs))" using v obs(4) n by (simp add: pack_tuple_def)
    show "convert_tuple (map C ts) (ARRAY obs) (map F ts) = Inr v"
      using tuple_convert [OF obs(2,1), of "[]"] by (simp add: convert_tuple_def)
  qed
  then show "\<exists>ob. carries (object_tuple (map O' ts)) (pack_tuple (map P ts)) (convert_tuple (map C ts)) (map F ts) v ob" ..
qed

text \<open>The entries of a map in their order are the map.\<close>

lemma entries_map_of: "sorted (map fst es) \<Longrightarrow> distinct (map fst es) \<Longrightarrow> entries (map_of es) = es"
proof -
  assume es: "sorted (map fst es)" "distinct (map fst es)"
  have "sorted_list_of_set (dom (map_of es)) = map fst es"
    using es by (simp add: dom_map_of_conv_image_fst sorted_distinct_set_unique flip: set_map)
  then show ?thesis using es(2) by (auto simp: entries_def intro!: map_idI)
qed

lemma elements_of [simp]: "ints_of (V_seq xs) = map the_int xs" "bools_of (V_seq xs) = map the_bool xs"
  by (simp_all add: ints_of_def bools_of_def)

lemma ints_in: "list_all (has_type unsigned_char) xs \<Longrightarrow> list_all (in_unsigned 8) (map the_int xs) \<and> map (V_int \<circ> the_int) xs = xs"
  by (auto simp: list_all_iff intro!: map_idI)

lemma bools_in: "list_all (has_type T_bool) xs \<Longrightarrow> map (V_bool \<circ> the_bool) xs = xs"
  by (auto simp: list_all_iff intro!: map_idI)

lemma unsigned_char_values:
  "has_type (T_vector unsigned_char) v
    \<Longrightarrow> (length (ints_of v) < 2 ^ 32 \<and> list_all (in_unsigned 8) (ints_of v)) \<and> V_seq (map V_int (ints_of v)) = v"
  "has_type (T_array n unsigned_char) v
    \<Longrightarrow> (length (ints_of v) = n \<and> n < 2 ^ 32 \<and> list_all (in_unsigned 8) (ints_of v)) \<and> V_seq (map V_int (ints_of v)) = v"
  using ints_in [of "the_seq v"] by (auto simp: is_V_seq_def)

lemma bool_values:
  "has_type (T_vector T_bool) v \<Longrightarrow> length (bools_of v) < 2 ^ 32 \<and> V_seq (map V_bool (bools_of v)) = v"
  using bools_in [of "the_seq v"] by (auto simp: is_V_seq_def)

theorem any_adaptor: "adaptor (has_type t) (object_any t) (pack_any t) (convert_any t) (fresh_any t)"
proof (induction t)
  case (T_vector t)
  consider "t = unsigned_char" | "t = T_bool" | "t \<noteq> unsigned_char" "t \<noteq> T_bool" by blast
  then show ?case
  proof cases
    case 1
    from via_adaptor [OF unsigned_chars.adaptor_axioms unsigned_char_values(1), where fr = "V_seq []"]
    show ?thesis by (simp add: 1)
  next
    case 2
    from via_adaptor [OF bool_vectors.adaptor_axioms bool_values, where fr = "V_seq []"]
    show ?thesis by (simp add: 2)
  next
    case 3
    from via_adaptor [OF adaptor.vector_adaptor [OF T_vector], where V = "has_type (T_vector t)" and un = the_seq and mk = V_seq and fr = "V_seq []"]
    show ?thesis by (simp add: 3 is_V_seq_def)
  qed
next
  case (T_array n t)
  show ?case
  proof (cases "t = unsigned_char")
    case True
    from via_adaptor [OF unsigned_char_arrays.adaptor_axioms unsigned_char_values(2), where fr = "fresh_any (T_array n unsigned_char)"]
    show ?thesis by (simp add: True)
  next
    case False
    from via_adaptor [OF adaptor.array_adaptor [OF T_array, of n], where V = "has_type (T_array n t)" and un = the_seq and mk = V_seq
      and fr = "fresh_any (T_array n t)"]
    show ?thesis by (simp add: False is_V_seq_def)
  qed
next
  case (T_ptr t)
  from via_adaptor [OF adaptor.ptr_adaptor [OF this], where V = "has_type (T_ptr t)" and un = the_ptr and mk = V_ptr and fr = "V_ptr None"]
  show ?case by (simp add: is_V_ptr_def)
next
  case (T_pair t u)
  note both = two_adaptors.pair_adaptor [OF two_adaptors.intro [OF this]]
  have "adaptor (has_type (T_pair t u)) (\<lambda>v. object_pair (object_any t) (object_any u) (pair_of v))
    (\<lambda>v. pack_pair (pack_any t) (pack_any u) (pair_of v)) (convert_any (T_pair t u)) (fresh_any (T_pair t u))"
    unfolding convert_any.simps
  proof (rule via_adaptor [OF both])
    fix v assume "has_type (T_pair t u) v"
    then obtain x y where "v = V_seq [x, y]" "has_type t x" "has_type u y"
      by (auto simp: is_V_seq_def length_Suc_conv numeral_2_eq_2)
    then show "(has_type t (fst (pair_of v)) \<and> has_type u (snd (pair_of v))) \<and> (case pair_of v of (x, y) \<Rightarrow> V_seq [x, y]) = v"
      by (simp add: pair_of_def)
  qed (simp add: pair_of_def)
  then show ?case by simp
next
  case (T_tuple ts)
  then have "\<forall>t\<in>set ts. adaptor (has_type t) (object_any t) (pack_any t) (convert_any t) (fresh_any t)" by blast
  from via_adaptor [OF tuple_adaptor [OF this], where V = "has_type (T_tuple ts)" and un = the_seq and mk = V_seq
    and fr = "fresh_any (T_tuple ts)"]
  show ?case by (simp add: is_V_seq_def list_all2_map1)
next
  case (T_map t)
  from ordered_keys.map_adaptor [OF ordered_keys.intro [OF two_adaptors.intro [OF strings.adaptor_axioms this]]]
  have m: "adaptor (\<lambda>m. finite (dom m) \<and> card (dom m) < 2 ^ 32 \<and> (\<forall>k x. m k = Some x \<longrightarrow> length k < 2 ^ 32 \<and> has_type t x))
    (object_map object_bytes (object_any t)) (pack_map_value pack_std_string (pack_any t))
    (convert_map (overwrite convert_string) [] (convert_any t) (fresh_any t)) Map.empty" .
  have "adaptor (has_type (T_map t)) (\<lambda>v. object_map object_bytes (object_any t) (map_of (the_map v)))
    (\<lambda>v. pack_map_value pack_std_string (pack_any t) (map_of (the_map v)))
    (via (\<lambda>m. V_map (entries m)) (\<lambda>v. map_of (the_map v)) (convert_map (overwrite convert_string) [] (convert_any t) (fresh_any t))) (V_map [])"
  proof (rule via_adaptor [OF m])
    fix v assume v: "has_type (T_map t) v"
    then obtain es where es: "v = V_map es" by (auto simp: is_V_map_def)
    have "card (dom (map_of es)) \<le> length es"
      using card_length [of "map fst es"] by (simp add: dom_map_of_conv_image_fst)
    moreover have "\<forall>k x. map_of es k = Some x \<longrightarrow> length k < 2 ^ 32 \<and> has_type t x"
      using v by (auto simp: es list_all_iff dest: map_of_SomeD)
    ultimately show "(finite (dom (map_of (the_map v))) \<and> card (dom (map_of (the_map v))) < 2 ^ 32
        \<and> (\<forall>k x. map_of (the_map v) k = Some x \<longrightarrow> length k < 2 ^ 32 \<and> has_type t x)) \<and> V_map (entries (map_of (the_map v))) = v"
      using v by (simp add: es finite_dom_map_of entries_map_of)
  qed simp
  then show ?case by simp
next
  case T_nil
  show ?case using via_adaptor [OF nils.adaptor_axioms, where V = "has_type T_nil" and un = "\<lambda>_. ()" and mk = "\<lambda>_. V_nil"] by simp
next
  case T_bool
  show ?case using via_adaptor [OF bools.adaptor_axioms, where V = "has_type T_bool" and un = the_bool and mk = V_bool and fr = "V_bool False"]
    by simp
next
  case (T_signed n)
  show ?case using via_adaptor [OF signeds.adaptor_axioms, where V = "has_type (T_signed n)" and un = the_int and mk = V_int]
    by (simp add: is_V_int_def)
next
  case (T_unsigned n)
  show ?case using via_adaptor [OF unsigneds.adaptor_axioms, where V = "has_type (T_unsigned n)" and un = the_int and mk = V_int]
    by (simp add: is_V_int_def)
next
  case T_float
  show ?case using via_adaptor [OF floats.adaptor_axioms, where V = "has_type T_float" and un = the_float and mk = V_float]
    by (simp add: is_V_float_def)
next
  case T_string
  show ?case using via_adaptor [OF strings.adaptor_axioms, where V = "has_type T_string" and un = the_bytes and mk = V_bytes]
    by (simp add: is_V_bytes_def)
next
  case T_vector_char
  show ?case using via_adaptor [OF chars.adaptor_axioms, where V = "has_type T_vector_char" and un = the_bytes and mk = V_bytes]
    by (simp add: is_V_bytes_def)
next
  case (T_array_char n)
  show ?case using via_adaptor [OF char_arrays.adaptor_axioms [of n], where V = "has_type (T_array_char n)" and un = the_bytes and mk = V_bytes]
    by (simp add: is_V_bytes_def)
next
  case T_ext
  show ?case using via_adaptor [OF exts.adaptor_axioms, where V = "has_type T_ext" and un = the_bytes and mk = V_bytes]
    by (simp add: is_V_bytes_def)
qed

interpretation any: adaptor "has_type t" "object_any t" "pack_any t" "convert_any t" "fresh_any t" for t
  by (rule any_adaptor)

interpretation any_pair: two_adaptors "has_type t" "object_any t" "pack_any t" "convert_any t" "fresh_any t"
    "has_type u" "object_any u" "pack_any u" "convert_any u" "fresh_any u" for t u
  by unfold_locales

interpretation string_map: ordered_keys "\<lambda>v. length v < 2 ^ 32" object_bytes pack_std_string "overwrite convert_string" "[]"
    "has_type t" "object_any t" "pack_any t" "convert_any t" "fresh_any t" for t
  by unfold_locales

interpretation int_set: adaptor "\<lambda>v. finite v \<and> card v < 2 ^ 32 \<and> (\<forall>x\<in>v. in_signed n x)" "object_set (\<lambda>v. Inr (object_signed v))"
    "pack_set (pack_signed n)" "convert_set (object_as (overwrite (convert_signed n)) 0)" "{}" for n
  by (rule signeds.set_adaptor)

subsection \<open>Where reading depends on how it is done\<close>

text \<open>Entries with equal keys: \<open>convert\<close> lets the last one win, \<open>as\<close> the first one.\<close>

abbreviation read_entry :: "(object \<Rightarrow> rpc_exn + 'k) \<Rightarrow> (object \<Rightarrow> rpc_exn + 'v) \<Rightarrow> object \<times> object \<Rightarrow> rpc_exn + 'k \<times> 'v" where
  "read_entry fk fv \<equiv> \<lambda>(k, x). bind_result (fk k) (\<lambda>a. bind_result (fv x) (\<lambda>b. Inr (a, b)))"

lemma convert_entries_last:
  assumes "\<And>x v. cv x v = cv x fv"
  shows "collect (read_entry (object_as ck fk) (object_as cv fv)) kvs = Inr es
    \<Longrightarrow> convert_entries ck fk cv fv kvs tmp = Inr (tmp ++ map_of (rev es))"
proof (induction kvs arbitrary: es tmp)
  case (Cons p kvs)
  then obtain k x a b es' where p: "p = (k, x)" "ck k fk = Inr a" "cv x fv = Inr b" "es = (a, b) # es'"
    and es': "collect (read_entry (object_as ck fk) (object_as cv fv)) kvs = Inr es'"
    by (cases p) (auto simp: bind_result_Inr_iff object_as_def)
  have "cv x (case tmp a of None \<Rightarrow> fv | Some v \<Rightarrow> v) = Inr b" using assms p(3) by metis
  then have "convert_entries ck fk cv fv (p # kvs) tmp = Inr (tmp(a \<mapsto> b) ++ map_of (rev es'))"
    using p Cons.IH [OF es'] by (simp add: fun_upd_def)
  moreover have "tmp(a \<mapsto> b) ++ map_of (rev es') = tmp ++ map_of (rev es)"
    by (auto simp: p(4) fun_eq_iff map_add_def split: option.split)
  ultimately show ?case by (simp only:)
qed simp

lemma emplace_first:
  "collect (read_entry fk fv) kvs = Inr es \<Longrightarrow> emplace_entries fk fv kvs v = Inr (map_of es ++ v)"
proof (induction kvs arbitrary: es v)
  case (Cons p kvs)
  then obtain k x a b es' where p: "p = (k, x)" "fk k = Inr a" "fv x = Inr b" "es = (a, b) # es'"
    and es': "collect (read_entry fk fv) kvs = Inr es'"
    by (cases p) (auto simp: bind_result_Inr_iff)
  then have "emplace_entries fk fv (p # kvs) v = Inr (map_of es' ++ (if v a = None then v(a \<mapsto> b) else v))"
    using Cons.IH [OF es'] by simp
  moreover have "map_of es' ++ (if v a = None then v(a \<mapsto> b) else v) = map_of es ++ v"
    by (auto simp: p(4) fun_eq_iff map_add_def split: option.split)
  ultimately show ?case by (simp only:)
qed simp

text \<open>Inserting after the equal keys is a stable sort.\<close>

lemma insert_upper_props:
  "mset (insert_upper e xs) = add_mset e (mset xs)" "set (insert_upper e xs) = insert e (set xs)"
  "sorted (map fst xs) \<Longrightarrow> sorted (map fst (insert_upper e xs))"
  "sorted (map fst xs) \<Longrightarrow> filter (\<lambda>x. fst x = k) (insert_upper e xs) = filter (\<lambda>x. fst x = k) xs @ (if fst e = k then [e] else [])"
proof -
  show "mset (insert_upper e xs) = add_mset e (mset xs)" by (induction xs) auto
  show set: "set (insert_upper e xs) = insert e (set xs)" for xs by (induction xs) auto
  show "sorted (map fst xs) \<Longrightarrow> sorted (map fst (insert_upper e xs))" by (induction xs) (auto simp: set)
  show "sorted (map fst xs) \<Longrightarrow> filter (\<lambda>x. fst x = k) (insert_upper e xs) = filter (\<lambda>x. fst x = k) xs @ (if fst e = k then [e] else [])"
  proof (induction xs)
    case (Cons x xs)
    have "filter (\<lambda>y. fst y = k) (x # xs) = []" if "fst e < fst x" "fst e = k"
      using Cons.prems that by (auto simp: filter_empty_conv)
    then show ?case using Cons by auto
  qed simp
qed

lemma fold_insert_upper: "fold insert_upper es [] = sort_key fst es"
proof -
  have "mset (fold insert_upper es acc) = mset es + mset acc
      \<and> (sorted (map fst acc) \<longrightarrow> sorted (map fst (fold insert_upper es acc))
        \<and> (\<forall>k. filter (\<lambda>x. fst x = k) (fold insert_upper es acc) = filter (\<lambda>x. fst x = k) acc @ filter (\<lambda>x. fst x = k) es))" for acc
    by (induction es arbitrary: acc) (simp_all add: insert_upper_props)
  from this [of "[]"] show ?thesis
    by (intro properties_for_sort_key [symmetric]) (simp_all add: eq_commute)
qed

text \<open>
  Entries with equal keys in a map that arrives. When every key and every value can be read, and reading a value
  does not depend on what it overwrites, \<open>convert\<close> into a \<open>std::map\<close> keeps of equal keys the last entry, \<open>as\<close> the first one, and a
  \<open>std::multimap\<close> gets all entries, sorted by their keys with equal keys in the order they came. So the two ways to read a map
  agree if and only if the first and the last entry of every key have the same value.
\<close>

theorem duplicate_keys:
  fixes ck :: "('k :: linorder) conversion"
  assumes "collect (read_entry (object_as ck fk) (object_as cv fv)) kvs = Inr es" "\<And>x v. cv x v = cv x fv"
  shows "convert_map ck fk cv fv (MAP kvs) m = Inr (map_of (rev es))
    \<and> as_map (object_as ck fk) (object_as cv fv) (MAP kvs) = Inr (map_of es)
    \<and> convert_multimap ck fk cv fv (MAP kvs) l = Inr (sort_key fst es)
    \<and> (convert_map ck fk cv fv (MAP kvs) m = as_map (object_as ck fk) (object_as cv fv) (MAP kvs) \<longleftrightarrow> map_of (rev es) = map_of es)"
  using convert_entries_last [OF assms(2,1), of Map.empty] emplace_first [OF assms(1), of Map.empty] assms(1)
  by (simp add: convert_map_def as_map_def convert_multimap_def fold_insert_upper object_as_def [abs_def])

theorem duplicate_keys_witness:
  "convert_map (overwrite convert_string) [] (overwrite convert_bool) False
     (MAP [(STRING [97], BOOLEAN True), (STRING [97], BOOLEAN False)]) Map.empty = Inr [[97] \<mapsto> False]
   \<and> as_map (object_as (overwrite convert_string) []) (object_as (overwrite convert_bool) False)
     (MAP [(STRING [97], BOOLEAN True), (STRING [97], BOOLEAN False)]) = Inr [[97 :: byte] \<mapsto> True]"
  using duplicate_keys [of "overwrite convert_string" "[]" "overwrite convert_bool" False
      "[(STRING [97], BOOLEAN True), (STRING [97], BOOLEAN False)]" "[([97], True), ([97], False)]" Map.empty "[]"]
  by (simp add: object_as_def convert_string_def convert_bool_def fun_upd_def fun_eq_iff)

text \<open>Tuples: \<open>convert\<close> reads the first objects of the array, \<open>as\<close> the last ones.\<close>

lemma as_tuple_last:
  "as_tuple fs (ARRAY xs) = (if length xs < length fs then Inl Out_of_bounds
     else collect (\<lambda>(f, x). f x) (zip fs (drop (length xs - length fs) xs)))"
proof -
  have "length fs \<le> length xs \<Longrightarrow> StdTupleAs xs fs = collect (\<lambda>(f, x). f x) (zip fs (drop (length xs - length fs) xs))"
  proof (induction fs)
    case (Cons f fs)
    then have "drop (length xs - length (f # fs)) xs = xs ! (length xs - length fs - 1) # drop (length xs - length fs) xs"
      using Cons_nth_drop_Suc [of "length xs - length (f # fs)" xs] by (simp add: Suc_diff_Suc Suc_le_eq)
    then show ?case using Cons by (simp add: bind_result_def split: sum.split)
  qed simp
  moreover have "length xs < length fs \<Longrightarrow> StdTupleAs xs fs = Inl Out_of_bounds" by (cases fs) auto
  ultimately show ?thesis by (simp add: as_tuple_def)
qed

text \<open>Equality of extensions through \<open>ext_ref\<close> compares as many bytes as there are data, starting with the type, so the
  last byte of the data is never looked at; \<open>ext\<close> compares all.\<close>

lemma ext_ref_eq_prefix:
  "ext_ref_eq (ext_ref_new (t # s)) (ext_ref_new (u # r)) \<longleftrightarrow> length s = length r \<and> (s \<noteq> [] \<longrightarrow> t = u \<and> butlast s = butlast r)"
  by (cases s; cases r) (auto simp: ext_ref_eq_def ext_ref_new_def butlast_conv_take)

text \<open>A string for a \<open>std::array\<close> of characters is read past its end unless it fills the array; one for a C array is
  terminated by a zero when there is room.\<close>

lemma char_array_overread:
  "length v = N \<Longrightarrow> length s \<le> N \<Longrightarrow> N \<noteq> 0 \<Longrightarrow>
     convert_char_array N (STRING s) v = (if length s < N then Inl Out_of_bounds else Inr s)"
  by (auto simp: convert_char_array_def memcpy_def)

lemma char_carray_terminated:
  "length v = N \<Longrightarrow> length s \<le> N \<Longrightarrow>
     convert_char_carray N (STRING s) v = Inr (if length s < N then s @ 0 # drop (Suc (length s)) v else s)"
  by (auto simp: convert_char_carray_def memcpy_def list_update_append drop_Suc_Cons list_eq_iff_nth_eq nth_append nth_list_update
      nth_Cons' dest: Suc_leI)


definition sample_type :: cpp_type where
  "sample_type = T_map (T_vector (T_pair (T_vector unsigned_char) (T_ptr (T_signed 16))))"

definition sample_any :: cpp_value where
  "sample_any = V_map [([97], V_seq [V_seq [V_seq [V_int 200], V_ptr (Some (V_int (- 300)))], V_seq [V_seq [], V_ptr None]])]"

definition sample_any_object :: object where
  "sample_any_object = MAP [(STRING [97], ARRAY [ARRAY [BIN [200], NEGATIVE_INTEGER (- 300)], ARRAY [BIN [], NIL]])]"

lemma sample_any_typed: "has_type sample_type sample_any"
  by (simp add: sample_type_def sample_any_def object_signed_def in_signed_def in_unsigned_def)

lemma sample_any_object: "object_any sample_type sample_any = Inr sample_any_object"
  by (simp add: sample_type_def sample_any_def sample_any_object_def object_map_def entries_def object_bytes_def object_vector_def
      object_vector_unsigned_char_def reinterpret_cast_def object_pair_def pair_of_def object_ptr_def object_signed_def)


end
