(* ===== verification/RemoteSession.thy ===== *)
theory RemoteSession
  imports Rpc StreamParser
begin

text \<open>
  A session of a remote client: the calls it makes, as \<open>client.inl\<close> packs them, on the byte stream that the server
  reads through an unpacker, and what the functors that \<open>SRSServer.cpp\<close> bound do with each message. The loop of
  the server session that hands the messages to the functors is in \<open>librpc.a\<close>; the statement is about each message.
\<close>

definition call_name :: "srs_call \<Rightarrow> string" where
  "call_name c = (case c of Call_VoltageRamp a b t d \<Rightarrow> ''VoltageRamp'' | Call_PerformSweep e \<Rightarrow> ''PerformSweep''
     | Call_ReadMemVoltage \<Rightarrow> ''ReadMemVoltage'')"

text \<open>The arguments as the packer of the client writes them.\<close>

definition packed_args :: "srs_call \<Rightarrow> byte list list" where
  "packed_args c = (case c of Call_VoltageRamp a b t d \<Rightarrow> [pack_float (bits_of_float a), pack_float (bits_of_float b),
       pack_float (bits_of_float t), if d then pack_true else pack_false]
     | _ \<Rightarrow> [])"

definition call_bytes :: "32 word \<times> srs_call \<Rightarrow> byte list" where
  "call_bytes ic = client_call (fst ic) (call_name (snd ic)) (packed_args (snd ic))"

text \<open>The numbers of the calls are not negative and the numbers sent are values of \<open>float\<close>.\<close>

definition sendable :: "32 word \<times> srs_call \<Rightarrow> bool" where
  "sendable ic \<longleftrightarrow> 0 \<le> sint (fst ic) \<and> (case snd ic of Call_VoltageRamp a b t d \<Rightarrow> is_float a \<and> is_float b \<and> is_float t | _ \<Rightarrow> True)"

text \<open>The work of the driver that a call asks for; \<open>e\<close> is what the database gives a sweep.\<close>

definition call_work :: "(bool \<times> int) \<times> nat \<Rightarrow> srs_call \<Rightarrow> (object option \<Rightarrow> proc) \<Rightarrow> proc" where
  "call_work e c = (case c of Call_VoltageRamp a b t d \<Rightarrow> (\<lambda>k. VoltageRamp a b t d (k None))
     | Call_PerformSweep _ \<Rightarrow> (\<lambda>k. PerformSweep e (k None))
     | Call_ReadMemVoltage \<Rightarrow> (\<lambda>k. ReadMemPSVoltage (\<lambda>v. k (Some (object_float v)))))"

text \<open>A message carries a call: it converts to the call's number, name and arguments, and the functor of the name turns the
  arguments into the work of the call.\<close>

definition carries_call :: "funcs \<Rightarrow> (bool \<times> int) \<times> nat \<Rightarrow> 32 word \<times> srs_call \<Rightarrow> object \<Rightarrow> bool" where
  "carries_call fs e ic msg \<longleftrightarrow> (\<exists>args f. convert_call msg = Inr (0, sint (fst ic), string_bytes (call_name (snd ic)), args)
     \<and> fs (call_name (snd ic)) = Some f \<and> f args = Inr (call_work e (snd ic)))"

definition args_of :: "srs_call \<Rightarrow> object list" where
  "args_of c = (case c of Call_VoltageRamp a b t d \<Rightarrow> [object_float a, object_float b, object_float t, BOOLEAN d] | _ \<Rightarrow> [])"

definition message_of :: "32 word \<times> srs_call \<Rightarrow> object" where
  "message_of ic = call_object (fst ic) (call_name (snd ic)) (args_of (snd ic))"

lemma packed_args_of: "packed_args c = map pack_object (args_of c)"
  by (cases c) (simp_all add: packed_args_def args_of_def object_float_def)

lemma call_bytes_message: "0 \<le> sint (fst ic) \<Longrightarrow> call_bytes ic = pack_object (message_of ic)"
  using client_call_object [of "fst ic" "call_name (snd ic)" "args_of (snd ic)"]
  by (simp add: call_bytes_def message_of_def packed_args_of)

lemma message_fits: "fits default_limit 0 (message_of ic)"
  by (cases "snd ic") (simp_all add: message_of_def call_object_def args_of_def call_name_def object_float_def default_limit_def)

lemma message_carries:
  assumes "rpc_lib_ok L" "sendable ic" "srs_bindings L e = Inr fs"
  shows "carries_call fs e ic (message_of ic)"
proof -
  have n: "0 \<le> sint (fst ic)" using assms(2) by (simp add: sendable_def)
  have fs: "fs = [''VoltageRamp'' \<mapsto> ramp_functor L, ''PerformSweep'' \<mapsto> sweep_functor L e, ''ReadMemVoltage'' \<mapsto> read_functor L]"
    using srs_bindings_eq [OF assms(1), of e] assms(3) by simp
  have "\<exists>f. fs (call_name (snd ic)) = Some f \<and> f (ARRAY (args_of (snd ic))) = Inr (call_work e (snd ic))"
  proof (cases "snd ic")
    case (Call_VoltageRamp a b t d)
    then have "convert_ramp_args (ARRAY (args_of (snd ic))) = Inr (a, b, t, d)"
      using assms(2) by (simp add: sendable_def args_of_def convert_ramp_ARRAY convert_object_float convert_bool_def)
    then show ?thesis
      by (simp add: fs Call_VoltageRamp call_name_def call_work_def ramp_functor_def rpc_lib_simps [OF assms(1)]) (simp add: args_of_def)
  next
    case (Call_PerformSweep e')
    then show ?thesis by (simp add: fs call_name_def call_work_def args_of_def sweep_functor_def rpc_lib_simps [OF assms(1)])
  next
    case Call_ReadMemVoltage
    then show ?thesis by (simp add: fs call_name_def call_work_def args_of_def read_functor_def rpc_lib_simps [OF assms(1)])
  qed
  then show ?thesis
    using convert_call_object [OF n] by (auto simp: carries_call_def message_of_def)
qed

text \<open>
  A session of remote calls. A client makes any calls, ramps, sweeps and readings; however their bytes are cut on the way,
  the receiving loop of the server returns with one message for each call, in their order, and no byte left. Each message
  converts to the number and the name of its call, and the functor that \<open>main\<close> bound to the name turns its arguments into
  the work of that call on the driver: a ramp with exactly the four values the client passed, infinities and NaN
  included, a sweep, or the reading whose answer is the object of the voltage. Memory is not exhausted.
\<close>

theorem remote_session:
  assumes "rpc_lib_ok L" "list_all sendable calls" "unpacker_new alloc n = Inr p" "list_all (heap_ok \<circ> fst) chunks"
    and "concat (map snd chunks) = concat (map call_bytes calls)" "length (concat (map call_bytes calls)) + 4 < 2 ^ 64"
  shows "\<exists>fs msgs q. srs_bindings L e = Inr fs \<and> receive default_limit chunks p = Some (Inr (msgs, q)) \<and> nonparsed_buffer q = []
    \<and> list_all2 (carries_call fs e) calls msgs"
proof -
  obtain fs where fs: "srs_bindings L e = Inr fs" using srs_bindings_eq [OF assms(1)] by blast
  have m: "map call_bytes calls = map pack_object (map message_of calls)"
    using assms(2) call_bytes_message by (auto simp: list_all_iff sendable_def)
  have "list_all (fits default_limit 0) (map message_of calls)" by (simp add: list_all_iff message_fits)
  then obtain q where "receive default_limit chunks p = Some (Inr (map message_of calls, q))" "nonparsed_buffer q = []"
    using stream_delivers [OF assms(3) _ assms(4), of default_limit "map message_of calls"] assms(5,6) unfolding m by blast
  moreover have "list_all2 (carries_call fs e) calls (map message_of calls)"
    using assms(2) message_carries [OF assms(1) _ fs] by (auto simp: list_all_iff list_all2_map2 list.rel_refl_strong)
  ultimately show ?thesis using fs by blast
qed

definition session_calls :: "(32 word \<times> srs_call) list" where
  "session_calls = [(0, Call_ReadMemVoltage), (1, Call_VoltageRamp (Fin 0) (Fin 10) (Fin 5) True)]"

text \<open>The bytes arrive one by one.\<close>

theorem remote_session_witness:
  "\<exists>fs msgs q. srs_bindings sample_lib ((True, 1), 0) = Inr fs
    \<and> receive default_limit (map (\<lambda>b. (sample_heap, [b])) (concat (map call_bytes session_calls))) sample_unpacker = Some (Inr (msgs, q))
    \<and> nonparsed_buffer q = [] \<and> list_all2 (carries_call fs ((True, 1), 0)) session_calls msgs"
proof -
  have f: "list_all (heap_ok \<circ> fst) (map (\<lambda>b. (sample_heap, [b])) bs)" "concat (map snd (map (\<lambda>b. (sample_heap, [b])) bs)) = bs" for bs :: "byte list"
    by (induction bs) (simp_all add: sample_heap_def heap_ok_def)
  have "list_all sendable session_calls"
    using is_float_int [of 0] is_float_int [of 10] is_float_int [of 5] by (simp add: session_calls_def sendable_def)
  moreover have "unpacker_new (\<lambda>_. True) 8 = Inr sample_unpacker"
    by (simp add: sample_unpacker_def unpacker_new_def COUNTER_SIZE_def)
  moreover have "length (concat (map call_bytes session_calls)) + 4 < 2 ^ 64"
    by (simp add: session_calls_def call_bytes_def client_call_def packed_args_def call_name_def pack_string_def string_bytes_def
        pack_array_def pack_str_def pack_str_body_def pack_float_def pack_int_def pack_unsigned_char_def pack_imp_int32_def pack_imp_uint8_def pack_true_def)
  ultimately show ?thesis using remote_session [OF sample_lib_ok _ _ f(1) f(2)] by blast
qed

subsection \<open>Notifications\<close>

text \<open>\<open>client::send\<close> packs a tuple of three, without a number: the kind of request, the name and the arguments. The dispatcher
  converts it to a \<open>notification_t\<close>.\<close>

definition client_notification :: "string \<Rightarrow> byte list list \<Rightarrow> byte list" where
  "client_notification name args = pack_array 3 @ pack_unsigned_char 2 @ pack_string name @ (pack_array (size32 args) @ concat args)"

definition convert_tuple3 :: "(object \<Rightarrow> rpc_exn + 'a) \<Rightarrow> (object \<Rightarrow> rpc_exn + 'b) \<Rightarrow> (object \<Rightarrow> rpc_exn + 'c)
    \<Rightarrow> 'a \<times> 'b \<times> 'c \<Rightarrow> object \<Rightarrow> rpc_exn + 'a \<times> 'b \<times> 'c" where
  "convert_tuple3 c1 c2 c3 v o' = (case o' of
      ARRAY xs \<Rightarrow> (case v of (v1, v2, v3) \<Rightarrow>
        bind_result (convert_elem 1 c1 v1 xs) (\<lambda>w1. bind_result (convert_elem 2 c2 v2 xs) (\<lambda>w2.
        bind_result (convert_elem 3 c3 v3 xs) (\<lambda>w3. Inr (w1, w2, w3)))))
    | _ \<Rightarrow> Inl Type_error)"

definition convert_notification :: "object \<Rightarrow> rpc_exn + int \<times> byte list \<times> object" where
  "convert_notification = convert_tuple3 (convert_signed 8) convert_string convert_object (0, [], NIL)"

definition notification_object :: "string \<Rightarrow> object list \<Rightarrow> object" where
  "notification_object name args = ARRAY [POSITIVE_INTEGER 2, STRING (string_bytes name), ARRAY args]"

lemma client_notification_object: "client_notification name (map pack_object args) = pack_object (notification_object name args)"
  by (simp add: client_notification_def notification_object_def pack_string_def pack_unsigned_char_def pack_uint64_def
      pack_imp_uint8_def pack_imp_uint64_def)

text \<open>A notification arrives: its bytes are decoded to a message that converts to its kind, its name and its arguments.\<close>

lemma notification_arrives:
  assumes "fits default_limit 0 (notification_object name args)"
  shows "\<exists>n msg. parse_imp default_limit (client_notification name (map pack_object args)) = Inr (PARSE_SUCCESS, msg, n)
    \<and> convert_notification msg = Inr (2, string_bytes name, ARRAY args)"
proof -
  have "convert_notification (notification_object name args) = Inr (2, string_bytes name, ARRAY args)"
    by (simp add: convert_notification_def notification_object_def convert_tuple3_def convert_elem_def convert_signed_def
        convert_string_def convert_object_def)
  then show ?thesis using parse_packed [OF assms, of "[]"] by (simp add: client_notification_object)
qed

text \<open>Neither kind of request is taken for the other where the kinds are read as the types of the dispatcher read them: a
  notification does not convert to a call, whose second element is a number.\<close>

lemma notification_is_no_call: "convert_call (notification_object name args) = Inl Type_error"
  by (simp add: convert_call_def notification_object_def convert_tuple4_def convert_elem_def convert_signed_def convert_unsigned_def)

lemma call_is_no_notification: "0 \<le> sint idx \<Longrightarrow> convert_notification (call_object idx name args) = Inl Type_error"
  by (simp add: convert_notification_def call_object_def convert_tuple3_def convert_elem_def convert_signed_def convert_string_def)

end
