(* ===== verification/AsyncWriter.thy ===== *)
theory AsyncWriter
  imports RemoteSession "HOL-Library.Sublist"
begin

text \<open>
  \<open>rpclib/rpc/detail/async_writer.h\<close>: the queue of messages that the client and the sessions of the server write to
  their socket. \<open>asio\<close> is outside the repository. What it documents of \<open>async_write\<close> is a step relation: an operation
  holds the bytes it has still to send, the socket takes some of them at a time, and when none is left, or at
  an error, the handler runs once. Operations outstanding at the same time send in any interleaving.
  The strand runs the handlers one at a time; that its users call \<open>write\<close> on the strand too is in \<open>librpc.a\<close>.
\<close>

record 'b async_writer =
  write_queue :: "'b list list"
  exit_flag :: bool
  socket_open :: bool
  ops :: "'b list list"
  wire :: "'b list"

definition writer_init :: "'b async_writer" where
  "writer_init = \<lparr>write_queue = [], exit_flag = False, socket_open = True, ops = [], wire = []\<rparr>"

subsection \<open>Operations\<close>

text \<open>The first element of an empty \<open>deque\<close> is undefined: \<open>None\<close>.\<close>

definition do_write :: "'b async_writer \<Rightarrow> 'b async_writer option" where
  "do_write w = (if exit_flag w then Some w
     else case write_queue w of [] \<Rightarrow> None | item # _ \<Rightarrow> Some (w\<lparr>ops := ops w @ [item]\<rparr>))"

definition write_message :: "'b list \<Rightarrow> 'b async_writer \<Rightarrow> 'b async_writer option" where
  "write_message m w = (let w = w\<lparr>write_queue := write_queue w @ [m]\<rparr> in
     if length (write_queue w) > 1 then Some w else do_write w)"

definition close_if_exit :: "'b async_writer \<Rightarrow> 'b async_writer" where
  "close_if_exit w = (if exit_flag w then w\<lparr>socket_open := False\<rparr> else w)"

text \<open>The handler of \<open>async_write\<close>. \<open>pop_front\<close> of an empty \<open>deque\<close> is undefined too.\<close>

definition write_handler :: "bool \<Rightarrow> 'b async_writer \<Rightarrow> 'b async_writer option" where
  "write_handler ok w = map_option close_if_exit
     (if ok then
        (case write_queue w of [] \<Rightarrow> None
         | _ # rest \<Rightarrow> (let w = w\<lparr>write_queue := rest\<rparr> in
             if length (write_queue w) > 0 then (if \<not> exit_flag w then do_write w else Some w) else Some w))
      else Some w)"

subsection \<open>Runs\<close>

datatype 'b writer_event = Write "'b list" | Transfer nat nat | Complete nat | Fail nat | Set_exit

definition forget_op :: "nat \<Rightarrow> 'b async_writer \<Rightarrow> 'b async_writer" where
  "forget_op i w = w\<lparr>ops := take i (ops w) @ drop (Suc i) (ops w)\<rparr>"

inductive writer_step :: "'b async_writer \<Rightarrow> 'b writer_event \<Rightarrow> 'b async_writer option \<Rightarrow> bool" where
  writes: "writer_step w (Write m) (write_message m w)"
| transfers: "i < length (ops w) \<Longrightarrow> 0 < n \<Longrightarrow> n \<le> length (ops w ! i) \<Longrightarrow> socket_open w \<Longrightarrow>
    writer_step w (Transfer i n) (Some (w\<lparr>ops := (ops w)[i := drop n (ops w ! i)], wire := wire w @ take n (ops w ! i)\<rparr>))"
| completes: "i < length (ops w) \<Longrightarrow> ops w ! i = [] \<Longrightarrow> writer_step w (Complete i) (write_handler True (forget_op i w))"
| fails: "i < length (ops w) \<Longrightarrow> writer_step w (Fail i) (write_handler False (forget_op i w))"
| exits: "writer_step w Set_exit (Some (w\<lparr>exit_flag := True\<rparr>))"

inductive_simps transfer_step: "writer_step w (Transfer i n) r"
inductive_simps complete_step: "writer_step w (Complete i) r"

inductive writer_run :: "'b writer_event list \<Rightarrow> 'b async_writer option \<Rightarrow> bool" where
  starts: "writer_run [] (Some writer_init)"
| goes_on: "writer_run evs (Some w) \<Longrightarrow> writer_step w e r \<Longrightarrow> writer_run (evs @ [e]) r"

fun written :: "'b writer_event list \<Rightarrow> 'b list list" where
  "written [] = []"
| "written (Write m # es) = m # written es"
| "written (_ # es) = written es"

lemma written_append [simp]: "written (a @ b) = written a @ written b"
  by (induction a rule: written.induct) simp_all

fun failure :: "'b writer_event \<Rightarrow> bool" where
  "failure (Fail _) = True"
| "failure _ = False"

definition failed :: "'b writer_event list \<Rightarrow> bool" where
  "failed evs \<longleftrightarrow> list_ex failure evs"

lemma failed_append [simp]: "failed (a @ b) \<longleftrightarrow> failed a \<or> failed b"
  by (simp add: failed_def)

lemma failed_Cons [simp]: "failed (e # es) \<longleftrightarrow> failure e \<or> failed es" "\<not> failed []"
  by (simp_all add: failed_def)

subsection \<open>The invariant\<close>

text \<open>
  After the events \<open>evs\<close>: the messages \<open>sent\<close> are on the wire, followed by a part \<open>t\<close> of the first message of the
  queue, and the one operation there may be holds the rest of it.
\<close>

definition writer_inv :: "'b writer_event list \<Rightarrow> 'b list list \<Rightarrow> 'b list \<Rightarrow> 'b async_writer \<Rightarrow> bool" where
  "writer_inv evs sent t w \<longleftrightarrow> written evs = sent @ write_queue w \<and> wire w = concat sent @ t
     \<and> exit_flag w = (Set_exit \<in> set evs) \<and> (\<not> exit_flag w \<longrightarrow> socket_open w)
     \<and> (case write_queue w of [] \<Rightarrow> t = [] \<and> ops w = [] \<and> \<not> failed evs
        | m # _ \<Rightarrow> if failed evs then ops w = [] \<and> prefix t m
            else (\<exists>r. ops w = [r] \<and> m = t @ r) \<or> exit_flag w \<and> ops w = [] \<and> t = [])"

lemma writer_inv_step:
  assumes "writer_inv evs sent t w" "writer_step w e r"
  shows "\<exists>w' sent' t'. r = Some w' \<and> writer_inv (evs @ [e]) sent' t' w'"
  using assms(2)
proof cases
  case (writes m)
  have "\<exists>w'. r = Some w' \<and> writer_inv (evs @ [e]) sent t w'"
    using assms(1) writes
    by (cases "write_queue w") (auto simp: writer_inv_def write_message_def do_write_def Let_def)
  then show ?thesis by blast
next
  case (transfers i n)
  have "writer_inv (evs @ [e]) sent (t @ take n (ops w ! i)) (the r)"
    using assms(1) transfers by (auto simp: writer_inv_def split: list.splits if_splits)
  then show ?thesis using transfers by auto
next
  case (completes i)
  then obtain m rest where q: "write_queue w = m # rest" and o: "ops w = [[]]" "i = 0" "m = t" "\<not> failed evs"
    using assms(1) by (auto simp: writer_inv_def split: list.splits if_splits)
  then have "r \<noteq> None \<and> writer_inv (evs @ [e]) (sent @ [m]) [] (the r)"
    using assms(1) completes
    by (cases rest; cases "exit_flag w") (auto simp: writer_inv_def write_handler_def forget_op_def do_write_def close_if_exit_def)
  then show ?thesis by fastforce
next
  case (fails i)
  have "\<exists>w'. r = Some w' \<and> writer_inv (evs @ [e]) sent t w'"
    using assms(1) fails
    by (auto simp: writer_inv_def write_handler_def forget_op_def close_if_exit_def split: list.splits if_splits)
  then show ?thesis by blast
next
  case exits
  have "writer_inv (evs @ [e]) sent t (the r)"
    using assms(1) exits by (auto simp: writer_inv_def split: list.splits if_splits)
  then show ?thesis using exits by auto
qed

lemma writer_inv_run: "writer_run evs r \<Longrightarrow> \<exists>w sent t. r = Some w \<and> writer_inv evs sent t w"
proof (induction rule: writer_run.induct)
  case starts
  have "writer_inv [] [] [] writer_init" by (simp add: writer_inv_def writer_init_def)
  then show ?case by blast
next
  case (goes_on evs w e r)
  then show ?case using writer_inv_step by fastforce
qed

lemma writer_invE:
  assumes "writer_run evs r"
  obtains w sent t where "r = Some w" "writer_inv evs sent t w"
  using writer_inv_run [OF assms] by blast

lemma writer_inv_facts:
  assumes "writer_inv evs sent t w"
  shows "length (ops w) \<le> 1 \<and> prefix t (concat (take 1 (write_queue w))) \<and> (failed evs \<longrightarrow> ops w = [] \<and> write_queue w \<noteq> [])
    \<and> (Set_exit \<notin> set evs \<longrightarrow> socket_open w)"
  using assms by (cases "write_queue w") (auto simp: writer_inv_def split: if_splits)

text \<open>What is on the wire is a beginning of the messages written.\<close>

lemma wire_prefix:
  assumes "writer_inv evs sent t w"
  shows "prefix (wire w) (concat (written evs))"
proof -
  have "prefix t (concat (write_queue w))"
    using writer_inv_facts [OF assms] by (cases "write_queue w") (auto intro: prefix_order.trans)
  then show ?thesis using assms by (simp add: writer_inv_def)
qed

subsection \<open>Progress\<close>

fun socket_event :: "'b writer_event \<Rightarrow> bool" where
  "socket_event (Transfer _ _) = True"
| "socket_event (Complete _) = True"
| "socket_event _ = False"

definition message_steps :: "'b list list \<Rightarrow> nat" where
  "message_steps ms = (\<Sum>m\<leftarrow>ms. Suc (length m))"

text \<open>The steps of the socket that are left.\<close>

definition steps_left :: "'b async_writer \<Rightarrow> nat" where
  "steps_left w = length (concat (ops w)) + length (concat (tl (write_queue w))) + length (write_queue w)"

lemma steps_left_step:
  assumes "writer_inv evs sent t w" "writer_step w e (Some w')"
  shows "(if socket_event e then 1 else 0) + steps_left w' \<le> steps_left w + message_steps (written [e])"
  using assms(2)
proof cases
  case (writes m)
  then show ?thesis using assms(1)
    by (cases "write_queue w") (auto simp: writer_inv_def write_message_def do_write_def steps_left_def message_steps_def split: if_splits)
next
  case (transfers i n)
  then show ?thesis using assms(1)
    by (auto simp: writer_inv_def steps_left_def message_steps_def split: list.splits if_splits)
next
  case (completes i)
  then obtain m rest where "write_queue w = m # rest" "ops w = [[]]" "i = 0"
    using assms(1) by (auto simp: writer_inv_def split: list.splits if_splits)
  then show ?thesis using completes
    by (cases rest; cases "exit_flag w")
      (auto simp: write_handler_def forget_op_def do_write_def close_if_exit_def steps_left_def message_steps_def)
next
  case (fails i)
  then show ?thesis using assms(1)
    by (auto simp: writer_inv_def write_handler_def forget_op_def close_if_exit_def steps_left_def message_steps_def split: list.splits if_splits)
next
  case exits
  then show ?thesis by (simp add: steps_left_def message_steps_def)
qed

lemma steps_bounded:
  assumes "writer_run evs r" "r = Some w"
  shows "length (filter socket_event evs) + steps_left w \<le> message_steps (written evs)"
  using assms
proof (induction arbitrary: w rule: writer_run.induct)
  case starts
  then show ?case by (auto simp: writer_init_def steps_left_def)
next
  case (goes_on evs w e r w')
  obtain sent t where "writer_inv evs sent t w" using writer_inv_run [OF goes_on.hyps(1)] by auto
  then have "(if socket_event e then 1 else 0) + steps_left w' \<le> steps_left w + message_steps (written [e])"
    using steps_left_step goes_on.hyps(2) goes_on.prems by blast
  then show ?case using goes_on.IH [OF refl] by (auto simp: message_steps_def split: if_splits)
qed

lemma socket_not_stuck:
  assumes "writer_inv evs sent t w" "\<not> failed evs" "Set_exit \<notin> set evs" "write_queue w \<noteq> []"
  shows "\<exists>e r. socket_event e \<and> writer_step w e r"
proof -
  obtain r where o: "ops w = [r]" "socket_open w"
    using assms by (cases "write_queue w") (auto simp: writer_inv_def)
  show ?thesis
  proof (cases r)
    case Nil
    then have "writer_step w (Complete 0) (write_handler True (forget_op 0 w))" using o by (simp add: complete_step)
    then show ?thesis by (meson socket_event.simps(2))
  next
    case (Cons b r')
    then have "\<exists>x. writer_step w (Transfer 0 1) x" using o by (simp add: transfer_step)
    then show ?thesis by (meson socket_event.simps(1))
  qed
qed

subsection \<open>With the receiver\<close>

context resumable
begin

lemma yields_det:
  "yields run out fresh c bs os d t \<Longrightarrow> yields run out fresh c bs os' d' t' \<Longrightarrow> os' = os \<and> d' = d \<and> t' = t"
proof (induction arbitrary: os' rule: yields.induct)
  case (waits c bs c' r)
  then show ?case by (auto elim: yields.cases)
next
  case (gives c bs c' r os d t)
  obtain os2 where "os' = out c' # os2" "yields run out fresh fresh r os2 d' t'"
    using gives.prems gives.hyps(1) by cases auto
  then show ?case using gives.IH by simp
qed

text \<open>A part of a stream gives the first of its objects, and all those that are whole in it.\<close>

lemma yields_part:
  assumes "yields run out fresh fresh (a @ t @ b) os d r" "yields run out fresh fresh a os0 d0 r0"
  obtains os1 d1 r1 where "yields run out fresh fresh (a @ t) (os0 @ os1) d1 r1" "prefix (os0 @ os1) os"
proof -
  obtain os1 d1 r1 os2 where 1: "yields run out fresh fresh (a @ t) os1 d1 r1" "os = os1 @ os2"
    using yields_append [of fresh "a @ t" b os d r] assms(1) by auto
  then obtain os3 os4 d3 r3 where "yields run out fresh fresh a os3 d3 r3" "os1 = os3 @ os4"
    using yields_append [of fresh a t os1 d1 r1] by blast
  moreover have "os3 = os0" using yields_det [OF assms(2) calculation(1)] by simp
  ultimately show thesis using 1 by (intro that [of os4 d1 r1]) simp_all
qed

end

text \<open>What the receiver makes of the bytes of whole messages and a part of the rest.\<close>

lemma part_delivers:
  assumes "unpacker_new alloc n = Inr p" "list_all (fits lm 0) (os0 @ os')" "list_all (heap_ok \<circ> fst) cs"
    and "concat (map snd cs) = concat (map pack_object os0) @ t" "prefix t (concat (map pack_object os'))"
    and "length (concat (map snd cs)) + 4 < 2 ^ 64"
  shows "\<exists>os1 q. receive lm cs p = Some (Inr (os0 @ os1, q)) \<and> prefix os1 os'"
proof -
  obtain b where b: "concat (map pack_object os') = t @ b" using assms(5) by (auto simp: prefix_def)
  have p: "ctx p = context_init" "nonparsed_buffer p = []" "m_used p = 4"
    using assms(1) by (auto simp: unpacker_new_def nonparsed_buffer_def COUNTER_SIZE_def Let_def split: if_splits)
  have "yields (decode_one lm) decoded context_init context_init (concat (map pack_object os0) @ t @ b) (os0 @ os') context_init []"
    using yields_packed [OF assms(2)] by (simp add: b)
  moreover have "yields (decode_one lm) decoded context_init context_init (concat (map pack_object os0)) os0 context_init []"
    using yields_packed [of lm os0] assms(2) by simp
  ultimately obtain os1 d1 r1 where y: "prefix (os0 @ os1) (os0 @ os')"
    "yields (decode_one lm) decoded context_init context_init (concat (map pack_object os0) @ t) (os0 @ os1) d1 r1"
    by (rule stream.yields_part)
  have "\<exists>q. receive lm cs p = Some (Inr (os0 @ os1, q)) \<and> ctx q = d1 \<and> nonparsed_buffer q = r1 \<and> buffer_ok q"
    using buffer_ok_new [OF assms(1)] stream.fresh_waits y(2) assms(3,4,6)
    by (intro receive_yields) (simp_all add: p)
  then show ?thesis using y(1) by auto
qed

subsection \<open>Properties\<close>

text \<open>
  C27: for any interleaving of writes, transfers by the socket, completions, errors and a request to exit, the
  queue is used within its bounds and at most one operation is outstanding, so the bytes on the wire are whole
  messages in the order they were written, none lost and none mixed with another, followed by a beginning of the next.
  After an error nothing is ever outstanding again: the message that failed stays at the head of the
  queue, later ones collect behind it, and unless an exit is asked for the socket stays open.
\<close>

theorem writes_in_order:
  assumes "writer_run evs r"
  shows "\<exists>w sent t. r = Some w \<and> length (ops w) \<le> 1 \<and> written evs = sent @ write_queue w \<and> wire w = concat sent @ t
    \<and> prefix t (concat (take 1 (write_queue w))) \<and> (failed evs \<longrightarrow> ops w = [] \<and> write_queue w \<noteq> [])
    \<and> (Set_exit \<notin> set evs \<longrightarrow> socket_open w)"
proof -
  obtain w sent t where "r = Some w" "writer_inv evs sent t w" using assms by (rule writer_invE)
  then show ?thesis using writer_inv_facts [of evs sent t w] by (auto simp: writer_inv_def)
qed

lemma run_on: "writer_run evs (Some w) \<Longrightarrow> writer_step w e r \<Longrightarrow> evs' = evs @ [e] \<Longrightarrow> writer_run evs' r"
  by (simp add: writer_run.goes_on)

lemmas run_simps = writer_init_def write_message_def do_write_def write_handler_def forget_op_def close_if_exit_def Let_def

definition failing_run :: "nat writer_event list" where
  "failing_run = [Write [1, 2], Transfer 0 1, Write [3], Fail 0, Write [4]]"

lemma failing_run: "writer_run failing_run (Some \<lparr>write_queue = [[1, 2], [3], [4]], exit_flag = False, socket_open = True, ops = [], wire = [1]\<rparr>)"
proof -
  have "writer_run [Write [1, 2 :: nat]] (write_message [1, 2] writer_init)"
    by (rule run_on [OF starts writer_step.writes]) simp
  then have "writer_run [Write [1, 2]] (Some (writer_init\<lparr>write_queue := [[1, 2 :: nat]], ops := [[1, 2]]\<rparr>))"
    by (simp add: run_simps)
  then have "writer_run [Write [1, 2], Transfer 0 1] (Some (writer_init\<lparr>write_queue := [[1, 2 :: nat]], ops := [[2]], wire := [1]\<rparr>))"
    by (rule run_on) (simp_all add: transfer_step writer_init_def)
  then have "writer_run [Write [1, 2], Transfer 0 1, Write [3]] (write_message [3] (writer_init\<lparr>write_queue := [[1, 2 :: nat]], ops := [[2]], wire := [1]\<rparr>))"
    by (rule run_on) (simp_all add: writer_step.writes)
  then have "writer_run [Write [1, 2], Transfer 0 1, Write [3]] (Some (writer_init\<lparr>write_queue := [[1, 2 :: nat], [3]], ops := [[2]], wire := [1]\<rparr>))"
    by (simp add: run_simps)
  then have "writer_run [Write [1, 2], Transfer 0 1, Write [3], Fail 0]
      (write_handler False (forget_op 0 (writer_init\<lparr>write_queue := [[1, 2 :: nat], [3]], ops := [[2]], wire := [1]\<rparr>)))"
    by (rule run_on) (simp_all add: writer_step.fails)
  then have "writer_run [Write [1, 2], Transfer 0 1, Write [3], Fail 0]
      (Some (writer_init\<lparr>write_queue := [[1, 2 :: nat], [3]], ops := [], wire := [1]\<rparr>))"
    by (simp add: run_simps)
  then have "writer_run failing_run (write_message [4] (writer_init\<lparr>write_queue := [[1, 2 :: nat], [3]], ops := [], wire := [1]\<rparr>))"
    by (rule run_on) (simp_all add: writer_step.writes failing_run_def)
  then show ?thesis by (simp add: run_simps)
qed

text \<open>A message cut off by an error after its first byte.\<close>

theorem writes_in_order_witness:
  "\<exists>w sent t. writer_run failing_run (Some w) \<and> length (ops w) \<le> 1 \<and> written failing_run = sent @ write_queue w
    \<and> wire w = concat sent @ t \<and> ops w = [] \<and> socket_open w"
  using writes_in_order [OF failing_run] failing_run by (auto simp: failing_run_def)

text \<open>
  C28: as long as no write fails and no exit is asked for, the messages get through: the socket can always make
  a step until the queue is empty, and then every message written is on the wire; and
  it makes at most one step for each byte and one for each message, so that with every fair socket the queue is emptied.
\<close>

theorem writer_progress:
  assumes "writer_run evs (Some w)" "\<not> failed evs" "Set_exit \<notin> set evs"
  shows "length (filter socket_event evs) \<le> message_steps (written evs)
    \<and> ((\<exists>e r. socket_event e \<and> writer_step w e r) \<or> write_queue w = [] \<and> wire w = concat (written evs))"
proof -
  obtain sent t where i: "writer_inv evs sent t w" using writer_inv_run [OF assms(1)] by auto
  have "wire w = concat (written evs)" if "write_queue w = []" using i that by (simp add: writer_inv_def)
  then show ?thesis using steps_bounded [OF assms(1) refl] socket_not_stuck [OF i assms(2,3)] by force
qed

theorem writer_progress_witness:
  "(2 :: nat) \<le> message_steps [[7 :: nat]] \<and> (\<exists>w. writer_run [Write [7 :: nat], Transfer 0 1, Complete 0] (Some w)
    \<and> write_queue w = [] \<and> wire w = [7])"
proof -
  have "writer_run [Write [7 :: nat]] (write_message [7] writer_init)" by (rule run_on [OF starts writer_step.writes]) simp
  then have "writer_run [Write [7]] (Some (writer_init\<lparr>write_queue := [[7 :: nat]], ops := [[7]]\<rparr>))" by (simp add: run_simps)
  then have "writer_run [Write [7], Transfer 0 1] (Some (writer_init\<lparr>write_queue := [[7 :: nat]], ops := [[]], wire := [7]\<rparr>))"
    by (rule run_on) (simp_all add: transfer_step writer_init_def)
  then have "writer_run [Write [7], Transfer 0 1, Complete 0]
      (write_handler True (forget_op 0 (writer_init\<lparr>write_queue := [[7 :: nat]], ops := [[]], wire := [7]\<rparr>)))"
    by (rule run_on) (simp_all add: writer_step.completes)
  then have r: "writer_run [Write [7], Transfer 0 1, Complete 0] (Some (writer_init\<lparr>wire := [7 :: nat]\<rparr>))" by (simp add: run_simps)
  have "\<not> writer_step (writer_init\<lparr>wire := [7 :: nat]\<rparr>) e x" if "socket_event e" for e x
    using that by (cases e) (auto simp: transfer_step complete_step writer_init_def)
  then show ?thesis using writer_progress [OF r] r by auto
qed


text \<open>
  C26: the way of remote calls, from the client's packer through its writer, the connection, and the receiving loop to the
  functors that \<open>main\<close> bound. Whatever the socket has sent at some moment, however it is cut into chunks, and even if
  a write failed in the middle of a message, the receiver returns with messages that carry the first of the calls
  in their order, each with its number, name and exactly its arguments, and nothing else; and every
  call whose write has completed is among them. Memory is not exhausted.
\<close>

theorem calls_over_the_wire:
  assumes "rpc_lib_ok L" "list_all sendable calls" "unpacker_new alloc n = Inr p" "list_all (heap_ok \<circ> fst) chunks"
    and "writer_run evs (Some w)" "written evs = map call_bytes calls" "concat (map snd chunks) = wire w"
    and "length (wire w) + 4 < 2 ^ 64"
  shows "\<exists>fs msgs q k. srs_bindings L e = Inr fs \<and> receive default_limit chunks p = Some (Inr (msgs, q))
    \<and> list_all2 (carries_call fs e) (take k calls) msgs \<and> length calls \<le> k + length (write_queue w)"
proof -
  obtain fs where fs: "srs_bindings L e = Inr fs" using srs_bindings_eq [OF assms(1)] by blast
  obtain sent t where i: "writer_inv evs sent t w" using writer_inv_run [OF assms(5)] by auto
  define j where "j = length sent"
  have m: "map call_bytes calls = map pack_object (map message_of calls)"
    using assms(2) call_bytes_message by (auto simp: list_all_iff sendable_def)
  have w: "map pack_object (map message_of calls) = sent @ write_queue w" using i assms(6) m by (simp add: writer_inv_def)
  have sent: "sent = map pack_object (take j (map message_of calls))" "write_queue w = map pack_object (drop j (map message_of calls))"
    using arg_cong [OF w, of "take j"] arg_cong [OF w, of "drop j"] by (simp_all add: j_def take_map drop_map)
  have "prefix t (concat (write_queue w))" and t: "wire w = concat sent @ t"
    using wire_prefix [OF i] i by (simp_all add: writer_inv_def)
  then obtain os1 q where r: "receive default_limit chunks p = Some (Inr (take j (map message_of calls) @ os1, q))"
      "prefix os1 (drop j (map message_of calls))"
    using part_delivers [OF assms(3) _ assms(4), of default_limit "take j (map message_of calls)" "drop j (map message_of calls)" t]
      assms(7,8) sent by (auto simp: list_all_iff message_fits)
  define msgs where "msgs = take j (map message_of calls) @ os1"
  define k where "k = length msgs"
  have "prefix msgs (map message_of calls)"
    using r(2) same_prefix_prefix [of "take j (map message_of calls)" os1 "drop j (map message_of calls)"] by (simp add: msgs_def)
  then have msgs: "msgs = map message_of (take k calls)" by (auto simp: k_def prefix_def take_map [symmetric] dest: arg_cong [where f = "take k"])
  have "list_all2 (carries_call fs e) (take k calls) msgs"
    using assms(2) message_carries [OF assms(1) _ fs] by (auto simp: msgs list_all_iff list_all2_map2 intro!: list.rel_refl_strong dest: in_set_takeD)
  moreover have "length calls \<le> k + length (write_queue w)"
    using arg_cong [OF w, of length] by (simp add: k_def msgs_def j_def)
  ultimately show ?thesis using fs r(1) by (auto simp: msgs_def)
qed


lemma cut_run:
  assumes "a \<noteq> []" "0 < n" "n \<le> length b"
  shows "writer_run [Write a, Write b, Transfer 0 (length a), Complete 0, Transfer 0 n, Fail 0]
    (Some \<lparr>write_queue = [b], exit_flag = False, socket_open = True, ops = [], wire = a @ take n b\<rparr>)"
proof -
  have "writer_run [Write a] (write_message a writer_init)" by (rule run_on [OF starts writer_step.writes]) simp
  then have "writer_run [Write a] (Some (writer_init\<lparr>write_queue := [a], ops := [a]\<rparr>))" by (simp add: run_simps)
  then have "writer_run [Write a, Write b] (write_message b (writer_init\<lparr>write_queue := [a], ops := [a]\<rparr>))"
    by (rule run_on) (simp_all add: writer_step.writes)
  then have "writer_run [Write a, Write b] (Some (writer_init\<lparr>write_queue := [a, b], ops := [a]\<rparr>))" by (simp add: run_simps)
  then have "writer_run [Write a, Write b, Transfer 0 (length a)] (Some (writer_init\<lparr>write_queue := [a, b], ops := [[]], wire := a\<rparr>))"
    by (rule run_on) (use assms in \<open>simp_all add: transfer_step writer_init_def\<close>)
  then have "writer_run [Write a, Write b, Transfer 0 (length a), Complete 0]
      (write_handler True (forget_op 0 (writer_init\<lparr>write_queue := [a, b], ops := [[]], wire := a\<rparr>)))"
    by (rule run_on) (simp_all add: writer_step.completes)
  then have "writer_run [Write a, Write b, Transfer 0 (length a), Complete 0]
      (Some (writer_init\<lparr>write_queue := [b], ops := [b], wire := a\<rparr>))" by (simp add: run_simps)
  then have "writer_run [Write a, Write b, Transfer 0 (length a), Complete 0, Transfer 0 n]
      (Some (writer_init\<lparr>write_queue := [b], ops := [drop n b], wire := a @ take n b\<rparr>))"
    by (rule run_on) (use assms in \<open>simp_all add: transfer_step writer_init_def\<close>)
  then have "writer_run [Write a, Write b, Transfer 0 (length a), Complete 0, Transfer 0 n, Fail 0]
      (write_handler False (forget_op 0 (writer_init\<lparr>write_queue := [b], ops := [drop n b], wire := a @ take n b\<rparr>)))"
    by (rule run_on) (simp_all add: writer_step.fails)
  then show ?thesis by (simp add: run_simps)
qed

definition ramp_call :: "32 word \<times> srs_call" where
  "ramp_call = (1, Call_VoltageRamp (Fin 0) (Fin 10) (Fin 5) True)"

text \<open>The second of two calls is cut off after three bytes, and the bytes arrive one by one.\<close>

theorem calls_over_the_wire_witness:
  "\<exists>fs msgs q k. srs_bindings sample_lib ((True, 1), 0) = Inr fs
    \<and> receive default_limit (map (\<lambda>b. (sample_heap, [b])) (call_bytes (0, Call_ReadMemVoltage) @ take 3 (call_bytes ramp_call))) sample_unpacker
      = Some (Inr (msgs, q))
    \<and> list_all2 (carries_call fs ((True, 1), 0)) (take k [(0, Call_ReadMemVoltage), ramp_call]) msgs \<and> 2 \<le> k + 1"
proof -
  let ?a = "call_bytes (0, Call_ReadMemVoltage)" and ?b = "call_bytes ramp_call"
  have f: "list_all (heap_ok \<circ> fst) (map (\<lambda>b. (sample_heap, [b])) bs)" "concat (map snd (map (\<lambda>b. (sample_heap, [b])) bs)) = bs" for bs :: "byte list"
    by (induction bs) (simp_all add: sample_heap_def heap_ok_def)
  have "list_all sendable [(0, Call_ReadMemVoltage), ramp_call]"
    using is_float_int [of 0] is_float_int [of 10] is_float_int [of 5] by (simp add: ramp_call_def sendable_def)
  moreover have "unpacker_new (\<lambda>_. True) 8 = Inr sample_unpacker"
    by (simp add: sample_unpacker_def unpacker_new_def COUNTER_SIZE_def)
  moreover have l: "?a \<noteq> []" "3 \<le> length ?b" "length (?a @ take 3 ?b) + 4 < 2 ^ 64"
    by (simp_all add: ramp_call_def call_bytes_def client_call_def packed_args_def call_name_def pack_string_def string_bytes_def
        pack_array_def pack_str_def pack_str_body_def pack_float_def pack_int_def pack_unsigned_char_def pack_imp_int32_def pack_imp_uint8_def pack_true_def)
  moreover note cut_run [OF l(1) zero_less_numeral l(2)]
  moreover have "written [Write ?a, Write ?b, Transfer 0 (length ?a), Complete 0, Transfer 0 3, Fail 0]
      = map call_bytes [(0, Call_ReadMemVoltage), ramp_call]" by simp
  ultimately show ?thesis using calls_over_the_wire [OF sample_lib_ok _ _ f(1)] f(2) by fastforce
qed

end
