(* ===== verification/Spec2Isabelle.thy ===== *)
theory Spec2Isabelle
  imports Facility Outage SRSRace TempControl UnpackerMove ObjectPrint Sbuffer Vrefbuffer ZoneLife AdaptorTypes AsyncWriter
begin

text \<open>
  A verification library for the DAMIC cryogenic controller.

  \<^bold>\<open>The program.\<close> Four processes keep a detector cold. They do not call each other: they meet in a
  MySQL database. The \<^emph>\<open>state machine\<close> (\<open>StartSM.cpp\<close>, \<open>CryoControlSM.cpp\<close>, \<open>CCMySQLInteraction.cpp\<close>)
  reads the set point and the measurements, decides one of seven states, runs two PID controllers
  (\<open>PID_v1.cpp\<close>) and writes the powers and the switches it wants. The \<^emph>\<open>cooler process\<close>
  (\<open>CCDroneStart.cpp\<close>, \<open>Cryocooler.cpp\<close>) and the \<^emph>\<open>heater process\<close> (\<open>LSHDroneStart.cpp\<close>,
  \<open>LakeShoreHeater.cpp\<close>) read these orders, talk to their instrument over a serial line
  (\<open>SerialDeviceT.cpp\<close>) and store what they measure. The \<^emph>\<open>SRS server\<close> (\<open>SRSServer.cpp\<close>,
  \<open>SRSPowerSupply.cpp\<close>) drives a voltage source from a timer and from remote calls, which arrive as
  MessagePack over the vendored \<open>rpclib\<close>. \<open>TemperatureControl.cpp\<close> is an older controller of the
  heater without states.

  \<^bold>\<open>Foundations.\<close> \<open>Prelude\<close>: results and the collections of rewrite rules. \<open>Floats\<close>: the types
  \<open>double\<close> and \<open>float\<close> as NaN, infinities and rationals, every operation rounded to nearest even
  with overflow to infinity; the controller proofs use only the laws of the locale \<open>rounding\<close>,
  interpreted on binary64 and binary32; the two zeros are one value. \<open>FloatBits\<close>: the bit patterns of both
  formats. \<open>StdLib\<close>: \<open>std::to_string\<close>, \<open>std::stoi\<close>, \<open>stof\<close>, \<open>stod\<close> on text, exceptions included.
  \<open>Serial\<close>: \<open>SerialDeviceT.cpp\<close>. A device is a record with the outcomes of the reads to come, the strings
  written and the line settings; an operation takes it to a fault or a value and a new device. The
  locale \<open>serial_port\<close> is what the drivers need of the line, \<open>run_order\<close> what a preorder on states
  needs to hold over a whole run (what is sent, what is kept, how often it switches).

  \<^bold>\<open>The state machine.\<close> \<open>PID\<close>: class \<open>PID\<close>, its pointers being names of variables in a memory; the
  locale \<open>limited_controller\<close> is the contract of a controller with output limits, interpreted on
  \<open>Compute\<close> and \<open>SetOutputLimits\<close>. \<open>CryoState\<close>: \<open>CryoControlSM.hpp\<close>. \<open>CCMySQL\<close>: \<open>UpdateVars\<close>, the rows
  as inputs and the update statements as outputs. \<open>CryoControlSM\<close>: constructor, \<open>StateDecision\<close>,
  \<open>StateSwitch\<close>, the seven state functions with their entry blocks, the averages, the sanity checks,
  \<open>SMEngine\<close> and \<open>main\<close>. \<open>CryoSafety\<close>: the invariant of every reachable state (\<open>sm_inv\<close>: which
  controller is automatic, which limits are installed, which switches are set, what the outputs are
  in each state) and that the engine keeps it. \<open>CryoNumbers\<close>: numbers that are not NaN; with gains, readings and limits of plausible
  size in the rows (\<open>plausible\<close>) every output and every averaged number stays a number, by the bounds on all intermediate results
  in \<open>PID\<close>. A bound stated with \<open>inside\<close> excludes NaN; where the code lets a NaN through, the theorem says so. \<open>CryoProps\<close>: the properties that follow: bounds and exclusion
  of the outputs, interlocks, the shutdown when a drone is silent, the over-temperature trip, the
  decision table, that the engine always returns.

  \<^bold>\<open>The instruments.\<close> \<open>Cryocooler\<close> and \<open>CCDrone\<close>: driver and main loop of the cooler; what is sent and
  stored in a pass, the power limits, the shutdown dialogue, how often and in which direction it is
  switched, what happens after a stall. \<open>LakeShore\<close>: driver and main loop of the heater; every order
  it can send, and that a blown fuse keeps it off. \<open>SRS\<close>: the driver as a tree of steps, the
  two threads and the mutex as a step relation; exchanges are not mixed, no deadlock, and what a
  sweep sends. \<open>SRSRace\<close>: the ramps that are still sent after the power state was switched off, because it is tested
  before the mutex is taken. \<open>TempControl\<close>: \<open>TemperatureControl.cpp\<close> and \<open>UtilityFunctions.cpp\<close>.

  \<^bold>\<open>Remote calls.\<close> \<open>Msgpack\<close>: the encoder (\<open>pack.hpp\<close>, \<open>object.hpp\<close>). \<open>Unpack\<close>: the decoder
  (\<open>v2/parse.hpp\<close>, \<open>v2/create_object_visitor.hpp\<close>), a machine over bytes with an explicit stack;
  decoding what was packed gives it back. \<open>DecoderLimits\<close>: whatever the bytes, less than four gigabytes of them, what is delivered is
  within the limits; sizes of extensions with their type wrap at 32 bits as in the code. \<open>StreamParser\<close>: the buffer of \<open>parser\<close> and \<open>unpacker\<close>; the locale \<open>resumable\<close> is
  what the stream needs of the decoder, interpreted on \<open>execute\<close>, and gives that the cuts of the stream
  do not matter. \<open>Growth\<close>, \<open>Sbuffer\<close> and \<open>Zone\<close>: the loop by which buffers grow, the buffer
  messages are packed into (\<open>sbuffer.hpp\<close>), and the allocator of decoded objects (\<open>cpp11_zone.hpp\<close>),
  whose blocks never overlap while no address wraps; \<open>ZoneLife\<close>: destruction, moves and swap of zones, by which no chunk and no
  finalizer is lost or served twice; \<open>Vrefbuffer\<close>: the buffer that refers to long data instead of copying it (\<open>vrefbuffer.hpp\<close>),
  over a memory of bytes. \<open>SharedBuffer\<close>, \<open>SharedOwners\<close> and \<open>SharedProps\<close>: who owns the buffers that decoded strings point
  into. The locale \<open>referencing_decoder\<close> is what the unpacker needs of its decoder, interpreted on both versions;
  an invariant counts the owners, in runs that go on after exceptions too (\<open>shared_runs\<close>), and the operations refine those of \<open>StreamParser\<close>; \<open>UnpackerMove\<close>: moves of unpackers,
  after which a version 2 unpacker can deliver objects that point into freed memory. \<open>V1Unpack\<close> and \<open>V1Agree\<close>:
  the version 1 decoder (\<open>v1/unpack.hpp\<close>), and a simulation by which both versions decode alike. \<open>ObjectOps\<close> and
  \<open>ObjectPrint\<close>: comparing, copying and printing objects (\<open>object.hpp\<close>). \<open>Adaptors\<close>, \<open>AdaptorLaws\<close> and \<open>AdaptorTypes\<close>:
  the adaptors (\<open>v1/adaptor\<close>) that pack the values of C++, make objects of them and read them back; the locale \<open>adaptor\<close> is
  what they promise each other, interpreted on the plain types and kept by the containers, so that by induction over the
  types of \<open>cpp_type\<close> their values arrive; the specialisations of vectors and arrays for \<open>char\<close>, \<open>unsigned char\<close> and \<open>bool\<close> are dispatched to as the
  compiler does. Reading a map or a tuple with \<open>as\<close> or with \<open>convert\<close> can
  differ. \<open>Rpc\<close>: the conversions of arguments, the four kinds of binding of
  \<open>dispatcher.inl\<close>, the message of \<open>client.inl\<close> and the bindings of \<open>SRSServer.cpp\<close>.
  \<open>RemoteSession\<close>: a session of calls, from the packer of the client over the stream to the driver, and the message of a
  notification. \<open>AsyncWriter\<close>: the queue by which both ends write to their socket (\<open>async_writer.h\<close>), as a step relation
  with the socket; its invariant gives the order of the messages on the wire and their progress, and with the locale \<open>resumable\<close>
  what a receiver makes of any part of a session, after a failed write too.

  \<^bold>\<open>Together.\<close> \<open>Plant\<close>: the state machine, the heater process, the cooler process and an operator
  taking turns on the shared row, one whole turn or pass after the other; what the operator may do to the row is the parameter
  \<open>edits\<close>, any relation on rows, restricted only in the hypotheses of a property. A turn decides the next state but writes the orders of
  the state with which it began, so everything in the row is one turn late, and the statements say so. From the lemmas of each part, the heater
  power stays within the limits of the controller or the operator, the row follows the machine, a silent drone shuts the plant down, and the
  cooler is only switched as the machine asks. \<open>Outage\<close>: once a refused statement has ended the machine, the last orders stay in force.
  \<open>Facility\<close> adds the SRS server and the calls of its clients, a sweep or a call being one turn:
  the voltage source takes over what the machine decided, and without its leave no ramp reaches the instrument, where \<open>SRSRace\<close> counts the exceptions that turns do not show.

  \<^bold>\<open>Loops and bounds.\<close> The main loops are modelled over the list of what the environment does in each pass, so
  a statement about every list is one about every finite time. A read waits on the list of outcomes
  and a list that ends is a read that blocks (\<open>Blocked\<close>), which the theorems that promise an answer rule
  out by the lines that are waiting. No fuel is used: the parser and the growth of its
  buffer terminate by a measure, and the loop that takes objects from a stream is a
  \<open>partial_function\<close> with a proof that it returns. Integers of fixed width are words, or \<open>int\<close> with
  the conversion written out (\<open>to_int32\<close>); the PID clock is a 64-bit word whose difference wraps.

  \<^bold>\<open>Parameters.\<close> \<open>asio\<close>, whose \<open>async_write\<close> is the step relation of \<open>AsyncWriter\<close>; \<open>librpc.a\<close> (\<open>rpc_lib\<close>: the checks of argument counts and names, and the size read
  out of the union), the columns of the database (\<open>number_column\<close>), memory allocation (\<open>heap\<close>, \<open>memory\<close>), the
  outcomes of system calls, and the values that uninitialised members happen to have.

  \<^bold>\<open>Not modelled.\<close> Text printed to the console and the debug log; the connection to the database and the
  exceptions of the connector, except refused statements in \<open>Plant\<close>; in \<open>rpclib\<close>, what has its body
  in \<open>librpc.a\<close> (the loops of sessions, \<open>dispatch\<close>, responses, and that writers are only used on their strand), what an unpacker decodes after an exception (who owns its buffers then is),
  the adaptors of types of boost, which are only compiled with \<open>MSGPACK_USE_BOOST\<close>, the buffer \<open>zbuffer\<close>, the headers for compilers without C++11, the preprocessor headers;
  \<open>MysqlCredentialsExample.hpp\<close>, two constants. Two threads are interleaved at the granularity of one
  device operation or one member access; weak memory is not modelled.
\<close>

end
